(* ===== verification/Prelude.thy ===== *)
theory Prelude
  imports Main "HOL-Library.Multiset"
begin

text \<open>
  What the component theories share: names for the types the source uses everywhere, the
  JavaScript operations that several components rely on (\<open>??\<close>, \<open>splice\<close>, the insertion-ordered
  \<open>Map\<close>), the lemma collections, and generic lemmas on lists and options.

  Numbers. A count, a token amount or an epoch time in milliseconds is an integer in the source
  (a double holding an integer), and is an \<open>int\<close> here; an amount of money, a probability or a
  confidence is a \<open>rat\<close>, so the rounding of doubles is not modelled.
  Strings are \<open>string\<close>, a list of characters, and stand for strings of one-unit characters.
\<close>

section \<open>Types and lemma collections\<close>

type_synonym ms = int
type_synonym tokens = int

named_theorems model_defs \<open>definitions of operations that proofs unfold together\<close>
named_theorems inv_intros \<open>one preservation rule per operation of a component\<close>

section \<open>Nullish values\<close>

text \<open>The source's \<open>a ?? b\<close>, with \<open>undefined\<close> and \<open>null\<close> as \<open>None\<close>.\<close>

definition nullish :: "'a option \<Rightarrow> 'a \<Rightarrow> 'a" where
  "nullish a b = (case a of None \<Rightarrow> b | Some x \<Rightarrow> x)"

lemma nullish_simps [simp]: "nullish None b = b" "nullish (Some x) b = x"
  by (simp_all add: nullish_def)

text \<open>Whether an optional text is there and not empty, as a condition reads it.\<close>

definition truthy :: "string option \<Rightarrow> bool" where
  "truthy s \<longleftrightarrow> nullish s [] \<noteq> []"

section \<open>Arrays\<close>

text \<open>\<open>xs.splice(i, 1)\<close>, as what is left of the array.\<close>

definition splice_out :: "nat \<Rightarrow> 'a list \<Rightarrow> 'a list" where
  "splice_out i xs = take i xs @ drop (Suc i) xs"

lemma mset_splice_out:
  assumes "i < length xs"
  shows "mset xs = add_mset (xs ! i) (mset (splice_out i xs))"
proof -
  have "mset xs = mset (take i xs @ xs ! i # drop (Suc i) xs)"
    using assms by (simp add: id_take_nth_drop [symmetric])
  then show ?thesis by (simp add: splice_out_def)
qed

lemma length_splice_out [simp]: "i < length xs \<Longrightarrow> length (splice_out i xs) = length xs - 1"
  by (simp add: splice_out_def)

lemma set_splice_out_subset: "set (splice_out i xs) \<subseteq> set xs"
  by (auto simp: splice_out_def dest: in_set_takeD in_set_dropD)

lemma filter_filter_mset_size:
  "length (filter P xs) = size (filter_mset P (mset xs))"
  by (metis mset_filter size_mset)

lemma filter_neq_absent: "x \<notin> f ` set xs \<Longrightarrow> filter (\<lambda>y. f y \<noteq> x) xs = xs"
  by (induction xs) auto

lemma filter_neq_split:
  "distinct (map f (xs @ a # ys)) \<Longrightarrow> filter (\<lambda>y. f y \<noteq> f a) (xs @ a # ys) = xs @ ys"
  by (auto simp: filter_neq_absent)

section \<open>Sums over lists\<close>

lemma sum_list_nonneg_int: "(\<And>x. x \<in> set xs \<Longrightarrow> 0 \<le> f x) \<Longrightarrow> 0 \<le> (\<Sum>x\<leftarrow>xs. f x :: int)"
  by (rule sum_list_nonneg) auto

lemma sum_list_map_update:
  "i < length xs \<Longrightarrow> (\<Sum>x\<leftarrow>xs[i := y]. f x) = (\<Sum>x\<leftarrow>xs. f x) - f (xs ! i) + (f y :: 'a :: ab_group_add)"
proof (induction xs arbitrary: i)
  case (Cons x xs)
  then show ?case by (cases i) auto
qed simp

section \<open>The insertion-ordered Map\<close>

text \<open>
  A JavaScript \<open>Map\<close> whose iteration order matters is an association list: \<open>jset\<close> overwrites in
  place or appends, \<open>jdelete\<close> removes. \<open>map_of\<close> is \<open>get\<close>.
\<close>

fun jset :: "'k \<Rightarrow> 'v \<Rightarrow> ('k \<times> 'v) list \<Rightarrow> ('k \<times> 'v) list" where
  "jset k v [] = [(k, v)]"
| "jset k v ((k', v') # m) = (if k = k' then (k, v) # m else (k', v') # jset k v m)"

definition jdelete :: "'k \<Rightarrow> ('k \<times> 'v) list \<Rightarrow> ('k \<times> 'v) list" where
  "jdelete k m = filter (\<lambda>(k', _). k' \<noteq> k) m"

definition jmap_ok :: "('k \<times> 'v) list \<Rightarrow> bool" where
  "jmap_ok m \<longleftrightarrow> distinct (map fst m)"

lemma map_of_jset [simp]: "map_of (jset k v m) = (map_of m)(k \<mapsto> v)"
  by (induction k v m rule: jset.induct) auto

lemma map_of_jdelete [simp]: "map_of (jdelete k m) = (map_of m)(k := None)"
  by (induction m) (auto simp: jdelete_def)

lemma keys_jset: "fst ` set (jset k v m) = insert k (fst ` set m)"
  by (induction k v m rule: jset.induct) auto

lemma jmap_ok_empty [simp]: "jmap_ok []"
  by (simp add: jmap_ok_def)

lemma jmap_ok_jset [simp]: "jmap_ok m \<Longrightarrow> jmap_ok (jset k v m)"
proof (induction k v m rule: jset.induct)
  case (2 k v k' v' m)
  then show ?case using keys_jset [of k v m] by (auto simp: jmap_ok_def)
qed (simp add: jmap_ok_def)

lemma jmap_ok_jdelete [simp]: "jmap_ok m \<Longrightarrow> jmap_ok (jdelete k m)"
  by (auto simp: jmap_ok_def jdelete_def distinct_map intro: inj_on_subset)

lemma in_set_jset: "jmap_ok m \<Longrightarrow> (k', v') \<in> set (jset k v m) \<longleftrightarrow> (if k' = k then v' = v else (k', v') \<in> set m)"
proof (induction m)
  case (Cons e m)
  obtain l w where e: "e = (l, w)" by (cases e)
  have ok: "jmap_ok m" "l \<notin> fst ` set m" using Cons.prems e by (simp_all add: jmap_ok_def)
  show ?case using Cons.IH [OF ok(1)] ok(2) e by (auto simp: image_iff split: if_splits)
qed auto

lemma in_set_jset_sub: "(k', v') \<in> set (jset k v m) \<Longrightarrow> (k' = k \<and> v' = v) \<or> (k', v') \<in> set m"
  by (induction m) (auto split: if_splits)

text \<open>
  The contract of a keyed store, as the components that keep one use it. Its laws are discharged
  below for the ordered map.
\<close>

locale keyed_store =
  fixes get :: "'m \<Rightarrow> 'k \<Rightarrow> 'v option"
    and put :: "'k \<Rightarrow> 'v \<Rightarrow> 'm \<Rightarrow> 'm"
    and del :: "'k \<Rightarrow> 'm \<Rightarrow> 'm"
    and ok :: "'m \<Rightarrow> bool"
  assumes get_put: "ok m \<Longrightarrow> get (put k v m) k' = (if k' = k then Some v else get m k')"
    and get_del: "ok m \<Longrightarrow> get (del k m) k' = (if k' = k then None else get m k')"
    and ok_put: "ok m \<Longrightarrow> ok (put k v m)"
    and ok_del: "ok m \<Longrightarrow> ok (del k m)"
begin

lemma get_put_same: "ok m \<Longrightarrow> get (put k v m) k = Some v"
  by (simp add: get_put)

lemma get_put_other: "ok m \<Longrightarrow> k' \<noteq> k \<Longrightarrow> get (put k v m) k' = get m k'"
  by (simp add: get_put)

lemma get_del_put: "ok m \<Longrightarrow> get m k = None \<Longrightarrow> get (del k (put k v m)) k' = get m k'"
  by (simp add: get_del get_put ok_put)

lemma get_fold_put:
  "ok m \<Longrightarrow> get (fold (\<lambda>k. put k (f k)) ks m) k' = (if k' \<in> set ks then Some (f k') else get m k')"
  by (induction ks arbitrary: m) (auto simp: get_put ok_put)

end

interpretation jmap: keyed_store map_of jset jdelete jmap_ok
  by unfold_locales auto

end
