(* ===== verification/Admission.thy ===== *)
theory Admission
  imports Prelude
begin

text \<open>
  Run admission (\<open>src/runtime/admission.ts\<close>): the pool of run slots, the queue behind it, and the
  fair share that picks which waiting run takes a freed slot.

  The closure state of \<open>createRunAdmission\<close> is the record \<open>pool\<close>. A lease object and a queue entry
  object are told apart by identity in the source; here each carries a number that \<open>nextId\<close> hands
  out, and the \<open>released\<close> flag of a lease's closure is membership in \<open>releasedIds\<close>.

  A waiter's two callbacks run synchronously and may call the pool again. They are parameters of
  the operations that run them: \<open>admitted w l p\<close> is the pool after the callback and whether it threw,
  \<open>withdrawn w r p\<close> the pool after the callback. The locale \<open>waiter_contract\<close> states what a client's
  callbacks keep (the pool is an extensible record, so a client's state can stand beside it, with an
  invariant of its own: \<open>client_invariant\<close>); \<open>waiter_script\<close> gives the callbacks of the source's own clients.
\<close>

section \<open>Data\<close>

datatype admission_refusal = RefRunning | RefQueued | RefBusy | RefQueueFull | RefStopped

datatype admission_withdrawal =
  WithCancelled | WithAborted | WithStopped | WithReason string

record admission_request =
  workspaceId :: string
  akey :: "string option"

record admission_lease =
  leaseId :: nat
  leaseRequest :: admission_request

record 'w admission_entry =
  entryId :: nat
  request :: admission_request
  waiter :: 'w

datatype admission_ticket =
  TicketAdmitted admission_lease | TicketQueued int | TicketRefused admission_refusal

record 'w pool =
  maxConcurrentRuns :: int
  maxQueuedRuns :: int
  leases :: "admission_lease list"
  runningKeys :: "string set"
  heldByWorkspace :: "string \<rightharpoonup> int"
  queue :: "'w admission_entry list"
  stopped :: bool
  draining :: bool
  releasedIds :: "nat set"
  nextId :: nat

text \<open>\<open>DEFAULT_LIMITS\<close> and the initial closure state of \<open>createRunAdmission(limits)\<close>.\<close>

definition default_max_concurrent_runs :: int where "default_max_concurrent_runs = 2"
definition default_max_queued_runs :: int where "default_max_queued_runs = 50"

definition create_run_admission :: "int option \<Rightarrow> int option \<Rightarrow> 'w pool" where
  "create_run_admission concurrent queued =
     \<lparr>maxConcurrentRuns = nullish concurrent default_max_concurrent_runs,
      maxQueuedRuns = nullish queued default_max_queued_runs,
      leases = [], runningKeys = {}, heldByWorkspace = Map.empty, queue = [],
      stopped = False, draining = False, releasedIds = {}, nextId = 0\<rparr>"

section \<open>Operations\<close>

definition held :: "('w, 'z) pool_scheme \<Rightarrow> string \<Rightarrow> int" where
  "held p ws = nullish (heldByWorkspace p ws) 0"

definition grant :: "admission_request \<Rightarrow> ('w, 'z) pool_scheme \<Rightarrow> admission_lease \<times> ('w, 'z) pool_scheme" where
  "grant r p =
     (let l = \<lparr>leaseId = nextId p, leaseRequest = r\<rparr>
      in (l, p\<lparr>leases := leases p @ [l],
               runningKeys := (case akey r of None \<Rightarrow> runningKeys p | Some k \<Rightarrow> insert k (runningKeys p)),
               heldByWorkspace := (heldByWorkspace p)(workspaceId r \<mapsto> held p (workspaceId r) + 1),
               nextId := Suc (nextId p)\<rparr>))"

text \<open>
  \<open>lease.release()\<close> up to its call of \<open>drain\<close>: nothing when the lease was released before. Where
  \<open>draining\<close> holds, as inside a callback, the nested \<open>drain\<close> returns at once and this is all of it.
\<close>

definition release_slot :: "admission_lease \<Rightarrow> ('w, 'z) pool_scheme \<Rightarrow> ('w, 'z) pool_scheme" where
  "release_slot l p =
     (if leaseId l \<in> releasedIds p then p
      else
        let ws = workspaceId (leaseRequest l);
            n = held p ws - 1
        in p\<lparr>releasedIds := insert (leaseId l) (releasedIds p),
             leases := filter (\<lambda>l'. leaseId l' \<noteq> leaseId l) (leases p),
             runningKeys := (case akey (leaseRequest l) of
                None \<Rightarrow> runningKeys p | Some k \<Rightarrow> runningKeys p - {k}),
             heldByWorkspace := (if n > 0 then (heldByWorkspace p)(ws \<mapsto> n)
                                 else (heldByWorkspace p)(ws := None))\<rparr>)"

text \<open>The loop of \<open>nextIndex\<close>, from index \<open>i\<close> on, with the best index so far and what it holds.\<close>

fun next_index_loop :: "(string \<Rightarrow> int) \<Rightarrow> 'w admission_entry list \<Rightarrow> nat \<Rightarrow> nat \<Rightarrow> int \<Rightarrow> nat" where
  "next_index_loop h [] i best bestHeld = best"
| "next_index_loop h (e # es) i best bestHeld =
     (if bestHeld > 0 then
        (let x = h (workspaceId (request e))
         in if x < bestHeld then next_index_loop h es (Suc i) i x
            else next_index_loop h es (Suc i) best bestHeld)
      else best)"

definition next_index :: "('w, 'z) pool_scheme \<Rightarrow> nat" where
  "next_index p =
     (case queue p of
        [] \<Rightarrow> 0
      | e # es \<Rightarrow> next_index_loop (held p) es 1 0 (held p (workspaceId (request e))))"

type_synonym ('w, 'z) admitted_callback =
  "'w \<Rightarrow> admission_lease \<Rightarrow> ('w, 'z) pool_scheme \<Rightarrow> ('w, 'z) pool_scheme \<times> bool"
type_synonym ('w, 'z) withdrawn_callback =
  "'w \<Rightarrow> admission_withdrawal \<Rightarrow> ('w, 'z) pool_scheme \<Rightarrow> ('w, 'z) pool_scheme"

definition may_admit :: "('w, 'z) pool_scheme \<Rightarrow> bool" where
  "may_admit p \<longleftrightarrow>
     \<not> stopped p \<and> queue p \<noteq> [] \<and> int (length (leases p)) < maxConcurrentRuns p"

text \<open>
  One turn of \<open>drain\<close>'s loop: splice out the entry fair share picks, grant it a lease, run its
  callback, and release the lease when the callback threw.
\<close>

definition drain_step :: "('w, 'z) admitted_callback \<Rightarrow> ('w, 'z) pool_scheme \<Rightarrow> ('w, 'z) pool_scheme" where
  "drain_step admitted p =
     (let i = next_index p;
          e = queue p ! i;
          (l, p1) = grant (request e) (p\<lparr>queue := splice_out i (queue p)\<rparr>);
          (p2, threw) = admitted (waiter e) l p1
      in if threw then release_slot l p2 else p2)"

text \<open>The loop, with fuel: \<open>None\<close> when the fuel runs out, since callbacks may queue more runs.\<close>

fun drain_loop :: "('w, 'z) admitted_callback \<Rightarrow> nat \<Rightarrow> ('w, 'z) pool_scheme \<Rightarrow> ('w, 'z) pool_scheme option" where
  "drain_loop admitted 0 p = None"
| "drain_loop admitted (Suc n) p =
     (if may_admit p then drain_loop admitted n (drain_step admitted p) else Some p)"

definition drain :: "('w, 'z) admitted_callback \<Rightarrow> nat \<Rightarrow> ('w, 'z) pool_scheme \<Rightarrow> ('w, 'z) pool_scheme option" where
  "drain admitted fuel p =
     (if draining p then Some p
      else map_option (\<lambda>q. q\<lparr>draining := False\<rparr>)
             (drain_loop admitted fuel (p\<lparr>draining := True\<rparr>)))"

definition release :: "('w, 'z) admitted_callback \<Rightarrow> nat \<Rightarrow> admission_lease \<Rightarrow> ('w, 'z) pool_scheme \<Rightarrow> ('w, 'z) pool_scheme option" where
  "release admitted fuel l p =
     (if leaseId l \<in> releasedIds p then Some p else drain admitted fuel (release_slot l p))"

definition refusal_for :: "admission_request \<Rightarrow> ('w, 'z) pool_scheme \<Rightarrow> admission_refusal option" where
  "refusal_for r p =
     (if stopped p then Some RefStopped
      else case akey r of
             None \<Rightarrow> None
           | Some k \<Rightarrow>
               if k \<in> runningKeys p then Some RefRunning
               else if list_ex (\<lambda>e. akey (request e) = Some k) (queue p) then Some RefQueued
               else None)"

definition has_free_slot :: "('w, 'z) pool_scheme \<Rightarrow> bool" where
  "has_free_slot p \<longleftrightarrow>
     \<not> stopped p \<and> int (length (leases p)) < maxConcurrentRuns p \<and> queue p = []"

definition request_slot ::
  "admission_request \<Rightarrow> 'w option \<Rightarrow> ('w, 'z) pool_scheme \<Rightarrow> admission_ticket \<times> ('w, 'z) pool_scheme" where
  "request_slot r w p =
     (case refusal_for r p of
        Some why \<Rightarrow> (TicketRefused why, p)
      | None \<Rightarrow>
          if has_free_slot p then (let (l, p') = grant r p in (TicketAdmitted l, p'))
          else case w of
                 None \<Rightarrow> (TicketRefused RefBusy, p)
               | Some w' \<Rightarrow>
                   if int (length (queue p)) \<ge> maxQueuedRuns p then (TicketRefused RefQueueFull, p)
                   else (TicketQueued (int (length (queue p)) + 1),
                         p\<lparr>queue := queue p @ [\<lparr>entryId = nextId p, request = r, waiter = w'\<rparr>],
                           nextId := Suc (nextId p)\<rparr>))"

text \<open>The loop of \<open>withdraw\<close>: the entries spliced out, in order, and the entries left.\<close>

fun split_queue ::
  "('w admission_entry \<Rightarrow> bool) \<Rightarrow> 'w admission_entry list
    \<Rightarrow> 'w admission_entry list \<times> 'w admission_entry list" where
  "split_queue m [] = ([], [])"
| "split_queue m (e # es) =
     (let (out, rest) = split_queue m es in if m e then (e # out, rest) else (out, e # rest))"

definition withdraw ::
  "('w, 'z) withdrawn_callback \<Rightarrow> ('w admission_entry \<Rightarrow> bool) \<Rightarrow> admission_withdrawal
    \<Rightarrow> ('w, 'z) pool_scheme \<Rightarrow> nat \<times> ('w, 'z) pool_scheme" where
  "withdraw withdrawn m reason p =
     (let (out, rest) = split_queue m (queue p)
      in (length out,
          fold (\<lambda>e. withdrawn (waiter e) reason) out (p\<lparr>queue := rest\<rparr>)))"

definition cancel ::
  "('w, 'z) withdrawn_callback \<Rightarrow> string \<Rightarrow> admission_withdrawal option \<Rightarrow> ('w, 'z) pool_scheme \<Rightarrow> bool \<times> ('w, 'z) pool_scheme" where
  "cancel withdrawn k reason p =
     (let (n, p') = withdraw withdrawn (\<lambda>e. akey (request e) = Some k) (nullish reason WithCancelled) p
      in (n > 0, p'))"

definition is_running :: "string \<Rightarrow> ('w, 'z) pool_scheme \<Rightarrow> bool" where
  "is_running k p \<longleftrightarrow> k \<in> runningKeys p"

definition is_queued :: "string \<Rightarrow> ('w, 'z) pool_scheme \<Rightarrow> bool" where
  "is_queued k p \<longleftrightarrow> list_ex (\<lambda>e. akey (request e) = Some k) (queue p)"

definition in_flight :: "('w, 'z) pool_scheme \<Rightarrow> int" where
  "in_flight p = int (length (leases p))"

definition queued :: "('w, 'z) pool_scheme \<Rightarrow> admission_request list" where
  "queued p = map request (queue p)"

definition owns :: "admission_lease \<Rightarrow> ('w, 'z) pool_scheme \<Rightarrow> bool" where
  "owns l p \<longleftrightarrow> l \<in> set (leases p)"

definition stop :: "('w, 'z) withdrawn_callback \<Rightarrow> ('w, 'z) pool_scheme \<Rightarrow> ('w, 'z) pool_scheme" where
  "stop withdrawn p = snd (withdraw withdrawn (\<lambda>_. True) WithStopped (p\<lparr>stopped := True\<rparr>))"

text \<open>
  \<open>acquire\<close> up to the state of its promise: rejected at once, resolved at once, or pending under
  the queue entry whose identity its abort listener withdraws.
\<close>

datatype acquire_state =
  AcqRejectedAbort | AcqRejected admission_refusal | AcqResolved admission_lease | AcqPending nat

definition acquire :: "admission_request \<Rightarrow> bool \<Rightarrow> 'w \<Rightarrow> ('w, 'z) pool_scheme \<Rightarrow> acquire_state \<times> ('w, 'z) pool_scheme" where
  "acquire r aborted w p =
     (if aborted then (AcqRejectedAbort, p)
      else case request_slot r (Some w) p of
             (TicketAdmitted l, p') \<Rightarrow> (AcqResolved l, p')
           | (TicketRefused why, p') \<Rightarrow> (AcqRejected why, p')
           | (TicketQueued _, p') \<Rightarrow> (AcqPending (entryId (last (queue p'))), p'))"

definition on_abort :: "('w, 'z) withdrawn_callback \<Rightarrow> nat \<Rightarrow> ('w, 'z) pool_scheme \<Rightarrow> ('w, 'z) pool_scheme" where
  "on_abort withdrawn i p = snd (withdraw withdrawn (\<lambda>e. entryId e = i) WithAborted p)"

section \<open>Invariant\<close>

fun keys_of :: "admission_request list \<Rightarrow> string list" where
  "keys_of [] = []"
| "keys_of (r # rs) = (case akey r of None \<Rightarrow> keys_of rs | Some k \<Rightarrow> k # keys_of rs)"

lemma keys_of_append [simp]: "keys_of (xs @ ys) = keys_of xs @ keys_of ys"
  by (induction xs) (auto split: option.splits)

lemma in_keys_of: "k \<in> set (keys_of rs) \<longleftrightarrow> (\<exists>r \<in> set rs. akey r = Some k)"
  by (induction rs) (auto split: option.splits)

abbreviation lease_keys :: "('w, 'z) pool_scheme \<Rightarrow> string list" where
  "lease_keys p \<equiv> keys_of (map leaseRequest (leases p))"

abbreviation queue_keys :: "('w, 'z) pool_scheme \<Rightarrow> string list" where
  "queue_keys p \<equiv> keys_of (map request (queue p))"

definition leases_of :: "string \<Rightarrow> admission_lease list \<Rightarrow> nat" where
  "leases_of ws ls = length (filter (\<lambda>l. workspaceId (leaseRequest l) = ws) ls)"

lemma leases_of_simps [simp]:
  "leases_of ws [] = 0"
  "leases_of ws (l # ls) = (if workspaceId (leaseRequest l) = ws then Suc (leases_of ws ls) else leases_of ws ls)"
  "leases_of ws (xs @ ys) = leases_of ws xs + leases_of ws ys"
  by (simp_all add: leases_of_def)

text \<open>
  Leases and released leases are told apart; the three views of who holds a slot agree; no key
  stands twice among the leases and the queue; both limits hold.
\<close>

definition pool_inv :: "('w, 'z) pool_scheme \<Rightarrow> bool" where
  "pool_inv p \<longleftrightarrow>
     distinct (map leaseId (leases p)) \<and>
     (\<forall>l \<in> set (leases p). leaseId l < nextId p \<and> leaseId l \<notin> releasedIds p) \<and>
     (\<forall>i \<in> releasedIds p. i < nextId p) \<and>
     runningKeys p = set (lease_keys p) \<and>
     distinct (lease_keys p @ queue_keys p) \<and>
     (\<forall>ws. heldByWorkspace p ws =
        (if leases_of ws (leases p) = 0 then None else Some (int (leases_of ws (leases p))))) \<and>
     int (length (leases p)) \<le> max 0 (maxConcurrentRuns p) \<and>
     int (length (queue p)) \<le> max 0 (maxQueuedRuns p)"

lemma held_inv: "pool_inv p \<Longrightarrow> held p ws = int (leases_of ws (leases p))"
  by (simp add: pool_inv_def held_def)

lemma held_nonneg: "pool_inv p \<Longrightarrow> 0 \<le> held p ws"
  by (simp add: held_inv)

text \<open>No run waits while a slot is free, once no drain is under way.\<close>

definition settled :: "('w, 'z) pool_scheme \<Rightarrow> bool" where
  "settled p \<longleftrightarrow> draining p \<or> stopped p \<or> queue p = [] \<or>
     maxConcurrentRuns p \<le> int (length (leases p))"

text \<open>A lease the pool handed out: live, or released.\<close>

definition known :: "admission_lease \<Rightarrow> ('w, 'z) pool_scheme \<Rightarrow> bool" where
  "known l p \<longleftrightarrow> l \<in> set (leases p) \<or> leaseId l \<in> releasedIds p"

lemma pool_inv_create [inv_intros]:
  "pool_inv (create_run_admission c q)" "settled (create_run_admission c q)"
  by (auto simp: pool_inv_def settled_def create_run_admission_def)

lemma pool_inv_draining [simp]: "pool_inv (p\<lparr>draining := b\<rparr>) = pool_inv p"
  by (simp add: pool_inv_def)

lemma pool_inv_stopped [simp]: "pool_inv (p\<lparr>stopped := b\<rparr>) = pool_inv p"
  by (simp add: pool_inv_def)

lemma grant_facts:
  assumes "grant r p = (l, p')"
  shows "leases p' = leases p @ [l]" "leaseRequest l = r" "leaseId l = nextId p"
    "queue p' = queue p" "stopped p' = stopped p" "draining p' = draining p"
    "maxConcurrentRuns p' = maxConcurrentRuns p" "maxQueuedRuns p' = maxQueuedRuns p"
    "releasedIds p' = releasedIds p" "nextId p' = Suc (nextId p)"
  using assms by (auto simp: grant_def Let_def)

lemma grant_inv [inv_intros]:
  assumes inv: "pool_inv p" and g: "grant r p = (l, p')"
    and slot: "int (length (leases p)) < maxConcurrentRuns p"
    and fresh: "\<And>k. akey r = Some k \<Longrightarrow> k \<notin> runningKeys p \<and> k \<notin> set (queue_keys p)"
  shows "pool_inv p'" "known l p'"
proof -
  have h: "held p (workspaceId r) = int (leases_of (workspaceId r) (leases p))"
    using inv by (rule held_inv)
  have p': "p' = p\<lparr>leases := leases p @ [l],
      runningKeys := (case akey r of None \<Rightarrow> runningKeys p | Some k \<Rightarrow> insert k (runningKeys p)),
      heldByWorkspace := (heldByWorkspace p)(workspaceId r \<mapsto> held p (workspaceId r) + 1),
      nextId := Suc (nextId p)\<rparr>"
    and l: "l = \<lparr>leaseId = nextId p, leaseRequest = r\<rparr>"
    using g by (auto simp: grant_def Let_def)
  show "pool_inv p'"
    using inv slot fresh h unfolding pool_inv_def p' l
    by (force split: option.splits)
  show "known l p'" by (simp add: known_def p')
qed

lemma release_slot_inv [inv_intros]:
  assumes inv: "pool_inv p" and l: "known l p"
  shows "pool_inv (release_slot l p)"
proof (cases "leaseId l \<in> releasedIds p")
  case True
  then show ?thesis using inv by (simp add: release_slot_def)
next
  case False
  with l obtain xs ys where ls: "leases p = xs @ l # ys"
    by (auto simp: known_def dest: split_list)
  have d: "distinct (map leaseId (leases p))" using inv by (simp add: pool_inv_def)
  have f: "filter (\<lambda>l'. leaseId l' \<noteq> leaseId l) (leases p) = xs @ ys"
    using d unfolding ls by (rule filter_neq_split)
  have n: "held p (workspaceId (leaseRequest l)) - 1
      = int (leases_of (workspaceId (leaseRequest l)) (xs @ ys))"
    using held_inv [OF inv] by (simp add: ls)
  let ?q = "release_slot l p"
  have q: "leases ?q = xs @ ys" "releasedIds ?q = insert (leaseId l) (releasedIds p)"
    "nextId ?q = nextId p" "queue ?q = queue p"
    "maxConcurrentRuns ?q = maxConcurrentRuns p" "maxQueuedRuns ?q = maxQueuedRuns p"
    "runningKeys ?q = (case akey (leaseRequest l) of
       None \<Rightarrow> runningKeys p | Some k \<Rightarrow> runningKeys p - {k})"
    using False f by (simp_all add: release_slot_def Let_def)
  have hq: "heldByWorkspace ?q ws = (if leases_of ws (xs @ ys) = 0 then None
      else Some (int (leases_of ws (xs @ ys))))" for ws
    using inv False n by (auto simp: release_slot_def Let_def pool_inv_def ls)
  have kq: "runningKeys ?q = set (lease_keys ?q)"
    "distinct (lease_keys ?q @ queue_keys ?q)"
    using inv by (auto simp: pool_inv_def q ls split: option.splits)
  have "leaseId l \<notin> leaseId ` set xs" "leaseId l \<notin> leaseId ` set ys" using d by (simp_all add: ls)
  then have ne: "l' \<in> set xs \<or> l' \<in> set ys \<Longrightarrow> leaseId l' \<noteq> leaseId l" for l' by (metis imageI)
  show ?thesis
    unfolding pool_inv_def using inv kq hq
    by (auto simp: q pool_inv_def ls ne)
qed

lemma release_slot_frame [simp]:
  "queue (release_slot l p) = queue p" "stopped (release_slot l p) = stopped p"
  "draining (release_slot l p) = draining p"
  "maxConcurrentRuns (release_slot l p) = maxConcurrentRuns p"
  "maxQueuedRuns (release_slot l p) = maxQueuedRuns p"
  "nextId (release_slot l p) = nextId p"
  by (simp_all add: release_slot_def Let_def)

section \<open>Fair share\<close>

lemma next_index_loop_spec:
  assumes "\<And>ws. 0 \<le> h ws" and "best < i" and "bestHeld = h (ws_at best)"
    and "\<And>j. j < i \<Longrightarrow> bestHeld \<le> h (ws_at j) \<and> (j < best \<longrightarrow> bestHeld < h (ws_at j))"
    and "\<And>j. j < length es \<Longrightarrow> ws_at (i + j) = workspaceId (request (es ! j))"
  shows "let b = next_index_loop h es i best bestHeld
         in b < i + length es \<and>
            (\<forall>j < i + length es. h (ws_at b) \<le> h (ws_at j) \<and> (j < b \<longrightarrow> h (ws_at b) < h (ws_at j)))"
  using assms
proof (induction h es i best bestHeld rule: next_index_loop.induct)
  case (1 h i best bestHeld)
  then show ?case by (simp add: Let_def)
next
  case (2 h e es i best bestHeld)
  have ei: "ws_at i = workspaceId (request e)" using 2(7) [of 0] by simp
  have shift: "ws_at (Suc i + j) = workspaceId (request (es ! j))" if "j < length es" for j
    using 2(7) [of "Suc j"] that by simp
  show ?case
  proof (cases "bestHeld > 0")
    case False
    then have b0: "bestHeld = 0" using "2.prems"(1,3) by (metis linorder_not_less order_antisym)
    have "h (ws_at best) \<le> h (ws_at j) \<and> (j < best \<longrightarrow> h (ws_at best) < h (ws_at j))" for j
      using "2.prems"(1) [of "ws_at j"] "2.prems"(2,3,4) b0 by (metis less_trans)
    then show ?thesis using False "2.prems"(2) by (simp add: Let_def)
  next
    case pos: True
    show ?thesis
    proof (cases "h (workspaceId (request e)) < bestHeld")
      case True
      have "let b = next_index_loop h es (Suc i) i (h (workspaceId (request e)))
         in b < Suc i + length es \<and>
            (\<forall>j < Suc i + length es. h (ws_at b) \<le> h (ws_at j) \<and> (j < b \<longrightarrow> h (ws_at b) < h (ws_at j)))"
        using True pos "2.prems" ei shift
        by (intro "2.IH"(1)) (force simp: less_Suc_eq)+
      with True pos show ?thesis by (simp add: Let_def)
    next
      case False
      have "let b = next_index_loop h es (Suc i) best bestHeld
         in b < Suc i + length es \<and>
            (\<forall>j < Suc i + length es. h (ws_at b) \<le> h (ws_at j) \<and> (j < b \<longrightarrow> h (ws_at b) < h (ws_at j)))"
        using False pos "2.prems" ei shift
        by (intro "2.IH"(2)) (force simp: less_Suc_eq)+
      with False pos show ?thesis by (simp add: Let_def)
    qed
  qed
qed

abbreviation held_at :: "('w, 'z) pool_scheme \<Rightarrow> nat \<Rightarrow> int" where
  "held_at p j \<equiv> held p (workspaceId (request (queue p ! j)))"

lemma next_index_fair:
  assumes "pool_inv p" and "queue p \<noteq> []"
  shows "next_index p < length (queue p)"
    and "j < length (queue p) \<Longrightarrow> held_at p (next_index p) \<le> held_at p j"
    and "j < next_index p \<Longrightarrow> held_at p (next_index p) < held_at p j"
proof -
  obtain e es where q: "queue p = e # es" using assms(2) by (cases "queue p") auto
  let ?ws = "\<lambda>j. workspaceId (request (queue p ! j))"
  have "let b = next_index_loop (held p) es 1 0 (held p (workspaceId (request e)))
        in b < 1 + length es \<and>
           (\<forall>j < 1 + length es. held p (?ws b) \<le> held p (?ws j) \<and> (j < b \<longrightarrow> held p (?ws b) < held p (?ws j)))"
    using held_nonneg [OF assms(1)] by (intro next_index_loop_spec) (auto simp: q)
  then have *: "next_index p < length (queue p)"
    "\<And>j. j < length (queue p) \<Longrightarrow> held_at p (next_index p) \<le> held_at p j \<and>
       (j < next_index p \<longrightarrow> held_at p (next_index p) < held_at p j)"
    by (auto simp: q next_index_def Let_def)
  show "next_index p < length (queue p)" by (rule *)
  show "j < length (queue p) \<Longrightarrow> held_at p (next_index p) \<le> held_at p j" using * by simp
  show "j < next_index p \<Longrightarrow> held_at p (next_index p) < held_at p j" using * by simp
qed

section \<open>Requests, withdrawals\<close>

lemma refusal_for_None:
  "refusal_for r p = None \<Longrightarrow> akey r = Some k \<Longrightarrow> pool_inv p \<Longrightarrow>
     \<not> stopped p \<and> k \<notin> runningKeys p \<and> k \<notin> set (queue_keys p)"
  by (auto simp: refusal_for_def in_keys_of list_ex_iff split: if_splits option.splits)

lemma pool_inv_queue:
  assumes "pool_inv p" and "distinct (keys_of (map request q))"
    and "set (lease_keys p) \<inter> set (keys_of (map request q)) = {}"
    and "int (length q) \<le> max 0 (maxQueuedRuns p)"
  shows "pool_inv (p\<lparr>queue := q\<rparr>)" "pool_inv (p\<lparr>queue := q, nextId := Suc (nextId p)\<rparr>)"
  using assms unfolding pool_inv_def by (simp_all add: less_Suc_eq)

lemma pool_inv_queue_keys:
  assumes "pool_inv p"
  shows "distinct (queue_keys p)" "set (lease_keys p) \<inter> set (queue_keys p) = {}"
    "runningKeys p = set (lease_keys p)" "int (length (queue p)) \<le> max 0 (maxQueuedRuns p)"
  using assms unfolding pool_inv_def by auto

lemma request_slot_cases:
  assumes "request_slot r w p = (t, p')" and "refusal_for r p = None"
  obtains (admit) l where "has_free_slot p" "grant r p = (l, p')"
    | (same) "p' = p"
    | (enqueue) w' where "int (length (queue p)) < maxQueuedRuns p"
        "p' = p\<lparr>queue := queue p @ [\<lparr>entryId = nextId p, request = r, waiter = w'\<rparr>],
               nextId := Suc (nextId p)\<rparr>"
proof (cases "has_free_slot p")
  case True
  then show ?thesis using assms admit by (cases "grant r p") (simp add: request_slot_def)
next
  case False
  show ?thesis
  proof (cases "\<exists>w'. w = Some w' \<and> int (length (queue p)) < maxQueuedRuns p")
    case True
    then obtain w' where "w = Some w'" "int (length (queue p)) < maxQueuedRuns p" by blast
    then show ?thesis using assms \<open>\<not> has_free_slot p\<close> by (intro enqueue [of w']) (auto simp: request_slot_def)
  next
    case no: False
    then show ?thesis using assms False by (intro same) (cases w, auto simp: request_slot_def)
  qed
qed

lemma request_slot_inv [inv_intros]:
  assumes inv: "pool_inv p" and r: "request_slot r w p = (t, p')"
  shows "pool_inv p'"
proof (cases "refusal_for r p")
  case (Some why)
  then show ?thesis using assms by (simp add: request_slot_def)
next
  case None
  note fresh = refusal_for_None [OF None _ inv]
  from r None show ?thesis
  proof (cases rule: request_slot_cases)
    case (admit l)
    then show ?thesis using fresh by (auto simp: has_free_slot_def intro: grant_inv [OF inv])
  next
    case same
    then show ?thesis using inv by simp
  next
    case (enqueue w')
    have "set (lease_keys p) \<inter> set (keys_of [r]) = {}" "set (queue_keys p) \<inter> set (keys_of [r]) = {}"
      using fresh pool_inv_queue_keys(3) [OF inv] by (auto split: option.splits)
    moreover have "distinct (keys_of [r])" by (simp split: option.split)
    ultimately show ?thesis using enqueue pool_inv_queue_keys [OF inv]
      unfolding enqueue(2) by (intro pool_inv_queue(2) [OF inv]) (auto split: option.splits)
  qed
qed

lemma request_slot_frame:
  assumes "request_slot r w p = (t, p')"
  shows "draining p' = draining p" "stopped p' = stopped p"
    "maxConcurrentRuns p' = maxConcurrentRuns p" "maxQueuedRuns p' = maxQueuedRuns p"
    "releasedIds p' = releasedIds p" "set (leases p) \<subseteq> set (leases p')"
  using assms
  by (auto simp: request_slot_def grant_def Let_def split: if_splits option.splits prod.splits)

lemma request_slot_settled [inv_intros]:
  assumes "settled p" and "request_slot r w p = (t, p')"
  shows "settled p'"
  using assms
  by (auto simp: request_slot_def grant_def Let_def settled_def has_free_slot_def
      split: if_splits option.splits prod.splits)

lemma split_queue_eq: "split_queue m q = (filter m q, filter (\<lambda>e. \<not> m e) q)"
  by (induction m q rule: split_queue.induct) auto

lemma keys_of_filter_subset: "set (keys_of (map request (filter m q))) \<subseteq> set (keys_of (map request q))"
  by (auto simp: in_keys_of)

lemma distinct_keys_of_filter:
  "distinct (keys_of (map request q)) \<Longrightarrow> distinct (keys_of (map request (filter m q)))"
proof (induction q)
  case (Cons e q)
  then show ?case using keys_of_filter_subset [of m q] by (auto split: option.splits)
qed simp

lemma pool_inv_filter_queue [inv_intros]:
  assumes "pool_inv p"
  shows "pool_inv (p\<lparr>queue := filter m (queue p)\<rparr>)"
proof (rule pool_inv_queue(1) [OF assms])
  show "distinct (keys_of (map request (filter m (queue p))))"
    by (rule distinct_keys_of_filter [OF pool_inv_queue_keys(1) [OF assms]])
  show "set (lease_keys p) \<inter> set (keys_of (map request (filter m (queue p)))) = {}"
    using pool_inv_queue_keys(2) [OF assms] keys_of_filter_subset [of m "queue p"] by blast
  show "int (length (filter m (queue p))) \<le> max 0 (maxQueuedRuns p)"
    using pool_inv_queue_keys(4) [OF assms] length_filter_le [of m "queue p"] by linarith
qed

lemma pool_inv_remove_queue [inv_intros]:
  assumes inv: "pool_inv p" and "i < length (queue p)"
  shows "pool_inv (p\<lparr>queue := splice_out i (queue p)\<rparr>)"
    and "akey (request (queue p ! i)) = Some k \<Longrightarrow>
      k \<notin> runningKeys p \<and> k \<notin> set (keys_of (map request (splice_out i (queue p))))"
proof -
  define xs e ys where "xs = take i (queue p)" and "e = queue p ! i" and "ys = drop (Suc i) (queue p)"
  have q: "queue p = xs @ e # ys"
    unfolding xs_def e_def ys_def by (rule id_take_nth_drop [OF assms(2)])
  have r: "splice_out i (queue p) = xs @ ys" by (simp add: splice_out_def xs_def ys_def)
  note k = pool_inv_queue_keys [OF inv, unfolded q]
  show "pool_inv (p\<lparr>queue := splice_out i (queue p)\<rparr>)"
    unfolding r using k by (intro pool_inv_queue(1) [OF inv]) (auto split: option.splits)
  show "k \<notin> runningKeys p \<and> k \<notin> set (keys_of (map request (splice_out i (queue p))))"
    if "akey (request (queue p ! i)) = Some k"
    unfolding r using k that by (auto simp flip: e_def)
qed

section \<open>Clients\<close>

text \<open>
  What the pool relies on from a client's callbacks: they touch it through its operations only, so
  they keep its invariant, its limits, a stop, and the lease they were handed.
\<close>

definition same_limits :: "('w, 'z) pool_scheme \<Rightarrow> ('w, 'z) pool_scheme \<Rightarrow> bool" where
  "same_limits p p' \<longleftrightarrow> maxConcurrentRuns p' = maxConcurrentRuns p \<and>
     maxQueuedRuns p' = maxQueuedRuns p \<and> draining p' = draining p \<and> (stopped p \<longrightarrow> stopped p')"

lemma same_limits_refl [simp]: "same_limits p p"
  by (simp add: same_limits_def)

lemma same_limits_trans: "same_limits p q \<Longrightarrow> same_limits q r \<Longrightarrow> same_limits p r"
  by (simp add: same_limits_def)

lemma same_limits_release_slot [simp]: "same_limits p (release_slot l p)"
  by (simp add: same_limits_def)

lemma same_limits_request_slot: "request_slot r w p = (t, p') \<Longrightarrow> same_limits p p'"
  by (simp add: same_limits_def request_slot_frame)

locale waiter_contract =
  fixes admitted :: "('w, 'z) admitted_callback" and withdrawn :: "('w, 'z) withdrawn_callback"
  assumes admitted_keeps:
    "\<lbrakk>pool_inv p; draining p; l \<in> set (leases p); admitted w l p = (p', threw)\<rbrakk>
      \<Longrightarrow> pool_inv p' \<and> same_limits p p' \<and> known l p'"
    and withdrawn_keeps:
    "\<lbrakk>pool_inv p; settled p\<rbrakk>
      \<Longrightarrow> pool_inv (withdrawn w r p) \<and> settled (withdrawn w r p) \<and> same_limits p (withdrawn w r p)"
begin

lemma drain_step_keeps:
  assumes inv: "pool_inv p" and d: "draining p" and m: "may_admit p"
  shows "pool_inv (drain_step admitted p) \<and> same_limits p (drain_step admitted p)"
proof -
  let ?i = "next_index p"
  let ?e = "queue p ! ?i"
  let ?p0 = "p\<lparr>queue := splice_out ?i (queue p)\<rparr>"
  have i: "?i < length (queue p)" using next_index_fair(1) inv m by (auto simp: may_admit_def)
  obtain l p1 where g: "grant (request ?e) ?p0 = (l, p1)" by fastforce
  obtain p2 threw where a: "admitted (waiter ?e) l p1 = (p2, threw)" by fastforce
  have p1: "pool_inv p1" "draining p1" "l \<in> set (leases p1)" "same_limits p p1"
    using grant_inv(1) [OF pool_inv_remove_queue(1) [OF inv i] g] grant_facts [OF g]
      pool_inv_remove_queue(2) [OF inv i] m d
    by (auto simp: may_admit_def same_limits_def)
  have p2: "pool_inv p2 \<and> same_limits p1 p2 \<and> known l p2"
    using admitted_keeps p1 a by blast
  have "drain_step admitted p = (if threw then release_slot l p2 else p2)"
    by (simp add: drain_step_def Let_def g a)
  then show ?thesis using p1 p2 by (auto simp: same_limits_def intro: release_slot_inv)
qed

lemma drain_loop_keeps:
  "\<lbrakk>drain_loop admitted n p = Some q; pool_inv p; draining p\<rbrakk>
    \<Longrightarrow> pool_inv q \<and> same_limits p q \<and> \<not> may_admit q"
proof (induction n arbitrary: p)
  case (Suc n)
  show ?case
  proof (cases "may_admit p")
    case True
    note step = drain_step_keeps [OF Suc.prems(2,3) True]
    have "drain_loop admitted n (drain_step admitted p) = Some q" using Suc.prems(1) True by simp
    then have "pool_inv q \<and> same_limits (drain_step admitted p) q \<and> \<not> may_admit q"
      using step Suc.prems(3) by (intro Suc.IH) (simp_all add: same_limits_def)
    then show ?thesis using step by (auto simp: same_limits_def)
  next
    case False
    then show ?thesis using Suc.prems by (simp add: same_limits_def)
  qed
qed simp

lemma drain_keeps:
  assumes "drain admitted n p = Some q" and "pool_inv p"
  shows "pool_inv q \<and> settled q \<and> same_limits p q"
proof (cases "draining p")
  case True
  then show ?thesis using assms by (simp add: drain_def settled_def same_limits_def)
next
  case False
  then obtain q' where q': "drain_loop admitted n (p\<lparr>draining := True\<rparr>) = Some q'"
    and q: "q = q'\<lparr>draining := False\<rparr>" using assms(1) by (auto simp: drain_def)
  have "pool_inv q' \<and> same_limits (p\<lparr>draining := True\<rparr>) q' \<and> \<not> may_admit q'"
    using drain_loop_keeps [OF q'] assms(2) by simp
  then show ?thesis using False
    by (auto simp: q same_limits_def settled_def may_admit_def)
qed

lemma release_keeps:
  assumes "release admitted n l p = Some q" and "pool_inv p" and "settled p" and "known l p"
  shows "pool_inv q \<and> settled q \<and> same_limits p q"
proof (cases "leaseId l \<in> releasedIds p")
  case True
  then show ?thesis using assms by (simp add: release_def same_limits_def)
next
  case False
  then have "drain admitted n (release_slot l p) = Some q" using assms(1) by (simp add: release_def)
  then show ?thesis using drain_keeps release_slot_inv [OF assms(2,4)]
    by (fastforce simp: same_limits_def)
qed

lemma fold_withdrawn_keeps:
  "\<lbrakk>pool_inv p; settled p\<rbrakk> \<Longrightarrow>
     let q = fold (\<lambda>e. withdrawn (waiter e) r) es p in pool_inv q \<and> settled q \<and> same_limits p q"
proof (induction es arbitrary: p)
  case (Cons e es)
  note w = withdrawn_keeps [OF Cons.prems, of "waiter e" r]
  show ?case using Cons.IH [of "withdrawn (waiter e) r p"] w by (auto simp: Let_def same_limits_def)
qed (simp add: same_limits_def)

lemma withdraw_keeps:
  assumes "withdraw withdrawn m r p = (n, q)" and inv: "pool_inv p" and "settled p"
  shows "pool_inv q \<and> settled q \<and> same_limits p q"
proof -
  let ?p = "p\<lparr>queue := filter (\<lambda>e. \<not> m e) (queue p)\<rparr>"
  have "pool_inv ?p" "settled ?p" using pool_inv_filter_queue [OF inv] assms(3)
    by (auto simp: settled_def)
  moreover have "q = fold (\<lambda>e. withdrawn (waiter e) r) (filter m (queue p)) ?p"
    using assms(1) by (auto simp: withdraw_def split_queue_eq)
  ultimately show ?thesis
    using fold_withdrawn_keeps [of ?p r "filter m (queue p)"] by (simp add: Let_def same_limits_def)
qed

lemma stop_keeps:
  assumes "pool_inv p"
  shows "pool_inv (stop withdrawn p) \<and> settled (stop withdrawn p) \<and>
    stopped (stop withdrawn p) \<and> same_limits p (stop withdrawn p)"
proof -
  obtain n q where w: "withdraw withdrawn (\<lambda>_. True) WithStopped (p\<lparr>stopped := True\<rparr>) = (n, q)"
    by fastforce
  then show ?thesis using withdraw_keeps [OF w] assms
    by (simp add: stop_def settled_def same_limits_def)
qed

end

section \<open>The pool as a state machine\<close>

text \<open>The calls a client can make, in any order, each with the pool's own precondition on a lease.\<close>

inductive pool_step ::
  "('w, 'z) admitted_callback \<Rightarrow> ('w, 'z) withdrawn_callback \<Rightarrow> ('w, 'z) pool_scheme \<Rightarrow> ('w, 'z) pool_scheme \<Rightarrow> bool"
  for admitted withdrawn where
  step_request: "request_slot r w p = (t, p') \<Longrightarrow> pool_step admitted withdrawn p p'"
| step_release: "\<lbrakk>known l p; release admitted fuel l p = Some p'\<rbrakk> \<Longrightarrow> pool_step admitted withdrawn p p'"
| step_withdraw: "withdraw withdrawn m reason p = (n, p') \<Longrightarrow> pool_step admitted withdrawn p p'"
| step_stop: "pool_step admitted withdrawn p (stop withdrawn p)"

inductive pool_reachable ::
  "('w, 'z) admitted_callback \<Rightarrow> ('w, 'z) withdrawn_callback \<Rightarrow> int option \<Rightarrow> int option \<Rightarrow> ('w, 'z) pool_scheme \<Rightarrow> bool"
  for admitted withdrawn c q where
  reach_start: "pool_reachable admitted withdrawn c q (pool.extend (create_run_admission c q) z)"
| reach_step: "\<lbrakk>pool_reachable admitted withdrawn c q p; pool_step admitted withdrawn p p'\<rbrakk>
    \<Longrightarrow> pool_reachable admitted withdrawn c q p'"

inductive_cases pool_stepE: "pool_step admitted withdrawn p p'"

context waiter_contract
begin

lemma pool_step_keeps:
  assumes "pool_step admitted withdrawn p p'" and "pool_inv p" and "settled p" and "\<not> draining p"
  shows "pool_inv p' \<and> settled p' \<and> same_limits p p'"
  using assms
proof (elim pool_stepE)
  fix r w t
  assume "request_slot r w p = (t, p')"
  then show ?thesis
    using assms request_slot_inv request_slot_settled same_limits_request_slot by blast
next
  fix l fuel
  assume "known l p" "release admitted fuel l p = Some p'"
  then show ?thesis using release_keeps assms by blast
next
  fix m reason n
  assume "withdraw withdrawn m reason p = (n, p')"
  then show ?thesis using withdraw_keeps assms by blast
next
  assume "p' = stop withdrawn p"
  then show ?thesis using stop_keeps [of p] assms by simp
qed

lemma pool_inv_extend_create [simp]:
  "pool_inv (pool.extend (create_run_admission c q) z)" "settled (pool.extend (create_run_admission c q) z)"
  by (auto simp: pool_inv_def settled_def create_run_admission_def pool.defs)

lemma pool_reachable_keeps:
  "pool_reachable admitted withdrawn c q p \<Longrightarrow>
     pool_inv p \<and> settled p \<and> same_limits (pool.extend (create_run_admission c q) z) p"
proof (induction rule: pool_reachable.induct)
  case (reach_start z')
  show ?case
    by (intro conjI pool_inv_extend_create) (simp add: same_limits_def create_run_admission_def pool.defs)
next
  case (reach_step p p')
  then have "\<not> draining p" by (simp add: same_limits_def create_run_admission_def pool.defs)
  then have "pool_inv p' \<and> settled p' \<and> same_limits p p'"
    using pool_step_keeps reach_step by blast
  then show ?case using reach_step.IH same_limits_trans by blast
qed

end

section \<open>Termination of the drain\<close>

text \<open>
  A callback may queue further runs, so a drain ends only when what the callbacks add is bounded:
  \<open>weight w\<close> bounds what \<open>w\<close>'s callback adds, counted with the weights of what it adds.
\<close>

definition queue_weight :: "('w \<Rightarrow> nat) \<Rightarrow> ('w, 'z) pool_scheme \<Rightarrow> nat" where
  "queue_weight weight p = (\<Sum>e\<leftarrow>queue p. Suc (weight (waiter e)))"

lemma queue_weight_remove:
  "i < length (queue p) \<Longrightarrow>
     queue_weight weight p = Suc (weight (waiter (queue p ! i))) +
       queue_weight weight (p\<lparr>queue := splice_out i (queue p)\<rparr>)"
proof -
  assume "i < length (queue p)"
  then have "(\<Sum>e\<leftarrow>queue p. Suc (weight (waiter e))) =
      (\<Sum>e\<in>#add_mset (queue p ! i) (mset (splice_out i (queue p))). Suc (weight (waiter e)))"
    by (metis mset_splice_out mset_map sum_mset_sum_list)
  also have "\<dots> = Suc (weight (waiter (queue p ! i))) + (\<Sum>e\<leftarrow>splice_out i (queue p). Suc (weight (waiter e)))"
    by (simp flip: sum_mset_sum_list)
  finally show ?thesis by (simp add: queue_weight_def)
qed

locale terminating_waiters = waiter_contract admitted withdrawn
  for admitted :: "('w, 'z) admitted_callback" and withdrawn :: "('w, 'z) withdrawn_callback" +
  fixes weight :: "'w \<Rightarrow> nat"
  assumes admitted_weight:
    "admitted w l p = (p', threw) \<Longrightarrow> queue_weight weight p' \<le> queue_weight weight p + weight w"
begin

lemma drain_step_weight:
  assumes "pool_inv p" and "may_admit p"
  shows "queue_weight weight (drain_step admitted p) < queue_weight weight p"
proof -
  let ?i = "next_index p"
  let ?p0 = "p\<lparr>queue := splice_out ?i (queue p)\<rparr>"
  have i: "?i < length (queue p)" using next_index_fair(1) assms by (auto simp: may_admit_def)
  obtain l p1 where g: "grant (request (queue p ! ?i)) ?p0 = (l, p1)" by fastforce
  obtain p2 threw where a: "admitted (waiter (queue p ! ?i)) l p1 = (p2, threw)" by fastforce
  have "queue_weight weight (drain_step admitted p) = queue_weight weight p2"
    by (simp add: drain_step_def Let_def g a queue_weight_def)
  also have "\<dots> \<le> queue_weight weight ?p0 + weight (waiter (queue p ! ?i))"
    using admitted_weight [OF a] grant_facts(4) [OF g] by (simp add: queue_weight_def)
  also have "\<dots> < queue_weight weight p" using queue_weight_remove [OF i, of weight] by simp
  finally show ?thesis .
qed

lemma drain_loop_returns:
  "\<lbrakk>pool_inv p; draining p; queue_weight weight p < n\<rbrakk> \<Longrightarrow> \<exists>q. drain_loop admitted n p = Some q"
proof (induction n arbitrary: p)
  case (Suc n)
  show ?case
  proof (cases "may_admit p")
    case True
    then have "\<exists>q. drain_loop admitted n (drain_step admitted p) = Some q"
      using drain_step_keeps [OF Suc.prems(1,2) True] drain_step_weight [OF Suc.prems(1) True] Suc.prems
      by (intro Suc.IH) (auto simp: same_limits_def)
    with True show ?thesis by simp
  qed simp
qed simp

lemma drain_returns:
  "\<lbrakk>pool_inv p; queue_weight weight p < n\<rbrakk> \<Longrightarrow> \<exists>q. drain admitted n p = Some q"
  using drain_loop_returns [of "p\<lparr>draining := True\<rparr>" n]
  by (auto simp: drain_def queue_weight_def)

end

section \<open>A client's own invariant\<close>

text \<open>
  A client that keeps state of its own beside the pool has an invariant of its own. Where every turn of
  the drain keeps it, and dropping queue entries does, the whole drain, a release and a withdrawal do.
\<close>

locale client_invariant = waiter_contract admitted withdrawn
  for admitted :: "('w, 'z) admitted_callback" and withdrawn :: "('w, 'z) withdrawn_callback" +
  fixes I :: "('w, 'z) pool_scheme \<Rightarrow> bool"
  assumes I_step: "\<lbrakk>pool_inv p; draining p; may_admit p; I p\<rbrakk> \<Longrightarrow> I (drain_step admitted p)"
    and I_withdrawn: "I p \<Longrightarrow> I (withdrawn w r p)"
    and I_draining: "I p \<Longrightarrow> I (p\<lparr>draining := b\<rparr>)"
    and I_queue: "I p \<Longrightarrow> I (p\<lparr>queue := filter m (queue p)\<rparr>)"
begin

lemma drain_loop_I:
  "\<lbrakk>drain_loop admitted n p = Some q; pool_inv p; draining p; I p\<rbrakk> \<Longrightarrow> I q"
proof (induction n arbitrary: p)
  case (Suc n)
  show ?case
  proof (cases "may_admit p")
    case True
    note step = drain_step_keeps [OF Suc.prems(2,3) True]
    have "drain_loop admitted n (drain_step admitted p) = Some q" using Suc.prems(1) True by simp
    then show ?thesis
      using Suc.IH step Suc.prems(3) I_step [OF Suc.prems(2,3) True Suc.prems(4)] by (simp add: same_limits_def)
  next
    case False
    then show ?thesis using Suc.prems by simp
  qed
qed simp

lemma drain_I: "\<lbrakk>drain admitted n p = Some q; pool_inv p; I p\<rbrakk> \<Longrightarrow> I q"
  using drain_loop_I [of n "p\<lparr>draining := True\<rparr>"] I_draining by (auto simp: drain_def split: if_splits)

lemma release_I:
  assumes "release admitted n l p = Some q" "pool_inv p" "known l p" "leaseId l \<in> releasedIds p \<Longrightarrow> I p"
    "leaseId l \<notin> releasedIds p \<Longrightarrow> I (release_slot l p)"
  shows "I q"
proof (cases "leaseId l \<in> releasedIds p")
  case False
  then have "drain admitted n (release_slot l p) = Some q" using assms(1) by (simp add: release_def)
  then show ?thesis using drain_I release_slot_inv(1) [OF assms(2,3)] assms(5) [OF False] by blast
qed (use assms in \<open>simp add: release_def\<close>)

lemma withdraw_I:
  assumes "withdraw withdrawn m r p = (n, q)" "I p"
  shows "I q"
proof -
  have each: "I p' \<Longrightarrow> I (fold (\<lambda>e. withdrawn (waiter e) r) es p')" for es p'
    by (induction es arbitrary: p') (simp_all add: I_withdrawn)
  have "q = fold (\<lambda>e. withdrawn (waiter e) r) (filter m (queue p)) (p\<lparr>queue := filter (\<lambda>e. \<not> m e) (queue p)\<rparr>)"
    using assms(1) by (auto simp: withdraw_def split_queue_eq)
  then show ?thesis using each [OF I_queue [OF assms(2), of "\<lambda>e. \<not> m e"], of "filter m (queue p)"] by simp
qed

end

section \<open>The callbacks of the source's clients\<close>

text \<open>
  A client's callbacks, as the calls they make on the pool: \<open>acquire\<close> makes none (it settles a
  promise), the scheduler's \<open>startQueued\<close> keeps the lease or releases it at once, and a callback may
  ask for another slot or throw.
\<close>

datatype waiter_act = ActRelease | ActThrow | ActRequest admission_request waiter_script
  and waiter_script = Script (on_admitted: "waiter_act list") (on_withdrawn: "waiter_act list")

fun run_acts :: "waiter_act list \<Rightarrow> admission_lease option \<Rightarrow> waiter_script pool \<Rightarrow> waiter_script pool \<times> bool" where
  "run_acts [] l p = (p, False)"
| "run_acts (ActRelease # as) l p =
     run_acts as l (case l of None \<Rightarrow> p | Some l' \<Rightarrow> release_slot l' p)"
| "run_acts (ActThrow # as) l p = (p, True)"
| "run_acts (ActRequest r w # as) l p = run_acts as l (snd (request_slot r (Some w) p))"

definition script_admitted :: "(waiter_script, unit) admitted_callback" where
  "script_admitted w l p = run_acts (on_admitted w) (Some l) p"

definition script_withdrawn :: "(waiter_script, unit) withdrawn_callback" where
  "script_withdrawn w r p = fst (run_acts (on_withdrawn w) None p)"

primrec act_weight :: "waiter_act \<Rightarrow> nat" and script_weight :: "waiter_script \<Rightarrow> nat" where
  "act_weight ActRelease = 0"
| "act_weight ActThrow = 0"
| "act_weight (ActRequest r w) = Suc (script_weight w)"
| "script_weight (Script as ws) = sum_list (map act_weight as)"

lemma script_weight_eq: "script_weight w = sum_list (map act_weight (on_admitted w))"
  by (cases w) simp

lemma known_mono:
  "request_slot r w p = (t, p') \<Longrightarrow> known l p \<Longrightarrow> known l p'"
  using request_slot_frame(5,6) by (fastforce simp: known_def)

lemma known_release_slot: "known l p \<Longrightarrow> known l' p \<Longrightarrow> known l' (release_slot l p)"
  by (auto simp: known_def release_slot_def Let_def)

lemma run_acts_admitted:
  "\<lbrakk>pool_inv p; known l p; run_acts as (Some l) p = (p', threw)\<rbrakk>
    \<Longrightarrow> pool_inv p' \<and> same_limits p p' \<and> known l p'"
proof (induction as arbitrary: p)
  case (Cons a as)
  show ?case
  proof (cases a)
    case ActRelease
    then have "pool_inv p' \<and> same_limits (release_slot l p) p' \<and> known l p'"
      using Cons.prems by (intro Cons.IH) (auto intro: release_slot_inv known_release_slot)
    then show ?thesis using same_limits_trans same_limits_release_slot by blast
  next
    case ActThrow
    then show ?thesis using Cons.prems by simp
  next
    case (ActRequest r w)
    obtain t q where q: "request_slot r (Some w) p = (t, q)" by fastforce
    then have "pool_inv p' \<and> same_limits q p' \<and> known l p'"
      using Cons.prems ActRequest request_slot_inv [OF Cons.prems(1) q] known_mono [OF q]
      by (intro Cons.IH) auto
    then show ?thesis using same_limits_trans same_limits_request_slot [OF q] by blast
  qed
qed simp

lemma run_acts_withdrawn:
  "\<lbrakk>pool_inv p; settled p; run_acts as None p = (p', threw)\<rbrakk>
    \<Longrightarrow> pool_inv p' \<and> settled p' \<and> same_limits p p'"
proof (induction as arbitrary: p)
  case (Cons a as)
  show ?case
  proof (cases a)
    case ActRelease
    then show ?thesis using Cons.prems Cons.IH [of p] by simp
  next
    case ActThrow
    then show ?thesis using Cons.prems by simp
  next
    case (ActRequest r w)
    obtain t q where q: "request_slot r (Some w) p = (t, q)" by fastforce
    then have "pool_inv p' \<and> settled p' \<and> same_limits q p'"
      using Cons.prems ActRequest request_slot_inv [OF Cons.prems(1) q]
        request_slot_settled [OF Cons.prems(2) q]
      by (intro Cons.IH) auto
    then show ?thesis using same_limits_trans same_limits_request_slot [OF q] by blast
  qed
qed simp

lemma request_slot_weight:
  "request_slot r (Some w) p = (t, p') \<Longrightarrow>
     queue_weight weight p' \<le> queue_weight weight p + Suc (weight w)"
  by (auto simp: request_slot_def grant_def Let_def queue_weight_def split: if_splits option.splits)

lemma run_acts_weight:
  "run_acts as l p = (p', threw) \<Longrightarrow>
     queue_weight script_weight p' \<le> queue_weight script_weight p + sum_list (map act_weight as)"
proof (induction as arbitrary: p)
  case (Cons a as)
  show ?case
  proof (cases a)
    case ActRelease
    have "queue_weight script_weight (case l of None \<Rightarrow> p | Some l' \<Rightarrow> release_slot l' p)
        = queue_weight script_weight p" by (simp add: queue_weight_def split: option.split)
    then show ?thesis using ActRelease Cons.prems
        Cons.IH [of "case l of None \<Rightarrow> p | Some l' \<Rightarrow> release_slot l' p"] by simp
  next
    case ActThrow
    then show ?thesis using Cons.prems by simp
  next
    case (ActRequest r w)
    obtain t q where q: "request_slot r (Some w) p = (t, q)" by fastforce
    then show ?thesis
      using ActRequest Cons.prems Cons.IH [of q] request_slot_weight [OF q, of script_weight] by simp
  qed
qed simp

interpretation scripts: waiter_contract script_admitted script_withdrawn
proof unfold_locales
  fix p :: "waiter_script pool" and l w p' threw
  assume "pool_inv p" "draining p" "l \<in> set (leases p)" "script_admitted w l p = (p', threw)"
  then show "pool_inv p' \<and> same_limits p p' \<and> known l p'"
    using run_acts_admitted [of p l "on_admitted w" p' threw] by (simp add: script_admitted_def known_def)
next
  fix p :: "waiter_script pool" and w r
  assume "pool_inv p" "settled p"
  then show "pool_inv (script_withdrawn w r p) \<and> settled (script_withdrawn w r p) \<and>
      same_limits p (script_withdrawn w r p)"
    using run_acts_withdrawn [of p "on_withdrawn w"]
    by (cases "run_acts (on_withdrawn w) None p") (simp add: script_withdrawn_def)
qed

interpretation terminating_scripts: terminating_waiters script_admitted script_withdrawn script_weight
  by unfold_locales (auto simp: script_admitted_def script_weight_eq dest: run_acts_weight)

section \<open>Properties\<close>

text \<open>
  C1. Whatever the clients' callbacks do through the pool's operations, in every state the pool can
  reach: no more runs hold a slot than the limit, no more wait than the queue limit, no key is held
  or waited for twice, and the per-workspace counts fair share reads are exactly the slots held.
\<close>

theorem admission_safety:
  assumes "waiter_contract admitted withdrawn" and "pool_reachable admitted withdrawn c q p"
  shows "in_flight p \<le> max 0 (nullish c default_max_concurrent_runs) \<and>
    int (length (queued p)) \<le> max 0 (nullish q default_max_queued_runs) \<and>
    distinct (keys_of (map leaseRequest (leases p)) @ keys_of (queued p)) \<and>
    (\<forall>k. is_running k p \<longleftrightarrow> k \<in> set (keys_of (map leaseRequest (leases p)))) \<and>
    (\<forall>ws. held p ws = int (length (filter (\<lambda>l. workspaceId (leaseRequest l) = ws) (leases p))))"
proof -
  from waiter_contract.pool_reachable_keeps [OF assms]
  have inv: "pool_inv p" and l: "same_limits (pool.extend (create_run_admission c q) undefined) p" by auto
  have h: "held p ws = int (leases_of ws (leases p))" for ws by (rule held_inv [OF inv])
  from inv l show ?thesis
    by (simp add: pool_inv_def same_limits_def create_run_admission_def pool.defs in_flight_def queued_def
        is_running_def h leases_of_def)
qed

definition demo_request :: "string \<Rightarrow> string \<Rightarrow> admission_request" where
  "demo_request ws k = \<lparr>workspaceId = ws, akey = Some k\<rparr>"

definition demo_pool :: "waiter_script pool" where
  "demo_pool =
     snd (request_slot (demo_request ''w2'' ''c'') (Some (Script [] []))
     (snd (request_slot (demo_request ''w1'' ''b'') (Some (Script [] []))
     (snd (request_slot (demo_request ''w1'' ''a'') None (create_run_admission (Some 1) None))))))"

lemma extend_unit: "pool.extend p () = p"
  by (cases p) (simp add: pool.defs)

lemma demo_pool_reachable: "pool_reachable script_admitted script_withdrawn (Some 1) None demo_pool"
  unfolding demo_pool_def
  by (rule reach_step [OF reach_step [OF reach_step [OF reach_start step_request] step_request] step_request,
    of _ _ _ _ "()", unfolded extend_unit])
    (rule prod.collapse [symmetric])+

lemma demo_pool_inv: "pool_inv demo_pool"
  using scripts.pool_reachable_keeps [OF demo_pool_reachable] by simp

lemmas demo_defs = demo_pool_def demo_request_def request_slot_def refusal_for_def has_free_slot_def
  create_run_admission_def grant_def held_def
  default_max_concurrent_runs_def default_max_queued_runs_def

theorem admission_safety_witness:
  "in_flight demo_pool \<le> 1 \<and> length (queued demo_pool) = 2"
proof
  show "in_flight demo_pool \<le> 1"
    using admission_safety [OF scripts.waiter_contract_axioms demo_pool_reachable] by simp
  show "length (queued demo_pool) = 2" by (simp add: queued_def demo_defs Let_def)
qed

text \<open>
  C3. No slot is left idle while a run waits: in every reachable state of a pool that was not
  stopped, a non-empty queue means every slot is held.
\<close>

theorem admission_work_conserving:
  assumes "waiter_contract admitted withdrawn" and "pool_reachable admitted withdrawn c q p"
    and "\<not> stopped p" and "queued p \<noteq> []"
  shows "in_flight p = max 0 (nullish c default_max_concurrent_runs)"
proof -
  from waiter_contract.pool_reachable_keeps [OF assms(1,2)]
  have "pool_inv p" "settled p" "same_limits (pool.extend (create_run_admission c q) undefined) p" by auto
  then show ?thesis using assms(3,4)
    by (auto simp: pool_inv_def settled_def same_limits_def create_run_admission_def pool.defs in_flight_def queued_def)
qed

theorem admission_work_conserving_witness: "in_flight demo_pool = 1"
proof -
  have "\<not> stopped demo_pool" "queued demo_pool \<noteq> []"
    by (simp_all add: queued_def demo_defs Let_def)
  then show ?thesis
    using admission_work_conserving [OF scripts.waiter_contract_axioms demo_pool_reachable] by simp
qed

text \<open>
  C5. Fair share: a freed slot goes to the waiting run whose workspace holds the fewest slots, the
  oldest among equals. Stated of one turn of \<open>drain\<close> with a callback that keeps its lease.
\<close>

theorem drain_fair_share:
  assumes "pool_inv p" and "queue p \<noteq> []"
  shows "\<exists>i < length (queue p).
     leases (drain_step (\<lambda>w l p'. (p', False)) p) =
       leases p @ [\<lparr>leaseId = nextId p, leaseRequest = request (queue p ! i)\<rparr>] \<and>
     queue (drain_step (\<lambda>w l p'. (p', False)) p) = splice_out i (queue p) \<and>
     (\<forall>j < length (queue p).
        held p (workspaceId (request (queue p ! i))) \<le> held p (workspaceId (request (queue p ! j)))) \<and>
     (\<forall>j < i.
        held p (workspaceId (request (queue p ! i))) < held p (workspaceId (request (queue p ! j))))"
proof (intro exI [of _ "next_index p"] conjI allI impI)
  let ?i = "next_index p"
  show "?i < length (queue p)" by (rule next_index_fair [OF assms])
  show "leases (drain_step (\<lambda>w l p'. (p', False)) p) =
       leases p @ [\<lparr>leaseId = nextId p, leaseRequest = request (queue p ! ?i)\<rparr>]"
    "queue (drain_step (\<lambda>w l p'. (p', False)) p) = splice_out ?i (queue p)"
    by (simp_all add: drain_step_def grant_def Let_def)
  show "held_at p ?i \<le> held_at p j" if "j < length (queue p)" for j
    by (rule next_index_fair(2) [OF assms that])
  show "held_at p ?i < held_at p j" if "j < ?i" for j
    by (rule next_index_fair(3) [OF assms that])
qed

theorem drain_fair_share_witness:
  "\<exists>i < length (queue demo_pool). queue (drain_step (\<lambda>w l p'. (p', False)) demo_pool) = splice_out i (queue demo_pool)"
proof -
  have "queue demo_pool \<noteq> []" by (simp add: demo_defs Let_def)
  then show ?thesis using drain_fair_share [OF demo_pool_inv] by blast
qed

text \<open>
  What a request becomes, on every branch: which refusal applies, when the run takes a slot at
  once, when it waits and at which place; and a refusal leaves the pool as it was.
\<close>

theorem request_slot_decision:
  "let t = fst (request_slot r w p); p' = snd (request_slot r w p);
       dup = (\<lambda>P. \<exists>k. akey r = Some k \<and> P k)
   in (t = TicketRefused RefStopped \<longleftrightarrow> stopped p) \<and>
      (t = TicketRefused RefRunning \<longleftrightarrow> \<not> stopped p \<and> dup (\<lambda>k. is_running k p)) \<and>
      (t = TicketRefused RefQueued \<longleftrightarrow>
         \<not> stopped p \<and> dup (\<lambda>k. \<not> is_running k p \<and> is_queued k p)) \<and>
      ((\<exists>l. t = TicketAdmitted l \<and> owns l p') \<longleftrightarrow> refusal_for r p = None \<and> has_free_slot p) \<and>
      (t = TicketRefused RefBusy \<longleftrightarrow> refusal_for r p = None \<and> \<not> has_free_slot p \<and> w = None) \<and>
      (t = TicketRefused RefQueueFull \<longleftrightarrow> refusal_for r p = None \<and> \<not> has_free_slot p \<and>
         w \<noteq> None \<and> maxQueuedRuns p \<le> int (length (queued p))) \<and>
      (\<forall>n. t = TicketQueued n \<longrightarrow> queued p' = queued p @ [r] \<and> n = int (length (queued p'))) \<and>
      (\<forall>why. t = TicketRefused why \<longrightarrow> p' = p)"
  by (auto simp: request_slot_def refusal_for_def is_running_def is_queued_def queued_def
      owns_def grant_def Let_def split: option.splits if_splits)

theorem request_slot_decision_witness:
  "fst (request_slot (demo_request ''w3'' ''a'') None demo_pool) = TicketRefused RefRunning"
proof -
  have "\<not> stopped demo_pool \<and> (\<exists>k. akey (demo_request ''w3'' ''a'') = Some k \<and> is_running k demo_pool)"
    by (simp add: is_running_def demo_defs Let_def)
  then show ?thesis
    using request_slot_decision [of "demo_request ''w3'' ''a''" None demo_pool]
    unfolding Let_def by blast
qed

text \<open>
  C39. Releasing a lease returns: the drain it starts ends after as many turns as the waiting runs and
  the requests their callbacks make, and leaves no run waiting beside a free slot.
\<close>

theorem release_returns:
  assumes "pool_inv p" and "settled p" and "known l p"
  shows "\<exists>q. release script_admitted (Suc (queue_weight script_weight p)) l p = Some q \<and>
    pool_inv q \<and> settled q"
proof -
  have "queue_weight script_weight (release_slot l p) = queue_weight script_weight p"
    by (simp add: queue_weight_def)
  then obtain q where "release script_admitted (Suc (queue_weight script_weight p)) l p = Some q"
    using terminating_scripts.drain_returns [OF release_slot_inv [OF assms(1,3)]]
    by (cases "leaseId l \<in> releasedIds p") (auto simp: release_def)
  then show ?thesis using scripts.release_keeps assms by blast
qed

theorem release_returns_witness:
  "\<exists>q. release script_admitted (Suc (queue_weight script_weight demo_pool)) (hd (leases demo_pool)) demo_pool
     = Some q \<and> settled q"
proof -
  have "known (hd (leases demo_pool)) demo_pool" by (simp add: known_def demo_defs Let_def)
  moreover have "settled demo_pool" using scripts.pool_reachable_keeps [OF demo_pool_reachable] by simp
  ultimately show ?thesis using release_returns [OF demo_pool_inv] by blast
qed

lemma run_acts_stopped: "stopped p \<Longrightarrow> fst (run_acts as None p) = p"
  by (induction as "None :: admission_lease option" p rule: run_acts.induct)
    (simp_all add: request_slot_def refusal_for_def)

lemma fold_script_withdrawn_stopped:
  "stopped p \<Longrightarrow> fold (\<lambda>e. script_withdrawn (waiter e) r) es p = p"
  by (induction es) (simp_all add: script_withdrawn_def run_acts_stopped)

text \<open>
  Stopping withdraws every waiting run, whatever their callbacks ask for, frees no held slot, and
  refuses every later request.
\<close>

theorem stop_empties_queue:
  "queued (stop script_withdrawn p) = [] \<and> leases (stop script_withdrawn p) = leases p \<and>
   fst (request_slot r w (stop script_withdrawn p)) = TicketRefused RefStopped"
proof -
  have "stop script_withdrawn p = p\<lparr>stopped := True, queue := []\<rparr>"
    by (simp add: stop_def withdraw_def split_queue_eq fold_script_withdrawn_stopped)
  then show ?thesis by (simp add: queued_def request_slot_def refusal_for_def)
qed

end
