(* ===== verification/Spend.thy ===== *)
theory Spend
  imports Complex_Main Prelude
begin

text \<open>
  Spend accounts (\<open>src/runtime/spend.ts\<close>) and the cost arithmetic they charge with
  (\<open>costBreakdown\<close> of \<open>src/usage/cost.ts\<close>).

  The store's closure state is a map from account ids to \<open>live\<close> balances; the closure of one
  \<open>open\<close> call is a \<open>hold\<close>. \<open>spend_state\<close> is the store with the holds opened on it, so that runs
  sharing an account can be interleaved. An access of a missing id (\<open>live.get(id)!\<close>) throws in the
  source and is \<open>None\<close> here.
\<close>

section \<open>Prices\<close>

record rate_card =
  rate_input :: rat
  rate_output :: rat
  rate_cacheRead :: rat
  rate_cacheWrite5m :: rat
  rate_cacheWrite1h :: rat
  rate_reasoning :: "rat option"

record usage_rate_tier = rate_card +
  aboveInputTokens :: tokens

record usage_rates = rate_card +
  tiers :: "usage_rate_tier list"

record token_usage =
  inputTokens :: tokens
  outputTokens :: tokens
  cacheReadTokens :: "tokens option"
  cacheWriteTokens :: "tokens option"
  reasoningTokens :: "tokens option"
  cacheWrite1hTokens :: "tokens option"

record cost_breakdown_usd =
  cost_input :: rat
  cost_output :: rat
  cost_cacheRead :: rat
  cost_cacheWrite :: rat
  cost_total :: rat

definition zero_breakdown :: cost_breakdown_usd where
  "zero_breakdown = \<lparr>cost_input = 0, cost_output = 0, cost_cacheRead = 0, cost_cacheWrite = 0, cost_total = 0\<rparr>"

text \<open>A catalog card, and \<open>flattenCard\<close>, \<open>flattenTier\<close>, \<open>resolveRates\<close>; the catalog is a parameter.\<close>

record model_cost =
  mc_input :: rat
  mc_output :: rat
  mc_cacheRead :: "rat option"
  mc_cacheWrite :: "rat option"
  mc_reasoning :: "rat option"

record model_cost_tier = model_cost +
  mc_aboveInputTokens :: tokens

record model_cost_card = model_cost +
  mc_tiers :: "model_cost_tier list"

definition one_hour_cache_write_multiplier :: rat where "one_hour_cache_write_multiplier = 2"
definition five_min_cache_write_multiplier :: rat where "five_min_cache_write_multiplier = 5 / 4"

definition flatten_card :: "model_cost \<Rightarrow> rate_card" where
  "flatten_card c = \<lparr>rate_input = mc_input c, rate_output = mc_output c,
     rate_cacheRead = nullish (mc_cacheRead c) (mc_input c),
     rate_cacheWrite5m = nullish (mc_cacheWrite c) (mc_input c * five_min_cache_write_multiplier),
     rate_cacheWrite1h = mc_input c * one_hour_cache_write_multiplier,
     rate_reasoning = mc_reasoning c\<rparr>"

definition flatten_tier :: "model_cost_tier \<Rightarrow> usage_rate_tier" where
  "flatten_tier t = rate_card.extend (flatten_card (model_cost.truncate t)) \<lparr>aboveInputTokens = mc_aboveInputTokens t\<rparr>"

definition resolve_rates :: "(string \<Rightarrow> model_cost_card option) \<Rightarrow> string \<Rightarrow> usage_rates option" where
  "resolve_rates catalog m = map_option (\<lambda>c.
     rate_card.extend (flatten_card (model_cost.truncate c)) \<lparr>tiers = map flatten_tier (mc_tiers c)\<rparr>)
     (catalog m)"

definition card_for :: "usage_rates \<Rightarrow> tokens \<Rightarrow> rate_card" where
  "card_for rates n =
     fold (\<lambda>t c. if n > aboveInputTokens t then rate_card.truncate t else c)
       (tiers rates) (rate_card.truncate rates)"

definition cost_on :: "rate_card \<Rightarrow> token_usage \<Rightarrow> cost_breakdown_usd" where
  "cost_on c u =
     (let cacheRead = nullish (cacheReadTokens u) 0;
          cacheWrite = nullish (cacheWriteTokens u) 0;
          inputNonCached = max (inputTokens u - cacheRead - cacheWrite) 0;
          reasoning = nullish (reasoningTokens u) 0;
          outputNonReasoning = (case rate_reasoning c of
             Some _ \<Rightarrow> max (outputTokens u - reasoning) 0 | None \<Rightarrow> outputTokens u);
          reasoningCost = (case rate_reasoning c of Some r \<Rightarrow> of_int reasoning * r | None \<Rightarrow> 0);
          inp = of_int inputNonCached * rate_input c / 1000000;
          out = (of_int outputNonReasoning * rate_output c + reasoningCost) / 1000000;
          cacheReadCost = of_int cacheRead * rate_cacheRead c / 1000000;
          cacheWrite1h = nullish (cacheWrite1hTokens u) cacheWrite;
          cacheWrite5m = max (cacheWrite - cacheWrite1h) 0;
          cacheWriteCost = (of_int cacheWrite1h * rate_cacheWrite1h c
             + of_int cacheWrite5m * rate_cacheWrite5m c) / 1000000
      in \<lparr>cost_input = inp, cost_output = out, cost_cacheRead = cacheReadCost,
          cost_cacheWrite = cacheWriteCost, cost_total = inp + out + cacheReadCost + cacheWriteCost\<rparr>)"

definition cost_breakdown ::
  "(string \<Rightarrow> model_cost_card option) \<Rightarrow> string \<Rightarrow> token_usage \<Rightarrow> usage_rates option \<Rightarrow> cost_breakdown_usd" where
  "cost_breakdown catalog m u rates =
     (case (case rates of Some r \<Rightarrow> Some r | None \<Rightarrow> resolve_rates catalog m) of
        None \<Rightarrow> zero_breakdown
      | Some stored \<Rightarrow> cost_on (card_for stored (inputTokens u)) u)"

section \<open>Accounts\<close>

datatype spend_unit = Usd | InputTokens | OutputTokens

record spend_account =
  account_id :: string
  account_unit :: spend_unit
  remaining :: rat

record spend_pricing =
  rates :: "usage_rates option"
  model :: string

definition spend_in ::
  "(string \<Rightarrow> model_cost_card option) \<Rightarrow> spend_unit \<Rightarrow> token_usage \<Rightarrow> spend_pricing \<Rightarrow> rat" where
  "spend_in catalog unit u pricing =
     (case unit of
        InputTokens \<Rightarrow> of_int (inputTokens u)
      | OutputTokens \<Rightarrow> of_int (outputTokens u)
      | Usd \<Rightarrow> (case rates pricing of
                  None \<Rightarrow> 0
                | Some r \<Rightarrow> cost_total (cost_breakdown catalog (model pricing) u (Some r))))"

record worst =
  worst_input :: rat
  worst_output :: rat

text \<open>\<open>Math.max(...xs)\<close> over a non-empty spread, and \<open>worstRates\<close>.\<close>

fun max_of :: "rat list \<Rightarrow> rat" where
  "max_of [] = 0"
| "max_of [x] = x"
| "max_of (x # xs) = max x (max_of xs)"

definition worst_input_of :: "rate_card \<Rightarrow> rat" where
  "worst_input_of c = max (rate_input c) (max (rate_cacheRead c) (max (rate_cacheWrite5m c) (rate_cacheWrite1h c)))"

definition worst_output_of :: "rate_card \<Rightarrow> rat" where
  "worst_output_of c = max (rate_output c) (nullish (rate_reasoning c) 0)"

definition rate_cards :: "usage_rates \<Rightarrow> rate_card list" where
  "rate_cards r = rate_card.truncate r # map rate_card.truncate (tiers r)"

definition worst_rates :: "usage_rates \<Rightarrow> worst" where
  "worst_rates r = \<lparr>worst_input = max_of (map worst_input_of (rate_cards r)) / 1000000,
     worst_output = max_of (map worst_output_of (rate_cards r)) / 1000000\<rparr>"

text \<open>A number of tokens that may be \<open>Infinity\<close>; \<open>null\<close> is \<open>None\<close>.\<close>

datatype allowance = Unlimited | AtMost int

definition output_allowance :: "spend_unit \<Rightarrow> rat \<Rightarrow> tokens \<Rightarrow> worst option \<Rightarrow> allowance option" where
  "output_allowance unit available inp w =
     (case unit of
        InputTokens \<Rightarrow> if of_int inp > available then None else Some Unlimited
      | OutputTokens \<Rightarrow> Some (AtMost \<lfloor>available\<rfloor>)
      | Usd \<Rightarrow> (case w of
                  None \<Rightarrow> None
                | Some r \<Rightarrow>
                    let afterInput = available - of_int inp * worst_input r
                    in if afterInput < 0 then None
                       else if worst_output r > 0 then Some (AtMost \<lfloor>afterInput / worst_output r\<rfloor>)
                       else Some Unlimited))"

definition projected_cost :: "spend_unit \<Rightarrow> tokens \<Rightarrow> tokens \<Rightarrow> worst option \<Rightarrow> rat" where
  "projected_cost unit inp out w =
     (case unit of
        InputTokens \<Rightarrow> of_int inp
      | OutputTokens \<Rightarrow> of_int out
      | Usd \<Rightarrow> (case w of None \<Rightarrow> 0
                | Some r \<Rightarrow> of_int inp * worst_input r + of_int out * worst_output r))"

fun min_allowed :: "int \<Rightarrow> allowance \<Rightarrow> int" where
  "min_allowed n Unlimited = n"
| "min_allowed n (AtMost m) = min n m"

section \<open>Balances and holds\<close>

record live =
  unit :: spend_unit
  balance :: rat
  reserved :: rat
  holders :: int

type_synonym lives = "string \<Rightarrow> live option"

record hold =
  ids :: "string list"
  hold_worst :: "worst option"
  hold_pricing :: spend_pricing
  reservation :: "(string \<times> rat) list"
  hold_released :: bool

text \<open>The loop of \<open>open\<close> over the named accounts: the ids so far and the store.\<close>

fun open_loop :: "spend_account list \<Rightarrow> string list \<Rightarrow> lives \<Rightarrow> string list \<times> lives" where
  "open_loop [] is lv = (is, lv)"
| "open_loop (a # as) is lv =
     (if account_id a \<in> set is then open_loop as is lv
      else open_loop as (is @ [account_id a])
        (lv(account_id a \<mapsto>
          (case lv (account_id a) of
             Some e \<Rightarrow> e\<lparr>holders := holders e + 1\<rparr>
           | None \<Rightarrow> \<lparr>unit = account_unit a, balance = remaining a, reserved = 0, holders = 1\<rparr>))))"

definition spend_open :: "spend_account list \<Rightarrow> spend_pricing \<Rightarrow> lives \<Rightarrow> hold \<times> lives" where
  "spend_open accounts pricing lv =
     (let (is, lv') = open_loop accounts [] lv
      in (\<lparr>ids = is, hold_worst = map_option worst_rates (rates pricing), hold_pricing = pricing,
           reservation = [], hold_released = False\<rparr>, lv'))"

definition spend_balance :: "string \<Rightarrow> lives \<Rightarrow> rat option" where
  "spend_balance i lv = map_option balance (lv i)"

fun unreserve_loop :: "(string \<times> rat) list \<Rightarrow> lives \<Rightarrow> lives option" where
  "unreserve_loop [] lv = Some lv"
| "unreserve_loop ((i, a) # rs) lv =
     (case lv i of None \<Rightarrow> None
      | Some e \<Rightarrow> unreserve_loop rs (lv(i \<mapsto> e\<lparr>reserved := reserved e - a\<rparr>)))"

record spend_call =
  call_inputTokens :: tokens
  call_maxOutputTokens :: tokens
  call_minOutputTokens :: tokens

datatype check_result = Allowed tokens | RefusedBy string

text \<open>The first loop of \<open>check\<close>: what every account leaves for output, or the account that refuses.\<close>

fun check_loop :: "string list \<Rightarrow> tokens \<Rightarrow> worst option \<Rightarrow> tokens \<Rightarrow> tokens \<Rightarrow> lives \<Rightarrow> check_result option" where
  "check_loop [] inp w minOut allowed lv = Some (Allowed allowed)"
| "check_loop (i # is) inp w minOut allowed lv =
     (case lv i of None \<Rightarrow> None
      | Some e \<Rightarrow>
          (case output_allowance (unit e) (balance e - reserved e) inp w of
             None \<Rightarrow> Some (RefusedBy i)
           | Some a \<Rightarrow>
               let allowed' = min_allowed allowed a
               in if allowed' < minOut then Some (RefusedBy i)
                  else check_loop is inp w minOut allowed' lv))"

text \<open>The second loop: reserve the worst case on every account.\<close>

fun reserve_loop ::
  "string list \<Rightarrow> tokens \<Rightarrow> tokens \<Rightarrow> worst option \<Rightarrow> (string \<times> rat) list \<Rightarrow> lives
    \<Rightarrow> ((string \<times> rat) list \<times> lives) option" where
  "reserve_loop [] inp allowed w rs lv = Some (rs, lv)"
| "reserve_loop (i # is) inp allowed w rs lv =
     (case lv i of None \<Rightarrow> None
      | Some e \<Rightarrow>
          let amount = projected_cost (unit e) inp allowed w
          in reserve_loop is inp allowed w (jset i amount rs)
               (lv(i \<mapsto> e\<lparr>reserved := reserved e + amount\<rparr>)))"

definition check :: "spend_call \<Rightarrow> hold \<Rightarrow> lives \<Rightarrow> (check_result \<times> hold \<times> lives) option" where
  "check call h lv =
     Option.bind (unreserve_loop (reservation h) lv) (\<lambda>lv1.
       let h1 = h\<lparr>reservation := []\<rparr>;
           minOut = min (call_minOutputTokens call) (call_maxOutputTokens call)
       in Option.bind
            (check_loop (ids h) (call_inputTokens call) (hold_worst h) minOut (call_maxOutputTokens call) lv1)
            (\<lambda>res. case res of
               RefusedBy i \<Rightarrow> Some (RefusedBy i, h1, lv1)
             | Allowed n \<Rightarrow>
                 map_option (\<lambda>(rs, lv2). (Allowed n, h1\<lparr>reservation := rs\<rparr>, lv2))
                   (reserve_loop (ids h) (call_inputTokens call) n (hold_worst h) [] lv1)))"

fun debit_loop :: "string list \<Rightarrow> (spend_unit \<Rightarrow> rat) \<Rightarrow> lives \<Rightarrow> lives option" where
  "debit_loop [] cost lv = Some lv"
| "debit_loop (i # is) cost lv =
     (case lv i of None \<Rightarrow> None
      | Some e \<Rightarrow> debit_loop is cost (lv(i \<mapsto> e\<lparr>balance := balance e - cost (unit e)\<rparr>)))"

definition debit ::
  "(string \<Rightarrow> model_cost_card option) \<Rightarrow> token_usage \<Rightarrow> hold \<Rightarrow> lives \<Rightarrow> (hold \<times> lives) option" where
  "debit catalog actual h lv =
     Option.bind (unreserve_loop (reservation h) lv) (\<lambda>lv1.
       map_option (\<lambda>lv2. (h\<lparr>reservation := []\<rparr>, lv2))
         (debit_loop (ids h) (\<lambda>un. spend_in catalog un actual (hold_pricing h)) lv1))"

fun release_loop :: "string list \<Rightarrow> lives \<Rightarrow> lives option" where
  "release_loop [] lv = Some lv"
| "release_loop (i # is) lv =
     (case lv i of None \<Rightarrow> None
      | Some e \<Rightarrow>
          release_loop is (if holders e - 1 = 0 then lv(i := None)
                           else lv(i \<mapsto> e\<lparr>holders := holders e - 1\<rparr>)))"

definition release_hold :: "hold \<Rightarrow> lives \<Rightarrow> (hold \<times> lives) option" where
  "release_hold h lv =
     (if hold_released h then Some (h, lv)
      else Option.bind (unreserve_loop (reservation h) lv) (\<lambda>lv1.
             map_option (\<lambda>lv2. (h\<lparr>reservation := [], hold_released := True\<rparr>, lv2))
               (release_loop (ids h) lv1)))"

section \<open>What each loop does\<close>

abbreviation res_of :: "(string \<times> rat) list \<Rightarrow> string \<Rightarrow> rat" where
  "res_of rs i \<equiv> nullish (map_of rs i) 0"

lemma unreserve_loop_eq:
  "\<lbrakk>distinct (map fst rs); \<forall>i \<in> fst ` set rs. lv i \<noteq> None\<rbrakk> \<Longrightarrow>
     unreserve_loop rs lv = Some (\<lambda>i. map_option (\<lambda>e. e\<lparr>reserved := reserved e - res_of rs i\<rparr>) (lv i))"
proof (induction rs arbitrary: lv)
  case Nil
  then show ?case by (simp add: option.map_ident)
next
  case (Cons r rs)
  obtain i a where r: "r = (i, a)" by fastforce
  with Cons.prems obtain e where e: "lv i = Some e" by auto
  let ?lv = "lv(i \<mapsto> e\<lparr>reserved := reserved e - a\<rparr>)"
  have n: "map_of rs i = None" using Cons.prems r by (auto simp: map_of_eq_None_iff)
  have "unreserve_loop rs ?lv = Some (\<lambda>i. map_option (\<lambda>e. e\<lparr>reserved := reserved e - res_of rs i\<rparr>) (?lv i))"
    using Cons.prems by (intro Cons.IH) auto
  moreover have "map_option (\<lambda>e. e\<lparr>reserved := reserved e - res_of rs k\<rparr>) (?lv k) =
      map_option (\<lambda>e. e\<lparr>reserved := reserved e - res_of (r # rs) k\<rparr>) (lv k)" for k
    using n e r by simp
  ultimately show ?case by (simp add: r e)
qed

lemma reserve_loop_eq:
  "\<lbrakk>distinct is; \<forall>i \<in> set is. lv i \<noteq> None; set is \<inter> fst ` set rs = {}\<rbrakk> \<Longrightarrow>
     \<exists>rs'. reserve_loop is inp n w rs lv =
       Some (rs @ rs', \<lambda>i. if i \<in> set is
         then map_option (\<lambda>e. e\<lparr>reserved := reserved e + projected_cost (unit e) inp n w\<rparr>) (lv i) else lv i) \<and>
       map fst rs' = is \<and> (\<forall>i \<in> set is. \<forall>e. lv i = Some e \<longrightarrow> map_of rs' i = Some (projected_cost (unit e) inp n w))"
proof (induction "is" arbitrary: rs lv)
  case (Cons i "is")
  from Cons.prems obtain e where e: "lv i = Some e" by auto
  define a where "a = projected_cost (unit e) inp n w"
  have j: "jset i a rs = rs @ [(i, a)]"
  proof -
    have "i \<notin> fst ` set rs" using Cons.prems by auto
    then show ?thesis by (induction rs) auto
  qed
  have "\<exists>rs'. reserve_loop is inp n w (rs @ [(i, a)]) (lv(i \<mapsto> e\<lparr>reserved := reserved e + a\<rparr>)) =
       Some ((rs @ [(i, a)]) @ rs', \<lambda>k. if k \<in> set is
         then map_option (\<lambda>e. e\<lparr>reserved := reserved e + projected_cost (unit e) inp n w\<rparr>)
           ((lv(i \<mapsto> e\<lparr>reserved := reserved e + a\<rparr>)) k) else (lv(i \<mapsto> e\<lparr>reserved := reserved e + a\<rparr>)) k) \<and>
       map fst rs' = is \<and> (\<forall>k \<in> set is. \<forall>e'. (lv(i \<mapsto> e\<lparr>reserved := reserved e + a\<rparr>)) k = Some e' \<longrightarrow>
          map_of rs' k = Some (projected_cost (unit e') inp n w))"
    using Cons.prems by (intro Cons.IH) auto
  then obtain rs' where rs': "reserve_loop is inp n w (rs @ [(i, a)]) (lv(i \<mapsto> e\<lparr>reserved := reserved e + a\<rparr>)) =
       Some ((rs @ [(i, a)]) @ rs', \<lambda>k. if k \<in> set is
         then map_option (\<lambda>e. e\<lparr>reserved := reserved e + projected_cost (unit e) inp n w\<rparr>)
           ((lv(i \<mapsto> e\<lparr>reserved := reserved e + a\<rparr>)) k) else (lv(i \<mapsto> e\<lparr>reserved := reserved e + a\<rparr>)) k)"
    "map fst rs' = is" "\<And>k e'. k \<in> set is \<Longrightarrow> k \<noteq> i \<Longrightarrow> lv k = Some e' \<Longrightarrow>
          map_of rs' k = Some (projected_cost (unit e') inp n w)" by auto
  show ?case
    using Cons.prems rs' e
    by (intro exI [of _ "(i, a) # rs'"]) (auto simp: Let_def a_def j [unfolded a_def] fun_eq_iff)
qed simp

lemma debit_loop_eq:
  "\<lbrakk>distinct is; \<forall>i \<in> set is. lv i \<noteq> None\<rbrakk> \<Longrightarrow>
     debit_loop is cost lv = Some (\<lambda>i. if i \<in> set is
       then map_option (\<lambda>e. e\<lparr>balance := balance e - cost (unit e)\<rparr>) (lv i) else lv i)"
  by (induction "is" cost lv rule: debit_loop.induct) (auto simp: fun_eq_iff split: option.splits)

lemma release_loop_eq:
  "\<lbrakk>distinct is; \<forall>i \<in> set is. lv i \<noteq> None\<rbrakk> \<Longrightarrow>
     release_loop is lv = Some (\<lambda>i. if i \<in> set is
       then Option.bind (lv i) (\<lambda>e. if holders e = 1 then None else Some (e\<lparr>holders := holders e - 1\<rparr>))
       else lv i)"
proof (induction "is" arbitrary: lv)
  case (Cons i "is")
  then obtain e where e: "lv i = Some e" by auto
  let ?lv = "if holders e - 1 = 0 then lv(i := None) else lv(i \<mapsto> e\<lparr>holders := holders e - 1\<rparr>)"
  have other: "?lv k = lv k" if "k \<noteq> i" for k using that by simp
  have "\<forall>k \<in> set is. ?lv k \<noteq> None" using Cons.prems other by (metis distinct.simps(2) list.set_intros(2))
  then have "release_loop is ?lv = Some (\<lambda>k. if k \<in> set is
       then Option.bind (?lv k) (\<lambda>e. if holders e = 1 then None else Some (e\<lparr>holders := holders e - 1\<rparr>))
       else ?lv k)"
    using Cons.prems by (intro Cons.IH) simp_all
  then show ?case using Cons.prems e by (auto simp: fun_eq_iff)
qed simp

text \<open>What \<open>open\<close> makes of one id it names for the first time.\<close>

definition opened :: "spend_account list \<Rightarrow> lives \<Rightarrow> string \<Rightarrow> live option" where
  "opened as lv i = (case lv i of
     Some e \<Rightarrow> Some (e\<lparr>holders := holders e + 1\<rparr>)
   | None \<Rightarrow> map_option (\<lambda>a. \<lparr>unit = account_unit a, balance = remaining a, reserved = 0, holders = 1\<rparr>)
       (find (\<lambda>a. account_id a = i) as))"

lemma opened_Cons_other: "account_id a \<noteq> i \<Longrightarrow> opened (a # as) lv i = opened as lv i"
  by (simp add: opened_def split: option.split)

lemma open_loop_eq:
  "\<lbrakk>open_loop as is0 lv = (is, lv'); distinct is0\<rbrakk> \<Longrightarrow>
    distinct is \<and> set is = set is0 \<union> account_id ` set as \<and>
    (\<forall>i. lv' i = (if i \<in> set is0 \<or> i \<notin> account_id ` set as then lv i else opened as lv i))"
proof (induction as arbitrary: is0 lv)
  case (Cons a as)
  show ?case
  proof (cases "account_id a \<in> set is0")
    case True
    then have "opened (a # as) lv i = opened as lv i" if "i \<notin> set is0" for i
      using opened_Cons_other [of a i as lv] that by blast
    then show ?thesis using True Cons.IH [of is0 lv] Cons.prems by auto
  next
    case False
    let ?i = "account_id a"
    let ?e = "case lv ?i of Some e \<Rightarrow> e\<lparr>holders := holders e + 1\<rparr>
           | None \<Rightarrow> \<lparr>unit = account_unit a, balance = remaining a, reserved = 0, holders = 1\<rparr>"
    have o: "Some ?e = opened (a # as) lv ?i" by (simp add: opened_def split: option.split)
    have new: "open_loop as (is0 @ [?i]) (lv(?i \<mapsto> ?e)) = (is, lv')" "distinct (is0 @ [?i])"
      using Cons.prems False by simp_all
    from Cons.IH [OF new] have *: "distinct is" "set is = set (is0 @ [?i]) \<union> account_id ` set as"
      "\<And>i. lv' i = (if i \<in> set (is0 @ [?i]) \<or> i \<notin> account_id ` set as then (lv(?i \<mapsto> ?e)) i
         else opened as (lv(?i \<mapsto> ?e)) i)" by blast+
    have "lv' i = (if i \<in> set is0 \<or> i \<notin> account_id ` set (a # as) then lv i else opened (a # as) lv i)" for i
    proof (cases "i = ?i")
      case True
      then show ?thesis using *(3) False o by simp
    next
      case ne: False
      then have "opened as (lv(?i \<mapsto> ?e)) i = opened (a # as) lv i"
        using opened_Cons_other [of a i as lv] by (simp add: opened_def)
      then show ?thesis using *(3) ne by simp
    qed
    then show ?thesis using *(1,2) by auto
  qed
qed auto

section \<open>Allowances and reservations\<close>

fun fits :: "int \<Rightarrow> allowance \<Rightarrow> bool" where
  "fits n Unlimited = True"
| "fits n (AtMost m) = (n \<le> m)"

lemma fits_min_allowed: "fits (min_allowed n a) a" "min_allowed n a \<le> n"
  by (cases a, simp_all)+

lemma fits_mono: "fits n a \<Longrightarrow> m \<le> n \<Longrightarrow> fits m a"
  by (cases a) auto

definition worst_ok :: "worst option \<Rightarrow> bool" where
  "worst_ok w \<longleftrightarrow> (\<forall>r. w = Some r \<longrightarrow> 0 \<le> worst_input r \<and> 0 \<le> worst_output r)"

text \<open>What an account allows is what it can pay for.\<close>

lemma allowance_covers:
  assumes "output_allowance un av inp w = Some a" and "fits n a" and "0 \<le> n"
  shows "projected_cost un inp n w \<le> av"
proof (cases un)
  case Usd
  then obtain r where w: "w = Some r" using assms(1) by (auto simp: output_allowance_def split: option.splits)
  let ?after = "av - of_int inp * worst_input r"
  have after: "0 \<le> ?after" using assms(1) by (auto simp: output_allowance_def Usd w Let_def split: if_splits)
  have "of_int n * worst_output r \<le> ?after"
  proof (cases "worst_output r > 0")
    case True
    then have "n \<le> \<lfloor>?after / worst_output r\<rfloor>" using assms after
      by (auto simp: output_allowance_def Usd w Let_def)
    then have "of_int n \<le> ?after / worst_output r" by (simp add: le_floor_iff)
    then show ?thesis using True by (simp add: pos_le_divide_eq)
  next
    case False
    then have "of_int n * worst_output r \<le> 0" using assms(3)
      by (intro mult_nonneg_nonpos) auto
    then show ?thesis using after by linarith
  qed
  then show ?thesis by (simp add: projected_cost_def Usd w algebra_simps)
qed (use assms in \<open>auto simp: output_allowance_def projected_cost_def le_floor_iff split: if_splits\<close>)

lemma projected_cost_nonneg:
  "\<lbrakk>0 \<le> inp; 0 \<le> n; worst_ok w\<rbrakk> \<Longrightarrow> 0 \<le> projected_cost un inp n w"
  by (cases un) (auto simp: projected_cost_def worst_ok_def split: option.split)

lemma check_loop_Allowed:
  "check_loop is inp w minOut n0 lv = Some (Allowed n) \<Longrightarrow>
     n \<le> n0 \<and> (is \<noteq> [] \<longrightarrow> minOut \<le> n) \<and>
     (\<forall>i \<in> set is. \<exists>e a. lv i = Some e \<and>
        output_allowance (unit e) (balance e - reserved e) inp w = Some a \<and> fits n a)"
proof (induction "is" inp w minOut n0 lv rule: check_loop.induct)
  case (2 i "is" inp w minOut n0 lv)
  from "2.prems" obtain e a where e: "lv i = Some e"
      "output_allowance (unit e) (balance e - reserved e) inp w = Some a"
      "\<not> min_allowed n0 a < minOut"
      "check_loop is inp w minOut (min_allowed n0 a) lv = Some (Allowed n)"
    by (auto simp: Let_def split: option.splits if_splits)
  have IH: "n \<le> min_allowed n0 a \<and> (is \<noteq> [] \<longrightarrow> minOut \<le> n) \<and>
     (\<forall>i \<in> set is. \<exists>e a. lv i = Some e \<and>
        output_allowance (unit e) (balance e - reserved e) inp w = Some a \<and> fits n a)"
    using "2.IH" [OF e(1,2) refl e(3,4)] .
  have "minOut \<le> n" using e IH by (cases "is") auto
  moreover have "fits n a" using IH fits_min_allowed fits_mono by blast
  ultimately show ?case using IH e fits_min_allowed(2) [of n0 a] by auto
qed simp

lemma check_loop_RefusedBy:
  "check_loop is inp w minOut n0 lv = Some (RefusedBy i) \<Longrightarrow> i \<in> set is"
  by (induction "is" inp w minOut n0 lv rule: check_loop.induct)
    (auto simp: Let_def split: option.splits if_splits)

lemma check_loop_total:
  "\<forall>i \<in> set is. lv i \<noteq> None \<Longrightarrow> \<exists>r. check_loop is inp w minOut n0 lv = Some r"
  by (induction "is" inp w minOut n0 lv rule: check_loop.induct)
    (fastforce simp: Let_def split: option.splits)+

section \<open>The store with its holds\<close>

record spend_state =
  st_live :: lives
  st_holds :: "hold list"

definition rsum :: "string \<Rightarrow> hold list \<Rightarrow> rat" where
  "rsum i hs = (\<Sum>h\<leftarrow>hs. res_of (reservation h) i)"

definition holds_id :: "string \<Rightarrow> hold \<Rightarrow> bool" where
  "holds_id i h \<longleftrightarrow> \<not> hold_released h \<and> i \<in> set (ids h)"

definition hcount :: "string \<Rightarrow> hold list \<Rightarrow> int" where
  "hcount i hs = (\<Sum>h\<leftarrow>hs. if holds_id i h then 1 else 0)"

definition rate_card_ok :: "'a rate_card_scheme \<Rightarrow> bool" where
  "rate_card_ok c \<longleftrightarrow> 0 \<le> rate_input c \<and> 0 \<le> rate_output c \<and> 0 \<le> rate_cacheRead c \<and>
     0 \<le> rate_cacheWrite5m c \<and> 0 \<le> rate_cacheWrite1h c \<and> (\<forall>r. rate_reasoning c = Some r \<longrightarrow> 0 \<le> r)"

definition rates_ok :: "usage_rates \<Rightarrow> bool" where
  "rates_ok r \<longleftrightarrow> rate_card_ok r \<and> (\<forall>t \<in> set (tiers r). rate_card_ok t)"

definition hold_ok :: "hold \<Rightarrow> bool" where
  "hold_ok h \<longleftrightarrow> distinct (ids h) \<and> distinct (map fst (reservation h)) \<and>
     fst ` set (reservation h) \<subseteq> set (ids h) \<and> (\<forall>x \<in> set (reservation h). 0 \<le> snd x) \<and>
     (hold_released h \<longrightarrow> reservation h = []) \<and> worst_ok (hold_worst h) \<and>
     hold_worst h = map_option worst_rates (rates (hold_pricing h)) \<and>
     (\<forall>r. rates (hold_pricing h) = Some r \<longrightarrow> rates_ok r)"

text \<open>
  Every hold is well formed and finds its accounts; an account counts its holders, its reserved
  amount is the sum of the outstanding reservations, and it can pay for them.
\<close>

definition spend_inv :: "spend_state \<Rightarrow> bool" where
  "spend_inv s \<longleftrightarrow>
     (\<forall>h \<in> set (st_holds s). hold_ok h) \<and>
     (\<forall>h \<in> set (st_holds s). \<forall>i. holds_id i h \<longrightarrow> st_live s i \<noteq> None) \<and>
     (\<forall>i e. st_live s i = Some e \<longrightarrow>
        holders e = hcount i (st_holds s) \<and> 0 < hcount i (st_holds s) \<and>
        reserved e = rsum i (st_holds s) \<and> reserved e \<le> balance e)"

definition call_ok :: "spend_call \<Rightarrow> bool" where
  "call_ok c \<longleftrightarrow> 0 \<le> call_inputTokens c \<and> 0 \<le> call_maxOutputTokens c \<and> 0 \<le> call_minOutputTokens c"

text \<open>An actual usage whose cost stays within what the run reserved on each of its accounts.\<close>

definition covered :: "(string \<Rightarrow> model_cost_card option) \<Rightarrow> token_usage \<Rightarrow> hold \<Rightarrow> lives \<Rightarrow> bool" where
  "covered catalog u h lv \<longleftrightarrow> (\<forall>i \<in> set (ids h). \<forall>e. lv i = Some e \<longrightarrow>
     spend_in catalog (unit e) u (hold_pricing h) \<le> res_of (reservation h) i)"

inductive spend_step :: "(string \<Rightarrow> model_cost_card option) \<Rightarrow> spend_state \<Rightarrow> spend_state \<Rightarrow> bool"
  for catalog where
  spend_step_open:
    "\<lbrakk>\<forall>a \<in> set accounts. 0 \<le> remaining a; \<forall>r. rates pricing = Some r \<longrightarrow> rates_ok r;
      spend_open accounts pricing (st_live s) = (h, lv)\<rbrakk>
     \<Longrightarrow> spend_step catalog s \<lparr>st_live = lv, st_holds = st_holds s @ [h]\<rparr>"
| spend_step_check:
    "\<lbrakk>k < length (st_holds s); \<not> hold_released (st_holds s ! k); call_ok c;
      check c (st_holds s ! k) (st_live s) = Some (r, h, lv)\<rbrakk>
     \<Longrightarrow> spend_step catalog s \<lparr>st_live = lv, st_holds = (st_holds s)[k := h]\<rparr>"
| spend_step_debit:
    "\<lbrakk>k < length (st_holds s); \<not> hold_released (st_holds s ! k);
      covered catalog u (st_holds s ! k) (st_live s);
      debit catalog u (st_holds s ! k) (st_live s) = Some (h, lv)\<rbrakk>
     \<Longrightarrow> spend_step catalog s \<lparr>st_live = lv, st_holds = (st_holds s)[k := h]\<rparr>"
| spend_step_release:
    "\<lbrakk>k < length (st_holds s); release_hold (st_holds s ! k) (st_live s) = Some (h, lv)\<rbrakk>
     \<Longrightarrow> spend_step catalog s \<lparr>st_live = lv, st_holds = (st_holds s)[k := h]\<rparr>"

inductive spend_reachable :: "(string \<Rightarrow> model_cost_card option) \<Rightarrow> spend_state \<Rightarrow> bool"
  for catalog where
  spend_start: "spend_reachable catalog \<lparr>st_live = Map.empty, st_holds = []\<rparr>"
| spend_next: "\<lbrakk>spend_reachable catalog s; spend_step catalog s s'\<rbrakk> \<Longrightarrow> spend_reachable catalog s'"

section \<open>The invariant is kept\<close>

lemma rsum_simps [simp]:
  "rsum i [] = 0" "rsum i (hs @ [h]) = rsum i hs + res_of (reservation h) i"
  by (simp_all add: rsum_def)

lemma hcount_simps [simp]:
  "hcount i [] = 0" "hcount i (hs @ [h]) = hcount i hs + (if holds_id i h then 1 else 0)"
  by (simp_all add: hcount_def)

lemma rsum_update:
  "k < length hs \<Longrightarrow> rsum i (hs[k := h]) = rsum i hs - res_of (reservation (hs ! k)) i + res_of (reservation h) i"
  unfolding rsum_def by (rule sum_list_map_update)

lemma hcount_update:
  "k < length hs \<Longrightarrow> hcount i (hs[k := h]) =
     hcount i hs - (if holds_id i (hs ! k) then 1 else 0) + (if holds_id i h then 1 else 0)"
  unfolding hcount_def by (rule sum_list_map_update)

lemma hcount_nonneg: "0 \<le> hcount i hs"
  unfolding hcount_def by (rule sum_list_nonneg_int) simp

lemma hcount_pos: "h \<in> set hs \<Longrightarrow> holds_id i h \<Longrightarrow> 0 < hcount i hs"
proof (induction hs)
  case (Cons a hs)
  have "hcount i (a # hs) = (if holds_id i a then 1 else 0) + hcount i hs" by (simp add: hcount_def)
  then show ?case using Cons hcount_nonneg [of i hs] by auto
qed simp

lemma res_of_nonneg: "hold_ok h \<Longrightarrow> 0 \<le> res_of (reservation h) i"
  by (cases "map_of (reservation h) i") (auto simp: hold_ok_def dest: map_of_SomeD)

lemma rsum_nonneg: "\<forall>h \<in> set hs. hold_ok h \<Longrightarrow> 0 \<le> rsum i hs"
  unfolding rsum_def by (rule sum_list_nonneg) (auto intro: res_of_nonneg)

lemma res_of_outside: "hold_ok h \<Longrightarrow> i \<notin> set (ids h) \<Longrightarrow> res_of (reservation h) i = 0"
  by (cases "map_of (reservation h) i") (auto simp: hold_ok_def dest: map_of_SomeD)

lemma spend_invD:
  assumes "spend_inv s"
  shows "h \<in> set (st_holds s) \<Longrightarrow> hold_ok h"
    and "h \<in> set (st_holds s) \<Longrightarrow> holds_id i h \<Longrightarrow> \<exists>e. st_live s i = Some e"
    and "st_live s i = Some e \<Longrightarrow> holders e = hcount i (st_holds s)"
    and "st_live s i = Some e \<Longrightarrow> 0 < hcount i (st_holds s)"
    and "st_live s i = Some e \<Longrightarrow> reserved e = rsum i (st_holds s)"
    and "st_live s i = Some e \<Longrightarrow> reserved e \<le> balance e"
  using assms unfolding spend_inv_def by blast+

text \<open>Dropping a hold's reservation: what every later operation of a hold starts with.\<close>

lemma unreserve_keeps:
  assumes inv: "spend_inv s" and k: "k < length (st_holds s)" and live: "\<not> hold_released (st_holds s ! k)"
  defines "h \<equiv> st_holds s ! k"
  defines "lv1 \<equiv> \<lambda>i. map_option (\<lambda>e. e\<lparr>reserved := reserved e - res_of (reservation h) i\<rparr>) (st_live s i)"
  shows "unreserve_loop (reservation h) (st_live s) = Some lv1"
    and "spend_inv \<lparr>st_live = lv1, st_holds = (st_holds s)[k := h\<lparr>reservation := []\<rparr>]\<rparr>"
proof -
  have h: "h \<in> set (st_holds s)" using k by (simp add: h_def)
  note ok = spend_invD(1) [OF inv h]
  have ids: "st_live s i \<noteq> None" if "i \<in> set (ids h)" for i
    using spend_invD(2) [OF inv h, of i] that live by (auto simp: holds_id_def h_def)
  show "unreserve_loop (reservation h) (st_live s) = Some lv1"
    unfolding lv1_def using ok ids by (intro unreserve_loop_eq) (auto simp: hold_ok_def)
  let ?h = "h\<lparr>reservation := []\<rparr>"
  have same: "holds_id i ?h = holds_id i h" for i by (simp add: holds_id_def)
  have hc: "hcount i ((st_holds s)[k := ?h]) = hcount i (st_holds s)" for i
    using k by (simp add: hcount_update same h_def [symmetric])
  have ok': "hold_ok ?h" using ok by (auto simp: hold_ok_def)
  have sub: "set ((st_holds s)[k := ?h]) \<subseteq> insert ?h (set (st_holds s))" by (rule set_update_subset_insert)
  show "spend_inv \<lparr>st_live = lv1, st_holds = (st_holds s)[k := ?h]\<rparr>"
    unfolding spend_inv_def
  proof (intro conjI ballI allI impI, goal_cases)
    case (1 h')
    then show ?case using sub ok' spend_invD(1) [OF inv] by auto
  next
    case (2 h' i)
    then have "holds_id i h' \<and> h' \<in> set (st_holds s) \<or> holds_id i h"
      using sub same by auto
    then obtain e where "st_live s i = Some e" using spend_invD(2) [OF inv] h by blast
    then show ?case by (simp add: lv1_def)
  next
    case (3 i e)
    then show ?case using spend_invD(3) [OF inv] hc by (auto simp: lv1_def)
  next
    case (4 i e)
    then show ?case using spend_invD(4) [OF inv] hc by (auto simp: lv1_def)
  next
    case (5 i e)
    then show ?case using spend_invD(5) [OF inv] k by (auto simp: lv1_def rsum_update h_def [symmetric])
  next
    case (6 i e)
    then obtain e0 where "st_live s i = Some e0" "reserved e = reserved e0 - res_of (reservation h) i"
      "balance e = balance e0" by (auto simp: lv1_def)
    then show ?case using spend_invD(6) [OF inv] res_of_nonneg [OF ok, of i] by fastforce
  qed
qed

text \<open>The invariant after one hold and the balances of its accounts changed.\<close>

lemma spend_inv_update:
  assumes inv: "spend_inv s" and k: "k < length (st_holds s)"
    and ok: "hold_ok h" and same: "\<And>i. holds_id i h = holds_id i (st_holds s ! k)"
    and dom: "\<And>i. (lv i = None) = (st_live s i = None)"
    and lv: "\<And>i e. lv i = Some e \<Longrightarrow> \<exists>e0. st_live s i = Some e0 \<and> holders e = holders e0 \<and>
       reserved e = reserved e0 - res_of (reservation (st_holds s ! k)) i + res_of (reservation h) i \<and>
       reserved e \<le> balance e"
  shows "spend_inv \<lparr>st_live = lv, st_holds = (st_holds s)[k := h]\<rparr>"
proof -
  have sub: "set ((st_holds s)[k := h]) \<subseteq> insert h (set (st_holds s))" by (rule set_update_subset_insert)
  have hc: "hcount i ((st_holds s)[k := h]) = hcount i (st_holds s)" for i
    using k by (simp add: hcount_update same)
  have kin: "st_holds s ! k \<in> set (st_holds s)" using k by simp
  show ?thesis
    unfolding spend_inv_def
  proof (intro conjI ballI allI impI, goal_cases)
    case (1 h')
    then show ?case using sub ok spend_invD(1) [OF inv] by auto
  next
    case (2 h' i)
    then have "\<exists>h0 \<in> set (st_holds s). holds_id i h0" using sub same kin by auto
    then obtain e where "st_live s i = Some e" using spend_invD(2) [OF inv] by blast
    then show ?case using dom [of i] by simp
  next
    case (3 i e)
    then obtain e0 where "st_live s i = Some e0" "holders e = holders e0" using lv by fastforce
    then show ?case using spend_invD(3) [OF inv] hc by simp
  next
    case (4 i e)
    then obtain e0 where "st_live s i = Some e0" using lv by fastforce
    then show ?case using spend_invD(4) [OF inv] hc by simp
  next
    case (5 i e)
    then obtain e0 where "st_live s i = Some e0" "reserved e =
      reserved e0 - res_of (reservation (st_holds s ! k)) i + res_of (reservation h) i" using lv by fastforce
    then show ?case using spend_invD(5) [OF inv] k by (simp add: rsum_update)
  next
    case (6 i e)
    then show ?case using lv by fastforce
  qed
qed

lemma check_effect:
  assumes inv: "spend_inv s" and k: "k < length (st_holds s)" and live: "\<not> hold_released (st_holds s ! k)"
    and c: "check c (st_holds s ! k) (st_live s) = Some (r, h, lv)"
  defines "h0 \<equiv> st_holds s ! k"
  defines "lv1 \<equiv> \<lambda>i. map_option (\<lambda>e. e\<lparr>reserved := reserved e - res_of (reservation h0) i\<rparr>) (st_live s i)"
  defines "proj \<equiv> \<lambda>un n. projected_cost un (call_inputTokens c) n (hold_worst h0)"
  obtains (refused) i where "r = RefusedBy i" "i \<in> set (ids h0)" "h = h0\<lparr>reservation := []\<rparr>" "lv = lv1"
    | (allowed) n rs where "r = Allowed n" "h = h0\<lparr>reservation := rs\<rparr>" "map fst rs = ids h0"
      "lv = (\<lambda>i. if i \<in> set (ids h0)
         then map_option (\<lambda>e. e\<lparr>reserved := reserved e + proj (unit e) n\<rparr>) (lv1 i) else lv1 i)"
      "\<forall>i \<in> set (ids h0). \<forall>e. lv1 i = Some e \<longrightarrow> map_of rs i = Some (proj (unit e) n)"
      "n \<le> call_maxOutputTokens c"
      "ids h0 \<noteq> [] \<Longrightarrow> min (call_minOutputTokens c) (call_maxOutputTokens c) \<le> n"
      "\<forall>i \<in> set (ids h0). \<exists>e a. lv1 i = Some e \<and>
        output_allowance (unit e) (balance e - reserved e) (call_inputTokens c) (hold_worst h0) = Some a \<and> fits n a"
proof -
  let ?inp = "call_inputTokens c" and ?w = "hold_worst h0"
  let ?floor = "min (call_minOutputTokens c) (call_maxOutputTokens c)"
  have u: "unreserve_loop (reservation h0) (st_live s) = Some lv1"
    unfolding lv1_def h0_def by (rule unreserve_keeps [OF inv k live])
  have d: "distinct (ids h0)" using spend_invD(1) [OF inv] k by (simp add: h0_def hold_ok_def)
  have ids: "\<forall>i \<in> set (ids h0). lv1 i \<noteq> None"
    using spend_invD(2) [OF inv, of h0] k live by (fastforce simp: lv1_def holds_id_def h0_def)
  obtain res where res: "check_loop (ids h0) ?inp ?w ?floor (call_maxOutputTokens c) lv1 = Some res"
    using check_loop_total [OF ids] by blast
  show thesis
  proof (cases res)
    case (RefusedBy i)
    then show thesis using c u res check_loop_RefusedBy [OF res [unfolded RefusedBy]]
      by (intro refused [of i]) (auto simp: check_def Let_def h0_def)
  next
    case (Allowed n)
    obtain rs where rs: "reserve_loop (ids h0) ?inp n ?w [] lv1 = Some (rs, \<lambda>i. if i \<in> set (ids h0)
         then map_option (\<lambda>e. e\<lparr>reserved := reserved e + proj (unit e) n\<rparr>) (lv1 i) else lv1 i)"
      "map fst rs = ids h0"
      "\<forall>i \<in> set (ids h0). \<forall>e. lv1 i = Some e \<longrightarrow> map_of rs i = Some (proj (unit e) n)"
      using reserve_loop_eq [OF d ids, of "[]" ?inp n ?w] unfolding proj_def by auto
    show thesis
      using c u res Allowed rs check_loop_Allowed [OF res [unfolded Allowed]]
      by (intro allowed [of n rs]) (auto simp: check_def Let_def h0_def)
  qed
qed

lemma check_keeps:
  assumes inv: "spend_inv s" and k: "k < length (st_holds s)" and live: "\<not> hold_released (st_holds s ! k)"
    and call: "call_ok c" and c: "check c (st_holds s ! k) (st_live s) = Some (r, h, lv)"
  shows "spend_inv \<lparr>st_live = lv, st_holds = (st_holds s)[k := h]\<rparr>"
proof -
  let ?h0 = "st_holds s ! k"
  define lv1 where "lv1 = (\<lambda>i. map_option (\<lambda>e. e\<lparr>reserved := reserved e - res_of (reservation ?h0) i\<rparr>) (st_live s i))"
  define s1 where "s1 = \<lparr>st_live = lv1, st_holds = (st_holds s)[k := ?h0\<lparr>reservation := []\<rparr>]\<rparr>"
  have inv1: "spend_inv s1" unfolding s1_def lv1_def by (rule unreserve_keeps [OF inv k live])
  have k1: "k < length (st_holds s1)" "st_holds s1 ! k = ?h0\<lparr>reservation := []\<rparr>"
    "st_live s1 = lv1" "(st_holds s1)[k := x] = (st_holds s)[k := x]" for x using k by (simp_all add: s1_def)
  have ok0: "hold_ok ?h0" using spend_invD(1) [OF inv] k by simp
  have wok: "worst_ok (hold_worst ?h0)" using ok0 unfolding hold_ok_def by blast
  from inv k live c show ?thesis
  proof (cases rule: check_effect)
    case (refused i)
    then show ?thesis using inv1 by (simp add: s1_def lv1_def)
  next
    case (allowed n rs)
    let ?proj = "\<lambda>un. projected_cost un (call_inputTokens c) n (hold_worst ?h0)"
    have n0: "0 \<le> n" if "i \<in> set (ids ?h0)" for i
    proof -
      have "ids ?h0 \<noteq> []" using that by auto
      then show ?thesis using allowed(7) call by (auto simp: call_ok_def)
    qed
    have fsts: "fst ` set rs = set (ids ?h0)" using allowed(3) by (metis list.set_map)
    have nonneg: "0 \<le> snd x" if x: "x \<in> set rs" for x
    proof -
      have i: "fst x \<in> set (ids ?h0)" using x fsts by blast
      then obtain e where "lv1 (fst x) = Some e" using allowed(8) by (auto simp: lv1_def)
      moreover have "map_of rs (fst x) = Some (snd x)" using x allowed(3) ok0 by (simp add: hold_ok_def)
      ultimately have "snd x = ?proj (unit e)" using allowed(5) i by (fastforce simp: lv1_def)
      then show ?thesis using n0 [OF i] call wok by (simp add: call_ok_def projected_cost_nonneg)
    qed
    have "spend_inv \<lparr>st_live = lv, st_holds = (st_holds s1)[k := h]\<rparr>"
    proof (rule spend_inv_update [OF inv1 k1(1)])
      show "hold_ok h" using ok0 wok allowed(3) fsts nonneg live by (simp add: allowed(2) hold_ok_def)
      show "holds_id i h = holds_id i (st_holds s1 ! k)" for i by (simp add: k1 allowed(2) holds_id_def)
      show "(lv i = None) = (st_live s1 i = None)" for i by (simp add: allowed(4) k1 lv1_def)
    next
      fix i e
      assume e: "lv i = Some e"
      show "\<exists>e0. st_live s1 i = Some e0 \<and> holders e = holders e0 \<and>
        reserved e = reserved e0 - res_of (reservation (st_holds s1 ! k)) i + res_of (reservation h) i \<and>
        reserved e \<le> balance e"
      proof (cases "i \<in> set (ids ?h0)")
        case True
        then obtain e0 a where e0: "lv1 i = Some e0"
          "output_allowance (unit e0) (balance e0 - reserved e0) (call_inputTokens c) (hold_worst ?h0) = Some a"
          "fits n a" using allowed(8) unfolding lv1_def by blast
        have "?proj (unit e0) \<le> balance e0 - reserved e0"
          by (rule allowance_covers [OF e0(2,3) n0 [OF True]])
        moreover have "e = e0\<lparr>reserved := reserved e0 + ?proj (unit e0)\<rparr>"
          using e e0(1) True by (auto simp: allowed(4) lv1_def)
        moreover have "map_of rs i = Some (?proj (unit e0))"
          using allowed(5) e0(1) True by (auto simp: lv1_def)
        ultimately show ?thesis using e0(1) by (simp add: k1 allowed(2))
      next
        case False
        then have "lv1 i = Some e" using e by (simp add: allowed(4) lv1_def)
        moreover have "map_of rs i = None" using False fsts by (simp add: map_of_eq_None_iff)
        ultimately show ?thesis using spend_invD(6) [OF inv1, of i e] by (simp add: k1 allowed(2))
      qed
    qed
    then show ?thesis by (simp add: k1)
  qed
qed

lemma debit_keeps:
  assumes inv: "spend_inv s" and k: "k < length (st_holds s)" and live: "\<not> hold_released (st_holds s ! k)"
    and cov: "covered catalog u (st_holds s ! k) (st_live s)"
    and d: "debit catalog u (st_holds s ! k) (st_live s) = Some (h, lv)"
  shows "spend_inv \<lparr>st_live = lv, st_holds = (st_holds s)[k := h]\<rparr>"
proof -
  let ?h0 = "st_holds s ! k"
  let ?cost = "\<lambda>un. spend_in catalog un u (hold_pricing ?h0)"
  define lv1 where "lv1 = (\<lambda>i. map_option (\<lambda>e. e\<lparr>reserved := reserved e - res_of (reservation ?h0) i\<rparr>) (st_live s i))"
  have un: "unreserve_loop (reservation ?h0) (st_live s) = Some lv1"
    unfolding lv1_def by (rule unreserve_keeps [OF inv k live])
  have ok0: "hold_ok ?h0" using spend_invD(1) [OF inv] k by simp
  have ids: "\<forall>i \<in> set (ids ?h0). lv1 i \<noteq> None"
    using spend_invD(2) [OF inv, of ?h0] k live by (fastforce simp: lv1_def holds_id_def)
  have "debit_loop (ids ?h0) ?cost lv1 = Some (\<lambda>i. if i \<in> set (ids ?h0)
       then map_option (\<lambda>e. e\<lparr>balance := balance e - ?cost (unit e)\<rparr>) (lv1 i) else lv1 i)"
    using ok0 ids by (intro debit_loop_eq) (simp_all add: hold_ok_def)
  then have h: "h = ?h0\<lparr>reservation := []\<rparr>" and lv: "lv = (\<lambda>i. if i \<in> set (ids ?h0)
       then map_option (\<lambda>e. e\<lparr>balance := balance e - ?cost (unit e)\<rparr>) (lv1 i) else lv1 i)"
    using d un by (auto simp: debit_def)
  show ?thesis
  proof (rule spend_inv_update [OF inv k])
    show "hold_ok h" using ok0 by (auto simp: h hold_ok_def)
    show "holds_id i h = holds_id i ?h0" for i by (simp add: h holds_id_def)
    show "(lv i = None) = (st_live s i = None)" for i by (simp add: lv lv1_def)
  next
    fix i e
    assume e: "lv i = Some e"
    then obtain e0 where e0: "st_live s i = Some e0" "holders e = holders e0"
        "reserved e = reserved e0 - res_of (reservation ?h0) i"
        "balance e = (if i \<in> set (ids ?h0) then balance e0 - ?cost (unit e0) else balance e0)"
      by (auto simp: lv lv1_def split: if_splits)
    have "reserved e0 \<le> balance e0" by (rule spend_invD(6) [OF inv e0(1)])
    moreover have "i \<in> set (ids ?h0) \<Longrightarrow> ?cost (unit e0) \<le> res_of (reservation ?h0) i"
      using cov e0(1) by (simp add: covered_def)
    ultimately have "reserved e \<le> balance e" using e0(3,4) res_of_nonneg [OF ok0, of i] by auto
    then show "\<exists>e0. st_live s i = Some e0 \<and> holders e = holders e0 \<and>
        reserved e = reserved e0 - res_of (reservation ?h0) i + res_of (reservation h) i \<and>
        reserved e \<le> balance e"
      using e0 by (simp add: h)
  qed
qed

lemma release_hold_keeps:
  assumes inv: "spend_inv s" and k: "k < length (st_holds s)"
    and d: "release_hold (st_holds s ! k) (st_live s) = Some (h, lv)"
  shows "spend_inv \<lparr>st_live = lv, st_holds = (st_holds s)[k := h]\<rparr>"
proof (cases "hold_released (st_holds s ! k)")
  case True
  then have "h = st_holds s ! k" "lv = st_live s" using d by (auto simp: release_hold_def)
  then have "\<lparr>st_live = lv, st_holds = (st_holds s)[k := h]\<rparr> = s" by simp
  then show ?thesis using inv by (simp only:)
next
  case live: False
  let ?h0 = "st_holds s ! k"
  define lv1 where "lv1 = (\<lambda>i. map_option (\<lambda>e. e\<lparr>reserved := reserved e - res_of (reservation ?h0) i\<rparr>) (st_live s i))"
  define s1 where "s1 = \<lparr>st_live = lv1, st_holds = (st_holds s)[k := ?h0\<lparr>reservation := []\<rparr>]\<rparr>"
  have un: "unreserve_loop (reservation ?h0) (st_live s) = Some lv1" and inv1: "spend_inv s1"
    unfolding s1_def lv1_def by (fact unreserve_keeps [OF inv k live])+
  have ok0: "hold_ok ?h0" using spend_invD(1) [OF inv] k by simp
  have ids: "\<forall>i \<in> set (ids ?h0). lv1 i \<noteq> None"
    using spend_invD(2) [OF inv, of ?h0] k live by (fastforce simp: lv1_def holds_id_def)
  have rl: "release_loop (ids ?h0) lv1 = Some (\<lambda>i. if i \<in> set (ids ?h0)
       then Option.bind (lv1 i) (\<lambda>e. if holders e = 1 then None else Some (e\<lparr>holders := holders e - 1\<rparr>))
       else lv1 i)"
    using ok0 ids by (intro release_loop_eq) (simp_all add: hold_ok_def)
  have h: "h = ?h0\<lparr>reservation := [], hold_released := True\<rparr>"
    and lv: "lv = (\<lambda>i. if i \<in> set (ids ?h0)
       then Option.bind (lv1 i) (\<lambda>e. if holders e = 1 then None else Some (e\<lparr>holders := holders e - 1\<rparr>))
       else lv1 i)"
    using d un rl live by (auto simp: release_hold_def)
  define hs1 where "hs1 = (st_holds s)[k := ?h0\<lparr>reservation := []\<rparr>]"
  have hs: "(st_holds s)[k := h] = hs1[k := h]" by (simp add: hs1_def)
  have k1: "k < length hs1" "hs1 ! k = ?h0\<lparr>reservation := []\<rparr>" using k by (simp_all add: hs1_def)
  have hc: "hcount i (hs1[k := h]) = hcount i hs1 - (if i \<in> set (ids ?h0) then 1 else 0)" for i
    using k1 live by (simp add: hcount_update holds_id_def h)
  have rs: "rsum i (hs1[k := h]) = rsum i hs1" for i
    using k1 by (simp add: rsum_update h)
  note I = spend_invD [OF inv1, unfolded s1_def hs1_def [symmetric], simplified]
  have okh: "hold_ok h" using ok0 by (auto simp: h hold_ok_def)
  have old: "\<And>h'. h' \<in> set (hs1[k := h]) \<Longrightarrow> h' = h \<or> h' \<in> set hs1"
    by (metis insertE set_update_subset_insert subsetD)
  have survives: "\<exists>e. lv i = Some e" if a: "h' \<in> set (hs1[k := h])" and b: "holds_id i h'" for h' i
  proof -
    have "h' \<in> set hs1" using old [OF a] b by (auto simp: h holds_id_def)
    then obtain e where e: "lv1 i = Some e" using I(2) b by blast
    moreover have "0 < hcount i (hs1[k := h])" using hcount_pos a b by blast
    ultimately show ?thesis using I(3) [OF e] hc [of i] by (auto simp: lv)
  qed
  show ?thesis
    unfolding spend_inv_def hs
  proof (intro conjI ballI allI impI, goal_cases)
    case (1 h')
    then show ?case using old I(1) okh by fastforce
  next
    case (2 h' i)
    then show ?case using survives by simp
  next
    case (3 i e)
    then show ?case using I(3) hc [of i] by (auto simp: lv split: if_splits bind_splits)
  next
    case (4 i e)
    then show ?case using I(3,4) hc [of i] by (fastforce simp: lv split: if_splits bind_splits)
  next
    case (5 i e)
    then show ?case using I(5) rs [of i] by (auto simp: lv split: if_splits bind_splits)
  next
    case (6 i e)
    then show ?case using I(6) by (auto simp: lv split: if_splits bind_splits)
  qed
qed

lemma max_of_ge: "x \<in> set xs \<Longrightarrow> x \<le> max_of xs"
  by (induction xs rule: max_of.induct) auto

lemma max_of_nonneg: "\<forall>x \<in> set xs. 0 \<le> x \<Longrightarrow> 0 \<le> max_of xs"
  by (induction xs rule: max_of.induct) auto

lemma rate_card_ok_truncate [simp]: "rate_card_ok (rate_card.truncate c) = rate_card_ok c"
  by (simp add: rate_card_ok_def rate_card.defs)

lemma rate_cards_ok: "rates_ok r \<Longrightarrow> c \<in> set (rate_cards r) \<Longrightarrow> rate_card_ok c"
  by (auto simp: rates_ok_def rate_cards_def)

lemma worst_ok_worst_rates: "rates_ok r \<Longrightarrow> worst_ok (Some (worst_rates r))"
proof -
  assume ok: "rates_ok r"
  have "0 \<le> worst_input_of c" "0 \<le> worst_output_of c" if "c \<in> set (rate_cards r)" for c
    using rate_cards_ok [OF ok that]
    by (simp_all add: worst_input_of_def worst_output_of_def rate_card_ok_def le_max_iff_disj)
  then have "0 \<le> max_of (map worst_input_of (rate_cards r))" "0 \<le> max_of (map worst_output_of (rate_cards r))"
    by (auto intro!: max_of_nonneg)
  then show ?thesis by (simp add: worst_ok_def worst_rates_def)
qed

lemma open_keeps:
  assumes inv: "spend_inv s" and rem: "\<forall>a \<in> set accounts. 0 \<le> remaining a"
    and r: "\<forall>r. rates pricing = Some r \<longrightarrow> rates_ok r"
    and o: "spend_open accounts pricing (st_live s) = (h, lv)"
  shows "spend_inv \<lparr>st_live = lv, st_holds = st_holds s @ [h]\<rparr>"
proof -
  obtain "is" where ol: "open_loop accounts [] (st_live s) = (is, lv)"
    and h: "h = \<lparr>ids = is, hold_worst = map_option worst_rates (rates pricing),
      hold_pricing = pricing, reservation = [], hold_released = False\<rparr>"
    using o by (auto simp: spend_open_def split: prod.splits)
  from open_loop_eq [OF ol] have "is": "distinct is" "set is = account_id ` set accounts"
    and lv: "lv i = (if i \<in> set is then opened accounts (st_live s) i else st_live s i)" for i
    by auto
  have okh: "hold_ok h" using "is" r worst_ok_worst_rates
    by (auto simp: h hold_ok_def worst_ok_def [of "map_option _ _"]) (auto simp: worst_ok_def)
  have hid: "holds_id i h \<longleftrightarrow> i \<in> set is" for i by (simp add: holds_id_def h)
  have fnd: "\<exists>a \<in> set accounts. find (\<lambda>a. account_id a = i) accounts = Some a" if "i \<in> set is" for i
  proof -
    have "find (\<lambda>a. account_id a = i) accounts \<noteq> None" using that "is"(2) by (auto simp: find_None_iff)
    then show ?thesis by (auto simp: find_Some_iff)
  qed
  have zero: "st_live s i = None \<Longrightarrow> hcount i (st_holds s) = 0 \<and> rsum i (st_holds s) = 0" for i
  proof -
    assume none: "st_live s i = None"
    have nh: "\<not> holds_id i h'" if "h' \<in> set (st_holds s)" for h'
      using spend_invD(2) [OF inv that] none by fastforce
    have "res_of (reservation h') i = 0" if h': "h' \<in> set (st_holds s)" for h'
      using nh [OF h'] spend_invD(1) [OF inv h'] res_of_outside [of h' i]
      by (auto simp: holds_id_def hold_ok_def)
    then show ?thesis using nh
      by (auto simp: hcount_def rsum_def intro!: sum_list_0 [THEN trans [rotated]] cong: map_cong)
  qed
  show ?thesis
    unfolding spend_inv_def
  proof (intro conjI ballI allI impI, goal_cases)
    case (1 h')
    then show ?case using okh spend_invD(1) [OF inv] by auto
  next
    case (2 h' i)
    then consider "i \<in> set is" | "h' \<in> set (st_holds s)" "i \<notin> set is" using hid by auto
    then show ?case
    proof cases
      case 1
      then show ?thesis using fnd [of i] by (auto simp: lv opened_def split: option.split)
    next
      case 2
      then show ?thesis using spend_invD(2) [OF inv] \<open>holds_id i h'\<close> by (fastforce simp: lv)
    qed
  next
    case (3 i e)
    then show ?case using spend_invD(3) [OF inv, of i] zero [of i] hid
      by (auto simp: lv opened_def split: if_splits option.splits)
  next
    case (4 i e)
    then show ?case using spend_invD(4) [OF inv, of i] hid hcount_nonneg [of i "st_holds s"]
      by (auto simp: lv split: if_splits)
  next
    case (5 i e)
    then show ?case using spend_invD(5) [OF inv, of i] zero [of i]
      by (auto simp: lv h opened_def split: if_splits option.splits)
  next
    case (6 i e)
    then show ?case using spend_invD(6) [OF inv, of i] rem fnd [of i]
      by (auto simp: lv opened_def split: if_splits option.splits)
  qed
qed

lemma spend_reachable_inv: "spend_reachable catalog s \<Longrightarrow> spend_inv s"
proof (induction rule: spend_reachable.induct)
  case spend_start
  show ?case by (simp add: spend_inv_def)
next
  case (spend_next s s')
  from spend_next.hyps(2) spend_next.IH show ?case
    by (cases rule: spend_step.cases) (auto intro: open_keeps check_keeps debit_keeps release_hold_keeps)
qed

section \<open>Cost against projection\<close>

text \<open>A usage whose subtotals are parts of its totals, as the providers report them.\<close>

definition usage_ok :: "token_usage \<Rightarrow> bool" where
  "usage_ok u \<longleftrightarrow>
     0 \<le> nullish (cacheReadTokens u) 0 \<and> 0 \<le> nullish (cacheWriteTokens u) 0 \<and>
     nullish (cacheReadTokens u) 0 + nullish (cacheWriteTokens u) 0 \<le> inputTokens u \<and>
     0 \<le> nullish (reasoningTokens u) 0 \<and> nullish (reasoningTokens u) 0 \<le> outputTokens u \<and>
     0 \<le> nullish (cacheWrite1hTokens u) 0 \<and>
     nullish (cacheWrite1hTokens u) (nullish (cacheWriteTokens u) 0) \<le> nullish (cacheWriteTokens u) 0"

lemma card_for_in: "card_for r n \<in> set (rate_cards r)"
proof -
  have "fold (\<lambda>t c. if n > aboveInputTokens t then rate_card.truncate t else c) ts c
      \<in> insert c (rate_card.truncate ` set ts)" for ts c
    by (induction ts arbitrary: c) auto
  then show ?thesis unfolding card_for_def rate_cards_def by fastforce
qed

lemma le_times: "0 \<le> (n::int) \<Longrightarrow> r \<le> w \<Longrightarrow> of_int n * r \<le> of_int n * (w :: rat)"
  by (simp add: mult_left_mono)

lemma cost_on_le:
  assumes c: "rate_card_ok c" and u: "usage_ok u" and wi: "worst_input_of c \<le> wi" and wo: "worst_output_of c \<le> wo"
  shows "cost_total (cost_on c u) \<le> (of_int (inputTokens u) * wi + of_int (outputTokens u) * wo) / 1000000"
proof -
  define cr cw where "cr = nullish (cacheReadTokens u) 0" and "cw = nullish (cacheWriteTokens u) 0"
  define w1 re where "w1 = nullish (cacheWrite1hTokens u) cw" and "re = nullish (reasoningTokens u) 0"
  define nc where "nc = inputTokens u - cr - cw"
  have n: "0 \<le> cr" "0 \<le> cw" "0 \<le> nc" "0 \<le> re" "re \<le> outputTokens u" "w1 \<le> cw" "0 \<le> w1" "0 \<le> cw - w1"
    using u by (auto simp: usage_ok_def cr_def cw_def re_def w1_def nc_def nullish_def split: option.splits)
  have r: "rate_input c \<le> wi" "rate_cacheRead c \<le> wi" "rate_cacheWrite5m c \<le> wi" "rate_cacheWrite1h c \<le> wi"
    "rate_output c \<le> wo" using wi wo by (auto simp: worst_input_of_def worst_output_of_def)
  have inp: "of_int nc * rate_input c + of_int cr * rate_cacheRead c
      + (of_int w1 * rate_cacheWrite1h c + of_int (cw - w1) * rate_cacheWrite5m c) \<le> of_int (inputTokens u) * wi"
  proof -
    have "of_int nc * rate_input c + of_int cr * rate_cacheRead c
      + (of_int w1 * rate_cacheWrite1h c + of_int (cw - w1) * rate_cacheWrite5m c)
      \<le> of_int nc * wi + of_int cr * wi + (of_int w1 * wi + of_int (cw - w1) * wi)"
      by (intro add_mono le_times n r)
    also have "\<dots> = of_int (inputTokens u) * wi" by (simp add: nc_def algebra_simps)
    finally show ?thesis .
  qed
  have out: "(case rate_reasoning c of
        Some rr \<Rightarrow> of_int (max (outputTokens u - re) 0) * rate_output c + of_int re * rr
      | None \<Rightarrow> of_int (outputTokens u) * rate_output c) \<le> of_int (outputTokens u) * wo"
  proof (cases "rate_reasoning c")
    case None
    then show ?thesis using le_times n r by (simp add: le_times)
  next
    case (Some rr)
    then have "rr \<le> wo" using wo by (simp add: worst_output_of_def)
    then have "of_int (outputTokens u - re) * rate_output c + of_int re * rr
      \<le> of_int (outputTokens u - re) * wo + of_int re * wo"
      using n r by (intro add_mono le_times) auto
    also have "\<dots> = of_int (outputTokens u) * wo" by (simp add: algebra_simps)
    finally have "of_int (outputTokens u - re) * rate_output c + of_int re * rr \<le> of_int (outputTokens u) * wo" .
    moreover have "max (outputTokens u - re) 0 = outputTokens u - re" using n by simp
    ultimately show ?thesis using Some by simp
  qed
  have "cost_total (cost_on c u) =
     (of_int nc * rate_input c + of_int cr * rate_cacheRead c
      + (of_int w1 * rate_cacheWrite1h c + of_int (cw - w1) * rate_cacheWrite5m c)
      + (case rate_reasoning c of
        Some rr \<Rightarrow> of_int (max (outputTokens u - re) 0) * rate_output c + of_int re * rr
      | None \<Rightarrow> of_int (outputTokens u) * rate_output c)) / 1000000"
    using n by (simp add: cost_on_def Let_def cr_def [symmetric] cw_def [symmetric] re_def [symmetric]
        w1_def [symmetric] nc_def [symmetric] max_absorb1 add_divide_distrib split: option.split)
  also have "\<dots> \<le> (of_int (inputTokens u) * wi + of_int (outputTokens u) * wo) / 1000000"
    using inp out by (intro divide_right_mono add_mono) auto
  finally show ?thesis .
qed

section \<open>Properties\<close>

text \<open>
  C9. Runs sharing an account never overdraw it: however the opens, checks, debits and releases of
  any number of runs interleave, with debits within what their run reserved, every live account's
  outstanding reservations are exactly what its runs hold, non-negative, and covered by its balance,
  and it is held by as many runs as it counts.
\<close>

theorem spend_never_overdrawn:
  assumes "spend_reachable catalog s" and "st_live s i = Some e"
  shows "0 \<le> reserved e \<and> reserved e \<le> balance e \<and>
    reserved e = (\<Sum>h\<leftarrow>st_holds s. nullish (map_of (reservation h) i) 0) \<and>
    holders e = int (length (filter (\<lambda>h. \<not> hold_released h \<and> i \<in> set (ids h)) (st_holds s))) \<and> 0 < holders e"
proof -
  note I = spend_invD [OF spend_reachable_inv [OF assms(1)]]
  have "hcount i hs = int (length (filter (\<lambda>h. \<not> hold_released h \<and> i \<in> set (ids h)) hs))" for hs
    by (induction hs) (auto simp: hcount_def holds_id_def)
  moreover have "0 \<le> rsum i (st_holds s)" using I(1) by (simp add: rsum_nonneg)
  ultimately show ?thesis using I(3-6) [OF assms(2)] by (simp flip: rsum_def)
qed

text \<open>
  C13. A call's projection is never below what the same tokens cost: in every unit, for any rates, a
  well-formed usage of at most the projected input and output costs at most the projected cost at
  the worst rates.
\<close>

theorem projection_covers_cost:
  assumes "usage_ok u" and "inputTokens u \<le> inp" and "outputTokens u \<le> out"
    and "\<forall>r. rates pricing = Some r \<longrightarrow> rates_ok r"
  shows "spend_in catalog un u pricing \<le> projected_cost un inp out (map_option worst_rates (rates pricing))"
proof (cases un)
  case Usd
  show ?thesis
  proof (cases "rates pricing")
    case None
    then show ?thesis by (simp add: Usd spend_in_def projected_cost_def)
  next
    case (Some r)
    then have ok: "rates_ok r" using assms(4) by simp
    define c where "c = card_for r (inputTokens u)"
    have cin: "c \<in> set (rate_cards r)" unfolding c_def by (rule card_for_in)
    define wi wo where "wi = max_of (map worst_input_of (rate_cards r))"
      and "wo = max_of (map worst_output_of (rate_cards r))"
    have w: "worst_input_of c \<le> wi" "worst_output_of c \<le> wo"
      unfolding wi_def wo_def using cin by (auto intro!: max_of_ge)
    have "0 \<le> wi" "0 \<le> wo" using worst_ok_worst_rates [OF ok]
      by (auto simp: worst_ok_def worst_rates_def wi_def wo_def zero_le_divide_iff)
    then have "of_int (inputTokens u) * wi + of_int (outputTokens u) * wo \<le> of_int inp * wi + of_int out * wo"
      using assms(2,3) by (intro add_mono mult_right_mono) auto
    then have "(of_int (inputTokens u) * wi + of_int (outputTokens u) * wo) / 1000000
        \<le> (of_int inp * wi + of_int out * wo) / 1000000" by (rule divide_right_mono) simp
    with cost_on_le [OF rate_cards_ok [OF ok cin] assms(1) w]
    have "cost_total (cost_on c u) \<le> (of_int inp * wi + of_int out * wo) / 1000000" by (rule order_trans)
    then show ?thesis
      by (simp add: Usd Some spend_in_def cost_breakdown_def projected_cost_def worst_rates_def
          add_divide_distrib c_def wi_def wo_def)
  qed
qed (use assms in \<open>simp_all add: spend_in_def projected_cost_def\<close>)

text \<open>
  A check clamps or refuses: an allowed call's output is at most what was asked and at least the
  floor, and any usage within the projected input and that output costs no more, on every account of
  the run, than what the check reserved there; a refusal names an account of the run and reserves
  nothing.
\<close>

theorem check_reserves_worst_case:
  assumes "spend_reachable catalog s" and "k < length (st_holds s)" and "\<not> hold_released (st_holds s ! k)"
    and "check c (st_holds s ! k) (st_live s) = Some (r, h, lv)"
  shows "case r of
      RefusedBy i \<Rightarrow> i \<in> set (ids h) \<and> reservation h = []
    | Allowed n \<Rightarrow> n \<le> call_maxOutputTokens c \<and>
        (ids h \<noteq> [] \<longrightarrow> min (call_minOutputTokens c) (call_maxOutputTokens c) \<le> n) \<and>
        (\<forall>u. usage_ok u \<and> inputTokens u \<le> call_inputTokens c \<and> outputTokens u \<le> n \<longrightarrow>
           covered catalog u h lv)"
proof -
  note inv = spend_reachable_inv [OF assms(1)]
  let ?h0 = "st_holds s ! k"
  have ok: "hold_ok ?h0" using spend_invD(1) [OF inv] assms(2) by simp
  then have w: "hold_worst ?h0 = map_option worst_rates (rates (hold_pricing ?h0))"
    "\<forall>r. rates (hold_pricing ?h0) = Some r \<longrightarrow> rates_ok r" unfolding hold_ok_def by blast+
  from inv assms(2-4) show ?thesis
  proof (cases rule: check_effect)
    case (refused i)
    then show ?thesis by simp
  next
    case (allowed n rs)
    have "covered catalog u h lv"
      if u: "usage_ok u" "inputTokens u \<le> call_inputTokens c" "outputTokens u \<le> n" for u
      unfolding covered_def
    proof (intro ballI allI impI)
      fix i e
      assume i: "i \<in> set (ids h)" and e: "lv i = Some e"
      then have i0: "i \<in> set (ids ?h0)" by (simp add: allowed(2))
      let ?lv1 = "map_option (\<lambda>e. e\<lparr>reserved := reserved e - res_of (reservation ?h0) i\<rparr>) (st_live s i)"
      obtain e0 where e0: "?lv1 = Some e0" "unit e = unit e0" using e i0 by (auto simp: allowed(4))
      have "map_of rs i = Some (projected_cost (unit e0) (call_inputTokens c) n (hold_worst ?h0))"
        using allowed(5) i0 e0(1) by blast
      then show "spend_in catalog (unit e) u (hold_pricing h) \<le> res_of (reservation h) i"
        using projection_covers_cost [OF u w(2), of catalog "unit e"] by (simp add: allowed(2) w(1) e0(2))
    qed
    then show ?thesis using allowed by simp
  qed
qed

lemma hcount_pos_iff: "0 < hcount i hs \<longleftrightarrow> (\<exists>h \<in> set hs. holds_id i h)"
proof
  show "0 < hcount i hs \<Longrightarrow> \<exists>h \<in> set hs. holds_id i h"
    by (induction hs) (auto simp: hcount_def split: if_splits)
qed (auto intro: hcount_pos)

lemma spend_ops_return:
  assumes inv: "spend_inv s" and k: "k < length (st_holds s)" and live: "\<not> hold_released (st_holds s ! k)"
  shows "check c (st_holds s ! k) (st_live s) \<noteq> None"
    and "debit catalog u (st_holds s ! k) (st_live s) \<noteq> None"
    and "release_hold (st_holds s ! k) (st_live s) \<noteq> None"
proof -
  let ?h0 = "st_holds s ! k"
  define lv1 where "lv1 = (\<lambda>i. map_option (\<lambda>e. e\<lparr>reserved := reserved e - res_of (reservation ?h0) i\<rparr>) (st_live s i))"
  have un: "unreserve_loop (reservation ?h0) (st_live s) = Some lv1"
    unfolding lv1_def by (rule unreserve_keeps [OF inv k live])
  have d: "distinct (ids ?h0)" using spend_invD(1) [OF inv] k by (simp add: hold_ok_def)
  have ids: "\<forall>i \<in> set (ids ?h0). lv1 i \<noteq> None"
    using spend_invD(2) [OF inv, of ?h0] k live by (fastforce simp: lv1_def holds_id_def)
  show "debit catalog u ?h0 (st_live s) \<noteq> None"
    unfolding debit_def un by (simp add: debit_loop_eq [OF d ids])
  show "release_hold ?h0 (st_live s) \<noteq> None"
    unfolding release_hold_def un by (simp add: release_loop_eq [OF d ids])
  obtain res where "check_loop (ids ?h0) (call_inputTokens c) (hold_worst ?h0)
      (min (call_minOutputTokens c) (call_maxOutputTokens c)) (call_maxOutputTokens c) lv1 = Some res"
    using check_loop_total [OF ids] by blast
  moreover have "\<exists>b a. reserve_loop (ids ?h0) (call_inputTokens c) n (hold_worst ?h0) [] lv1 = Some (a, b)" for n
    using reserve_loop_eq [OF d ids, of "[]" "call_inputTokens c" n "hold_worst ?h0"] by auto
  ultimately show "check c ?h0 (st_live s) \<noteq> None"
    by (auto simp: check_def un Let_def split: check_result.split)
qed

text \<open>
  An account's balance is kept exactly while a run naming it is in flight, and no operation of a
  run in flight ever looks up an account that is not there.
\<close>

theorem spend_accounts_live:
  assumes "spend_reachable catalog s"
  shows "(st_live s i \<noteq> None) = (\<exists>h \<in> set (st_holds s). \<not> hold_released h \<and> i \<in> set (ids h)) \<and>
    (k < length (st_holds s) \<and> \<not> hold_released (st_holds s ! k) \<longrightarrow>
      check c (st_holds s ! k) (st_live s) \<noteq> None \<and> debit catalog u (st_holds s ! k) (st_live s) \<noteq> None \<and>
      release_hold (st_holds s ! k) (st_live s) \<noteq> None)"
proof -
  note inv = spend_reachable_inv [OF assms]
  have "(st_live s i \<noteq> None) = (\<exists>h \<in> set (st_holds s). \<not> hold_released h \<and> i \<in> set (ids h))"
    using spend_invD(2,4) [OF inv] hcount_pos_iff [of i "st_holds s"] unfolding holds_id_def by blast
  then show ?thesis using spend_ops_return [OF inv] by blast
qed

text \<open>A run of one account with ten output tokens left.\<close>

definition demo_hold :: hold where
  "demo_hold = \<lparr>ids = [''a''], hold_worst = None, hold_pricing = \<lparr>rates = None, model = ''m''\<rparr>,
     reservation = [], hold_released = False\<rparr>"

definition demo_spend :: spend_state where
  "demo_spend = \<lparr>st_live = [''a'' \<mapsto> \<lparr>unit = OutputTokens, balance = 10, reserved = 0, holders = 1\<rparr>],
     st_holds = [demo_hold]\<rparr>"

lemma demo_spend_reachable: "spend_reachable catalog demo_spend"
proof -
  have "spend_open [\<lparr>account_id = ''a'', account_unit = OutputTokens, remaining = 10\<rparr>]
      \<lparr>rates = None, model = ''m''\<rparr> Map.empty = (demo_hold, st_live demo_spend)"
    by (simp add: spend_open_def demo_hold_def demo_spend_def)
  then have "spend_step catalog \<lparr>st_live = Map.empty, st_holds = []\<rparr>
      \<lparr>st_live = st_live demo_spend, st_holds = [] @ [demo_hold]\<rparr>"
    using spend_step_open [of "[\<lparr>account_id = ''a'', account_unit = OutputTokens, remaining = 10\<rparr>]"
        "\<lparr>rates = None, model = ''m''\<rparr>" "\<lparr>st_live = Map.empty, st_holds = []\<rparr>"] by simp
  moreover have "\<lparr>st_live = st_live demo_spend, st_holds = [] @ [demo_hold]\<rparr> = demo_spend"
    by (simp add: demo_spend_def)
  ultimately show ?thesis using spend_next [OF spend_start] by metis
qed

theorem spend_never_overdrawn_witness:
  "\<exists>e. st_live demo_spend ''a'' = Some e \<and> 0 \<le> reserved e \<and> reserved e \<le> balance e"
proof -
  have "st_live demo_spend ''a'' = Some \<lparr>unit = OutputTokens, balance = 10, reserved = 0, holders = 1\<rparr>"
    by (simp add: demo_spend_def)
  then show ?thesis using spend_never_overdrawn [OF demo_spend_reachable] by blast
qed

definition demo_usage :: token_usage where
  "demo_usage = \<lparr>inputTokens = 1000, outputTokens = 200, cacheReadTokens = Some 300, cacheWriteTokens = Some 100,
     reasoningTokens = Some 50, cacheWrite1hTokens = Some 40\<rparr>"

definition demo_rates :: usage_rates where
  "demo_rates = \<lparr>rate_input = 3, rate_output = 15, rate_cacheRead = 1, rate_cacheWrite5m = 4, rate_cacheWrite1h = 6,
     rate_reasoning = Some 20, tiers = [\<lparr>rate_input = 6, rate_output = 22, rate_cacheRead = 1,
       rate_cacheWrite5m = 8, rate_cacheWrite1h = 12, rate_reasoning = None, aboveInputTokens = 200000\<rparr>]\<rparr>"

theorem projection_covers_cost_witness:
  "spend_in (\<lambda>_. None) Usd demo_usage \<lparr>rates = Some demo_rates, model = ''m''\<rparr>
     \<le> projected_cost Usd 1200 400 (Some (worst_rates demo_rates))"
proof -
  have "usage_ok demo_usage" "inputTokens demo_usage \<le> 1200" "outputTokens demo_usage \<le> 400"
    by (simp_all add: usage_ok_def demo_usage_def)
  moreover have "rates_ok demo_rates" by (simp add: rates_ok_def demo_rates_def rate_card_ok_def)
  ultimately show ?thesis
    using projection_covers_cost [of demo_usage 1200 400 "\<lparr>rates = Some demo_rates, model = ''m''\<rparr>"] by simp
qed

definition demo_call :: spend_call where
  "demo_call = \<lparr>call_inputTokens = 5, call_maxOutputTokens = 20, call_minOutputTokens = 1\<rparr>"

theorem check_reserves_worst_case_witness:
  "\<exists>n h lv. check demo_call demo_hold (st_live demo_spend) = Some (Allowed n, h, lv) \<and> n \<le> 20 \<and> 1 \<le> n"
proof -
  have k: "(0::nat) < length (st_holds demo_spend)" "st_holds demo_spend ! 0 = demo_hold"
    "\<not> hold_released (st_holds demo_spend ! 0)" by (simp_all add: demo_spend_def demo_hold_def)
  have "map_option fst (check demo_call (st_holds demo_spend ! 0) (st_live demo_spend)) = Some (Allowed 10)"
    by (simp add: check_def demo_call_def demo_hold_def demo_spend_def output_allowance_def Let_def)
  then obtain h lv where c: "check demo_call (st_holds demo_spend ! 0) (st_live demo_spend) = Some (Allowed 10, h, lv)"
    by auto
  have "10 \<le> call_maxOutputTokens demo_call"
    using check_reserves_worst_case [OF demo_spend_reachable k(1,3) c] by simp
  then have "(10::int) \<le> 20" by (simp add: demo_call_def)
  with c k(2) show ?thesis by (intro exI [of _ 10]) simp
qed

theorem spend_accounts_live_witness:
  "check demo_call demo_hold (st_live demo_spend) \<noteq> None"
proof -
  have "(0::nat) < length (st_holds demo_spend)" "st_holds demo_spend ! 0 = demo_hold"
    "\<not> hold_released (st_holds demo_spend ! 0)" by (simp_all add: demo_spend_def demo_hold_def)
  then show ?thesis using spend_accounts_live [OF demo_spend_reachable, of _ 0] by simp
qed

end
