(* ===== verification/JsValues.thy ===== *)
theory JsValues
  imports Complex_Main Prelude "HOL-Library.Sublist"
begin

text \<open>
  The JavaScript values the components exchange: text, numbers as text, and JSON.

  A string is a list of UTF-16 code units of which the model admits the first 256, so \<open>length\<close> is
  the source's \<open>.length\<close>. Two characters the source writes lie outside that range: the ellipsis
  U+2026 and the dash U+2014, which stand here as the characters of code 133 and 151. Object keys keep their insertion order.
  A number is a rational; the text of one that is not an integer is left to a parameter.
\<close>

section \<open>Text\<close>

definition ellipsis :: char where
  "ellipsis = char_of (133::nat)"

definition em_dash :: char where
  "em_dash = char_of (151::nat)"

definition newline :: string where
  "newline = [char_of (10::nat)]"

lemma newline_eq: "newline = [CHR 0x0A]"
  by code_simp

text \<open>The white space that \<open>trim\<close> and \<open>\s\<close> know.\<close>

definition is_space :: "char \<Rightarrow> bool" where
  "is_space c \<longleftrightarrow> (let n = (of_char c :: nat) in (9 \<le> n \<and> n \<le> 13) \<or> n = 32 \<or> n = 160)"

definition trim_end :: "string \<Rightarrow> string" where
  "trim_end s = rev (dropWhile is_space (rev s))"

definition trim :: "string \<Rightarrow> string" where
  "trim s = trim_end (dropWhile is_space s)"

definition lower_char :: "char \<Rightarrow> char" where
  "lower_char c = (let n = (of_char c :: nat)
     in if (65 \<le> n \<and> n \<le> 90) \<or> (192 \<le> n \<and> n \<le> 222 \<and> n \<noteq> 215) then char_of (n + 32) else c)"

definition to_lower :: "string \<Rightarrow> string" where
  "to_lower s = map lower_char s"

definition is_digit :: "char \<Rightarrow> bool" where
  "is_digit c \<longleftrightarrow> (let n = (of_char c :: nat) in 48 \<le> n \<and> n \<le> 57)"

definition is_lower_alpha :: "char \<Rightarrow> bool" where
  "is_lower_alpha c \<longleftrightarrow> (let n = (of_char c :: nat) in 97 \<le> n \<and> n \<le> 122)"

definition is_upper_alpha :: "char \<Rightarrow> bool" where
  "is_upper_alpha c \<longleftrightarrow> (let n = (of_char c :: nat) in 65 \<le> n \<and> n \<le> 90)"

definition is_alpha :: "char \<Rightarrow> bool" where
  "is_alpha c \<longleftrightarrow> is_lower_alpha c \<or> is_upper_alpha c"

lemma length_trim_end: "length (trim_end s) \<le> length s"
  unfolding trim_end_def by (metis length_dropWhile_le length_rev)

lemma length_trim: "length (trim s) \<le> length s"
  unfolding trim_def by (rule order_trans [OF length_trim_end length_dropWhile_le])

lemma set_trim_end: "set (trim_end s) \<subseteq> set s"
  unfolding trim_end_def by (metis set_dropWhileD set_rev subsetI)

lemma set_trim: "set (trim s) \<subseteq> set s"
  unfolding trim_def by (meson order_trans set_dropWhileD set_trim_end subsetI)

lemma trim_end_prefix: "s = trim_end s @ rev (takeWhile is_space (rev s))"
  unfolding trim_end_def rev_append [symmetric] takeWhile_dropWhile_id rev_rev_ident ..

lemma trim_infix: "\<exists>pre post. s = pre @ trim s @ post"
proof -
  let ?d = "dropWhile is_space s"
  have "s = takeWhile is_space s @ ?d" by simp
  also have "?d = trim s @ rev (takeWhile is_space (rev ?d))"
    unfolding trim_def by (rule trim_end_prefix)
  finally show ?thesis by blast
qed

lemma trim_end_last: "trim_end s = [] \<or> \<not> is_space (last (trim_end s))"
  by (metis hd_dropWhile last_rev rev_is_Nil_conv trim_end_def)

lemma trim_end_id: "s = [] \<or> \<not> is_space (last s) \<Longrightarrow> trim_end s = s"
  by (cases s rule: rev_cases) (auto simp: trim_end_def)

lemma trim_end_eq_Cons: "trim_end (c # s) = (if trim_end s = [] \<and> is_space c then [] else c # trim_end s)"
  by (auto simp: trim_end_def dropWhile_append dropWhile_eq_Nil_conv)

lemma trim_hd: "trim s = [] \<or> \<not> is_space (hd (trim s))"
proof (cases "dropWhile is_space s")
  case (Cons c r)
  then have "\<not> is_space c" using hd_dropWhile [of is_space s] by simp
  then show ?thesis by (simp add: trim_def Cons trim_end_eq_Cons)
next
  case Nil
  then show ?thesis by (simp only: trim_def) (simp add: trim_end_def)
qed

lemma trim_last: "trim s = [] \<or> \<not> is_space (last (trim s))"
  unfolding trim_def by (rule trim_end_last)

lemma trim_id: "s = [] \<or> (\<not> is_space (hd s) \<and> \<not> is_space (last s)) \<Longrightarrow> trim s = s"
  by (cases s) (auto simp: trim_def trim_end_id)

section \<open>Numbers as text\<close>

definition digit_char :: "nat \<Rightarrow> char" where
  "digit_char d = char_of (48 + d)"

fun show_nat :: "nat \<Rightarrow> string" where
  "show_nat n = (if n < 10 then [digit_char n] else show_nat (n div 10) @ [digit_char (n mod 10)])"

declare show_nat.simps [simp del]

definition show_int :: "int \<Rightarrow> string" where
  "show_int i = (if i < 0 then ''-'' @ show_nat (nat (- i)) else show_nat (nat i))"

text \<open>What \<open>parseInt\<close> reads in decimal digits, to state that the text names the number.\<close>

definition digit_value :: "char \<Rightarrow> nat" where
  "digit_value c = of_char c - 48"

definition read_nat :: "string \<Rightarrow> nat" where
  "read_nat s = foldl (\<lambda>n c. 10 * n + digit_value c) 0 s"

lemma digit_value_char [simp]: "d < 10 \<Longrightarrow> digit_value (digit_char d) = d"
  by (simp add: digit_value_def digit_char_def of_char_of)

lemma read_show_nat [simp]: "read_nat (show_nat n) = n"
proof (induction n rule: show_nat.induct)
  case (1 n)
  then show ?case by (subst show_nat.simps) (auto simp: read_nat_def)
qed

lemma show_nat_inject [simp]: "show_nat m = show_nat n \<longleftrightarrow> m = n"
  by (metis read_show_nat)

lemma show_nat_ne [simp]: "show_nat n \<noteq> []"
  by (subst show_nat.simps) auto

lemma digits_show_nat: "c \<in> set (show_nat n) \<Longrightarrow> is_digit c"
proof (induction n rule: show_nat.induct)
  case (1 n)
  then show ?case
    by (subst (asm) show_nat.simps) (auto simp: is_digit_def digit_char_def of_char_of split: if_splits)
qed

section \<open>JSON\<close>

datatype json =
    JNull
  | JBool bool
  | JNum rat
  | JStr string
  | JArr "json list"
  | JObj "(string \<times> json) list"

text \<open>\<open>value.key\<close>: a property of an object; an absent one is \<open>undefined\<close>.\<close>

definition jprop :: "(string \<times> json) list \<Rightarrow> string \<Rightarrow> json option" where
  "jprop fs k = map_of fs k"

text \<open>\<open>typeof value === "object" && value !== null && !Array.isArray(value)\<close>.\<close>

fun plain_object :: "json option \<Rightarrow> (string \<times> json) list option" where
  "plain_object (Some (JObj fs)) = Some fs"
| "plain_object _ = None"

definition hex_digit :: "nat \<Rightarrow> char" where
  "hex_digit d = (if d < 10 then char_of (48 + d) else char_of (87 + d))"

text \<open>One code unit of a JSON string: the short escapes, and \<open>\u00XX\<close> below U+0020.\<close>

definition escape_char :: "char \<Rightarrow> string" where
  "escape_char c = (let n = (of_char c :: nat) in
     if n = 34 then [char_of (92::nat), c]
     else if n = 92 then [c, c]
     else if n = 8 then [char_of (92::nat), CHR ''b'']
     else if n = 9 then [char_of (92::nat), CHR ''t'']
     else if n = 10 then [char_of (92::nat), CHR ''n'']
     else if n = 12 then [char_of (92::nat), CHR ''f'']
     else if n = 13 then [char_of (92::nat), CHR ''r'']
     else if n < 32 then [char_of (92::nat)] @ ''u00'' @ [hex_digit (n div 16), hex_digit (n mod 16)]
     else [c])"

definition quote :: "string \<Rightarrow> string" where
  "quote s = [CHR 34] @ concat (map escape_char s) @ [CHR 34]"

fun join :: "string \<Rightarrow> string list \<Rightarrow> string" where
  "join sep [] = []"
| "join sep [s] = s"
| "join sep (s # t # ts) = s @ sep @ join sep (t # ts)"

text \<open>\<open>String(n)\<close>; \<open>fr\<close> writes what is not an integer.\<close>

definition show_num :: "(rat \<Rightarrow> string) \<Rightarrow> rat \<Rightarrow> string" where
  "show_num fr r = (if of_int \<lfloor>r\<rfloor> = r then show_int \<lfloor>r\<rfloor> else fr r)"

fun stringify :: "(rat \<Rightarrow> string) \<Rightarrow> json \<Rightarrow> string" where
  "stringify fr JNull = ''null''"
| "stringify fr (JBool b) = (if b then ''true'' else ''false'')"
| "stringify fr (JNum r) = show_num fr r"
| "stringify fr (JStr s) = quote s"
| "stringify fr (JArr js) = ''['' @ join '','' (map (stringify fr) js) @ '']''"
| "stringify fr (JObj fs) =
     ''{'' @ join '','' (map (\<lambda>(k, v). quote k @ '':'' @ stringify fr v) fs) @ ''}''"

text \<open>The bytes of a string in UTF-8: code units from U+0080 take two (the ellipsis and the dash three).\<close>

definition utf8_length :: "string \<Rightarrow> int" where
  "utf8_length s = sum_list (map (\<lambda>c. if c = ellipsis \<or> c = em_dash then 3 else if (of_char c :: nat) < 128 then 1 else 2) s)"

lemma length_escape_char: "1 \<le> length (escape_char c)"
  by (simp add: escape_char_def Let_def)

lemma length_quote: "length s + 2 \<le> length (quote s)"
proof -
  have "length s \<le> length (concat (map escape_char s))"
  proof (induction s)
    case (Cons c s)
    then show ?case using length_escape_char [of c] by simp
  qed simp
  then show ?thesis by (simp add: quote_def)
qed

lemma length_quote_replicate: "length (escape_char c) = k \<Longrightarrow> length (quote (replicate n c)) = k * n + 2"
  by (induction n) (simp_all add: quote_def)

end
