(* ===== verification/Notify_Match.thy ===== *)
theory Notify_Match
  imports JsValues
begin

text \<open>
  Which notifications a route or an event task wants: the event-name glob of
  \<open>src/notifications/name-glob.ts\<close> and the match expression of \<open>src/notifications/match.ts\<close>, with
  the levels of \<open>src/platform/schemas/notifications.ts\<close> and \<open>src/notifications/types.ts\<close>.

  The sweep over token positions is the source's, array and all; \<open>glob_lang\<close> is the grammar of the
  file's table, and the two are proved equal. The patterns of the table follow from it.
\<close>

section \<open>The glob\<close>

datatype glob_token = Literal char | Wildcard bool

text \<open>The source's inner \<open>while\<close> measures a run of stars, and the outer index jumps past it.\<close>

fun tokenize :: "string \<Rightarrow> glob_token list" where
  "tokenize [] = []"
| "tokenize (c # cs) =
     (if c \<noteq> CHR ''*'' then Literal c # tokenize cs
      else let run = length (takeWhile (\<lambda>d. d = CHR ''*'') (c # cs))
        in Wildcard (2 \<le> run) # tokenize (drop (run - 1) cs))"

fun crosses_dot :: "glob_token \<Rightarrow> bool option" where
  "crosses_dot (Literal c) = None"
| "crosses_dot (Wildcard d) = Some d"

definition advance_at :: "glob_token list \<Rightarrow> nat \<Rightarrow> bool list \<Rightarrow> bool list" where
  "advance_at ts j r = (if r ! j \<and> crosses_dot (ts ! j) \<noteq> None then r[Suc j := True] else r)"

definition advance_past_empty_wildcards :: "glob_token list \<Rightarrow> bool list \<Rightarrow> bool list" where
  "advance_past_empty_wildcards ts r = fold (advance_at ts) [0..<length ts] r"

definition step_at :: "glob_token list \<Rightarrow> bool list \<Rightarrow> char \<Rightarrow> nat \<Rightarrow> bool list \<Rightarrow> bool list" where
  "step_at ts r c j nxt =
     (if \<not> r ! j then nxt
      else case ts ! j of
        Literal l \<Rightarrow> (if l = c then nxt[Suc j := True] else nxt)
      | Wildcard d \<Rightarrow> (if d \<or> c \<noteq> CHR ''.'' then nxt[j := True] else nxt))"

definition glob_step :: "glob_token list \<Rightarrow> bool list \<Rightarrow> char \<Rightarrow> bool list" where
  "glob_step ts r c = advance_past_empty_wildcards ts
     (fold (step_at ts r c) [0..<length ts] (replicate (length ts + 1) False))"

definition matches_name_glob :: "string \<Rightarrow> string option \<Rightarrow> bool" where
  "matches_name_glob name pattern =
     (case pattern of
        None \<Rightarrow> True
      | Some p \<Rightarrow> p = [] \<or>
          (let ts = tokenize p;
               start = advance_past_empty_wildcards ts ((replicate (length ts + 1) False)[0 := True])
           in foldl (glob_step ts) start name ! length ts))"

section \<open>The match expression\<close>

datatype notification_level = Info | Attention | Urgent

primrec level_rank :: "notification_level \<Rightarrow> nat" where
  "level_rank Info = 0"
| "level_rank Attention = 1"
| "level_rank Urgent = 2"

text \<open>The levels are ordered by rank.\<close>

instantiation notification_level :: linorder
begin

definition less_eq_notification_level :: "notification_level \<Rightarrow> notification_level \<Rightarrow> bool" where
  "less_eq_notification_level a b \<longleftrightarrow> level_rank a \<le> level_rank b"

definition less_notification_level :: "notification_level \<Rightarrow> notification_level \<Rightarrow> bool" where
  "less_notification_level a b \<longleftrightarrow> level_rank a < level_rank b"

instance
proof
  fix a b :: notification_level
  show "a \<le> b \<Longrightarrow> b \<le> a \<Longrightarrow> a = b"
    by (cases a; cases b) (auto simp: less_eq_notification_level_def)
qed (auto simp: less_eq_notification_level_def less_notification_level_def)

end

text \<open>The level a connector's item is matched at: its own, or the workspace's ceiling for the source.\<close>

definition clamp_level :: "notification_level \<Rightarrow> notification_level \<Rightarrow> notification_level" where
  "clamp_level level cap = (if level_rank level \<le> level_rank cap then level else cap)"

lemma clamp_level_min: "clamp_level l c = min l c"
  by (simp add: clamp_level_def min_def less_eq_notification_level_def)

record route_match =
  match_source :: "string option"
  match_name :: "string option"
  match_level :: "notification_level option"

record match_subject =
  sub_source :: string
  sub_name :: string
  sub_level :: notification_level

definition matches_notification :: "route_match option \<Rightarrow> match_subject \<Rightarrow> bool" where
  "matches_notification m s =
     (case m of
        None \<Rightarrow> True
      | Some m \<Rightarrow>
          (if (case match_source m of Some x \<Rightarrow> x \<noteq> sub_source s | None \<Rightarrow> False) then False
           else if \<not> matches_name_glob (sub_name s) (match_name m) then False
           else case match_level m of
               None \<Rightarrow> True
             | Some l \<Rightarrow> \<not> level_rank (sub_level s) < level_rank l))"

section \<open>The grammar\<close>

text \<open>What a token, and a sequence of tokens, admits, as the table has it.\<close>

fun token_lang :: "glob_token \<Rightarrow> string set" where
  "token_lang (Literal c) = {[c]}"
| "token_lang (Wildcard d) = {u. d \<or> CHR ''.'' \<notin> set u}"

definition cat :: "string set \<Rightarrow> string set \<Rightarrow> string set" where
  "cat A B = {u @ w | u w. u \<in> A \<and> w \<in> B}"

primrec glob_lang :: "glob_token list \<Rightarrow> string set" where
  "glob_lang [] = {[]}"
| "glob_lang (t # ts) = cat (token_lang t) (glob_lang ts)"

lemma catI: "u \<in> A \<Longrightarrow> w \<in> B \<Longrightarrow> u @ w \<in> cat A B"
  by (auto simp: cat_def)

lemma catE: "x \<in> cat A B \<Longrightarrow> (\<And>u w. x = u @ w \<Longrightarrow> u \<in> A \<Longrightarrow> w \<in> B \<Longrightarrow> P) \<Longrightarrow> P"
  by (auto simp: cat_def)

lemma cat_assoc: "cat (cat A B) C = cat A (cat B C)"
proof (intro equalityI subsetI)
  fix x
  assume "x \<in> cat (cat A B) C"
  then obtain u v w where "x = (u @ v) @ w" "u \<in> A" "v \<in> B" "w \<in> C" by (elim catE) blast
  then show "x \<in> cat A (cat B C)" using catI [of u A "v @ w"] catI [of v B w C] by simp
next
  fix x
  assume "x \<in> cat A (cat B C)"
  then obtain u v w where "x = u @ v @ w" "u \<in> A" "v \<in> B" "w \<in> C" by (elim catE) blast
  then show "x \<in> cat (cat A B) C" using catI [of "u @ v" "cat A B" w C] catI [of u A v B] by simp
qed

lemma cat_unit [simp]: "cat {[]} A = A" "cat A {[]} = A"
  by (auto simp: cat_def)

lemma glob_lang_append: "glob_lang (ts @ us) = cat (glob_lang ts) (glob_lang us)"
  by (induction ts) (simp_all add: cat_assoc)

lemma glob_lang_snoc: "glob_lang (ts @ [t]) = cat (glob_lang ts) (token_lang t)"
  by (simp add: glob_lang_append)

lemma glob_lang_snoc_nil:
  "[] \<in> glob_lang (ts @ [t]) \<longleftrightarrow> crosses_dot t \<noteq> None \<and> [] \<in> glob_lang ts"
  by (cases t) (auto simp: glob_lang_snoc cat_def)

lemma glob_lang_snoc_literal:
  "w @ [c] \<in> glob_lang (ts @ [Literal l]) \<longleftrightarrow> l = c \<and> w \<in> glob_lang ts"
  by (auto simp: glob_lang_snoc cat_def)

lemma glob_lang_wild: "w \<in> glob_lang ts \<Longrightarrow> w \<in> glob_lang (ts @ [Wildcard d])"
  using catI [of w "glob_lang ts" "[]" "token_lang (Wildcard d)"] by (simp add: glob_lang_snoc)

lemma glob_lang_snoc_wildcard:
  "w @ [c] \<in> glob_lang (ts @ [Wildcard d]) \<longleftrightarrow>
     (d \<or> c \<noteq> CHR ''.'') \<and> w \<in> glob_lang (ts @ [Wildcard d]) \<or> w @ [c] \<in> glob_lang ts"
proof
  assume "w @ [c] \<in> glob_lang (ts @ [Wildcard d])"
  then obtain u v where uv: "w @ [c] = u @ v" "u \<in> glob_lang ts" "d \<or> CHR ''.'' \<notin> set v"
    by (auto simp: glob_lang_snoc elim: catE)
  show "(d \<or> c \<noteq> CHR ''.'') \<and> w \<in> glob_lang (ts @ [Wildcard d]) \<or> w @ [c] \<in> glob_lang ts"
  proof (cases v rule: rev_cases)
    case (snoc v' x)
    then show ?thesis using uv catI [of u "glob_lang ts" v' "token_lang (Wildcard d)"]
      by (auto simp: glob_lang_snoc)
  qed (use uv in simp)
next
  assume "(d \<or> c \<noteq> CHR ''.'') \<and> w \<in> glob_lang (ts @ [Wildcard d]) \<or> w @ [c] \<in> glob_lang ts"
  then show "w @ [c] \<in> glob_lang (ts @ [Wildcard d])"
  proof
    assume a: "(d \<or> c \<noteq> CHR ''.'') \<and> w \<in> glob_lang (ts @ [Wildcard d])"
    then obtain u v where "w = u @ v" "u \<in> glob_lang ts" "d \<or> CHR ''.'' \<notin> set v"
      by (auto simp: glob_lang_snoc elim: catE)
    then show ?thesis using a catI [of u "glob_lang ts" "v @ [c]" "token_lang (Wildcard d)"]
      by (auto simp: glob_lang_snoc)
  qed (rule glob_lang_wild)
qed

section \<open>The sweep\<close>

text \<open>
  What the text read so far must be for position \<open>j\<close> to be set: the tokens before \<open>j\<close> admit it, and a
  wildcard at \<open>j\<close> may already have eaten some of it.
\<close>

definition wild_at :: "glob_token list \<Rightarrow> nat \<Rightarrow> bool" where
  "wild_at ts j \<longleftrightarrow> j < length ts \<and> crosses_dot (ts ! j) \<noteq> None"

definition pos_lang :: "glob_token list \<Rightarrow> nat \<Rightarrow> string set" where
  "pos_lang ts j = glob_lang (take (if wild_at ts j then Suc j else j) ts)"

definition live_set :: "glob_token list \<Rightarrow> string \<Rightarrow> bool list \<Rightarrow> bool" where
  "live_set ts w r \<longleftrightarrow> length r = length ts + 1 \<and> (\<forall>j \<le> length ts. r ! j = (w \<in> pos_lang ts j))"

text \<open>Before the sweep, the positions a token has just moved to or stayed at.\<close>

definition moved :: "glob_token list \<Rightarrow> string \<Rightarrow> char \<Rightarrow> nat \<Rightarrow> bool" where
  "moved ts w c j \<longleftrightarrow>
     (\<exists>i. j = Suc i \<and> i < length ts \<and> ts ! i = Literal c \<and> w \<in> pos_lang ts i) \<or>
     (\<exists>d. j < length ts \<and> ts ! j = Wildcard d \<and> (d \<or> c \<noteq> CHR ''.'') \<and> w \<in> pos_lang ts j)"

text \<open>The single ascending sweep closes a set of positions under "a wildcard may match nothing".\<close>

lemma length_advance [simp]: "length (fold (advance_at ts) js r) = length r"
  by (induction js arbitrary: r) (auto simp: advance_at_def)

lemma advance_prefix:
  assumes "length r = length ts + 1" "n \<le> length ts"
    and r: "\<And>j. j \<le> length ts \<Longrightarrow> r ! j = base j"
    and lang: "lang 0 = base 0"
      "\<And>j. j < length ts \<Longrightarrow> lang (Suc j) = (base (Suc j) \<or> crosses_dot (ts ! j) \<noteq> None \<and> lang j)"
    and j: "j \<le> length ts"
  shows "fold (advance_at ts) [0..<n] r ! j = (if j \<le> n then lang j else base j)"
  using assms(2) j
proof (induction n arbitrary: j)
  case 0
  then show ?case using r lang(1) by simp
next
  case (Suc n)
  let ?r = "fold (advance_at ts) [0..<n] r"
  have n: "?r ! n = lang n" "?r ! Suc n = base (Suc n)" using Suc by simp_all
  have "fold (advance_at ts) [0..<Suc n] r = advance_at ts n ?r" by simp
  moreover have "advance_at ts n ?r ! j = (if j = Suc n then lang (Suc n) else ?r ! j)"
    using n lang(2) [of n] Suc.prems assms(1) by (auto simp: advance_at_def nth_list_update)
  ultimately show ?case using Suc by auto
qed

lemma live_advance:
  assumes "length r = length ts + 1"
    and "\<And>j. j \<le> length ts \<Longrightarrow> r ! j = base j"
    and "w \<in> pos_lang ts 0 \<longleftrightarrow> base 0"
    and "\<And>j. j < length ts \<Longrightarrow> w \<in> pos_lang ts (Suc j) \<longleftrightarrow> base (Suc j) \<or> wild_at ts j \<and> w \<in> pos_lang ts j"
  shows "live_set ts w (advance_past_empty_wildcards ts r)"
  using advance_prefix [of r ts "length ts" base "\<lambda>j. w \<in> pos_lang ts j"] assms
  by (auto simp: live_set_def advance_past_empty_wildcards_def wild_at_def)

lemma take_Suc_snoc: "j < length ts \<Longrightarrow> take (Suc j) ts = take j ts @ [ts ! j]"
  by (rule take_Suc_conv_app_nth)

lemma nil_glob_lang_Suc:
  "j < length ts \<Longrightarrow> [] \<in> glob_lang (take (Suc j) ts) \<longleftrightarrow> crosses_dot (ts ! j) \<noteq> None \<and> [] \<in> glob_lang (take j ts)"
  by (simp only: take_Suc_snoc glob_lang_snoc_nil)

lemma nil_pos_lang: "[] \<in> pos_lang ts j \<longleftrightarrow> [] \<in> glob_lang (take j ts)"
  using nil_glob_lang_Suc [of j ts] by (auto simp: pos_lang_def wild_at_def)

lemma pos_lang_nil_0: "[] \<in> pos_lang ts 0"
  by (simp add: nil_pos_lang)

lemma pos_lang_nil_Suc: "j < length ts \<Longrightarrow> [] \<in> pos_lang ts (Suc j) \<longleftrightarrow> wild_at ts j \<and> [] \<in> pos_lang ts j"
  unfolding nil_pos_lang by (simp only: nil_glob_lang_Suc wild_at_def) blast

lemma nth_first_set: "j \<le> n \<Longrightarrow> (replicate (n + 1) False)[0 := True] ! j = (j = 0)"
  by (cases j) simp_all

lemma live_start:
  "live_set ts [] (advance_past_empty_wildcards ts ((replicate (length ts + 1) False)[0 := True]))"
  by (rule live_advance [where base = "\<lambda>j. j = 0"])
    (simp_all only: nth_first_set pos_lang_nil_0 pos_lang_nil_Suc, simp_all)

lemma length_step_fold [simp]: "length (fold (step_at ts r c) js nxt) = length nxt"
  by (induction js arbitrary: nxt) (auto simp: step_at_def split: glob_token.splits)

lemma step_at_nth:
  assumes "length nxt = length ts + 1" "n < length ts"
  shows "step_at ts r c n nxt ! j = (nxt ! j \<or> r ! n \<and>
    (j = Suc n \<and> ts ! n = Literal c \<or> j = n \<and> (\<exists>d. ts ! n = Wildcard d \<and> (d \<or> c \<noteq> CHR ''.''))))"
  using assms by (cases "ts ! n") (auto simp: step_at_def nth_list_update)

lemma step_prefix:
  assumes r: "live_set ts w r" and n: "n \<le> length ts" and j: "j \<le> length ts"
  shows "fold (step_at ts r c) [0..<n] (replicate (length ts + 1) False) ! j =
    ((\<exists>i < n. j = Suc i \<and> ts ! i = Literal c \<and> w \<in> pos_lang ts i) \<or>
     (\<exists>d. j < n \<and> ts ! j = Wildcard d \<and> (d \<or> c \<noteq> CHR ''.'') \<and> w \<in> pos_lang ts j))"
  using n
proof (induction n)
  case 0
  then show ?case using j by (simp del: replicate_Suc)
next
  case (Suc n)
  let ?x = "fold (step_at ts r c) [0..<n] (replicate (length ts + 1) False)"
  have rn: "r ! n = (w \<in> pos_lang ts n)" using r Suc.prems by (simp add: live_set_def)
  have "fold (step_at ts r c) [0..<Suc n] (replicate (length ts + 1) False) ! j = step_at ts r c n ?x ! j"
    by simp
  also have "\<dots> = (?x ! j \<or> r ! n \<and>
      (j = Suc n \<and> ts ! n = Literal c \<or> j = n \<and> (\<exists>d. ts ! n = Wildcard d \<and> (d \<or> c \<noteq> CHR ''.''))))"
    using Suc.prems by (intro step_at_nth) (simp_all del: replicate_Suc)
  finally show ?case using Suc.IH Suc.prems unfolding rn by (auto simp only: less_Suc_eq Suc_leD)
qed

text \<open>What a position's language is after one more character, by the token there and the one before.\<close>

lemma pos_lang_snoc_0: "w @ [c] \<in> pos_lang ts 0 \<longleftrightarrow> moved ts w c 0"
proof (cases ts)
  case (Cons t us)
  then show ?thesis
    using glob_lang_snoc_wildcard [of w c "[]"]
    by (cases t) (auto simp: pos_lang_def wild_at_def moved_def)
qed (simp add: pos_lang_def wild_at_def moved_def)

lemma glob_lang_snoc_char:
  assumes "j < length ts"
  shows "w @ [c] \<in> glob_lang (take (Suc j) ts) \<longleftrightarrow>
    (case ts ! j of Literal l \<Rightarrow> l = c \<and> w \<in> pos_lang ts j
     | Wildcard d \<Rightarrow> (d \<or> c \<noteq> CHR ''.'') \<and> w \<in> pos_lang ts j \<or> w @ [c] \<in> glob_lang (take j ts))"
  using assms glob_lang_snoc_literal glob_lang_snoc_wildcard
  by (auto simp: take_Suc_snoc pos_lang_def wild_at_def split: glob_token.splits)

lemma pos_lang_snoc_Suc:
  assumes "j < length ts"
  shows "w @ [c] \<in> pos_lang ts (Suc j) \<longleftrightarrow> moved ts w c (Suc j) \<or> wild_at ts j \<and> w @ [c] \<in> pos_lang ts j"
proof -
  have before: "w @ [c] \<in> glob_lang (take (Suc j) ts) \<longleftrightarrow>
      ts ! j = Literal c \<and> w \<in> pos_lang ts j \<or> wild_at ts j \<and> w @ [c] \<in> pos_lang ts j"
  proof (cases "ts ! j")
    case (Literal l)
    then show ?thesis using glob_lang_snoc_char [OF assms] by (auto simp: wild_at_def)
  next
    case (Wildcard d)
    then show ?thesis using assms by (auto simp: wild_at_def pos_lang_def)
  qed
  show ?thesis
  proof (cases "wild_at ts (Suc j)")
    case True
    then obtain d where d: "Suc j < length ts" "ts ! Suc j = Wildcard d"
      by (auto simp: wild_at_def elim: crosses_dot.elims)
    then have "w @ [c] \<in> pos_lang ts (Suc j) \<longleftrightarrow>
        (d \<or> c \<noteq> CHR ''.'') \<and> w \<in> pos_lang ts (Suc j) \<or> w @ [c] \<in> glob_lang (take (Suc j) ts)"
      using glob_lang_snoc_char [OF d(1)] True by (simp add: pos_lang_def)
    then show ?thesis using before d assms by (auto simp: moved_def)
  next
    case False
    then have "\<not> (\<exists>d. Suc j < length ts \<and> ts ! Suc j = Wildcard d)" by (auto simp: wild_at_def)
    moreover have "pos_lang ts (Suc j) = glob_lang (take (Suc j) ts)" using False by (simp add: pos_lang_def)
    ultimately show ?thesis using before assms by (auto simp: moved_def)
  qed
qed

lemma glob_step_live:
  assumes "live_set ts w r"
  shows "live_set ts (w @ [c]) (glob_step ts r c)"
  unfolding glob_step_def
proof (rule live_advance [where base = "moved ts w c"])
  show "fold (step_at ts r c) [0..<length ts] (replicate (length ts + 1) False) ! j = moved ts w c j"
    if "j \<le> length ts" for j
    using step_prefix [OF assms order_refl that] by (auto simp: moved_def)
qed (simp_all add: pos_lang_snoc_0 pos_lang_snoc_Suc)

lemma sweep_live: "live_set ts w r \<Longrightarrow> live_set ts (w @ v) (foldl (glob_step ts) r v)"
proof (induction v arbitrary: w r)
  case (Cons c v)
  then show ?case using Cons.IH [OF glob_step_live [OF Cons.prems]] by simp
qed simp

lemma name_glob_lang:
  "matches_name_glob name pattern =
     (case pattern of None \<Rightarrow> True | Some p \<Rightarrow> p = [] \<or> name \<in> glob_lang (tokenize p))"
proof (cases pattern)
  case (Some p)
  have "live_set (tokenize p) ([] @ name) (foldl (glob_step (tokenize p)) (advance_past_empty_wildcards (tokenize p)
      ((replicate (length (tokenize p) + 1) False)[0 := True])) name)"
    by (rule sweep_live [OF live_start])
  then show ?thesis using Some
    by (simp add: matches_name_glob_def Let_def live_set_def pos_lang_def wild_at_def)
qed (simp add: matches_name_glob_def)

text \<open>
  C15. The linear sweep decides the glob grammar: a name matches a non-empty pattern exactly when it is
  in the language of the pattern's tokens, where a literal is itself, \<open>*\<close> is any text without a dot and
  \<open>**\<close> any text; an absent or empty pattern matches every name.
\<close>

theorem matches_name_glob_iff:
  "matches_name_glob name pattern =
     (case pattern of None \<Rightarrow> True | Some p \<Rightarrow> p = [] \<or> name \<in> glob_lang (tokenize p))"
  by (rule name_glob_lang)

text \<open>The table of patterns, for a prefix without a star.\<close>

lemma tokenize_literal: "CHR ''*'' \<notin> set p \<Longrightarrow> tokenize (p @ q) = map Literal p @ tokenize q"
  by (induction p) auto

lemma glob_lang_literals: "glob_lang (map Literal p) = {p}"
  by (induction p) (auto simp: cat_def)

text \<open>
  The documented table: a pattern without stars is the name itself; \<open>p.*\<close> is one more segment
  under \<open>p\<close>; \<open>p.**\<close> is everything under \<open>p\<close> and never \<open>p\<close> itself; \<open>**\<close> is every name.
\<close>

theorem name_glob_table:
  assumes "CHR ''*'' \<notin> set p" "p \<noteq> []"
  shows "matches_name_glob name (Some p) = (name = p) \<and>
    matches_name_glob name (Some (p @ ''.*'')) = (\<exists>seg. name = p @ ''.'' @ seg \<and> CHR ''.'' \<notin> set seg) \<and>
    matches_name_glob name (Some (p @ ''.**'')) = (\<exists>rest. name = p @ ''.'' @ rest) \<and>
    \<not> matches_name_glob p (Some (p @ ''.**'')) \<and> matches_name_glob name (Some ''**'')"
proof -
  have t: "tokenize p = map Literal p" "tokenize (p @ ''.*'') = map Literal p @ [Literal (CHR ''.''), Wildcard False]"
    "tokenize (p @ ''.**'') = map Literal p @ [Literal (CHR ''.''), Wildcard True]" "tokenize ''**'' = [Wildcard True]"
    using tokenize_literal [OF assms(1), of "[]"] tokenize_literal [OF assms(1)] by simp_all
  show ?thesis using assms(2)
    by (auto simp: name_glob_lang t glob_lang_append glob_lang_literals cat_def)
qed

theorem name_glob_table_witness:
  "matches_name_glob ''a.b'' (Some (''a'' @ ''.*'')) \<and> \<not> matches_name_glob ''a'' (Some (''a'' @ ''.**''))"
proof -
  have "CHR ''*'' \<notin> set ''a''" "''a'' \<noteq> []" by simp_all
  from name_glob_table [OF this, of "''a.b''"] show ?thesis by simp
qed

text \<open>
  A ceiling holds what a connector can reach: an item matched at the level clamped to the ceiling
  never satisfies a match that asks for more than the ceiling or more than the connector's own level,
  and a match that an item satisfies it still satisfies at any higher level.
\<close>

theorem ceiling_bounds_reach:
  assumes "matches_notification (Some m) (s\<lparr>sub_level := clamp_level own cap\<rparr>)"
  shows "(\<forall>l. match_level m = Some l \<longrightarrow> l \<le> own \<and> l \<le> cap) \<and>
    (\<forall>higher \<ge> clamp_level own cap. matches_notification (Some m) (s\<lparr>sub_level := higher\<rparr>))"
  using assms
  by (auto simp: matches_notification_def less_eq_notification_level_def not_less clamp_level_def
      split: if_splits option.splits)

theorem ceiling_bounds_reach_witness:
  "matches_notification (Some \<lparr>match_source = None, match_name = Some ''**'', match_level = Some Info\<rparr>)
     \<lparr>sub_source = [], sub_name = [], sub_level = Urgent\<rparr>"
proof -
  have "matches_name_glob [] (Some ''**'')" by (simp add: name_glob_lang cat_def)
  then have m: "matches_notification (Some \<lparr>match_source = None, match_name = Some ''**'', match_level = Some Info\<rparr>)
      (\<lparr>sub_source = [], sub_name = [], sub_level = Info\<rparr>\<lparr>sub_level := clamp_level Urgent Attention\<rparr>)"
    by (simp add: matches_notification_def)
  have "clamp_level Urgent Attention \<le> Urgent" by (simp add: clamp_level_def less_eq_notification_level_def)
  with ceiling_bounds_reach [OF m] show ?thesis by auto
qed

end
