(* ===== verification/Calendar.thy ===== *)
theory Calendar
  imports JsValues
begin

text \<open>
  The part of \<open>Date\<close> the components use: days since 1970-01-01 as year, month and day in UTC,
  \<open>Date.UTC\<close> with a day that may run past its month, and \<open>toISOString\<close>. The day numbers are the
  language standard's (DayFromYear and MonthFromTime); months count from 1.
\<close>

definition ms_per_day :: ms where
  "ms_per_day = 86400000"

definition day_from_year :: "int \<Rightarrow> int" where
  "day_from_year y = 365 * (y - 1970) + (y - 1969) div 4 - (y - 1901) div 100 + (y - 1601) div 400"

definition leap_year :: "int \<Rightarrow> bool" where
  "leap_year y \<longleftrightarrow> y mod 4 = 0 \<and> (y mod 100 \<noteq> 0 \<or> y mod 400 = 0)"

text \<open>The year of a day: the mean year gives it up to one, and one comparison settles it.\<close>

definition year_of_day :: "int \<Rightarrow> int" where
  "year_of_day d = (let y = 1970 + (400 * d) div 146097
     in if d < day_from_year y then y - 1
        else if day_from_year (y + 1) \<le> d then y + 1 else y)"

definition month_start :: "bool \<Rightarrow> int \<Rightarrow> int" where
  "month_start leap m =
     (if m \<le> 1 then 0 else if m = 2 then 31 else
      (if leap then 1 else 0) +
        (if m = 3 then 59 else if m = 4 then 90 else if m = 5 then 120 else if m = 6 then 151
         else if m = 7 then 181 else if m = 8 then 212 else if m = 9 then 243 else if m = 10 then 273
         else if m = 11 then 304 else if m = 12 then 334 else 365))"

fun month_search :: "bool \<Rightarrow> int \<Rightarrow> nat \<Rightarrow> int" where
  "month_search leap doy 0 = 1"
| "month_search leap doy (Suc m) =
     (if month_start leap (int (Suc m)) \<le> doy then int (Suc m) else month_search leap doy m)"

definition civil_of_day :: "int \<Rightarrow> int \<times> int \<times> int" where
  "civil_of_day d = (let y = year_of_day d; doy = d - day_from_year y;
       m = month_search (leap_year y) doy 12
     in (y, m, doy - month_start (leap_year y) m + 1))"

text \<open>\<open>Date.UTC(y, m - 1, d)\<close> in days, for a month from 1 to 12.\<close>

definition day_utc :: "int \<Rightarrow> int \<Rightarrow> int \<Rightarrow> int" where
  "day_utc y m d = day_from_year y + month_start (leap_year y) m + (d - 1)"

lemma div_plus_one:
  fixes a c :: int
  assumes "0 < c"
  shows "(a + 1) div c = a div c + (if (a + 1) mod c = 0 then 1 else 0)"
proof (cases "a mod c = c - 1")
  case True
  then have "a + 1 = c * (a div c + 1)"
    using mult_div_mod_eq [of c a] by (simp add: distrib_left)
  then show ?thesis using assms by simp
next
  case False
  then have r: "0 \<le> a mod c + 1" "a mod c + 1 < c"
    using assms pos_mod_bound [of c a] pos_mod_sign [of c a] by linarith+
  have e: "a + 1 = (a mod c + 1) + a div c * c" using div_mult_mod_eq [of a c] by linarith
  have "(a + 1) div c = a div c" "(a + 1) mod c = a mod c + 1"
    using r assms by (simp_all only: e div_mult_self1 mod_mult_self1 div_pos_pos_trivial mod_pos_pos_trivial)
  moreover have "a mod c + 1 \<noteq> 0" using assms pos_mod_sign [of c a] by linarith
  ultimately show ?thesis by simp
qed

lemma leap_sum:
  "Q \<longrightarrow> P \<Longrightarrow> R \<longrightarrow> Q \<Longrightarrow> (D::int) + 365 + (if P then 1 else 0) - (if Q then 1 else 0) + (if R then 1 else 0) =
      D + (if P \<and> (\<not> Q \<or> R) then 366 else 365)"
  by (cases P; cases Q; cases R; simp)

lemma day_from_year_Suc: "day_from_year (y + 1) = day_from_year y + (if leap_year y then 366 else 365)"
proof -
  have shift: "y + 1 - a = y - a + 1" for a by simp
  have s: "(y + 1 - 1969) div 4 = (y - 1969) div 4 + (if (y - 1969 + 1) mod 4 = 0 then 1 else 0)"
    "(y + 1 - 1901) div 100 = (y - 1901) div 100 + (if (y - 1901 + 1) mod 100 = 0 then 1 else 0)"
    "(y + 1 - 1601) div 400 = (y - 1601) div 400 + (if (y - 1601 + 1) mod 400 = 0 then 1 else 0)"
    using div_plus_one [of 4 "y - 1969"] div_plus_one [of 100 "y - 1901"] div_plus_one [of 400 "y - 1601"]
    by (simp_all only: shift zero_less_numeral simp_thms if_True if_False)
  have "y - 1969 + 1 = y + (- 492) * 4" "y - 1901 + 1 = y + (- 19) * 100" "y - 1601 + 1 = y + (- 4) * 400"
    by simp_all
  then have m: "(y - 1969 + 1) mod 4 = 0 \<longleftrightarrow> y mod 4 = 0" "(y - 1901 + 1) mod 100 = 0 \<longleftrightarrow> y mod 100 = 0"
    "(y - 1601 + 1) mod 400 = 0 \<longleftrightarrow> y mod 400 = 0"
    by (simp_all only: mod_mult_self1)
  have d: "(4::int) dvd 100" "(100::int) dvd 400" by simp_all
  have i: "y mod 100 = 0 \<Longrightarrow> y mod 4 = 0" "y mod 400 = 0 \<Longrightarrow> y mod 100 = 0"
    using dvd_trans [OF d(1)] dvd_trans [OF d(2)] by (simp_all add: dvd_eq_mod_eq_0 [symmetric])
  have r: "365 * (y + 1 - 1970) + (p + a) - (q + b) + (t + c) = 365 * (y - 1970) + p - q + t + 365 + a - b + c"
    for p q t a b c :: int by simp
  have step: "day_from_year (y + 1) = day_from_year y + 365 + (if y mod 4 = 0 then 1 else 0) -
      (if y mod 100 = 0 then 1 else 0) + (if y mod 400 = 0 then 1 else 0)"
    unfolding day_from_year_def s m by (rule r)
  show ?thesis unfolding step leap_year_def using i by (intro leap_sum) blast+
qed

lemma year_of_day_bounds:
  "day_from_year (year_of_day d) \<le> d \<and> d < day_from_year (year_of_day d + 1)"
proof -
  define y where "y = 1970 + (400 * d) div 146097"
  have b: "146097 * (y - 1970) \<le> 400 * d" "400 * d < 146097 * (y - 1970) + 146097"
    unfolding y_def using mult_div_mod_eq [of 146097 "400 * d"] pos_mod_sign [of 146097 "400 * d"]
      pos_mod_bound [of 146097 "400 * d"] by (simp_all del: mult_div_mod_eq)
  have f: "4 * ((z::int) div 4) \<le> z" "z < 4 * (z div 4) + 4" "100 * (z div 100) \<le> z" "z < 100 * (z div 100) + 100"
     "400 * (z div 400) \<le> z" "z < 400 * (z div 400) + 400" for z by linarith+
  define A B C where "A = (y - 1 - 1969) div 4" and "B = (y - 1 - 1901) div 100" and "C = (y - 1 - 1601) div 400"
  have "4 * A \<le> y - 1970" "y - 1902 < 100 * B + 100" "400 * C \<le> y - 1602"
    using f(1) [of "y - 1 - 1969"] f(4) [of "y - 1 - 1901"] f(5) [of "y - 1 - 1601"]
    unfolding A_def [symmetric] B_def [symmetric] C_def [symmetric] by linarith+
  then have "400 * (365 * (y - 1 - 1970) + A - B + C) \<le> 400 * d" using b by (simp add: algebra_simps)
  then have "365 * (y - 1 - 1970) + A - B + C \<le> d" by simp
  then have lo: "day_from_year (y - 1) \<le> d" unfolding day_from_year_def A_def B_def C_def .
  define A' B' C' where "A' = (y + 2 - 1969) div 4" and "B' = (y + 2 - 1901) div 100" and "C' = (y + 2 - 1601) div 400"
  have "y - 1967 < 4 * A' + 4" "100 * B' \<le> y - 1899" "y - 1599 < 400 * C' + 400"
    using f(2) [of "y + 2 - 1969"] f(3) [of "y + 2 - 1901"] f(6) [of "y + 2 - 1601"]
    unfolding A'_def [symmetric] B'_def [symmetric] C'_def [symmetric] by linarith+
  then have "400 * d < 400 * (365 * (y + 2 - 1970) + A' - B' + C')" using b by (simp add: algebra_simps)
  then have "d < 365 * (y + 2 - 1970) + A' - B' + C'" by simp
  then have hi: "d < day_from_year (y + 2)" unfolding day_from_year_def A'_def B'_def C'_def .
  show ?thesis using lo hi unfolding year_of_day_def y_def [symmetric] Let_def
    by (auto simp: add.assoc)
qed

lemma month_start_1 [simp]: "month_start leap 1 = 0"
  by (simp add: month_start_def)

lemma month_search_le: "1 \<le> m \<Longrightarrow> month_search leap doy m \<le> int m"
proof (induction m)
  case (Suc m)
  then show ?case by (cases m) auto
qed simp

lemma month_search_bounds:
  "0 \<le> doy \<Longrightarrow> 1 \<le> month_search leap doy m \<and> month_start leap (month_search leap doy m) \<le> doy"
  by (induction m) auto

lemma month_search_next:
  "1 \<le> m \<Longrightarrow> month_search leap doy m < int m \<Longrightarrow> doy < month_start leap (month_search leap doy m + 1)"
proof (induction m)
  case (Suc m)
  have nle: "\<not> month_start leap (int (Suc m)) \<le> doy" and e: "month_search leap doy (Suc m) = month_search leap doy m"
    using Suc.prems by (auto split: if_splits)
  have m: "m \<noteq> 0"
  proof
    assume "m = 0"
    then show False using Suc.prems(2) by (cases "month_start leap 1 \<le> doy") simp_all
  qed
  show ?case
  proof (cases "month_search leap doy m = int m")
    case True
    then show ?thesis using nle e by (simp add: add.commute)
  next
    case False
    then show ?thesis using month_search_le [of m leap doy] Suc.IH e m by simp
  qed
qed simp

text \<open>The civil date names its day.\<close>

lemma day_utc_civil: "civil_of_day d = (y, m, dy) \<Longrightarrow> day_utc y m dy = d"
  by (auto simp: civil_of_day_def day_utc_def Let_def)

lemma civil_bounds:
  assumes "civil_of_day d = (y, m, dy)"
  shows "1 \<le> m \<and> m \<le> 12 \<and> 1 \<le> dy"
    and "m < 12 \<Longrightarrow> d < day_utc y (m + 1) 1"
    and "d < day_utc (y + 1) 1 1"
    and "day_utc y m 1 \<le> d"
proof -
  let ?doy = "d - day_from_year y"
  have y: "y = year_of_day d" and m: "m = month_search (leap_year y) ?doy 12"
    and dy: "dy = ?doy - month_start (leap_year y) m + 1"
    using assms by (auto simp: civil_of_day_def Let_def)
  have doy: "0 \<le> ?doy" using year_of_day_bounds [of d] y by simp
  show "1 \<le> m \<and> m \<le> 12 \<and> 1 \<le> dy"
    using month_search_bounds [OF doy, where leap = "leap_year y" and m = 12]
      month_search_le [of 12 "leap_year y" ?doy] m dy by simp
  show "m < 12 \<Longrightarrow> d < day_utc y (m + 1) 1"
    using month_search_next [where m = 12 and leap = "leap_year y" and doy = ?doy] m
    by (simp add: day_utc_def)
  show "d < day_utc (y + 1) 1 1"
    using year_of_day_bounds [of d] y by (simp add: day_utc_def month_start_def)
  show "day_utc y m 1 \<le> d"
    using month_search_bounds [OF doy, where leap = "leap_year y" and m = 12] m by (simp add: day_utc_def)
qed

lemma month_length:
  assumes "1 \<le> m" "m \<le> 12"
  shows "(if m = 12 then day_utc (y + 1) 1 1 else day_utc y (m + 1) 1) \<le> day_utc y m 1 + 31"
  using assms day_from_year_Suc [of y]
  by (auto simp: day_utc_def month_start_def split: if_splits)

text \<open>The first of a month is its own date.\<close>

lemma day_from_year_mono: "y \<le> z \<Longrightarrow> day_from_year y \<le> day_from_year z"
proof (induction z rule: int_ge_induct)
  case (step z)
  then show ?case using day_from_year_Suc [of z] by (simp split: if_splits)
qed simp

lemma year_of_day_unique:
  assumes "day_from_year y \<le> d" "d < day_from_year (y + 1)"
  shows "year_of_day d = y"
proof (rule ccontr)
  assume "year_of_day d \<noteq> y"
  then have "year_of_day d + 1 \<le> y \<or> y + 1 \<le> year_of_day d" by linarith
  then show False
    using day_from_year_mono [of "year_of_day d + 1" y] day_from_year_mono [of "y + 1" "year_of_day d"]
      year_of_day_bounds [of d] assms by auto
qed

lemma month_cases: "1 \<le> m \<Longrightarrow> m \<le> (12::int) \<Longrightarrow> m \<in> {1, 2, 3, 4, 5, 6, 7, 8, 9, 10, 11, 12}"
  unfolding insert_iff empty_iff by presburger

lemma month_search_start:
  assumes "1 \<le> m" "m \<le> 12"
  shows "month_search leap (month_start leap m) 12 = m"
  using month_cases [OF assms] by (auto simp: numeral_eq_Suc month_start_def)

lemma civil_first_of_month:
  assumes "1 \<le> m" "m \<le> 12"
  shows "civil_of_day (day_utc y m 1) = (y, m, 1)"
proof -
  have b: "0 \<le> month_start (leap_year y) m" "month_start (leap_year y) m < 365"
    using month_cases [OF assms] by (auto simp: month_start_def)
  have "year_of_day (day_utc y m 1) = y"
    using b day_from_year_Suc [of y] by (intro year_of_day_unique) (auto simp: day_utc_def split: if_splits)
  then show ?thesis using month_search_start [OF assms] by (simp add: civil_of_day_def day_utc_def)
qed

section \<open>The text of an instant\<close>

definition pad :: "nat \<Rightarrow> int \<Rightarrow> string" where
  "pad w n = (let s = show_nat (nat n) in replicate (w - length s) (CHR ''0'') @ s)"

text \<open>\<open>toISOString\<close>: a year outside 0 to 9999 is written with a sign and six digits.\<close>

definition to_iso :: "ms \<Rightarrow> string" where
  "to_iso t = (let (y, m, d) = civil_of_day (t div ms_per_day); r = t mod ms_per_day in
     (if 0 \<le> y \<and> y \<le> 9999 then pad 4 y else (if y < 0 then ''-'' else ''+'') @ pad 6 \<bar>y\<bar>) @
     ''-'' @ pad 2 m @ ''-'' @ pad 2 d @ ''T'' @ pad 2 (r div 3600000) @ '':'' @
     pad 2 (r div 60000 mod 60) @ '':'' @ pad 2 (r div 1000 mod 60) @ ''.'' @ pad 3 (r mod 1000) @ ''Z'')"

end
