(* ===== verification/Notify_Envelope.thy ===== *)
theory Notify_Envelope
  imports Notify_Match Calendar
begin

text \<open>
  Reading what a connector's outbox sends: one envelope (\<open>src/notifications/envelope.ts\<close>), its
  record and ids (\<open>src/notifications/types.ts\<close>), and one poll answer
  (\<open>src/notifications/poll-result.ts\<close>).

  A value read out of \<open>unknown\<close> is a \<open>json option\<close>, \<open>None\<close> for \<open>undefined\<close>. A reader that answers
  a value, \<open>undefined\<close> or \<open>null\<close> answers an option of an option, the outer \<open>None\<close> for \<open>null\<close>. The
  date parser \<open>Date\<close> applies to text it did not write itself is implementation-defined and a
  parameter, as is the text of a number that is not an integer. Debug lines are not modelled.
\<close>

section \<open>The record\<close>

record notification_presentation =
  p_level :: notification_level
  p_title :: string
  p_subject :: "string option"
  p_body :: "string option"
  p_link :: "string option"

record notification_envelope =
  env_eventId :: string
  env_name :: string
  env_timestamp :: string
  env_data :: "(string \<times> json) list"
  env_cursor :: "string option"
  env_meta :: "(string \<times> json) list"

definition notification_meta_key :: string where
  "notification_meta_key = ''ai.nimblebrain/notification''"

definition default_notification_level :: notification_level where
  "default_notification_level = Info"

definition notification_title_max :: nat where
  "notification_title_max = 200"

definition notification_body_max :: nat where
  "notification_body_max = 2000"

definition notification_subject_max :: nat where
  "notification_subject_max = 200"

primrec level_text :: "notification_level \<Rightarrow> string" where
  "level_text Info = ''info''"
| "level_text Attention = ''attention''"
| "level_text Urgent = ''urgent''"

definition notification_levels :: "notification_level list" where
  "notification_levels = [Info, Attention, Urgent]"

section \<open>Plain text\<close>

definition control_char :: "char \<Rightarrow> bool" where
  "control_char c \<longleftrightarrow> (let n = (of_char c :: nat) in n < 32 \<or> n = 127)"

definition has_control_chars :: "string \<Rightarrow> bool" where
  "has_control_chars s \<longleftrightarrow> list_ex control_char s"

text \<open>\<open>replace(/\s+/g, " ")\<close>: one blank for each run of white space.\<close>

fun collapse_from :: "bool \<Rightarrow> string \<Rightarrow> string" where
  "collapse_from in_run [] = []"
| "collapse_from in_run (c # cs) =
     (if is_space c then (if in_run then collapse_from True cs else CHR '' '' # collapse_from True cs)
      else c # collapse_from False cs)"

definition collapse_spaces :: "string \<Rightarrow> string" where
  "collapse_spaces s = collapse_from False s"

definition strip_control_chars :: "string \<Rightarrow> string" where
  "strip_control_chars s = trim (collapse_spaces (map (\<lambda>c. if control_char c then CHR '' '' else c) s))"

definition cap_text :: "string \<Rightarrow> nat \<Rightarrow> string" where
  "cap_text s m = (let clean = strip_control_chars s
     in if length clean \<le> m then clean else trim_end (take (m - 1) clean) @ [ellipsis])"

definition is_clean_string :: "json option \<Rightarrow> nat \<Rightarrow> string option" where
  "is_clean_string v m =
     (case v of
        Some (JStr s) \<Rightarrow> if 0 < length s \<and> length s \<le> m \<and> \<not> has_control_chars s then Some s else None
      | _ \<Rightarrow> None)"

section \<open>Links\<close>

definition link_max :: nat where
  "link_max = 2048"

definition forbidden_link_schemes :: "string list" where
  "forbidden_link_schemes = [''javascript'', ''data'', ''vbscript'', ''file'', ''blob'']"

definition scheme_char :: "char \<Rightarrow> bool" where
  "scheme_char c \<longleftrightarrow> is_alpha c \<or> is_digit c \<or> c \<in> set ''+.-''"

text \<open>\<open>/^([a-zA-Z][a-zA-Z0-9+.-]*):/\<close>; a colon is no scheme character, so the greedy run is the only one.\<close>

definition uri_scheme :: "string \<Rightarrow> string option" where
  "uri_scheme s =
     (case s of
        [] \<Rightarrow> None
      | c # cs \<Rightarrow>
          if is_alpha c \<and> (case dropWhile scheme_char cs of [] \<Rightarrow> False | d # _ \<Rightarrow> d = CHR '':'')
          then Some (c # takeWhile scheme_char cs) else None)"

definition is_acceptable_link :: "json option \<Rightarrow> string option" where
  "is_acceptable_link v =
     (case is_clean_string v link_max of
        None \<Rightarrow> None
      | Some s \<Rightarrow>
          (case uri_scheme s of
             None \<Rightarrow> None
           | Some sch \<Rightarrow> if to_lower sch \<in> set forbidden_link_schemes then None else Some s))"

section \<open>The presentation block\<close>

definition read_level :: "json option \<Rightarrow> notification_level option" where
  "read_level v =
     (case v of
        None \<Rightarrow> Some default_notification_level
      | Some j \<Rightarrow> find (\<lambda>l. JStr (level_text l) = j) notification_levels)"

definition read_capped_text :: "json option \<Rightarrow> nat \<Rightarrow> string option" where
  "read_capped_text v m =
     (case v of None \<Rightarrow> Some [] | Some (JStr s) \<Rightarrow> Some (cap_text s m) | _ \<Rightarrow> None)"

definition read_link :: "json option \<Rightarrow> string option option" where
  "read_link v =
     (case v of
        None \<Rightarrow> Some None
      | Some _ \<Rightarrow>
          (case plain_object v of
             None \<Rightarrow> None
           | Some fs \<Rightarrow>
               (case jprop fs ''resource'' of
                  None \<Rightarrow> Some None
                | Some r \<Rightarrow> map_option Some (is_acceptable_link (Some r)))))"

definition non_empty :: "string \<Rightarrow> string option" where
  "non_empty s = (if s = [] then None else Some s)"

definition parse_presentation :: "json option \<Rightarrow> string \<Rightarrow> notification_presentation option" where
  "parse_presentation raw name =
     (case raw of
        None \<Rightarrow> Some \<lparr>p_level = default_notification_level, p_title = name, p_subject = None, p_body = None, p_link = None\<rparr>
      | Some _ \<Rightarrow>
          Option.bind (plain_object raw) (\<lambda>fs.
          Option.bind (read_level (jprop fs ''level'')) (\<lambda>level.
          Option.bind (read_capped_text (jprop fs ''title'') notification_title_max) (\<lambda>title.
          Option.bind (read_capped_text (jprop fs ''subject'') notification_subject_max) (\<lambda>subject.
          Option.bind (read_capped_text (jprop fs ''body'') notification_body_max) (\<lambda>body.
          Option.bind (read_link (jprop fs ''link'')) (\<lambda>link.
            Some \<lparr>p_level = level, p_title = (if title \<noteq> [] then title else name),
              p_subject = non_empty subject, p_body = non_empty body, p_link = link\<rparr>)))))))"

text \<open>The block as the object the parser stores.\<close>

definition opt_field :: "string \<Rightarrow> json option \<Rightarrow> (string \<times> json) list" where
  "opt_field k v = (case v of None \<Rightarrow> [] | Some j \<Rightarrow> [(k, j)])"

definition presentation_json :: "notification_presentation \<Rightarrow> json" where
  "presentation_json p = JObj
     ([(''level'', JStr (level_text (p_level p))), (''title'', JStr (p_title p))] @
      opt_field ''subject'' (map_option JStr (p_subject p)) @
      opt_field ''body'' (map_option JStr (p_body p)) @
      opt_field ''link'' (map_option (\<lambda>r. JObj [(''resource'', JStr r)]) (p_link p)))"

section \<open>The envelope\<close>

definition notification_envelope_max_bytes :: int where
  "notification_envelope_max_bytes = 64 * 1024"

definition id_max :: nat where
  "id_max = 200"

definition notification_name_max :: nat where
  "notification_name_max = 200"

definition cursor_max :: nat where
  "cursor_max = 1024"

definition read_timestamp :: "(string \<Rightarrow> ms option) \<Rightarrow> json option \<Rightarrow> string option" where
  "read_timestamp parse_date v =
     (case v of Some (JStr s) \<Rightarrow> map_option to_iso (parse_date s) | _ \<Rightarrow> None)"

definition envelope_json :: "notification_envelope \<Rightarrow> json" where
  "envelope_json e = JObj
     ([(''eventId'', JStr (env_eventId e)), (''name'', JStr (env_name e)),
       (''timestamp'', JStr (env_timestamp e)), (''data'', JObj (env_data e))] @
      opt_field ''cursor'' (map_option JStr (env_cursor e)) @ [(''_meta'', JObj (env_meta e))])"

text \<open>An optional field: absent, or a clean string, or malformed.\<close>

definition read_env_cursor :: "json option \<Rightarrow> string option option" where
  "read_env_cursor v = (case v of None \<Rightarrow> Some None | Some _ \<Rightarrow> map_option Some (is_clean_string v cursor_max))"

definition read_meta :: "json option \<Rightarrow> (string \<times> json) list option option" where
  "read_meta v = (case v of None \<Rightarrow> Some None | Some _ \<Rightarrow> map_option Some (plain_object v))"

definition parse_notification_envelope ::
  "(string \<Rightarrow> ms option) \<Rightarrow> (rat \<Rightarrow> string) \<Rightarrow> json option \<Rightarrow> notification_envelope option" where
  "parse_notification_envelope parse_date fr raw =
     Option.bind (plain_object raw) (\<lambda>fs.
     Option.bind (is_clean_string (jprop fs ''eventId'') id_max) (\<lambda>eventId.
     Option.bind (is_clean_string (jprop fs ''name'') notification_name_max) (\<lambda>name.
     if list_ex is_space name then None else
     Option.bind (read_timestamp parse_date (jprop fs ''timestamp'')) (\<lambda>timestamp.
     Option.bind (plain_object (jprop fs ''data'')) (\<lambda>data.
     Option.bind (read_env_cursor (jprop fs ''cursor'')) (\<lambda>cursor.
     Option.bind (read_meta (jprop fs ''_meta'')) (\<lambda>meta.
     Option.bind (parse_presentation (Option.bind meta (\<lambda>m. jprop m notification_meta_key)) name) (\<lambda>p.
       let e = \<lparr>env_eventId = eventId, env_name = name, env_timestamp = timestamp, env_data = data,
                 env_cursor = cursor,
                 env_meta = jset notification_meta_key (presentation_json p) (nullish meta [])\<rparr>
       in if notification_envelope_max_bytes < utf8_length (stringify fr (envelope_json e)) then None else Some e))))))))"

text \<open>
  \<open>notificationPresentation\<close> reads the block back from a stored record; a member of the block that
  is not of its declared type is read as absent.
\<close>

definition str_prop :: "(string \<times> json) list \<Rightarrow> string \<Rightarrow> string option" where
  "str_prop fs k = (case jprop fs k of Some (JStr s) \<Rightarrow> non_empty s | _ \<Rightarrow> None)"

definition read_presentation :: "notification_envelope \<Rightarrow> notification_presentation" where
  "read_presentation e =
     (let fs = nullish (plain_object (jprop (env_meta e) notification_meta_key)) [] in
      \<lparr>p_level = nullish (find (\<lambda>l. Some (JStr (level_text l)) = jprop fs ''level'') notification_levels)
          default_notification_level,
        p_title = nullish (str_prop fs ''title'') (env_name e),
        p_subject = str_prop fs ''subject'', p_body = str_prop fs ''body'',
        p_link = Option.bind (plain_object (jprop fs ''link'')) (\<lambda>l. str_prop l ''resource'')\<rparr>)"

section \<open>Stored items and their ids\<close>

datatype delivery_target_kind = ToolTarget | AgentTarget

datatype delivery_outcome =
  DeliveryPending | Delivered | DeliveryDeferred | DeliveryDenied | DeliverySkipped | DeliveryFailed

record delivery_record =
  d_routeId :: string
  d_target :: string
  d_index :: nat
  d_kind :: delivery_target_kind
  d_attempts :: int
  d_lastError :: "string option"
  d_outcome :: delivery_outcome
  d_classification :: "string option"
  d_updatedAt :: string
  d_nextAttemptAt :: "string option"
  d_runId :: "string option"

record notification =
  n_envelope :: notification_envelope
  n_source :: string
  n_workspaceId :: string
  n_receivedAt :: string
  n_seq :: int
  n_effectiveLevel :: "notification_level option"
  n_readAt :: "string option"
  n_readBy :: "string option"
  n_deliveries :: "delivery_record list"

definition notification_effective_level :: "notification \<Rightarrow> notification_level" where
  "notification_effective_level n = nullish (n_effectiveLevel n) (p_level (read_presentation (n_envelope n)))"

definition notification_id :: "string \<Rightarrow> string \<Rightarrow> string" where
  "notification_id source eventId = source @ '':'' @ eventId"

definition parse_notification_id :: "string \<Rightarrow> (string \<times> string) option" where
  "parse_notification_id i =
     (let source = takeWhile (\<lambda>c. c \<noteq> CHR '':'') i; rest = drop (length source) i in
      case rest of
        [] \<Rightarrow> None
      | _ # eventId \<Rightarrow> if source = [] \<or> eventId = [] then None else Some (source, eventId))"

section \<open>Plain text is clean, short, and stays as it is\<close>

text \<open>Text the cap leaves alone: no control character, blanks only single, alone and inside.\<close>

fun single_spaced :: "bool \<Rightarrow> string \<Rightarrow> bool" where
  "single_spaced in_run [] = True"
| "single_spaced in_run (c # cs) =
     ((is_space c \<longrightarrow> c = CHR '' '' \<and> \<not> in_run) \<and> single_spaced (is_space c) cs)"

definition plain_text :: "string \<Rightarrow> bool" where
  "plain_text s \<longleftrightarrow> \<not> has_control_chars s \<and> single_spaced False s \<and>
     (s = [] \<or> \<not> is_space (hd s) \<and> \<not> is_space (last s))"

lemma space_char: "is_space (CHR '' '')" "\<not> control_char (CHR '' '')" "\<not> is_space ellipsis" "\<not> control_char ellipsis"
  by (simp_all add: is_space_def control_char_def ellipsis_def of_char_of)

lemma collapse_id: "single_spaced r s \<Longrightarrow> collapse_from r s = s"
  by (induction r s rule: single_spaced.induct) auto

lemma single_spaced_collapse: "single_spaced r (collapse_from r s)"
  by (induction r s rule: collapse_from.induct) (auto simp: space_char)

lemma single_spaced_True: "single_spaced True s \<Longrightarrow> single_spaced r s"
  by (cases s) auto

lemma single_spaced_append1: "single_spaced r (s @ t) \<Longrightarrow> single_spaced r s"
  by (induction r s rule: single_spaced.induct) auto

lemma single_spaced_drop: "single_spaced r (s @ t) \<Longrightarrow> single_spaced False t"
proof (induction r s rule: single_spaced.induct)
  case (1 r)
  then show ?case by (cases t) auto
qed auto

lemma single_spaced_snoc: "single_spaced r s \<Longrightarrow> \<not> is_space c \<Longrightarrow> single_spaced r (s @ [c])"
  by (induction r s rule: single_spaced.induct) auto

lemma set_collapse: "set (collapse_from r s) \<subseteq> insert (CHR '' '') (set s)"
  by (induction r s rule: collapse_from.induct) auto

lemma plain_text_strip: "plain_text (strip_control_chars s)"
proof -
  let ?m = "map (\<lambda>c. if control_char c then CHR '' '' else c) s"
  let ?t = "collapse_from False ?m"
  have "\<not> control_char c" if "c \<in> set (trim ?t)" for c
    using that set_trim [of ?t] set_collapse [of False ?m] space_char(2) by auto
  moreover have "single_spaced False (trim ?t)"
  proof -
    obtain pre post where "?t = pre @ (trim ?t @ post)" using trim_infix [of ?t] by blast
    then have "single_spaced False (pre @ (trim ?t @ post))" using single_spaced_collapse [of False ?m] by simp
    then show ?thesis by (rule single_spaced_append1 [OF single_spaced_drop])
  qed
  ultimately show ?thesis
    using trim_hd [of ?t] trim_last [of ?t]
    by (auto simp: plain_text_def strip_control_chars_def collapse_spaces_def has_control_chars_def list_ex_iff)
qed

lemma strip_plain: "plain_text s \<Longrightarrow> strip_control_chars s = s"
proof -
  assume p: "plain_text s"
  then have "map (\<lambda>c. if control_char c then CHR '' '' else c) s = s"
    by (auto simp: plain_text_def has_control_chars_def list_ex_iff intro: map_idI)
  then show ?thesis using p
    by (simp add: strip_control_chars_def collapse_spaces_def plain_text_def collapse_id trim_id)
qed

lemma plain_text_cut:
  assumes "plain_text s" "0 < k"
  shows "plain_text (trim_end (take k s) @ [ellipsis])"
proof -
  let ?t = "trim_end (take k s)"
  obtain post where "take k s = ?t @ post" using trim_end_prefix [of "take k s"] by blast
  then have s: "s = ?t @ post @ drop k s" by (metis append.assoc append_take_drop_id)
  then have "single_spaced False (?t @ post @ drop k s)" using assms(1) by (simp add: plain_text_def)
  then have "single_spaced False ?t" by (rule single_spaced_append1)
  then have "single_spaced False (?t @ [ellipsis])" using single_spaced_snoc space_char(3) by blast
  moreover have "set ?t \<subseteq> set s" using set_trim_end set_take_subset by fastforce
  moreover have "?t = [] \<or> hd ?t = hd s"
    using s by (metis hd_append2)
  ultimately show ?thesis using assms(1) space_char(3,4)
    by (auto simp: plain_text_def has_control_chars_def list_ex_iff hd_append)
qed

lemma length_cap_text: "0 < m \<Longrightarrow> length (cap_text s m) \<le> m"
  using length_trim_end [of "take (m - 1) (strip_control_chars s)"] by (auto simp: cap_text_def Let_def)

lemma plain_cap_text: "1 < m \<Longrightarrow> plain_text (cap_text s m)"
  using plain_text_cut [OF plain_text_strip, of "m - 1" s] by (simp add: cap_text_def Let_def plain_text_strip)

lemma cap_plain: "plain_text s \<Longrightarrow> length s \<le> m \<Longrightarrow> cap_text s m = s"
  by (simp add: cap_text_def strip_plain)

text \<open>
  Server text shown to a person is plain: capped text has no control character, single blanks only
  and none at either end, is no longer than its cap, and capping it again changes nothing.
\<close>

theorem cap_text_plain:
  assumes "1 < m"
  shows "plain_text (cap_text s m) \<and> length (cap_text s m) \<le> m \<and> cap_text (cap_text s m) m = cap_text s m"
  using plain_cap_text [OF assms, of s] length_cap_text [of m s] assms by (simp add: cap_plain)

theorem cap_text_plain_witness: "length (cap_text (replicate 300 (CHR ''a'')) 200) \<le> 200"
proof -
  have "1 < (200::nat)" by simp
  from cap_text_plain [OF this, of "replicate 300 (CHR ''a'')"] show ?thesis by blast
qed

section \<open>Parsing is normalising\<close>

text \<open>What the parser leaves in a presentation block.\<close>

definition capped :: "nat \<Rightarrow> string option \<Rightarrow> bool" where
  "capped m v \<longleftrightarrow> (\<forall>s. v = Some s \<longrightarrow> s \<noteq> [] \<and> plain_text s \<and> length s \<le> m)"

definition presentation_ok :: "notification_presentation \<Rightarrow> bool" where
  "presentation_ok p \<longleftrightarrow> capped notification_title_max (Some (p_title p)) \<and>
     capped notification_subject_max (p_subject p) \<and> capped notification_body_max (p_body p) \<and>
     (\<forall>r. p_link p = Some r \<longrightarrow> is_acceptable_link (Some (JStr r)) = Some r)"

lemma is_clean_string_iff:
  "is_clean_string v m = Some s \<longleftrightarrow> v = Some (JStr s) \<and> s \<noteq> [] \<and> length s \<le> m \<and> \<not> has_control_chars s"
  by (auto simp: is_clean_string_def split: option.splits json.splits if_splits)

lemma name_plain: "\<not> has_control_chars s \<Longrightarrow> \<not> list_ex is_space s \<Longrightarrow> plain_text s"
proof -
  assume c: "\<not> has_control_chars s" and n: "\<not> list_ex is_space s"
  have "\<not> list_ex is_space s \<Longrightarrow> single_spaced r s" for r by (induction r s rule: single_spaced.induct) auto
  then show ?thesis using c n by (cases s rule: rev_cases) (auto simp: plain_text_def list_ex_iff hd_append split: if_splits)
qed

lemma read_capped_text_ok:
  assumes "read_capped_text v m = Some s" "1 < m"
  shows "capped m (non_empty s)"
  using assms plain_cap_text length_cap_text [of m]
  by (auto simp: read_capped_text_def capped_def non_empty_def split: option.splits json.splits if_splits)

lemma acceptable_link_text: "is_acceptable_link v = Some r \<Longrightarrow> v = Some (JStr r)"
  by (auto simp: is_acceptable_link_def is_clean_string_iff split: option.splits if_splits)

lemma read_link_ok: "read_link v = Some l \<Longrightarrow> l = Some r \<Longrightarrow> is_acceptable_link (Some (JStr r)) = Some r"
  by (auto simp: read_link_def dest: acceptable_link_text split: option.splits)

lemma parse_presentation_ok:
  assumes "parse_presentation raw name = Some p" "name \<noteq> []" "plain_text name" "length name \<le> notification_title_max"
  shows "presentation_ok p"
proof (cases raw)
  case None
  then show ?thesis using assms by (auto simp: parse_presentation_def presentation_ok_def capped_def)
next
  case (Some j)
  then obtain fs level title subject body link where
    t: "read_capped_text (jprop fs ''title'') notification_title_max = Some title"
    and s: "read_capped_text (jprop fs ''subject'') notification_subject_max = Some subject"
    and b: "read_capped_text (jprop fs ''body'') notification_body_max = Some body"
    and l: "read_link (jprop fs ''link'') = Some link"
    and p: "p = \<lparr>p_level = level, p_title = (if title \<noteq> [] then title else name),
      p_subject = non_empty subject, p_body = non_empty body, p_link = link\<rparr>"
    using assms(1) by (auto simp: parse_presentation_def bind_eq_Some_conv)
  have "capped notification_title_max (Some (p_title p))"
  proof (cases "title = []")
    case True
    then show ?thesis using assms(2-4) p by (simp add: capped_def)
  next
    case False
    then show ?thesis using read_capped_text_ok [OF t] p by (simp add: non_empty_def notification_title_max_def)
  qed
  moreover have "capped notification_subject_max (p_subject p)" "capped notification_body_max (p_body p)"
    using read_capped_text_ok [OF s] read_capped_text_ok [OF b] p
    by (simp_all add: notification_subject_max_def notification_body_max_def)
  ultimately show ?thesis using read_link_ok [OF l] p by (simp add: presentation_ok_def)
qed

lemma read_level_text: "read_level (Some (JStr (level_text l))) = Some l"
  by (cases l) (simp_all add: read_level_def notification_levels_def)

lemma read_capped_field: "capped m v \<Longrightarrow> map_option non_empty (read_capped_text (map_option JStr v) m) = Some v"
  by (cases v) (auto simp: read_capped_text_def capped_def cap_plain non_empty_def)

lemma read_link_field:
  "(\<And>r. l = Some r \<Longrightarrow> is_acceptable_link (Some (JStr r)) = Some r) \<Longrightarrow>
     read_link (map_option (\<lambda>r. JObj [(''resource'', JStr r)]) l) = Some l"
  by (cases l) (auto simp: read_link_def jprop_def)

lemma presentation_fields:
  obtains fs where "presentation_json p = JObj fs"
    "jprop fs ''level'' = Some (JStr (level_text (p_level p)))" "jprop fs ''title'' = Some (JStr (p_title p))"
    "jprop fs ''subject'' = map_option JStr (p_subject p)" "jprop fs ''body'' = map_option JStr (p_body p)"
    "jprop fs ''link'' = map_option (\<lambda>r. JObj [(''resource'', JStr r)]) (p_link p)"
  by (cases "p_subject p"; cases "p_body p"; cases "p_link p")
    (auto simp: presentation_json_def jprop_def opt_field_def)

lemma parse_presentation_json:
  assumes "presentation_ok p"
  shows "parse_presentation (Some (presentation_json p)) name = Some p"
proof -
  obtain fs where fs: "presentation_json p = JObj fs"
    "jprop fs ''level'' = Some (JStr (level_text (p_level p)))" "jprop fs ''title'' = Some (JStr (p_title p))"
    "jprop fs ''subject'' = map_option JStr (p_subject p)" "jprop fs ''body'' = map_option JStr (p_body p)"
    "jprop fs ''link'' = map_option (\<lambda>r. JObj [(''resource'', JStr r)]) (p_link p)"
    by (rule presentation_fields)
  have t: "read_capped_text (Some (JStr (p_title p))) notification_title_max = Some (p_title p)" "p_title p \<noteq> []"
    using assms by (auto simp: presentation_ok_def capped_def read_capped_text_def cap_plain)
  obtain s b where s: "read_capped_text (map_option JStr (p_subject p)) notification_subject_max = Some s" "non_empty s = p_subject p"
    and b: "read_capped_text (map_option JStr (p_body p)) notification_body_max = Some b" "non_empty b = p_body p"
    using assms read_capped_field [of notification_subject_max "p_subject p"] read_capped_field [of notification_body_max "p_body p"]
    by (auto simp: presentation_ok_def)
  have l: "read_link (map_option (\<lambda>r. JObj [(''resource'', JStr r)]) (p_link p)) = Some (p_link p)"
    using assms by (intro read_link_field) (simp add: presentation_ok_def)
  show ?thesis unfolding parse_presentation_def using fs t s b l by (simp add: read_level_text)
qed

lemma jset_jset: "jset k v (jset k v m) = jset k v m"
  by (induction k v m rule: jset.induct) auto

text \<open>Everything the parser establishes of an envelope it admits.\<close>

definition envelope_ok :: "(string \<Rightarrow> ms option) \<Rightarrow> (rat \<Rightarrow> string) \<Rightarrow> notification_envelope \<Rightarrow> bool" where
  "envelope_ok pd fr e \<longleftrightarrow>
     is_clean_string (Some (JStr (env_eventId e))) id_max = Some (env_eventId e) \<and>
     is_clean_string (Some (JStr (env_name e))) notification_name_max = Some (env_name e) \<and>
     \<not> list_ex is_space (env_name e) \<and> (\<exists>s t. pd s = Some t \<and> env_timestamp e = to_iso t) \<and>
     read_env_cursor (map_option JStr (env_cursor e)) = Some (env_cursor e) \<and>
     (\<exists>p m. env_meta e = jset notification_meta_key (presentation_json p) m \<and> presentation_ok p) \<and>
     utf8_length (stringify fr (envelope_json e)) \<le> notification_envelope_max_bytes"

lemma parse_envelope_ok:
  assumes "parse_notification_envelope pd fr raw = Some e"
  shows "envelope_ok pd fr e"
proof -
  obtain fs eventId name ts data cursor meta p where
    id: "is_clean_string (jprop fs ''eventId'') id_max = Some eventId"
    and nm: "is_clean_string (jprop fs ''name'') notification_name_max = Some name" "\<not> list_ex is_space name"
    and ts: "read_timestamp pd (jprop fs ''timestamp'') = Some ts"
    and cu: "read_env_cursor (jprop fs ''cursor'') = Some cursor"
    and p: "parse_presentation (Option.bind meta (\<lambda>m. jprop m notification_meta_key)) name = Some p"
    and e: "e = \<lparr>env_eventId = eventId, env_name = name, env_timestamp = ts, env_data = data, env_cursor = cursor,
      env_meta = jset notification_meta_key (presentation_json p) (nullish meta [])\<rparr>"
    and sz: "\<not> notification_envelope_max_bytes < utf8_length (stringify fr (envelope_json e))"
    using assms by (auto simp: parse_notification_envelope_def bind_eq_Some_conv Let_def split: if_splits)
  have "presentation_ok p"
    using nm by (intro parse_presentation_ok [OF p])
      (auto simp: is_clean_string_iff name_plain notification_name_max_def notification_title_max_def)
  moreover have "\<exists>s t. pd s = Some t \<and> ts = to_iso t"
    using ts by (auto simp: read_timestamp_def split: option.splits json.splits)
  moreover have "read_env_cursor (map_option JStr cursor) = Some cursor"
    using cu by (auto simp: read_env_cursor_def is_clean_string_iff split: option.splits)
  ultimately show ?thesis unfolding envelope_ok_def
    using id nm sz e by (auto simp: is_clean_string_iff)
qed

lemma parse_envelope_json:
  assumes e: "envelope_ok pd fr e" and pd: "\<And>s t. pd s = Some t \<Longrightarrow> pd (to_iso t) = Some t"
  shows "parse_notification_envelope pd fr (Some (envelope_json e)) = Some e"
proof -
  obtain p m where m: "env_meta e = jset notification_meta_key (presentation_json p) m" "presentation_ok p"
    using e unfolding envelope_ok_def by blast
  define fs where "fs = [(''eventId'', JStr (env_eventId e)), (''name'', JStr (env_name e)),
       (''timestamp'', JStr (env_timestamp e)), (''data'', JObj (env_data e))] @
      opt_field ''cursor'' (map_option JStr (env_cursor e)) @ [(''_meta'', JObj (env_meta e))]"
  have fs: "envelope_json e = JObj fs" by (simp add: envelope_json_def fs_def)
  have look: "jprop fs ''eventId'' = Some (JStr (env_eventId e))" "jprop fs ''name'' = Some (JStr (env_name e))"
    "jprop fs ''timestamp'' = Some (JStr (env_timestamp e))" "jprop fs ''data'' = Some (JObj (env_data e))"
    "jprop fs ''cursor'' = map_option JStr (env_cursor e)" "jprop fs ''_meta'' = Some (JObj (env_meta e))"
    by (cases "env_cursor e"; simp add: fs_def jprop_def opt_field_def)+
  have "read_timestamp pd (Some (JStr (env_timestamp e))) = Some (env_timestamp e)"
    using e pd by (auto simp: envelope_ok_def read_timestamp_def)
  moreover have "parse_presentation (jprop (env_meta e) notification_meta_key) (env_name e) = Some p"
    using m parse_presentation_json by (simp add: jprop_def)
  moreover have "jset notification_meta_key (presentation_json p) (env_meta e) = env_meta e"
    using m by (simp add: jset_jset)
  moreover have "plain_object (Some (envelope_json e)) = Some fs" by (simp add: fs)
  moreover have "utf8_length (stringify fr (envelope_json \<lparr>env_eventId = env_eventId e, env_name = env_name e,
      env_timestamp = env_timestamp e, env_data = env_data e, env_cursor = env_cursor e, env_meta = env_meta e\<rparr>))
      \<le> notification_envelope_max_bytes"
    using e by (cases e) (simp add: envelope_ok_def)
  ultimately show ?thesis
    using e unfolding parse_notification_envelope_def envelope_ok_def
    by (simp add: look read_meta_def Let_def not_less)
qed

text \<open>
  The parser normalises: an envelope it admits, written back as JSON and parsed again, is admitted
  unchanged, and reading the stored presentation block gives the block that was parsed. \<open>Date\<close> is
  assumed to read back the ISO text of an instant it parsed as that instant.
\<close>

theorem parse_envelope_idempotent:
  assumes "parse_notification_envelope pd fr raw = Some e"
    and "\<And>s t. pd s = Some t \<Longrightarrow> pd (to_iso t) = Some t"
  shows "parse_notification_envelope pd fr (Some (envelope_json e)) = Some e"
  using parse_envelope_json [OF parse_envelope_ok [OF assms(1)] assms(2)] .

text \<open>
  C29. Nothing unsafe reaches the inbox: an admitted envelope has a bounded id and name without control
  characters, its title, subject and body are plain text within their caps and the title is never
  empty, its link has a scheme that is none of the forbidden ones, and it fits the size limit.
\<close>

theorem parsed_envelope_safe:
  assumes "parse_notification_envelope pd fr raw = Some e"
  shows "env_eventId e \<noteq> [] \<and> length (env_eventId e) \<le> 200 \<and> \<not> has_control_chars (env_eventId e) \<and>
    env_name e \<noteq> [] \<and> length (env_name e) \<le> 200 \<and> \<not> list_ex is_space (env_name e) \<and>
    (\<exists>p. jprop (env_meta e) notification_meta_key = Some (presentation_json p) \<and> read_presentation e = p \<and>
      p_title p \<noteq> [] \<and> plain_text (p_title p) \<and> length (p_title p) \<le> 200 \<and>
      capped 200 (p_subject p) \<and> capped 2000 (p_body p) \<and>
      (\<forall>r. p_link p = Some r \<longrightarrow> (\<exists>sch. uri_scheme r = Some sch \<and> to_lower sch \<notin> set forbidden_link_schemes))) \<and>
    utf8_length (stringify fr (envelope_json e)) \<le> 65536"
proof -
  note ok = parse_envelope_ok [OF assms, unfolded envelope_ok_def]
  obtain p m where m: "env_meta e = jset notification_meta_key (presentation_json p) m" and p: "presentation_ok p"
    using ok by blast
  obtain fs where fs: "presentation_json p = JObj fs"
    "jprop fs ''level'' = Some (JStr (level_text (p_level p)))" "jprop fs ''title'' = Some (JStr (p_title p))"
    "jprop fs ''subject'' = map_option JStr (p_subject p)" "jprop fs ''body'' = map_option JStr (p_body p)"
    "jprop fs ''link'' = map_option (\<lambda>r. JObj [(''resource'', JStr r)]) (p_link p)"
    by (rule presentation_fields)
  have k: "jprop (env_meta e) notification_meta_key = Some (presentation_json p)" by (simp add: m jprop_def)
  have ne: "non_empty (p_title p) = Some (p_title p)" "\<And>s. p_subject p = Some s \<Longrightarrow> non_empty s = Some s"
    "\<And>s. p_body p = Some s \<Longrightarrow> non_empty s = Some s" "\<And>r. p_link p = Some r \<Longrightarrow> non_empty r = Some r"
    using p by (auto simp: presentation_ok_def capped_def non_empty_def is_acceptable_link_def is_clean_string_def split: option.splits)
  have lev: "find (\<lambda>l'. level_text l' = level_text l) notification_levels = Some l" for l
    by (cases l) (simp_all add: notification_levels_def)
  have "read_presentation e = p"
    unfolding read_presentation_def k fs Let_def
    using ne by (cases "p_subject p"; cases "p_body p"; cases "p_link p"; cases p)
      (simp_all add: fs str_prop_def lev jprop_def [of "[(''resource'', _)]"])
  moreover have "\<exists>sch. uri_scheme r = Some sch \<and> to_lower sch \<notin> set forbidden_link_schemes" if "p_link p = Some r" for r
    using p that by (auto simp: presentation_ok_def is_acceptable_link_def split: option.splits if_splits dest!: spec)
  ultimately show ?thesis
    using ok k p by (auto simp: is_clean_string_iff presentation_ok_def capped_def id_max_def notification_name_max_def
        notification_title_max_def notification_subject_max_def notification_body_max_def
        notification_envelope_max_bytes_def)
qed

section \<open>Ids\<close>

text \<open>
  An item's wire id names exactly one stored item: it parses back to the source and event id it was
  built from, for a source without a colon, and so two items with one id are the same item.
\<close>

theorem notification_id_roundtrip:
  assumes "CHR '':'' \<notin> set source" "source \<noteq> []" "eventId \<noteq> []"
  shows "parse_notification_id (notification_id source eventId) = Some (source, eventId) \<and>
    (CHR '':'' \<notin> set source' \<longrightarrow> notification_id source' eventId' = notification_id source eventId \<longrightarrow>
      source' = source \<and> eventId' = eventId)"
proof -
  have t: "takeWhile (\<lambda>c. c \<noteq> CHR '':'') (s @ '':'' @ e) = s" if "CHR '':'' \<notin> set s" for s e
    using that by (induction s) auto
  have "parse_notification_id (notification_id source eventId) = Some (source, eventId)"
    using assms t [OF assms(1), of eventId] by (simp add: parse_notification_id_def notification_id_def)
  moreover have "source' = source \<and> eventId' = eventId"
    if "CHR '':'' \<notin> set source'" "notification_id source' eventId' = notification_id source eventId"
    using t [OF that(1), of eventId'] t [OF assms(1), of eventId] that(2) by (simp add: notification_id_def)
  ultimately show ?thesis by blast
qed

theorem notification_id_roundtrip_witness:
  "parse_notification_id (notification_id ''acme'' ''e:1'') = Some (''acme'', ''e:1'')"
proof -
  have "CHR '':'' \<notin> set ''acme''" "''acme'' \<noteq> []" "''e:1'' \<noteq> []" by simp_all
  from notification_id_roundtrip [OF this] show ?thesis by blast
qed

section \<open>Poll answers\<close>

record outbox_poll_result =
  poll_events :: "json list"
  poll_cursor :: "string option"
  poll_truncated :: bool
  poll_hasMore :: bool
  poll_nextPollMs :: "rat option"

definition events_max :: nat where
  "events_max = 5000"

definition read_poll_cursor :: "json option \<Rightarrow> string option option" where
  "read_poll_cursor v =
     (case v of
        None \<Rightarrow> Some None
      | Some JNull \<Rightarrow> Some None
      | Some (JStr s) \<Rightarrow> if length s = 0 \<or> cursor_max < length s then None else Some (Some s)
      | _ \<Rightarrow> None)"

definition read_flag :: "json option \<Rightarrow> bool option" where
  "read_flag v =
     (case v of None \<Rightarrow> Some False | Some JNull \<Rightarrow> Some False | Some (JBool b) \<Rightarrow> Some b | _ \<Rightarrow> None)"

definition read_next_poll_ms :: "json option \<Rightarrow> rat option option" where
  "read_next_poll_ms v =
     (case v of
        None \<Rightarrow> Some None
      | Some JNull \<Rightarrow> Some None
      | Some (JNum r) \<Rightarrow> if r \<le> 0 then None else Some (Some r)
      | _ \<Rightarrow> None)"

definition parse_outbox_poll_result :: "json option \<Rightarrow> outbox_poll_result option" where
  "parse_outbox_poll_result raw =
     Option.bind (plain_object raw) (\<lambda>body.
     case jprop body ''events'' of
       Some (JArr events) \<Rightarrow>
         if events_max < length events then None else
         Option.bind (read_poll_cursor (jprop body ''cursor'')) (\<lambda>cursor.
         Option.bind (read_flag (jprop body ''truncated'')) (\<lambda>truncated.
         Option.bind (read_flag (jprop body ''hasMore'')) (\<lambda>hasMore.
         Option.bind (read_next_poll_ms (jprop body ''nextPollMs'')) (\<lambda>nextPollMs.
           Some \<lparr>poll_events = events, poll_cursor = cursor, poll_truncated = truncated, poll_hasMore = hasMore,
             poll_nextPollMs = nextPollMs\<rparr>))))
     | _ \<Rightarrow> None)"

text \<open>\<open>json_parse\<close> is \<open>JSON.parse\<close>, \<open>None\<close> where it throws.\<close>

definition parse_outbox_poll_body :: "(string \<Rightarrow> json option) \<Rightarrow> string option \<Rightarrow> outbox_poll_result option" where
  "parse_outbox_poll_body json_parse body =
     Option.bind body (\<lambda>t. Option.bind (json_parse t) (\<lambda>j. parse_outbox_poll_result (Some j)))"

text \<open>
  A poll answer is believed only whole: every answer accepted has at most 5000 events, a cursor (when
  it has one) of 1 to 1024 characters and a positive cadence, and one malformed known field rejects it,
  so that the runtime never advances on it.
\<close>

theorem poll_result_bounded:
  assumes "parse_outbox_poll_result (Some (JObj fs)) = Some r"
  shows "jprop fs ''events'' = Some (JArr (poll_events r)) \<and> length (poll_events r) \<le> 5000 \<and>
    (\<forall>c. poll_cursor r = Some c \<longrightarrow> jprop fs ''cursor'' = Some (JStr c) \<and> 0 < length c \<and> length c \<le> 1024) \<and>
    (\<forall>n. poll_nextPollMs r = Some n \<longrightarrow> 0 < n) \<and>
    (\<forall>n. jprop fs ''cursor'' \<noteq> Some (JNum n)) \<and> (\<forall>s. jprop fs ''truncated'' \<noteq> Some (JStr s) \<and> jprop fs ''hasMore'' \<noteq> Some (JStr s))"
proof -
  obtain events cursor truncated hasMore next_ms where
    e: "jprop fs ''events'' = Some (JArr events)" "\<not> events_max < length events"
    and c: "read_poll_cursor (jprop fs ''cursor'') = Some cursor"
    and t: "read_flag (jprop fs ''truncated'') = Some truncated" "read_flag (jprop fs ''hasMore'') = Some hasMore"
    and n: "read_next_poll_ms (jprop fs ''nextPollMs'') = Some next_ms"
    and r: "r = \<lparr>poll_events = events, poll_cursor = cursor, poll_truncated = truncated, poll_hasMore = hasMore,
      poll_nextPollMs = next_ms\<rparr>"
    using assms by (auto simp: parse_outbox_poll_result_def bind_eq_Some_conv split: option.splits json.splits if_splits)
  have "\<forall>x. cursor = Some x \<longrightarrow> jprop fs ''cursor'' = Some (JStr x) \<and> 0 < length x \<and> length x \<le> 1024"
    using c by (auto simp: read_poll_cursor_def cursor_max_def split: option.splits json.splits if_splits)
  moreover have "\<forall>x. next_ms = Some x \<longrightarrow> 0 < x"
    using n by (auto simp: read_next_poll_ms_def split: option.splits json.splits if_splits)
  moreover have "jprop fs ''cursor'' \<noteq> Some (JNum x)" for x using c by (auto simp: read_poll_cursor_def)
  moreover have "jprop fs ''truncated'' \<noteq> Some (JStr x) \<and> jprop fs ''hasMore'' \<noteq> Some (JStr x)" for x
    using t by (auto simp: read_flag_def)
  ultimately show ?thesis using e r by (simp add: events_max_def)
qed

theorem poll_result_bounded_witness:
  "\<exists>r. parse_outbox_poll_result (Some (JObj [(''events'', JArr [JNull]), (''cursor'', JStr ''c1'')])) = Some r \<and>
     length (poll_events r) \<le> 5000"
proof -
  have "parse_outbox_poll_result (Some (JObj [(''events'', JArr [JNull]), (''cursor'', JStr ''c1'')])) =
      Some \<lparr>poll_events = [JNull], poll_cursor = Some ''c1'', poll_truncated = False, poll_hasMore = False, poll_nextPollMs = None\<rparr>"
    by (simp add: parse_outbox_poll_result_def jprop_def events_max_def read_poll_cursor_def cursor_max_def
        read_flag_def read_next_poll_ms_def)
  from this poll_result_bounded [OF this] show ?thesis by blast
qed

section \<open>A sample envelope\<close>

definition demo_raw :: json where
  "demo_raw = JObj [(''eventId'', JStr ''e1''), (''name'', JStr ''domain.active''),
     (''timestamp'', JStr ''2026-07-01''), (''data'', JObj [(''n'', JBool True)])]"

definition demo_date :: "string \<Rightarrow> ms option" where
  "demo_date s = (if s = ''2026-07-01'' \<or> s = to_iso 1782864000000 then Some 1782864000000 else None)"

lemma demo_raw_parses: "\<exists>e. parse_notification_envelope demo_date (\<lambda>_. []) (Some demo_raw) = Some e"
proof -
  have "\<not> Option.is_none (parse_notification_envelope demo_date (\<lambda>_. []) (Some demo_raw))"
    by code_simp
  then show ?thesis by (auto simp: Option.is_none_def)
qed

theorem parse_envelope_idempotent_witness:
  "\<exists>e. parse_notification_envelope demo_date (\<lambda>_. []) (Some demo_raw) = Some e \<and>
     parse_notification_envelope demo_date (\<lambda>_. []) (Some (envelope_json e)) = Some e"
proof -
  obtain e where e: "parse_notification_envelope demo_date (\<lambda>_. []) (Some demo_raw) = Some e"
    using demo_raw_parses by blast
  have d: "demo_date s = Some t \<Longrightarrow> demo_date (to_iso t) = Some t" for s t
    by (auto simp: demo_date_def split: if_splits)
  have "parse_notification_envelope demo_date (\<lambda>_. []) (Some (envelope_json e)) = Some e"
    by (rule parse_envelope_idempotent [OF e]) (rule d)
  then show ?thesis using e by blast
qed

theorem parsed_envelope_safe_witness:
  "\<exists>e. parse_notification_envelope demo_date (\<lambda>_. []) (Some demo_raw) = Some e \<and> length (env_eventId e) \<le> 200"
proof -
  obtain e where e: "parse_notification_envelope demo_date (\<lambda>_. []) (Some demo_raw) = Some e"
    using demo_raw_parses by blast
  from parsed_envelope_safe [OF e] e show ?thesis by blast
qed

end
