(* ===== verification/Notify_Template.thy ===== *)
theory Notify_Template
  imports Notify_Envelope
begin

text \<open>
  The template a tool target renders its input through, \<open>src/notifications/template.ts\<close>: five
  placeholder names, each replaced by its value as text, over every string of a JSON structure, keys
  included. The count of placeholders that named something else is threaded through.
\<close>

record host_placeholders =
  inboxUrl :: string

definition notification_placeholders :: "string list" where
  "notification_placeholders = [''title'', ''body'', ''subject'', ''link.resource'', ''inbox.url'']"

definition placeholder_values :: "notification_presentation \<Rightarrow> host_placeholders \<Rightarrow> string \<Rightarrow> string option" where
  "placeholder_values p host = map_of
     [(''title'', p_title p), (''body'', nullish (p_body p) []), (''subject'', nullish (p_subject p) []),
      (''link.resource'', nullish (p_link p) []), (''inbox.url'', inboxUrl host)]"

text \<open>
  One match of \<open>/\{\{\s*([^}]*?)\s*\}\}/\<close> at the front of a text: what is between the braces, up to
  the first closing one, which another must follow; and the text after the match.
\<close>

definition placeholder_at :: "string \<Rightarrow> (string \<times> string) option" where
  "placeholder_at s =
     (if take 2 s = ''{{'' \<and> take 2 (dropWhile (\<lambda>c. c \<noteq> CHR ''}'') (drop 2 s)) = ''}}''
      then Some (trim (takeWhile (\<lambda>c. c \<noteq> CHR ''}'') (drop 2 s)),
        drop 2 (dropWhile (\<lambda>c. c \<noteq> CHR ''}'') (drop 2 s)))
      else None)"

lemma placeholder_at_shorter: "placeholder_at s = Some (n, rest) \<Longrightarrow> length rest < length s"
proof -
  assume a: "placeholder_at s = Some (n, rest)"
  then have "rest = drop 2 (dropWhile (\<lambda>c. c \<noteq> CHR ''}'') (drop 2 s))" "s \<noteq> []"
    by (auto simp: placeholder_at_def split: if_splits)
  moreover have "length (dropWhile (\<lambda>c. c \<noteq> CHR ''}'') (drop 2 s)) \<le> length (drop 2 s)"
    by (rule length_dropWhile_le)
  ultimately show ?thesis by (cases s) auto
qed

text \<open>\<open>text.replace(PLACEHOLDER_RE, ...)\<close>, with the misses so far.\<close>

function render_string :: "(string \<Rightarrow> string option) \<Rightarrow> string \<Rightarrow> int \<Rightarrow> string \<times> int" where
  "render_string vals s misses =
     (case placeholder_at s of
        Some (name, rest) \<Rightarrow>
          (case vals name of
             None \<Rightarrow> render_string vals rest (misses + 1)
           | Some v \<Rightarrow> (let (t, n) = render_string vals rest misses in (v @ t, n)))
      | None \<Rightarrow>
          (case s of [] \<Rightarrow> ([], misses)
           | c # cs \<Rightarrow> (let (t, n) = render_string vals cs misses in (c # t, n))))"
  by pat_completeness auto
termination
  by (relation "measure (\<lambda>(vals, s, m). length s)") (auto dest: placeholder_at_shorter)

declare render_string.simps [simp del]

fun render_value :: "(string \<Rightarrow> string option) \<Rightarrow> json \<Rightarrow> int \<Rightarrow> json \<times> int"
  and render_items :: "(string \<Rightarrow> string option) \<Rightarrow> json list \<Rightarrow> int \<Rightarrow> json list \<times> int"
  and render_fields :: "(string \<Rightarrow> string option) \<Rightarrow> (string \<times> json) list \<Rightarrow> (string \<times> json) list \<Rightarrow> int
    \<Rightarrow> (string \<times> json) list \<times> int" where
  "render_value vals (JStr s) m = (let (t, n) = render_string vals s m in (JStr t, n))"
| "render_value vals (JArr js) m = (let (ks, n) = render_items vals js m in (JArr ks, n))"
| "render_value vals (JObj fs) m = (let (gs, n) = render_fields vals fs [] m in (JObj gs, n))"
| "render_value vals j m = (j, m)"
| "render_items vals [] m = ([], m)"
| "render_items vals (j # js) m =
     (let (k, n) = render_value vals j m; (ks, n') = render_items vals js n in (k # ks, n'))"
| "render_fields vals [] out m = (out, m)"
| "render_fields vals ((k, j) # fs) out m =
     (let (k', n) = render_string vals k m; (j', n') = render_value vals j n
      in render_fields vals fs (jset k' j' out) n')"

record rendered_input =
  rendered :: "(string \<times> json) list"
  misses :: int

definition render_deliver_input ::
  "(string \<times> json) list option \<Rightarrow> notification_presentation \<Rightarrow> host_placeholders \<Rightarrow> rendered_input" where
  "render_deliver_input input p host =
     (case input of
        None \<Rightarrow> \<lparr>rendered = [], misses = 0\<rparr>
      | Some fs \<Rightarrow> (let (out, n) = render_fields (placeholder_values p host) fs [] 0
          in \<lparr>rendered = out, misses = n\<rparr>))"

section \<open>Rendering a text\<close>

lemma placeholder_at_other: "c \<noteq> CHR ''{'' \<Longrightarrow> placeholder_at (c # cs) = None"
  by (cases cs) (simp_all add: placeholder_at_def)

lemma placeholder_at_nil: "placeholder_at [] = None"
  by (simp add: placeholder_at_def)

lemma render_plain_prefix:
  "CHR ''{'' \<notin> set pre \<Longrightarrow>
     render_string vals (pre @ s) m = (let (t, n) = render_string vals s m in (pre @ t, n))"
proof (induction pre)
  case (Cons c pre)
  then have "placeholder_at (c # pre @ s) = None" by (intro placeholder_at_other) auto
  then have "render_string vals ((c # pre) @ s) m = (let (t, n) = render_string vals (pre @ s) m in (c # t, n))"
    by (subst render_string.simps) simp
  then show ?case using Cons by (simp split: prod.splits)
qed (simp split: prod.splits)

lemma placeholder_at_braces:
  assumes "CHR ''}'' \<notin> set body"
  shows "placeholder_at (''{{'' @ body @ ''}}'' @ post) = Some (trim body, post)"
proof -
  have "takeWhile (\<lambda>c. c \<noteq> CHR ''}'') (body @ ''}}'' @ post) = body"
    "dropWhile (\<lambda>c. c \<noteq> CHR ''}'') (body @ ''}}'' @ post) = ''}}'' @ post"
    using assms by (induction body) auto
  then show ?thesis by (simp add: placeholder_at_def)
qed

text \<open>
  What a connector wrote reaches a tool as text and nothing else: a placeholder however spaced is
  replaced by its value as it is, whatever the value holds, and rendering goes on after the
  placeholder, so a value is never rendered itself; a name outside the five renders empty and is
  counted once.
\<close>

theorem render_inserts_verbatim:
  assumes "CHR ''{'' \<notin> set pre" "CHR ''}'' \<notin> set body"
  shows "render_string (placeholder_values p host) (pre @ ''{{'' @ body @ ''}}'' @ post) m =
    (case placeholder_values p host (trim body) of
       Some v \<Rightarrow> (pre @ v @ fst (render_string (placeholder_values p host) post m),
         snd (render_string (placeholder_values p host) post m))
     | None \<Rightarrow> (pre @ fst (render_string (placeholder_values p host) post (m + 1)),
         snd (render_string (placeholder_values p host) post (m + 1))))"
proof -
  have "render_string vals (''{{'' @ body @ ''}}'' @ post) m =
      (case vals (trim body) of
         None \<Rightarrow> render_string vals post (m + 1)
       | Some v \<Rightarrow> (let (t, n) = render_string vals post m in (v @ t, n)))" for vals
    by (subst render_string.simps) (simp only: placeholder_at_braces [OF assms(2)] option.case prod.case)
  then show ?thesis
    by (simp add: render_plain_prefix [OF assms(1)] split: option.splits prod.splits)
qed

lemma render_no_brace: "CHR ''{'' \<notin> set s \<Longrightarrow> render_string vals s m = (s, m)"
  using render_plain_prefix [of s vals "[]" m] render_string.simps [of vals "[]" m]
  by (simp add: placeholder_at_nil)

definition demo_presentation :: notification_presentation where
  "demo_presentation = \<lparr>p_level = Info, p_title = ''{{body}}'', p_subject = None, p_body = Some ''secret'', p_link = None\<rparr>"

theorem render_inserts_verbatim_witness:
  "render_string (placeholder_values demo_presentation \<lparr>inboxUrl = []\<rparr>) (''T: '' @ ''{{'' @ '' title '' @ ''}}'' @ ''!'') 0 =
     (''T: {{body}}!'', 0)"
proof -
  have p: "CHR ''{'' \<notin> set ''T: ''" "CHR ''}'' \<notin> set '' title ''" by simp_all
  have t: "trim '' title '' = ''title''" by code_simp
  have r: "render_string vals ''!'' 0 = (''!'', 0)" for vals by (rule render_no_brace) simp
  show ?thesis
    unfolding render_inserts_verbatim [OF p] t r
    by (simp add: placeholder_values_def demo_presentation_def)
qed

end
