(* ===== verification/Task_Types.thy ===== *)
theory Task_Types
  imports Notify_Match Calendar
begin

text \<open>
  The records of \<open>src/platform/tasks/types.ts\<close>: a task, its schedule and budget, a run and its
  assessment, a run's result, a batch and its items; and the file's predicates and constants.

  An optional field is an option. A timestamp the runtime writes is the instant it names in epoch
  milliseconds (its text is \<open>to_iso\<close> of it); the one a person writes, a once schedule's \<open>at\<close>, keeps
  its text beside the instant \<open>Date\<close> reads in it, \<open>None\<close> for an invalid date. Probabilities,
  confidences and dollars are rationals.
\<close>

section \<open>Criteria and assessment\<close>

datatype criterion_type = BooleanCriterion | ScoreCriterion | ChoiceCriterion

datatype pass_value = PassBool bool | PassNum rat | PassOption string | PassOptions "string list"

record criterion =
  cr_id :: string
  cr_rule :: string
  cr_type :: criterion_type
  cr_levels :: "string list option"
  cr_options :: "string list option"
  cr_pass :: "pass_value option"

record task_judge =
  tj_server :: "string option"
  tj_id :: "string option"
  tj_options :: "(string \<times> json) list option"

datatype on_poor_result = PoorRecord | PoorNotify | PoorRetryOnce

definition default_confidence_threshold :: rat where
  "default_confidence_threshold = 7 / 10"

definition default_on_poor_result :: on_poor_result where
  "default_on_poor_result = PoorNotify"

datatype assessment_verdict = VerdictPass | VerdictFail | VerdictUncertain | VerdictNotAssessed

datatype judge_value = AnswerBool bool | AnswerNum rat | AnswerText string

record criterion_result =
  res_id :: string
  res_answer :: judge_value
  res_passed :: bool
  res_confidence :: rat
  res_probabilities :: "(string \<times> rat) list option"
  res_rationale :: "string option"

datatype human_via = ViaUi | ViaRemote

record human_verdict =
  hv_pass :: bool
  hv_note :: "string option"
  hv_by :: string
  hv_via :: human_via
  hv_at :: ms

record schema_check =
  sc_valid :: bool
  sc_errors :: "string list option"

record judge_used =
  ju_server :: string
  ju_id :: string
  ju_version :: "string option"
  ju_calibrated :: bool

record judge_usage =
  jg_inputTokens :: "tokens option"
  jg_outputTokens :: "tokens option"
  jg_costUsd :: "rat option"

record run_assessment =
  as_verdict :: assessment_verdict
  as_reason :: "(string \<times> string) option"
  as_schema :: "schema_check option"
  as_criteria :: "criterion_result list option"
  as_judge :: "judge_used option"
  as_usage :: "judge_usage option"
  as_stateTruncated :: bool
  as_assessedAt :: ms
  as_human :: "human_verdict option"

datatype run_execution =
  ExecQueued | ExecRunning | ExecSkipped | ExecCompleted | ExecIncomplete | ExecFailed | ExecCancelled

datatype run_label =
  Succeeded | PoorResult | NeedsReview | LabelFailed | LabelSkipped | LabelCancelled | LabelQueued | LabelRunning

section \<open>Budget and schedule\<close>

datatype budget_period = Daily | Monthly

record token_budget =
  maxBudgetInputTokens :: "tokens option"
  maxBudgetOutputTokens :: "tokens option"
  budget_period :: "budget_period option"

definition default_event_debounce_ms :: ms where
  "default_event_debounce_ms = 30000"

definition max_event_debounce_ms :: ms where
  "max_event_debounce_ms = 900000"

definition default_event_max_fires_per_hour :: int where
  "default_event_max_fires_per_hour = 12"

definition max_event_max_fires_per_hour :: int where
  "max_event_max_fires_per_hour = 60"

definition event_fire_ceiling_reason :: string where
  "event_fire_ceiling_reason = ''event_fire_ceiling''"

definition once_grace_ms :: ms where
  "once_grace_ms = 3600000"

definition once_ran_reason :: string where
  "once_ran_reason = ''Ran once at ''"

definition once_missed_reason :: string where
  "once_missed_reason = ''Missed its one time at ''"

datatype schedule_type = CronSchedule | IntervalSchedule | EventSchedule | OnceSchedule

record written_time =
  time_text :: string
  time_ms :: "ms option"

record schedule_spec =
  sched_type :: schedule_type
  sched_expression :: "string option"
  sched_timezone :: "string option"
  sched_at :: "written_time option"
  sched_intervalMs :: "ms option"
  sched_match :: "route_match option"
  sched_debounceMs :: "ms option"
  sched_maxFiresPerHour :: "int option"

definition is_event_schedule :: "schedule_spec option \<Rightarrow> bool" where
  "is_event_schedule s \<longleftrightarrow> map_option sched_type s = Some EventSchedule"

definition is_once_schedule :: "schedule_spec option \<Rightarrow> bool" where
  "is_once_schedule s \<longleftrightarrow> map_option sched_type s = Some OnceSchedule"

section \<open>The task\<close>

datatype task_source = SourceUser | SourceAgent

datatype once_outcome = OnceRan | OnceMissed

record once_done =
  od_at :: ms
  od_outcome :: once_outcome

datatype task_kind = Saved | Oneoff

datatype thinking_effort = EffortLow | EffortMedium | EffortHigh | EffortXhigh | EffortMax

datatype last_run_status = LastSuccess | LastDegraded | LastFailure | LastTimeout | LastSkipped

record scheduled_run_in_flight =
  sf_runId :: string
  sf_startedAt :: ms
  sf_onceAt :: "string option"

record task =
  t_id :: string
  t_name :: string
  t_description :: "string option"
  t_prompt :: string
  t_schedule :: "schedule_spec option"
  t_kind :: "task_kind option"
  t_onceDone :: "once_done option"
  t_skills :: "string list option"
  t_allowedTools :: "string list option"
  t_inputSchema :: "(string \<times> json) list option"
  t_outputSchema :: "(string \<times> json) list option"
  t_criteria :: "criterion list option"
  t_confidenceThreshold :: "rat option"
  t_judge :: "task_judge option"
  t_onPoorResult :: "on_poor_result option"
  t_maxIterations :: "int option"
  t_maxInputTokens :: "tokens option"
  t_maxRunDurationMs :: "ms option"
  t_model :: "string option"
  t_thinkingEffort :: "thinking_effort option"
  t_enabled :: bool
  t_ownerId :: "string option"
  t_workspaceId :: "string option"
  t_source :: task_source
  t_createdAt :: ms
  t_updatedAt :: ms
  t_lastRunAt :: "ms option"
  t_lastRunStatus :: "last_run_status option"
  t_nextRunAt :: "ms option"
  t_scheduledRunInFlight :: "scheduled_run_in_flight option"
  t_runCount :: int
  t_consecutiveErrors :: int
  t_transientErrors :: "int option"
  t_failureNoticeRunId :: "string option"
  t_disabledAt :: "ms option"
  t_disabledReason :: "string option"
  t_cumulativeInputTokens :: tokens
  t_cumulativeOutputTokens :: tokens
  t_tokenBudget :: "token_budget option"
  t_budgetResetAt :: "ms option"

definition kind_of :: "task \<Rightarrow> task_kind" where
  "kind_of t = nullish (t_kind t) Saved"

definition once_retirement :: "task \<Rightarrow> once_outcome option" where
  "once_retirement t = (if is_once_schedule (t_schedule t) then map_option od_outcome (t_onceDone t) else None)"

section \<open>Runs\<close>

datatype run_status =
  RunQueued | RunRunning | RunSuccess | RunDegraded | RunFailure | RunTimeout | RunCancelled | RunSkipped

datatype run_trigger = TriggerScheduled | TriggerManual | TriggerEvent

datatype stop_reason =
  StopComplete | StopMaxIterations | StopMaxInputTokens | StopSpendLimit | StopLength | StopContentFilter
  | StopError | StopOther

record task_run =
  r_id :: string
  r_taskId :: string
  r_startedAt :: ms
  r_completedAt :: "ms option"
  r_status :: run_status
  r_inputTokens :: tokens
  r_outputTokens :: tokens
  r_toolCalls :: int
  r_iterations :: int
  r_error :: "string option"
  r_transient :: bool
  r_trigger :: "run_trigger option"
  r_resultPreview :: "string option"
  r_stopReason :: "stop_reason option"
  r_spendAccountId :: "string option"
  r_input :: "json option"
  r_idempotencyKey :: "string option"
  r_outputSchemaValid :: "bool option"
  r_outputSchemaErrors :: "string list option"
  r_unrecoveredToolFailures :: "string list option"
  r_assessment :: "run_assessment option"
  r_retryOf :: "string option"
  r_batchId :: "string option"
  r_batchIndex :: "nat option"
  r_costUsd :: "rat option"

record run_ticket =
  rt_runId :: string
  rt_taskId :: string
  rt_requestedAt :: ms
  rt_run :: task_run

record run_tool_call =
  tc_id :: string
  tc_name :: string
  tc_input :: "json option"
  tc_output :: string
  tc_ok :: bool
  tc_ms :: ms
  tc_held :: bool

record run_file_ref =
  file_id :: string
  file_name :: string

datatype skill_loaded_by = LoadedDeclared | LoadedBeforeCall | LoadedToolUse | LoadedActivation

datatype skill_missed = FetchFailed | SkillCapped | RenamedUnheld

record run_skill_delivery =
  sd_name :: string
  sd_loadedBy :: skill_loaded_by
  sd_status :: "skill_missed option"

record run_usage =
  ru_inputTokens :: tokens
  ru_outputTokens :: tokens
  ru_iterations :: int

record task_run_result =
  rr_runId :: string
  rr_taskId :: string
  rr_completedAt :: ms
  rr_output :: string
  rr_activityLog :: "run_tool_call list"
  rr_outputFiles :: "run_file_ref list"
  rr_usage :: run_usage
  rr_stopReason :: "stop_reason option"
  rr_structured :: "json option"
  rr_error :: "string option"
  rr_skillsDelivered :: "run_skill_delivery list option"

section \<open>Batches\<close>

datatype batch_state = BatchRunning | BatchPaused | BatchCompleted | BatchCancelled

datatype batch_pause_reason = PauseManual | PauseBudget | PausePassRate | PauseUnavailable

record batch_stop_rule =
  minPassRate :: rat
  afterItems :: int

record batch_counts =
  cnt_pending :: int
  cnt_queued :: int
  cnt_running :: int
  cnt_pass :: int
  cnt_fail :: int
  cnt_uncertain :: int
  cnt_not_assessed :: int
  cnt_failed :: int
  cnt_skipped :: int
  cnt_cancelled :: int

record batch_pause =
  pause_reason :: batch_pause_reason
  pause_message :: string
  pause_at :: ms

record batch =
  b_id :: string
  b_taskId :: string
  b_workspaceId :: string
  b_ownerId :: string
  b_items :: nat
  b_concurrency :: int
  b_budgetUsd :: "rat option"
  b_stopWhen :: "batch_stop_rule option"
  b_stopRuleDisarmed :: bool
  b_state :: batch_state
  b_pause :: "batch_pause option"
  b_counts :: batch_counts
  b_costUsd :: rat
  b_idempotencyKey :: "string option"
  b_createdAt :: ms
  b_updatedAt :: ms
  b_completedAt :: "ms option"
  b_createdBy :: string

datatype batch_item_state = ItemPending | ItemQueued | ItemRunning | ItemDone

record batch_item =
  bi_index :: nat
  bi_input :: json
  bi_state :: batch_item_state
  bi_runId :: "string option"
  bi_previousRunIds :: "string list"
  bi_execution :: "run_execution option"
  bi_verdict :: "assessment_verdict option"
  bi_degraded :: bool
  bi_costUsd :: "rat option"
  bi_error :: "string option"

end
