(* ===== verification/Containment.thy ===== *)
theory Containment
  imports JsValues
begin

text \<open>
  The fence around untrusted prompt text, \<open>src/prompt/containment.ts\<close>: a body is wrapped in a tag
  and every form of the tag's closing in it is rewritten, whatever its case and white space. What is
  proved is that the fence holds: the first closing form in a wrapped block is its own.
\<close>

datatype containment_tag =
  TagContextSkill | TagRuntimeContext | TagAppInstructions | TagAppDescription | TagAppResourceTemplates
  | TagAppGuide | TagAppState | TagLayer3Skill | TagConnectorSkill | TagConnectorInstructions
  | TagActivatedSkill | TagSkillInstructions | TagRunInput | TagJudgeFeedback | TagHostInstructions
  | TagConversationHistory

primrec tag_text :: "containment_tag \<Rightarrow> string" where
  "tag_text TagContextSkill = ''context-skill''"
| "tag_text TagRuntimeContext = ''runtime-context''"
| "tag_text TagAppInstructions = ''app-instructions''"
| "tag_text TagAppDescription = ''app-description''"
| "tag_text TagAppResourceTemplates = ''app-resource-templates''"
| "tag_text TagAppGuide = ''app-guide''"
| "tag_text TagAppState = ''app-state''"
| "tag_text TagLayer3Skill = ''layer3-skill''"
| "tag_text TagConnectorSkill = ''connector-skill''"
| "tag_text TagConnectorInstructions = ''connector-instructions''"
| "tag_text TagActivatedSkill = ''activated-skill''"
| "tag_text TagSkillInstructions = ''skill-instructions''"
| "tag_text TagRunInput = ''run-input''"
| "tag_text TagJudgeFeedback = ''judge-feedback''"
| "tag_text TagHostInstructions = ''host-instructions''"
| "tag_text TagConversationHistory = ''conversation-history''"

section \<open>The closing form\<close>

text \<open>One character of the pattern, then a run of white space; \<open>None\<close> where it does not match.\<close>

definition eat :: "char \<Rightarrow> string \<Rightarrow> string option" where
  "eat c s = (case s of [] \<Rightarrow> None | d # ds \<Rightarrow> if d = c then Some (dropWhile is_space ds) else None)"

fun eat_tag :: "string \<Rightarrow> string \<Rightarrow> string option" where
  "eat_tag [] s = Some s"
| "eat_tag (t # ts) [] = None"
| "eat_tag (t # ts) (c # cs) = (if lower_char c = t then eat_tag ts cs else None)"

text \<open>\<open>/<\s*\/\s*tag\s*>/i\<close> at the front of a text: the text after the match.\<close>

definition closing_at :: "containment_tag \<Rightarrow> string \<Rightarrow> string option" where
  "closing_at tag s =
     Option.bind (eat (CHR ''<'') s) (\<lambda>s1.
     Option.bind (eat (CHR ''/'') s1) (\<lambda>s2.
     Option.bind (eat_tag (tag_text tag) s2) (\<lambda>s3.
       (case dropWhile is_space s3 of [] \<Rightarrow> None | c # cs \<Rightarrow> if c = CHR ''>'' then Some cs else None))))"

lemma eat_iff:
  "eat c s = Some r \<longleftrightarrow> (\<exists>w. s = c # w @ r \<and> list_all is_space w \<and> (r = [] \<or> \<not> is_space (hd r)))"
proof
  assume "eat c s = Some r"
  then obtain ds where ds: "s = c # ds" "r = dropWhile is_space ds"
    by (auto simp: eat_def split: list.splits if_splits)
  then have "s = c # takeWhile is_space ds @ r" "list_all is_space (takeWhile is_space ds)" "r = [] \<or> \<not> is_space (hd r)"
    using hd_dropWhile [of is_space ds] by (auto simp: list_all_iff dest: set_takeWhileD)
  then show "\<exists>w. s = c # w @ r \<and> list_all is_space w \<and> (r = [] \<or> \<not> is_space (hd r))" by blast
next
  assume "\<exists>w. s = c # w @ r \<and> list_all is_space w \<and> (r = [] \<or> \<not> is_space (hd r))"
  then obtain w where w: "s = c # w @ r" "list_all is_space w" "r = [] \<or> \<not> is_space (hd r)" by blast
  have "dropWhile is_space (w @ r) = dropWhile is_space r"
    using w(2) by (intro dropWhile_append2) (simp add: list_all_iff)
  also have "\<dots> = r" using w(3) by (cases r) auto
  finally show "eat c s = Some r" using w(1) by (simp add: eat_def)
qed

lemma eat_tag_iff: "eat_tag ts s = Some r \<longleftrightarrow> (\<exists>t. s = t @ r \<and> map lower_char t = ts)"
proof (induction ts s rule: eat_tag.induct)
  case (3 t ts c cs)
  then show ?case by (auto simp: Cons_eq_append_conv)
qed auto

lemma eat_end_iff:
  "(case dropWhile is_space s of [] \<Rightarrow> None | c # cs \<Rightarrow> if c = CHR ''>'' then Some cs else None) = Some r \<longleftrightarrow>
     (\<exists>w. s = w @ CHR ''>'' # r \<and> list_all is_space w)"
proof
  assume "(case dropWhile is_space s of [] \<Rightarrow> None | c # cs \<Rightarrow> if c = CHR ''>'' then Some cs else None) = Some r"
  then have "dropWhile is_space s = CHR ''>'' # r" by (auto split: list.splits if_splits simp del: dropWhile_eq_Nil_conv)
  then have "s = takeWhile is_space s @ CHR ''>'' # r" "list_all is_space (takeWhile is_space s)"
    using takeWhile_dropWhile_id [of is_space s] by (auto simp: list_all_iff dest: set_takeWhileD)
  then show "\<exists>w. s = w @ CHR ''>'' # r \<and> list_all is_space w" by blast
next
  assume "\<exists>w. s = w @ CHR ''>'' # r \<and> list_all is_space w"
  then obtain w where w: "s = w @ CHR ''>'' # r" "list_all is_space w" by blast
  have "dropWhile is_space s = dropWhile is_space (CHR ''>'' # r)"
    unfolding w(1) using w(2) by (intro dropWhile_append2) (simp add: list_all_iff)
  then show "(case dropWhile is_space s of [] \<Rightarrow> None | c # cs \<Rightarrow> if c = CHR ''>'' then Some cs else None) = Some r"
    by (simp add: is_space_def)
qed

text \<open>The shape of a match, and what its characters are.\<close>

definition closing_form :: "containment_tag \<Rightarrow> string \<Rightarrow> bool" where
  "closing_form tag m \<longleftrightarrow> (\<exists>w1 w2 t w3. m = CHR ''<'' # w1 @ CHR ''/'' # w2 @ t @ w3 @ [CHR ''>''] \<and>
     list_all is_space (w1 @ w2 @ w3) \<and> map lower_char t = tag_text tag)"

lemma tag_text_ne: "\<exists>c cs. tag_text tag = c # cs \<and> is_lower_alpha c"
  by (cases tag) (auto simp: is_lower_alpha_def)

lemma lower_not_space: "is_lower_alpha (lower_char c) \<Longrightarrow> \<not> is_space c"
  by (auto simp: lower_char_def is_space_def is_lower_alpha_def Let_def split: if_splits)

lemma closing_iff: "closing_at tag s = Some r \<longleftrightarrow> (\<exists>m. s = m @ r \<and> closing_form tag m)"
proof
  assume "closing_at tag s = Some r"
  then obtain s1 s2 s3 where e: "eat (CHR ''<'') s = Some s1" "eat (CHR ''/'') s1 = Some s2"
    "eat_tag (tag_text tag) s2 = Some s3"
    "(case dropWhile is_space s3 of [] \<Rightarrow> None | c # cs \<Rightarrow> if c = CHR ''>'' then Some cs else None) = Some r"
    unfolding closing_at_def bind_eq_Some_conv by blast
  then obtain w1 w2 t w3 where "s = CHR ''<'' # w1 @ s1" "s1 = CHR ''/'' # w2 @ s2" "s2 = t @ s3" "s3 = w3 @ CHR ''>'' # r"
    "list_all is_space w1" "list_all is_space w2" "list_all is_space w3" "map lower_char t = tag_text tag"
    unfolding eat_iff eat_tag_iff eat_end_iff by blast
  then have "s = (CHR ''<'' # w1 @ CHR ''/'' # w2 @ t @ w3 @ [CHR ''>'']) @ r \<and>
      closing_form tag (CHR ''<'' # w1 @ CHR ''/'' # w2 @ t @ w3 @ [CHR ''>''])"
    unfolding closing_form_def by fastforce
  then show "\<exists>m. s = m @ r \<and> closing_form tag m" by blast
next
  assume "\<exists>m. s = m @ r \<and> closing_form tag m"
  then obtain w1 w2 t w3 where s: "s = CHR ''<'' # w1 @ CHR ''/'' # w2 @ t @ w3 @ CHR ''>'' # r"
    and w: "list_all is_space w1" "list_all is_space w2" "list_all is_space w3" and t: "map lower_char t = tag_text tag"
    unfolding closing_form_def by auto
  obtain c cs where c: "t = c # cs" "\<not> is_space c"
    using tag_text_ne [of tag] t lower_not_space by (cases t) auto
  have "eat (CHR ''<'') s = Some (CHR ''/'' # w2 @ t @ w3 @ CHR ''>'' # r)"
    unfolding eat_iff using s w(1) by (auto simp: is_space_def)
  moreover have "eat (CHR ''/'') (CHR ''/'' # w2 @ t @ w3 @ CHR ''>'' # r) = Some (t @ w3 @ CHR ''>'' # r)"
    unfolding eat_iff using w(2) c by auto
  moreover have "eat_tag (tag_text tag) (t @ w3 @ CHR ''>'' # r) = Some (w3 @ CHR ''>'' # r)"
    unfolding eat_tag_iff using t by blast
  ultimately show "closing_at tag s = Some r"
    unfolding closing_at_def using eat_end_iff [of "w3 @ CHR ''>'' # r" r] w(3) by auto
qed

lemma closing_shorter: "closing_at tag s = Some r \<Longrightarrow> length r < length s"
  by (auto simp: closing_iff closing_form_def)

text \<open>\<open>body.replace(closing, "&lt;/tag>")\<close>.\<close>

function neutralise :: "containment_tag \<Rightarrow> string \<Rightarrow> string" where
  "neutralise tag s =
     (case closing_at tag s of
        Some rest \<Rightarrow> ''&lt;/'' @ tag_text tag @ ''>'' @ neutralise tag rest
      | None \<Rightarrow> (case s of [] \<Rightarrow> [] | c # cs \<Rightarrow> c # neutralise tag cs))"
  by pat_completeness auto
termination
  by (relation "measure (\<lambda>(tag, s). length s)") (auto dest: closing_shorter)

declare neutralise.simps [simp del]

definition open_tag :: "containment_tag \<Rightarrow> string" where
  "open_tag tag = ''<'' @ tag_text tag @ ''>''"

definition close_tag :: "containment_tag \<Rightarrow> string" where
  "close_tag tag = ''</'' @ tag_text tag @ ''>''"

definition wrap_contained :: "containment_tag \<Rightarrow> string \<Rightarrow> string" where
  "wrap_contained tag body = open_tag tag @ newline @ neutralise tag body @ newline @ close_tag tag"

text \<open>\<open>sanitizeLineField\<close> replaces each newline and control character by a blank, then trims.\<close>

definition sanitize_line_field :: "string \<Rightarrow> string" where
  "sanitize_line_field s =
     trim (map (\<lambda>c. let n = (of_char c :: nat) in if n < 32 \<or> n = 127 then CHR '' '' else c) s)"

definition provenance :: "string \<Rightarrow> string \<Rightarrow> string \<Rightarrow> string" where
  "provenance name scope how = ''_'' @ sanitize_line_field name @ ''_ '' @ [em_dash] @ '' scope: '' @
     sanitize_line_field scope @ ''; '' @ how"

definition format_connector_skill_block :: "string \<Rightarrow> string \<Rightarrow> string \<Rightarrow> bool \<Rightarrow> string" where
  "format_connector_skill_block name scope body heldCall =
     provenance name scope (if heldCall then ''governs the call held above; call it again once read''
       else ''surfaced on first matching connector tool call'') @ newline @ newline @
     wrap_contained TagConnectorSkill body"

definition format_activated_skill_block :: "string \<Rightarrow> string \<Rightarrow> string \<Rightarrow> string" where
  "format_activated_skill_block name scope body =
     provenance name scope ''loaded from the skill catalog'' @ newline @ newline @
     wrap_contained TagActivatedSkill body"

section \<open>The fence holds\<close>

text \<open>A text none of whose suffixes starts a closing form.\<close>

definition fenced :: "containment_tag \<Rightarrow> string \<Rightarrow> bool" where
  "fenced tag s \<longleftrightarrow> (\<forall>k. closing_at tag (drop k s) = None)"

lemma closing_needs_lt: "c \<noteq> CHR ''<'' \<Longrightarrow> closing_at tag (c # s) = None"
  by (simp add: closing_at_def eat_def)

lemma closing_nil [simp]: "closing_at tag [] = None"
  by (simp add: closing_at_def eat_def)

lemma fenced_Cons: "fenced tag (c # s) \<longleftrightarrow> closing_at tag (c # s) = None \<and> fenced tag s"
proof
  assume f: "fenced tag (c # s)"
  have "closing_at tag (drop 0 (c # s)) = None" "closing_at tag (drop (Suc k) (c # s)) = None" for k
    using f unfolding fenced_def by blast+
  then show "closing_at tag (c # s) = None \<and> fenced tag s" by (simp add: fenced_def)
next
  assume f: "closing_at tag (c # s) = None \<and> fenced tag s"
  have "closing_at tag (drop k (c # s)) = None" for k using f by (cases k) (simp_all add: fenced_def)
  then show "fenced tag (c # s)" by (simp add: fenced_def)
qed

lemma fenced_nil [simp]: "fenced tag []"
  by (simp add: fenced_def)

lemma fenced_no_lt_append: "CHR ''<'' \<notin> set p \<Longrightarrow> fenced tag s \<Longrightarrow> fenced tag (p @ s)"
  by (induction p) (auto simp: fenced_Cons intro: closing_needs_lt)

text \<open>Neither an ampersand nor a second opening bracket occurs inside a closing form.\<close>

lemma tag_no_mark: "c \<in> set (tag_text tag) \<Longrightarrow> c \<noteq> CHR ''&'' \<and> c \<noteq> CHR ''<''"
  by (cases tag) auto

lemma lower_mark: "lower_char (CHR ''&'') = CHR ''&''" "lower_char (CHR ''<'') = CHR ''<''"
  by (simp_all add: lower_char_def)

lemma mark_not_space: "\<not> is_space (CHR ''&'')" "\<not> is_space (CHR ''<'')"
  by (simp_all add: is_space_def)

lemma closing_form_chars:
  assumes "closing_form tag m"
  shows "CHR ''&'' \<notin> set m \<and> CHR ''<'' \<notin> set (tl m) \<and> m \<noteq> [] \<and> last m = CHR ''>''"
proof -
  obtain w1 w2 t w3 where m: "m = CHR ''<'' # w1 @ CHR ''/'' # w2 @ t @ w3 @ [CHR ''>'']"
    and w: "list_all is_space (w1 @ w2 @ w3)" and t: "map lower_char t = tag_text tag"
    using assms unfolding closing_form_def by blast
  have "CHR ''&'' \<notin> set (w1 @ w2 @ w3) \<and> CHR ''<'' \<notin> set (w1 @ w2 @ w3)"
    using w mark_not_space by (auto simp: list_all_iff)
  moreover have "CHR ''&'' \<notin> set t \<and> CHR ''<'' \<notin> set t"
    using tag_no_mark [of "lower_char _" tag] t lower_mark by (metis image_eqI image_set)
  ultimately show ?thesis using m by simp
qed

text \<open>So a match cannot run into such a mark: it is already there without what follows.\<close>

lemma closing_before_mark:
  assumes "closing_at tag (x @ b # y) = Some r" "x \<noteq> []" "b = CHR ''&'' \<or> b = CHR ''<''"
  shows "closing_at tag x \<noteq> None"
proof -
  obtain m where m: "x @ b # y = m @ r" "closing_form tag m" using assms(1) closing_iff by blast
  note c = closing_form_chars [OF m(2)]
  from m(1) consider us where "x = m @ us" | us where "m = x @ b # us"
    by (auto simp: append_eq_append_conv2 Cons_eq_append_conv)
  then show ?thesis
  proof cases
    case 1
    then show ?thesis using m(2) closing_iff by blast
  next
    case 2
    then have "b \<in> set (tl m)" "b \<in> set m" using assms(2) by (cases x; simp)+
    then show ?thesis using c assms(3) by auto
  qed
qed

lemma closing_extend: "closing_at tag x = Some r \<Longrightarrow> closing_at tag (x @ y) = Some (r @ y)"
  using closing_iff by (metis append.assoc)

text \<open>The rewritten text follows the original up to the first form rewritten.\<close>

lemma neutralise_split:
  "neutralise tag s = s \<or> (\<exists>u v w. s = u @ v \<and> neutralise tag s = u @ CHR ''&'' # w)"
proof (induction tag s rule: neutralise.induct)
  case (1 tag s)
  show ?case
  proof (cases "closing_at tag s")
    case (Some rest)
    then have "neutralise tag s = [] @ CHR ''&'' # (''lt;/'' @ tag_text tag @ ''>'' @ neutralise tag rest)"
      by (subst neutralise.simps) simp
    then show ?thesis by blast
  next
    case None
    show ?thesis
    proof (cases s)
      case Nil
      then show ?thesis by (subst neutralise.simps) simp
    next
      case (Cons c cs)
      have e: "neutralise tag s = c # neutralise tag cs" using None Cons by (subst neutralise.simps) simp
      from "1.IH"(1) [OF None Cons] show ?thesis
      proof
        assume "\<exists>u v w. cs = u @ v \<and> neutralise tag cs = u @ CHR ''&'' # w"
        then obtain u v w where "cs = u @ v" "neutralise tag cs = u @ CHR ''&'' # w" by blast
        then have "s = (c # u) @ v \<and> neutralise tag s = (c # u) @ CHR ''&'' # w" using e Cons by simp
        then show ?thesis by blast
      qed (use e Cons in simp)
    qed
  qed
qed

lemma tag_no_lt: "CHR ''<'' \<notin> set (''&lt;/'' @ tag_text tag @ ''>'')"
  using tag_no_mark [of "CHR ''<''" tag] by auto

lemma neutralise_fenced: "fenced tag (neutralise tag s)"
proof (induction tag s rule: neutralise.induct)
  case (1 tag s)
  show ?case
  proof (cases "closing_at tag s")
    case (Some rest)
    then have "neutralise tag s = (''&lt;/'' @ tag_text tag @ ''>'') @ neutralise tag rest"
      by (subst neutralise.simps) simp
    then show ?thesis using fenced_no_lt_append [OF tag_no_lt "1.IH"(2) [OF Some]] by simp
  next
    case None
    show ?thesis
    proof (cases s)
      case Nil
      then show ?thesis by (subst neutralise.simps) simp
    next
      case (Cons c cs)
      have e: "neutralise tag s = c # neutralise tag cs" using None Cons by (subst neutralise.simps) simp
      have "closing_at tag (c # neutralise tag cs) = None"
        using neutralise_split [of tag cs]
      proof
        assume "\<exists>u v w. cs = u @ v \<and> neutralise tag cs = u @ CHR ''&'' # w"
        then obtain u v w where u: "cs = u @ v" "neutralise tag cs = u @ CHR ''&'' # w" by blast
        have "closing_at tag (c # u) = None"
          using None Cons u(1) closing_extend [of tag "c # u" _ v] by (cases "closing_at tag (c # u)") auto
        then show ?thesis using closing_before_mark [of tag "c # u" "CHR ''&''" w] u(2)
          by (cases "closing_at tag (c # neutralise tag cs)") auto
      qed (use None Cons in simp)
      then show ?thesis using "1.IH"(1) [OF None Cons] e by (simp add: fenced_Cons)
    qed
  qed
qed

lemma closing_newline: "closing_at tag (x @ newline) = Some r \<Longrightarrow> closing_at tag x \<noteq> None"
proof -
  assume "closing_at tag (x @ newline) = Some r"
  then obtain m where m: "x @ newline = m @ r" "closing_form tag m" using closing_iff by blast
  have "r \<noteq> []"
  proof
    assume "r = []"
    then have "m = x @ [CHR 0x0A]" using m(1) by (simp add: newline_eq)
    then have "last m = CHR 0x0A" by simp
    then show False using closing_form_chars [OF m(2)] by simp
  qed
  then obtain q where "x = m @ q" using m(1) by (cases r rule: rev_cases) (auto simp: newline_eq)
  then show ?thesis using m(2) closing_iff by blast
qed

lemma close_tag_closes: "closing_at tag (close_tag tag) = Some []"
proof -
  have "map lower_char (tag_text tag) = tag_text tag" by (cases tag) (simp_all add: lower_char_def)
  then have "closing_form tag (CHR ''<'' # [] @ CHR ''/'' # [] @ tag_text tag @ [] @ [CHR ''>''])"
    unfolding closing_form_def by fastforce
  then show ?thesis unfolding closing_iff close_tag_def by fastforce
qed

text \<open>
  C38. A body cannot break out of its containment: in a wrapped block no closing form of the tag, in any
  case or spacing, starts anywhere after the opening tag before the block's own close, which ends the
  block.
\<close>

theorem containment_holds:
  "wrap_contained tag body = open_tag tag @ newline @ neutralise tag body @ newline @ close_tag tag \<and>
   (\<forall>k \<le> length (neutralise tag body).
      closing_at tag (drop k (neutralise tag body @ newline @ close_tag tag)) = None) \<and>
   closing_at tag (drop (length (neutralise tag body) + 1) (neutralise tag body @ newline @ close_tag tag)) = Some []"
proof -
  let ?n = "neutralise tag body"
  have "closing_at tag (drop k (?n @ newline @ close_tag tag)) = None" if k: "k \<le> length ?n" for k
  proof (cases "drop k ?n")
    case Nil
    then show ?thesis using k by (simp add: newline_eq closing_needs_lt)
  next
    case (Cons c x)
    have f: "closing_at tag (c # x) = None" using neutralise_fenced [of tag body] Cons unfolding fenced_def by metis
    have d: "drop k (?n @ newline @ close_tag tag) = (c # x @ newline) @ CHR ''<'' # (''/'' @ tag_text tag @ ''>'')"
      using Cons k by (simp add: close_tag_def)
    show ?thesis
      unfolding d using closing_before_mark [of tag "c # x @ newline" "CHR ''<''"] closing_newline [of tag "c # x"] f
      by (metis append_Cons list.distinct(1) option.exhaust)
  qed
  then show ?thesis by (simp add: wrap_contained_def newline_eq close_tag_closes)
qed

text \<open>A body without a closing form is wrapped as it is.\<close>

lemma neutralise_id: "fenced tag s \<Longrightarrow> neutralise tag s = s"
proof (induction s)
  case (Cons c s)
  then show ?case by (subst neutralise.simps) (simp add: fenced_Cons)
qed (subst neutralise.simps, simp)

text \<open>
  A provenance field is one line: a sanitised field has no newline, carriage return or other control
  character and no white space at its ends, so a connector's name cannot open a line of its own.
\<close>

theorem sanitized_field_one_line:
  "(\<forall>c. c \<in> set (sanitize_line_field s) \<longrightarrow> 32 \<le> (of_char c :: nat) \<and> (of_char c :: nat) \<noteq> 127) \<and>
   (sanitize_line_field s = [] \<or>
     \<not> is_space (hd (sanitize_line_field s)) \<and> \<not> is_space (last (sanitize_line_field s)))"
proof -
  let ?m = "map (\<lambda>c. let n = (of_char c :: nat) in if n < 32 \<or> n = 127 then CHR '' '' else c) s"
  have "32 \<le> (of_char c :: nat) \<and> (of_char c :: nat) \<noteq> 127" if "c \<in> set (trim ?m)" for c
    using that set_trim [of ?m] by (auto simp: Let_def split: if_splits)
  then show ?thesis using trim_hd [of ?m] trim_last [of ?m] by (auto simp: sanitize_line_field_def)
qed

theorem sanitized_field_one_line_witness:
  "32 \<le> (of_char (hd (sanitize_line_field ''a'')) :: nat)"
proof -
  have "sanitize_line_field ''a'' = ''a''" by code_simp
  then show ?thesis using sanitized_field_one_line [of "''a''"] by simp
qed

theorem containment_holds_witness:
  "closing_at TagRunInput (drop 0 (neutralise TagRunInput ''</run-input>'' @ newline @ close_tag TagRunInput)) = None"
  using containment_holds [of TagRunInput "''</run-input>''"] by blast

end
