(* ===== verification/Retry.thy ===== *)
theory Retry
  imports Complex_Main JsValues
begin

text \<open>
  Provider errors and the retry wrapper, \<open>src/engine/retry.ts\<close> and \<open>src/engine/provider-error.ts\<close>.

  A thrown value is a record of the fields the code reads off it; a field of another type than the one
  tested reads as absent. What an attempt does is given by the attempt's number, so a run of the
  wrapper is a function of that; jitter is a parameter, and the log line is not modelled.
\<close>

record thrown_error =
  te_object :: bool
  te_retryable :: "bool option"
  te_isRetryable :: "bool option"
  te_status :: "rat option"
  te_statusCode :: "rat option"
  te_message :: string
  te_code :: "string option"
  te_name :: string
  te_domException :: bool

definition provider_status :: "thrown_error \<Rightarrow> rat option" where
  "provider_status e =
     (if \<not> te_object e then None
      else case te_status e of Some s \<Rightarrow> Some s | None \<Rightarrow> te_statusCode e)"

definition retryable_statuses :: "rat set" where
  "retryable_statuses = {408, 429, 500, 502, 503, 504, 529}"

definition auth_status :: rat where
  "auth_status = 401"

definition is_retryable :: "thrown_error \<Rightarrow> bool" where
  "is_retryable e =
     (if \<not> te_object e then False
      else case te_retryable e of
        Some own \<Rightarrow> own
      | None \<Rightarrow>
          (case te_isRetryable e of
             Some provider \<Rightarrow> provider
           | None \<Rightarrow> (case provider_status e of None \<Rightarrow> False | Some s \<Rightarrow> s \<in> retryable_statuses)))"

text \<open>\<open>retryReason\<close>: a plausible HTTP status, else the error's name.\<close>

definition retry_reason :: "thrown_error \<Rightarrow> rat + string" where
  "retry_reason e =
     (case provider_status e of
        Some s \<Rightarrow> if of_int \<lfloor>s\<rfloor> = s \<and> 100 \<le> s \<and> s \<le> 599 then Inl s else Inr (te_name e)
      | None \<Rightarrow> Inr (te_name e))"

text \<open>How the wrapper ends, and the waits it made before.\<close>

datatype 'a retry_outcome = Returned 'a | AuthFailed thrown_error | Thrown thrown_error | AbortedWait

text \<open>
  \<open>fn i\<close> is what attempt \<open>i\<close> does, \<open>jitter i\<close> the random part of the wait after it, and \<open>aborted i\<close>
  whether the signal fires before that wait is over.
\<close>

function with_retry_from ::
  "(nat \<Rightarrow> thrown_error + 'a) \<Rightarrow> nat \<Rightarrow> rat \<Rightarrow> (nat \<Rightarrow> rat) \<Rightarrow> (nat \<Rightarrow> bool) \<Rightarrow> nat \<Rightarrow> rat list
    \<Rightarrow> 'a retry_outcome \<times> rat list" where
  "with_retry_from fn maxRetries baseDelayMs jitter aborted attempt waits =
     (case fn attempt of
        Inr x \<Rightarrow> (Returned x, waits)
      | Inl e \<Rightarrow>
          if provider_status e = Some auth_status then (AuthFailed e, waits)
          else if \<not> is_retryable e \<or> maxRetries \<le> attempt then (Thrown e, waits)
          else
            (let delay = baseDelayMs * 2 ^ attempt + jitter attempt in
             if aborted attempt then (AbortedWait, waits)
             else with_retry_from fn maxRetries baseDelayMs jitter aborted (attempt + 1) (waits @ [delay])))"
  by pat_completeness auto
termination
  by (relation "measure (\<lambda>(fn, m, b, j, ab, attempt, w). m - attempt)") auto

declare with_retry_from.simps [simp del]

definition with_retry ::
  "(nat \<Rightarrow> thrown_error + 'a) \<Rightarrow> nat \<Rightarrow> rat \<Rightarrow> (nat \<Rightarrow> rat) \<Rightarrow> (nat \<Rightarrow> bool) \<Rightarrow> 'a retry_outcome \<times> rat list" where
  "with_retry fn maxRetries baseDelayMs jitter aborted = with_retry_from fn maxRetries baseDelayMs jitter aborted 0 []"

text \<open>An attempt after which the wrapper goes on to another one.\<close>

definition goes_on :: "(nat \<Rightarrow> thrown_error + 'a) \<Rightarrow> (nat \<Rightarrow> bool) \<Rightarrow> nat \<Rightarrow> bool" where
  "goes_on fn aborted i \<longleftrightarrow>
     (\<exists>e. fn i = Inl e \<and> provider_status e \<noteq> Some auth_status \<and> is_retryable e) \<and> \<not> aborted i"

lemma with_retry_from_waits:
  assumes "with_retry_from fn m b j ab attempt waits = (out, ws)" "attempt \<le> m"
  shows "\<exists>k. attempt \<le> k \<and> k \<le> m \<and> ws = waits @ map (\<lambda>i. b * 2 ^ i + j i) [attempt..<k] \<and>
    (\<forall>i. attempt \<le> i \<and> i < k \<longrightarrow> goes_on fn ab i) \<and>
    (case out of Returned x \<Rightarrow> fn k = Inr x
     | AuthFailed e \<Rightarrow> fn k = Inl e \<and> provider_status e = Some auth_status
     | Thrown e \<Rightarrow> fn k = Inl e \<and> (\<not> is_retryable e \<or> k = m)
     | AbortedWait \<Rightarrow> ab k)"
  using assms
proof (induction fn m b j ab attempt waits arbitrary: ws rule: with_retry_from.induct)
  case (1 fn m b j ab attempt waits)
  show ?case
  proof (cases "goes_on fn ab attempt \<and> attempt < m")
    case True
    then obtain e where e: "fn attempt = Inl e" "provider_status e \<noteq> Some auth_status" "is_retryable e" "\<not> ab attempt"
      by (auto simp: goes_on_def)
    have step: "with_retry_from fn m b j ab (attempt + 1) (waits @ [b * 2 ^ attempt + j attempt]) = (out, ws)"
      using "1.prems"(1) True e by (subst (asm) with_retry_from.simps) simp
    have nm: "\<not> m \<le> attempt" using True by simp
    obtain k where k: "attempt + 1 \<le> k" "k \<le> m"
      "ws = (waits @ [b * 2 ^ attempt + j attempt]) @ map (\<lambda>i. b * 2 ^ i + j i) [attempt + 1..<k]"
      "\<forall>i. attempt + 1 \<le> i \<and> i < k \<longrightarrow> goes_on fn ab i"
      "case out of Returned x \<Rightarrow> fn k = Inr x
        | AuthFailed e \<Rightarrow> fn k = Inl e \<and> provider_status e = Some auth_status
        | Thrown e \<Rightarrow> fn k = Inl e \<and> (\<not> is_retryable e \<or> k = m) | AbortedWait \<Rightarrow> ab k"
      using "1.IH" [OF e(1) e(2) _ refl e(4) step] nm e(3) by fastforce
    have "[attempt..<k] = attempt # [attempt + 1..<k]" using k(1) by (simp add: upt_conv_Cons)
    then have "ws = waits @ map (\<lambda>i. b * 2 ^ i + j i) [attempt..<k]" using k(3) by simp
    moreover have "\<forall>i. attempt \<le> i \<and> i < k \<longrightarrow> goes_on fn ab i"
      using k(4) True by (metis Suc_eq_plus1 le_neq_implies_less less_eq_Suc_le)
    ultimately show ?thesis using k(1,2,5) by (intro exI [of _ k]) simp
  next
    case False
    have "ws = waits \<and> (case out of Returned x \<Rightarrow> fn attempt = Inr x
        | AuthFailed e \<Rightarrow> fn attempt = Inl e \<and> provider_status e = Some auth_status
        | Thrown e \<Rightarrow> fn attempt = Inl e \<and> (\<not> is_retryable e \<or> attempt = m) | AbortedWait \<Rightarrow> ab attempt)"
      using "1.prems" False
      by (subst (asm) with_retry_from.simps) (auto simp: goes_on_def Let_def split: sum.splits if_splits)
    then show ?thesis using "1.prems"(2) by (intro exI [of _ attempt]) auto
  qed
qed

text \<open>
  The retry wrapper always ends, after at most one attempt more than it has retries: it goes on only
  past retryable errors that are not a refused key, waits the doubling delay with its jitter after each,
  and ends with the first attempt that returned, could not be retried, or was the last.
\<close>

theorem with_retry_bounded:
  "\<exists>k out. k \<le> maxRetries \<and>
     with_retry fn maxRetries b j ab = (out, map (\<lambda>i. b * 2 ^ i + j i) [0..<k]) \<and>
     (\<forall>i. i < k \<longrightarrow> goes_on fn ab i) \<and>
     (case out of Returned x \<Rightarrow> fn k = Inr x
      | AuthFailed e \<Rightarrow> fn k = Inl e \<and> provider_status e = Some auth_status
      | Thrown e \<Rightarrow> fn k = Inl e \<and> (\<not> is_retryable e \<or> k = maxRetries)
      | AbortedWait \<Rightarrow> ab k)"
proof -
  obtain out ws where "with_retry fn maxRetries b j ab = (out, ws)" by (cases "with_retry fn maxRetries b j ab")
  then show ?thesis
    using with_retry_from_waits [of fn maxRetries b j ab 0 "[]" out ws] by (auto simp: with_retry_def)
qed

definition demo_error :: thrown_error where
  "demo_error = \<lparr>te_object = True, te_retryable = None, te_isRetryable = None, te_status = Some 503, te_statusCode = None,
     te_message = ''overloaded'', te_code = None, te_name = ''Error'', te_domException = False\<rparr>"

theorem with_retry_bounded_witness:
  "\<exists>k \<le> 3. with_retry (\<lambda>i. if i < 2 then Inl demo_error else Inr True) 3 1000 (\<lambda>_. 0) (\<lambda>_. False) =
     (Returned True, map (\<lambda>i. 1000 * 2 ^ i + 0) [0..<k])"
proof -
  let ?fn = "\<lambda>i::nat. if i < 2 then Inl demo_error else Inr True"
  obtain k out where k: "k \<le> 3" "with_retry ?fn 3 1000 (\<lambda>_. 0) (\<lambda>_. False) = (out, map (\<lambda>i. 1000 * 2 ^ i + 0) [0..<k])"
    "case out of Returned x \<Rightarrow> ?fn k = Inr x
      | AuthFailed e \<Rightarrow> ?fn k = Inl e \<and> provider_status e = Some auth_status
      | Thrown e \<Rightarrow> ?fn k = Inl e \<and> (\<not> is_retryable e \<or> k = 3) | AbortedWait \<Rightarrow> False"
    using with_retry_bounded [of 3 ?fn 1000 "\<lambda>_. 0" "\<lambda>_. False"] by blast
  have "is_retryable demo_error" "provider_status demo_error \<noteq> Some auth_status"
    by (simp_all add: is_retryable_def demo_error_def provider_status_def retryable_statuses_def auth_status_def)
  then have "out = Returned True" using k(1,3) by (cases out) (auto split: if_splits)
  then show ?thesis using k(1,2) by blast
qed

end
