(* ===== verification/Task_Schedule.thy ===== *)
theory Task_Schedule
  imports Assessment Retry
begin

text \<open>
  The scheduler's helpers, \<open>src/platform/tasks/scheduler.ts\<close> up to its class: when a task runs next,
  how a failing stretch backs off and disables it, its token budget's window, and the records of runs
  that did not start.

  What the runtime's host supplies is the record \<open>host\<close>: the cron library (\<open>None\<close> where it throws),
  the zone database, as local time minus UTC at an instant (\<open>None\<close> for a zone it does not know, where
  the code throws), the locale's text of a number, and text a person wrote read as an instant.
  A helper that changes the task it is given returns the changed task.
\<close>

section \<open>What the host supplies\<close>

record host =
  cron_next :: "string \<Rightarrow> string option \<Rightarrow> ms \<Rightarrow> ms option option"
  cron_match :: "string \<Rightarrow> string option \<Rightarrow> ms \<Rightarrow> bool option"
  zone_offset :: "string \<Rightarrow> (ms \<Rightarrow> ms) option"
  locale_number :: "int \<Rightarrow> string"

text \<open>What a helper or a store throws.\<close>

datatype task_error =
  WorkspaceRootMissing | UnknownTimeZone | InvalidTaskId | InvalidRunId | InvalidBefore

definition result_bind :: "'e + 'a \<Rightarrow> ('a \<Rightarrow> 'e + 'b) \<Rightarrow> 'e + 'b" where
  "result_bind r f = (case r of Inl e \<Rightarrow> Inl e | Inr x \<Rightarrow> f x)"

lemma result_bind_simps [simp]: "result_bind (Inl e) f = Inl e" "result_bind (Inr x) f = f x"
  by (simp_all add: result_bind_def)

lemma result_bind_Inr: "result_bind r f = Inr y \<longleftrightarrow> (\<exists>x. r = Inr x \<and> f x = Inr y)"
  by (cases r) auto

section \<open>Constants\<close>

definition max_timer_ms :: ms where
  "max_timer_ms = 60000"

definition backoff_delays :: "ms list" where
  "backoff_delays = [30000, 60000, 300000, 900000, 3600000]"

definition max_consecutive_errors :: int where
  "max_consecutive_errors = 10"

definition max_consecutive_transient_errors :: int where
  "max_consecutive_transient_errors = 100"

definition interrupted_run_error :: string where
  "interrupted_run_error =
     ''The runtime stopped while this run was in flight, so it did not finish. It was not '' @
     ''started again, because it may already have done part of its work; the task runs '' @
     ''next at its next scheduled time.''"

definition run_duration_exceeded :: string where
  "run_duration_exceeded = ''run_duration_exceeded''"

definition stopped_reason :: string where
  "stopped_reason = ''the scheduler is stopped''"

definition admission_key_prefix :: string where
  "admission_key_prefix = ''task:''"

definition workspace_deleted :: string where
  "workspace_deleted = ''workspace_deleted''"

definition batch_paused :: string where
  "batch_paused = ''batch_paused''"

datatype duplicate = AlreadyRunning | AlreadyQueued

fun duplicate_text :: "duplicate \<Rightarrow> string" where
  "duplicate_text AlreadyRunning = ''Already running''"
| "duplicate_text AlreadyQueued = ''Already queued''"

fun event_duplicate_answer :: "duplicate \<Rightarrow> string" where
  "event_duplicate_answer AlreadyRunning = ''a previous run of this task is still in flight''"
| "event_duplicate_answer AlreadyQueued = ''a previous run of this task is still queued''"

section \<open>Types\<close>

record run_input =
  ri_preamble :: "string option"
  ri_data :: "json option"

record requested_run =
  rq_runId :: string
  rq_requestedAt :: ms
  rq_input :: "json option"
  rq_idempotencyKey :: "string option"
  rq_retryOf :: "string option"
  rq_guidance :: "string option"
  rq_batch :: "(string \<times> nat) option"

record run_failed_notice =
  nf_disabled :: bool

datatype account_unit = UnitUsd | UnitInputTokens | UnitOutputTokens

record run_spend_account =
  sa_id :: string
  sa_unit :: account_unit
  sa_remaining :: rat

datatype task_budget_window = WindowCurrent | WindowElapsed | WindowUnseeded | WindowLifetime

section \<open>Transient errors\<close>

text \<open>\<open>text.includes(part)\<close>.\<close>

fun starts_with :: "string \<Rightarrow> string \<Rightarrow> bool" where
  "starts_with [] s = True"
| "starts_with (c # p) [] = False"
| "starts_with (c # p) (d # s) = (c = d \<and> starts_with p s)"

fun has_text :: "string \<Rightarrow> string \<Rightarrow> bool" where
  "has_text part [] = (part = [])"
| "has_text part (c # s) = (starts_with part (c # s) \<or> has_text part s)"

definition line_end :: "char \<Rightarrow> bool" where
  "line_end c \<longleftrightarrow> c = CHR 0x0A \<or> c = CHR 0x0D"

text \<open>\<open>/rate.?limit/\<close> at the head of the text, and anywhere in it; the text is lower case here.\<close>

definition rate_limit_here :: "string \<Rightarrow> bool" where
  "rate_limit_here s \<longleftrightarrow>
     starts_with ''rate'' s \<and>
     (let rest = drop 4 s in
      starts_with ''limit'' rest \<or>
      (case rest of [] \<Rightarrow> False | c # r \<Rightarrow> \<not> line_end c \<and> starts_with ''limit'' r))"

fun rate_limited :: "string \<Rightarrow> bool" where
  "rate_limited [] = False"
| "rate_limited (c # s) = (rate_limit_here (c # s) \<or> rate_limited s)"

definition word_char :: "char \<Rightarrow> bool" where
  "word_char c \<longleftrightarrow> is_alpha c \<or> is_digit c \<or> c = CHR ''_''"

text \<open>\<open>/\b5\d\d\b/\<close>; the flag says whether the character before is a word character.\<close>

definition status_5xx_here :: "string \<Rightarrow> bool" where
  "status_5xx_here s =
     (case s of
        a # b # c # rest \<Rightarrow>
          a = CHR ''5'' \<and> is_digit b \<and> is_digit c \<and> (rest = [] \<or> \<not> word_char (hd rest))
      | _ \<Rightarrow> False)"

fun status_5xx :: "bool \<Rightarrow> string \<Rightarrow> bool" where
  "status_5xx after_word [] = False"
| "status_5xx after_word (c # s) =
     ((\<not> after_word \<and> status_5xx_here (c # s)) \<or> status_5xx (word_char c) s)"

definition is_transient_error :: "string \<Rightarrow> bool" where
  "is_transient_error message =
     (let m = to_lower message in
      rate_limited m \<or> has_text ''overloaded'' m \<or> has_text ''timeout'' m \<or> has_text ''network'' m \<or>
      has_text ''econnrefused'' m \<or> has_text ''stream stalled'' m \<or>
      has_text (''gateway didn'' @ [CHR 0x27] @ ''t respond'') m \<or> status_5xx False message)"

section \<open>Backoff and the next run\<close>

definition backoff_delay :: "int \<Rightarrow> ms list \<Rightarrow> ms" where
  "backoff_delay errors ladder =
     (if errors \<le> 0 \<or> ladder = [] then 0
      else ladder ! nat (min (errors - 1) (int (length ladder) - 1)))"

definition is_in_backoff :: "task \<Rightarrow> ms \<Rightarrow> bool" where
  "is_in_backoff t now =
     (if t_consecutiveErrors t \<le> 0 then False
      else case t_nextRunAt t of None \<Rightarrow> False | Some n \<Rightarrow> now < n)"

text \<open>
  \<open>computeNextRunAt\<close>: the outer \<open>None\<close> is a throw of the cron library. An empty expression and a zero
  interval are falsy, so they fall through to no next run.
\<close>

definition compute_next_run_at :: "host \<Rightarrow> task \<Rightarrow> ms \<Rightarrow> string option \<Rightarrow> ms option option" where
  "compute_next_run_at h t now defaultTz =
     (case t_schedule t of
        None \<Rightarrow> Some None
      | Some s \<Rightarrow>
          (case sched_type s of
             EventSchedule \<Rightarrow> Some None
           | CronSchedule \<Rightarrow>
               (case sched_expression s of
                  None \<Rightarrow> Some None
                | Some e \<Rightarrow>
                    if e = [] then Some None
                    else cron_next h e
                           (case sched_timezone s of Some tz \<Rightarrow> Some tz | None \<Rightarrow> defaultTz) now)
           | OnceSchedule \<Rightarrow> Some (case sched_at s of None \<Rightarrow> None | Some a \<Rightarrow> time_ms a)
           | IntervalSchedule \<Rightarrow>
               Some (case sched_intervalMs s of
                  None \<Rightarrow> None
                | Some i \<Rightarrow>
                    if i = 0 then None
                    else (case t_lastRunAt t of None \<Rightarrow> Some now | Some l \<Rightarrow> Some (l + i)))))"

definition set_next_run_at :: "task \<Rightarrow> ms option \<Rightarrow> task" where
  "set_next_run_at t n = t\<lparr>t_nextRunAt := n\<rparr>"

definition next_run_or_none :: "host \<Rightarrow> task \<Rightarrow> ms \<Rightarrow> string option \<Rightarrow> ms option" where
  "next_run_or_none h t now defaultTz =
     (case compute_next_run_at h t now defaultTz of None \<Rightarrow> None | Some n \<Rightarrow> n)"

definition by_next_run_at :: "task list \<Rightarrow> task list" where
  "by_next_run_at ts = sort_key (\<lambda>t. nullish (t_nextRunAt t) 0) ts"

definition is_pending_occurrence :: "host \<Rightarrow> task \<Rightarrow> string option \<Rightarrow> bool" where
  "is_pending_occurrence h t defaultTz =
     (case (t_schedule t, t_nextRunAt t) of
        (Some s, Some n) \<Rightarrow>
          (case (sched_type s, sched_expression s) of
             (CronSchedule, Some e) \<Rightarrow>
               if e = [] then False
               else nullish
                 (cron_match h e (case sched_timezone s of Some tz \<Rightarrow> Some tz | None \<Rightarrow> defaultTz) n) False
           | _ \<Rightarrow> False)
      | _ \<Rightarrow> False)"

definition due_without_next_run_at :: "task \<Rightarrow> bool" where
  "due_without_next_run_at t \<longleftrightarrow> map_option sched_type (t_schedule t) = Some IntervalSchedule"

definition is_due :: "task \<Rightarrow> ms \<Rightarrow> bool" where
  "is_due t now =
     (if \<not> t_enabled t then False
      else if t_schedule t = None then False
      else if is_event_schedule (t_schedule t) then False
      else case t_nextRunAt t of None \<Rightarrow> due_without_next_run_at t | Some n \<Rightarrow> n \<le> now)"

section \<open>When a budget resets\<close>

text \<open>
  \<open>getTimezoneOffsetMs\<close>: UTC minus local time, at an instant; \<open>None\<close> where the zone is unknown. It
  compares two printed times read back in the host's own zone, taken here to be one without jumps.
\<close>

definition get_timezone_offset_ms :: "host \<Rightarrow> string \<Rightarrow> ms \<Rightarrow> ms option" where
  "get_timezone_offset_ms h tz t = map_option (\<lambda>off. - off t) (zone_offset h tz)"

definition local_date :: "(ms \<Rightarrow> ms) \<Rightarrow> ms \<Rightarrow> int \<times> int \<times> int" where
  "local_date off now = civil_of_day ((now + off now) div ms_per_day)"

definition reset_day :: "budget_period \<Rightarrow> int \<times> int \<times> int \<Rightarrow> int" where
  "reset_day period date =
     (case date of (y, m, d) \<Rightarrow>
        (case period of
           Daily \<Rightarrow> day_utc y m (d + 1)
         | Monthly \<Rightarrow> (if m = 12 then day_utc (y + 1) 1 1 else day_utc y (m + 1) 1)))"

definition compute_budget_reset_at ::
  "host \<Rightarrow> budget_period option \<Rightarrow> ms \<Rightarrow> string option \<Rightarrow> task_error + ms option" where
  "compute_budget_reset_at h period now defaultTz =
     (case period of
        None \<Rightarrow> Inr None
      | Some p \<Rightarrow>
          (let tz = (if nullish defaultTz [] = [] then ''UTC'' else nullish defaultTz []) in
           case zone_offset h tz of
             None \<Rightarrow> Inl UnknownTimeZone
           | Some off \<Rightarrow>
               (let next = reset_day p (local_date off now) * ms_per_day in
                case get_timezone_offset_ms h tz next of
                  None \<Rightarrow> Inl UnknownTimeZone
                | Some offsetMs \<Rightarrow> Inr (Some (next + offsetMs)))))"

section \<open>How a thrown run is recorded\<close>

definition classify_run_failure :: "thrown_error \<Rightarrow> run_status \<times> string \<times> bool" where
  "classify_run_failure e =
     (if te_domException e \<and> te_name e = ''AbortError'' then (RunCancelled, ''Cancelled by user'', False)
      else
        let errorMsg = te_message e; code = te_code e in
        if code = Some ''workspace_membership_revoked'' then (RunSkipped, errorMsg, False)
        else if code = Some ''declared_tools_unavailable'' \<or> code = Some ''declared_skills_unavailable''
          then (RunFailure, errorMsg, False)
        else if code = Some ''agent_connection_lost'' then (RunFailure, errorMsg, True)
        else if code = Some run_duration_exceeded then (RunTimeout, errorMsg, False)
        else
          let transient = is_retryable e \<or> is_transient_error errorMsg in
          if has_text ''timed out'' errorMsg then (RunTimeout, errorMsg, transient)
          else (RunFailure, errorMsg, transient))"

section \<open>A task after a run\<close>

fun resolve_last_run_status :: "run_status \<Rightarrow> last_run_status" where
  "resolve_last_run_status RunSuccess = LastSuccess"
| "resolve_last_run_status RunDegraded = LastDegraded"
| "resolve_last_run_status RunTimeout = LastTimeout"
| "resolve_last_run_status RunSkipped = LastSkipped"
| "resolve_last_run_status _ = LastFailure"

definition disable :: "ms \<Rightarrow> string \<Rightarrow> task \<Rightarrow> task" where
  "disable now reason t =
     t\<lparr>t_enabled := False, t_disabledAt := Some now, t_disabledReason := Some reason\<rparr>"

definition apply_consecutive_errors :: "task \<Rightarrow> task_run \<Rightarrow> ms \<Rightarrow> task" where
  "apply_consecutive_errors t run now =
     (if r_status run = RunSuccess \<or> r_status run = RunDegraded
      then t\<lparr>t_consecutiveErrors := 0, t_transientErrors := None, t_failureNoticeRunId := None\<rparr>
      else if r_status run \<noteq> RunFailure \<and> r_status run \<noteq> RunTimeout then t
      else
        let t1 = t\<lparr>t_consecutiveErrors := t_consecutiveErrors t + 1\<rparr>;
            t2 = (if r_transient run
                  then t1\<lparr>t_transientErrors := Some (nullish (t_transientErrors t1) 0 + 1)\<rparr> else t1);
            lastError = take 200 (nullish (r_error run) ''unknown'');
            countedErrors = t_consecutiveErrors t2 - nullish (t_transientErrors t2) 0
        in if countedErrors \<ge> max_consecutive_errors then
             disable now (''Auto-disabled after '' @ show_int countedErrors @
               '' consecutive failures. Last error: '' @ lastError) t2
           else if t_consecutiveErrors t2 \<ge> max_consecutive_transient_errors then
             disable now (''Auto-disabled after '' @ show_int (t_consecutiveErrors t2) @
               '' consecutive failures that looked temporary but never cleared. Last error: '' @ lastError) t2
           else t2)"

definition apply_streak :: "task \<Rightarrow> task_run \<Rightarrow> ms \<Rightarrow> task \<times> run_failed_notice option" where
  "apply_streak t run now =
     (if truthy (r_batchId run) then (t, None)
      else
        let t1 = apply_consecutive_errors t run now;
            disabled = (t_enabled t \<and> \<not> t_enabled t1);
            first = (execution_of run = ExecFailed \<and> \<not> truthy (t_failureNoticeRunId t1));
            t2 = (if first then t1\<lparr>t_failureNoticeRunId := Some (r_id run)\<rparr> else t1)
        in (t2, if first \<or> disabled then Some \<lparr>nf_disabled = disabled\<rparr> else None))"

definition retire_once :: "task \<Rightarrow> once_outcome \<Rightarrow> ms \<Rightarrow> string \<Rightarrow> ms \<Rightarrow> task" where
  "retire_once t outcome settledAt reason now =
     t\<lparr>t_enabled := False, t_nextRunAt := None,
       t_onceDone := Some \<lparr>od_at = settledAt, od_outcome = outcome\<rparr>,
       t_disabledAt := Some now, t_disabledReason := Some reason\<rparr>"

definition schedule_at :: "task \<Rightarrow> written_time option" where
  "schedule_at t = (case t_schedule t of None \<Rightarrow> None | Some s \<Rightarrow> sched_at s)"

definition once_missed_while_down :: "task \<Rightarrow> ms \<Rightarrow> bool" where
  "once_missed_while_down t now =
     (if \<not> t_enabled t \<or> t_onceDone t \<noteq> None \<or> \<not> is_once_schedule (t_schedule t) then False
      else case schedule_at t of
             None \<Rightarrow> False
           | Some w \<Rightarrow> (case time_ms w of None \<Rightarrow> False | Some due \<Rightarrow> now - due > once_grace_ms))"

definition apply_next_run_at :: "host \<Rightarrow> task \<Rightarrow> ms \<Rightarrow> string option \<Rightarrow> task" where
  "apply_next_run_at h t now defaultTz =
     (case next_run_or_none h t now defaultTz of
        None \<Rightarrow> set_next_run_at t None
      | Some nextRun \<Rightarrow>
          if t_consecutiveErrors t > 0 then
            (let delay = backoff_delay (t_consecutiveErrors t) backoff_delays;
                 naturalDelay = nextRun - now;
                 effectiveDelay = max delay naturalDelay
             in t\<lparr>t_nextRunAt := Some (now + effectiveDelay)\<rparr>)
          else t\<lparr>t_nextRunAt := Some nextRun\<rparr>)"

section \<open>The token budget\<close>

definition budget_window :: "task \<Rightarrow> ms \<Rightarrow> task_budget_window" where
  "budget_window t now =
     (case t_budgetResetAt t of
        Some reset \<Rightarrow> if reset \<le> now then WindowElapsed else WindowCurrent
      | None \<Rightarrow>
          (case t_tokenBudget t of
             Some b \<Rightarrow> if budget_period b \<noteq> None then WindowUnseeded else WindowLifetime
           | None \<Rightarrow> WindowLifetime))"

definition roll_budget_window :: "host \<Rightarrow> task \<Rightarrow> task_run \<Rightarrow> ms \<Rightarrow> string option \<Rightarrow> task_error + task" where
  "roll_budget_window h t run now defaultTz =
     (case t_tokenBudget t of
        None \<Rightarrow> Inr t
      | Some b \<Rightarrow>
          if budget_window t now = WindowElapsed \<or> budget_window t now = WindowUnseeded then
            result_bind (compute_budget_reset_at h (budget_period b) now defaultTz)
              (\<lambda>reset. Inr (t\<lparr>t_cumulativeInputTokens := r_inputTokens run,
                              t_cumulativeOutputTokens := r_outputTokens run,
                              t_budgetResetAt := reset\<rparr>))
          else Inr t)"

definition over_cap :: "tokens \<Rightarrow> tokens option \<Rightarrow> bool" where
  "over_cap used cap = (case cap of None \<Rightarrow> False | Some c \<Rightarrow> used > c)"

definition token_budget_exceeded :: "host \<Rightarrow> task \<Rightarrow> ms \<Rightarrow> string option" where
  "token_budget_exceeded h t now =
     (case t_tokenBudget t of
        None \<Rightarrow> None
      | Some b \<Rightarrow>
          if (case t_budgetResetAt t of None \<Rightarrow> False | Some reset \<Rightarrow> reset \<le> now) then None
          else
            let said = (\<lambda>used limit which. ''Token budget exceeded: '' @ locale_number h used @ '' / '' @
                  locale_number h limit @ '' '' @ which @ '' tokens used'')
            in if over_cap (t_cumulativeInputTokens t) (maxBudgetInputTokens b)
               then Some (said (t_cumulativeInputTokens t) (nullish (maxBudgetInputTokens b) 0) ''input'')
               else if over_cap (t_cumulativeOutputTokens t) (maxBudgetOutputTokens b)
               then Some (said (t_cumulativeOutputTokens t) (nullish (maxBudgetOutputTokens b) 0) ''output'')
               else None)"

definition budget_account_prefix :: string where
  "budget_account_prefix = ''task-budget:''"

definition batch_account_prefix :: string where
  "batch_account_prefix = ''task-batch:''"

text \<open>\<open>left\<close> of \<open>budgetSpendAccounts\<close>, and the account of one cap.\<close>

definition budget_left :: "bool \<Rightarrow> tokens \<Rightarrow> tokens \<Rightarrow> tokens" where
  "budget_left fresh cap used = max 0 (cap - (if fresh then 0 else used))"

definition window_label :: "task \<Rightarrow> ms \<Rightarrow> string" where
  "window_label t now =
     (let reset = (case t_budgetResetAt t of None \<Rightarrow> ''undefined'' | Some r \<Rightarrow> to_iso r) in
      case budget_window t now of
        WindowElapsed \<Rightarrow> ''after:'' @ reset
      | WindowCurrent \<Rightarrow> ''until:'' @ reset
      | WindowUnseeded \<Rightarrow> ''unseeded''
      | WindowLifetime \<Rightarrow> ''lifetime'')"

definition budget_spend_accounts :: "task \<Rightarrow> ms \<Rightarrow> run_spend_account list" where
  "budget_spend_accounts t now =
     (case t_tokenBudget t of
        None \<Rightarrow> []
      | Some b \<Rightarrow>
          let w = budget_window t now;
              fresh = (w = WindowElapsed \<or> w = WindowUnseeded);
              base = budget_account_prefix @ nullish (t_workspaceId t) [] @ ''/'' @
                nullish (t_ownerId t) [] @ ''/'' @ t_id t @ ''@'' @ window_label t now
          in (case maxBudgetInputTokens b of
                None \<Rightarrow> []
              | Some cap \<Rightarrow>
                  [\<lparr>sa_id = base @ '':input_tokens'', sa_unit = UnitInputTokens,
                    sa_remaining = of_int (budget_left fresh cap (t_cumulativeInputTokens t))\<rparr>]) @
             (case maxBudgetOutputTokens b of
                None \<Rightarrow> []
              | Some cap \<Rightarrow>
                  [\<lparr>sa_id = base @ '':output_tokens'', sa_unit = UnitOutputTokens,
                    sa_remaining = of_int (budget_left fresh cap (t_cumulativeOutputTokens t))\<rparr>]))"

definition apply_token_budget :: "host \<Rightarrow> task \<Rightarrow> task_run \<Rightarrow> ms \<Rightarrow> string option \<Rightarrow> task_error + task" where
  "apply_token_budget h t run now defaultTz =
     (if t_tokenBudget t = None then Inr t
      else result_bind (roll_budget_window h t run now defaultTz)
        (\<lambda>t1.
          let budgetStop = (r_stopReason run = Some StopSpendLimit \<and>
                (case r_spendAccountId run of None \<Rightarrow> False | Some a \<Rightarrow> starts_with budget_account_prefix a));
              exceeded = (case token_budget_exceeded h t1 now of
                  Some s \<Rightarrow> Some s
                | None \<Rightarrow> if budgetStop then Some (nullish (r_error run) ''Token budget reached'') else None)
          in Inr (if \<not> truthy exceeded \<or> \<not> t_enabled t1 then t1
                  else disable now (nullish exceeded []) t1)))"

text \<open>The step of \<open>updateAfterRun\<close> that counts a run's tokens.\<close>

definition count_tokens :: "task \<Rightarrow> task_run \<Rightarrow> task" where
  "count_tokens t run =
     t\<lparr>t_cumulativeInputTokens := t_cumulativeInputTokens t + r_inputTokens run,
       t_cumulativeOutputTokens := t_cumulativeOutputTokens t + r_outputTokens run\<rparr>"

definition run_now_budget_refusal :: "host \<Rightarrow> task \<Rightarrow> ms \<Rightarrow> string option" where
  "run_now_budget_refusal h t now =
     (if t_enabled t then None
      else case token_budget_exceeded h t now of
             None \<Rightarrow> None
           | Some exceeded \<Rightarrow>
               (let until = (case t_budgetResetAt t of
                    Some r \<Rightarrow> ''until the budget resets at '' @ to_iso r
                  | None \<Rightarrow> ''until its token budget is raised (the budget has no reset period)'')
                in Some (exceeded @ ''. Run now is refused '' @ until @ ''.'')))"

section \<open>Records of runs\<close>

text \<open>A record with no work in it: what a run that threw, waits, or never started is written as.\<close>

definition blank_run :: "string \<Rightarrow> string \<Rightarrow> ms \<Rightarrow> run_status \<Rightarrow> task_run" where
  "blank_run i taskId startedAt status =
     \<lparr>r_id = i, r_taskId = taskId, r_startedAt = startedAt, r_completedAt = None, r_status = status,
      r_inputTokens = 0, r_outputTokens = 0, r_toolCalls = 0, r_iterations = 0, r_error = None,
      r_transient = False, r_trigger = None, r_resultPreview = None, r_stopReason = None,
      r_spendAccountId = None, r_input = None, r_idempotencyKey = None, r_outputSchemaValid = None,
      r_outputSchemaErrors = None, r_unrecoveredToolFailures = None, r_assessment = None,
      r_retryOf = None, r_batchId = None, r_batchIndex = None, r_costUsd = None\<rparr>"

text \<open>\<open>withRequest\<close>: a requested run's record carries its id and what it was asked with.\<close>

definition with_request :: "task_run \<Rightarrow> requested_run \<Rightarrow> task_run" where
  "with_request run rq =
     (let r1 = run\<lparr>r_id := rq_runId rq\<rparr>;
          r2 = (if rq_input rq = None then r1 else r1\<lparr>r_input := rq_input rq\<rparr>);
          r3 = (if rq_idempotencyKey rq = None then r2 else r2\<lparr>r_idempotencyKey := rq_idempotencyKey rq\<rparr>);
          r4 = (if rq_retryOf rq = None then r3 else r3\<lparr>r_retryOf := rq_retryOf rq\<rparr>)
      in case rq_batch rq of
           None \<Rightarrow> r4
         | Some (b, i) \<Rightarrow> r4\<lparr>r_batchId := Some b, r_batchIndex := Some i\<rparr>)"

definition maybe_with_request :: "task_run \<Rightarrow> requested_run option \<Rightarrow> task_run" where
  "maybe_with_request run rq = (case rq of None \<Rightarrow> run | Some q \<Rightarrow> with_request run q)"

text \<open>\<open>key.slice(key.lastIndexOf("/") + 1)\<close>.\<close>

definition after_last_slash :: "string \<Rightarrow> string" where
  "after_last_slash key = rev (takeWhile (\<lambda>c. c \<noteq> CHR ''/'') (rev key))"

definition not_started_id :: "ms \<Rightarrow> run_status \<Rightarrow> string" where
  "not_started_id now status =
     ''run_'' @ show_int now @ ''_'' @ (if status = RunCancelled then ''cancel'' else ''skip'')"

definition not_started_run :: "string \<Rightarrow> string \<Rightarrow> run_status \<Rightarrow> ms \<Rightarrow> requested_run option \<Rightarrow> task_run" where
  "not_started_run key reason status now rq =
     maybe_with_request
       ((blank_run (not_started_id now status) (after_last_slash key) now status)
          \<lparr>r_completedAt := Some now, r_error := Some reason\<rparr>) rq"

definition result_of_record :: "task_run \<Rightarrow> task_run_result" where
  "result_of_record run =
     \<lparr>rr_runId = r_id run, rr_taskId = r_taskId run,
      rr_completedAt = nullish (r_completedAt run) (r_startedAt run), rr_output = [],
      rr_activityLog = [], rr_outputFiles = [],
      rr_usage = \<lparr>ru_inputTokens = r_inputTokens run, ru_outputTokens = r_outputTokens run,
                  ru_iterations = r_iterations run\<rparr>,
      rr_stopReason = r_stopReason run, rr_structured = None, rr_error = r_error run,
      rr_skillsDelivered = None\<rparr>"

definition requested_input :: "requested_run option \<Rightarrow> run_input option" where
  "requested_input rq =
     (case rq of
        None \<Rightarrow> None
      | Some q \<Rightarrow>
          (let guidance = (if truthy (rq_guidance q) then rq_guidance q else None) in
           if guidance = None \<and> rq_input q = None then None
           else Some \<lparr>ri_preamble = guidance, ri_data = rq_input q\<rparr>))"

definition is_open_run :: "run_status \<Rightarrow> bool" where
  "is_open_run status \<longleftrightarrow> status = RunQueued \<or> status = RunRunning"

definition counts_as_event_fire :: "task_run \<Rightarrow> bool" where
  "counts_as_event_fire run \<longleftrightarrow> r_trigger run = Some TriggerEvent \<and> r_status run \<noteq> RunSkipped"

section \<open>Backoff\<close>

lemma backoff_delay_cases:
  "backoff_delay n backoff_delays =
     (if n \<le> 0 then 0 else if n = 1 then 30000 else if n = 2 then 60000 else if n = 3 then 300000
      else if n = 4 then 900000 else 3600000)"
proof -
  consider "n \<le> 0" | "n = 1" | "n = 2" | "n = 3" | "n = 4" | "5 \<le> n" by linarith
  then show ?thesis
  proof cases
    case 6
    then have "nat (min (n - 1) (int (length backoff_delays) - 1)) = 4"
      by (simp add: backoff_delays_def)
    then show ?thesis using 6 by (simp add: backoff_delay_def backoff_delays_def)
  qed (simp_all add: backoff_delay_def backoff_delays_def)
qed

lemma backoff_delay_bounds: "0 \<le> backoff_delay n backoff_delays" "backoff_delay n backoff_delays \<le> 3600000"
  by (simp_all add: backoff_delay_cases)

lemma backoff_delay_mono: "m \<le> n \<Longrightarrow> backoff_delay m backoff_delays \<le> backoff_delay n backoff_delays"
  by (simp add: backoff_delay_cases)

lemma apply_next_run_at_next:
  "t_nextRunAt (apply_next_run_at h t now tz) =
     map_option (\<lambda>n. if t_consecutiveErrors t > 0 then max n (now + backoff_delay (t_consecutiveErrors t) backoff_delays) else n)
       (next_run_or_none h t now tz)"
  by (auto simp: apply_next_run_at_def set_next_run_at_def Let_def max_def split: option.splits)

lemma apply_next_run_at_frame [simp]:
  "t_enabled (apply_next_run_at h t now tz) = t_enabled t"
  "t_schedule (apply_next_run_at h t now tz) = t_schedule t"
  "t_consecutiveErrors (apply_next_run_at h t now tz) = t_consecutiveErrors t"
  "t_lastRunAt (apply_next_run_at h t now tz) = t_lastRunAt t"
  by (auto simp: apply_next_run_at_def set_next_run_at_def Let_def split: option.splits)

text \<open>
  However long it has been failing, an enabled task on an interval comes due again: from at most an
  hour after its interval, or its interval where that is longer, it is due and no longer backing off.
\<close>

theorem failing_interval_task_runs_again:
  assumes "t_enabled t" "t_schedule t = Some s" "sched_type s = IntervalSchedule"
    "sched_intervalMs s = Some i" "0 < i" "t_lastRunAt t = Some ranAt" "ranAt \<le> now"
    and after: "now + max i 3600000 \<le> later"
  shows "is_due (apply_next_run_at h t now tz) later \<and> \<not> is_in_backoff (apply_next_run_at h t now tz) later"
proof -
  have "next_run_or_none h t now tz = Some (ranAt + i)"
    using assms by (simp add: next_run_or_none_def compute_next_run_at_def)
  then obtain n where n: "t_nextRunAt (apply_next_run_at h t now tz) = Some n"
    "n = (if t_consecutiveErrors t > 0 then max (ranAt + i) (now + backoff_delay (t_consecutiveErrors t) backoff_delays) else ranAt + i)"
    by (simp add: apply_next_run_at_next)
  have "n \<le> later" using n(2) after assms(7) backoff_delay_bounds(2) [of "t_consecutiveErrors t"] by (auto split: if_splits)
  then show ?thesis using n(1) assms(1-3) by (simp add: is_due_def is_in_backoff_def is_event_schedule_def)
qed

section \<open>The failing stretch\<close>

text \<open>
  What the counters stand for: of the runs since the ranAt one that finished, how many failed, and how
  many of those failed for a passing reason.
\<close>

definition clears_stretch :: "task_run \<Rightarrow> bool" where
  "clears_stretch r \<longleftrightarrow> r_status r = RunSuccess \<or> r_status r = RunDegraded"

definition fails_stretch :: "task_run \<Rightarrow> bool" where
  "fails_stretch r \<longleftrightarrow> r_status r = RunFailure \<or> r_status r = RunTimeout"

definition stretch :: "task_run list \<Rightarrow> task_run list" where
  "stretch runs = filter fails_stretch (takeWhile (\<lambda>r. \<not> clears_stretch r) (rev runs))"

definition stretch_errors :: "task_run list \<Rightarrow> int" where
  "stretch_errors runs = int (length (stretch runs))"

definition stretch_transient :: "task_run list \<Rightarrow> int" where
  "stretch_transient runs = int (length (filter r_transient (stretch runs)))"

definition stretch_disables :: "task_run list \<Rightarrow> bool" where
  "stretch_disables runs \<longleftrightarrow>
     stretch_errors runs - stretch_transient runs \<ge> max_consecutive_errors \<or>
     stretch_errors runs \<ge> max_consecutive_transient_errors"

definition streak_of_history :: "task \<Rightarrow> (task_run \<times> ms) list \<Rightarrow> task" where
  "streak_of_history t hist = fold (\<lambda>(run, now) t. apply_consecutive_errors t run now) hist t"

definition fresh_streak :: "task \<Rightarrow> task" where
  "fresh_streak t = t\<lparr>t_consecutiveErrors := 0, t_transientErrors := None\<rparr>"

lemma stretch_snoc:
  "stretch (runs @ [r]) =
     (if clears_stretch r then [] else if fails_stretch r then r # stretch runs else stretch runs)"
  by (simp add: stretch_def)

lemma apply_consecutive_errors_step:
  fixes t :: task
  assumes "t_consecutiveErrors t = stretch_errors runs" "nullish (t_transientErrors t) 0 = stretch_transient runs"
  shows "t_consecutiveErrors (apply_consecutive_errors t r now) = stretch_errors (runs @ [r])"
    and "nullish (t_transientErrors (apply_consecutive_errors t r now)) 0 = stretch_transient (runs @ [r])"
    and "t_enabled (apply_consecutive_errors t r now) \<longleftrightarrow>
      t_enabled t \<and> \<not> (fails_stretch r \<and> stretch_disables (runs @ [r]))"
  using assms
  by (auto simp: apply_consecutive_errors_def clears_stretch_def fails_stretch_def Let_def disable_def
      stretch_errors_def stretch_transient_def stretch_disables_def stretch_snoc)

lemma stretch_disables_fails:
  "stretch_disables (runs @ [r]) \<Longrightarrow> \<not> stretch_disables runs \<Longrightarrow> fails_stretch r"
  by (auto simp: stretch_disables_def stretch_errors_def stretch_transient_def stretch_snoc
      max_consecutive_errors_def max_consecutive_transient_errors_def split: if_splits)

text \<open>
  The counters refine the history: after any runs from a fresh start, the error count is how many
  of the runs since the last finished one failed, the transient count how many of those were transient,
  and the task is still enabled exactly when it was and no failing run took the stretch to either cap.
\<close>

theorem streak_refines_history:
  "t_consecutiveErrors (streak_of_history (fresh_streak t) hist) = stretch_errors (map fst hist) \<and>
   nullish (t_transientErrors (streak_of_history (fresh_streak t) hist)) 0 = stretch_transient (map fst hist) \<and>
   t_enabled (streak_of_history (fresh_streak t) hist) =
     (t_enabled t \<and> list_all (\<lambda>n. \<not> stretch_disables (take n (map fst hist))) [0..<Suc (length hist)])"
proof (induction hist rule: rev_induct)
  case Nil
  then show ?case
    by (simp add: streak_of_history_def fresh_streak_def stretch_errors_def stretch_transient_def stretch_def
        stretch_disables_def max_consecutive_errors_def max_consecutive_transient_errors_def)
next
  case (snoc x hist)
  obtain r now where x: "x = (r, now)" by (cases x)
  let ?t = "streak_of_history (fresh_streak t) hist"
  let ?runs = "map fst hist"
  have step: "streak_of_history (fresh_streak t) (hist @ [x]) = apply_consecutive_errors ?t r now"
    by (simp add: streak_of_history_def x)
  have pre: "list_all (\<lambda>n. \<not> stretch_disables (take n (map fst (hist @ [x])))) [0..<Suc (length hist)] =
      list_all (\<lambda>n. \<not> stretch_disables (take n ?runs)) [0..<Suc (length hist)]"
    by (auto simp: list_all_iff)
  have last: "list_all (\<lambda>n. \<not> stretch_disables (take n ?runs)) [0..<Suc (length hist)] \<Longrightarrow> \<not> stretch_disables ?runs"
    by (simp add: list_all_iff)
  have "list_all (\<lambda>n. \<not> stretch_disables (take n (map fst (hist @ [x])))) [0..<Suc (length (hist @ [x]))] =
      (list_all (\<lambda>n. \<not> stretch_disables (take n ?runs)) [0..<Suc (length hist)] \<and> \<not> stretch_disables (?runs @ [r]))"
    using pre by (auto simp: x)
  then show ?case
    using apply_consecutive_errors_step [of ?t ?runs r now] snoc.IH last stretch_disables_fails [of ?runs r]
    unfolding step by (simp add: x) blast
qed


section \<open>The budget's window\<close>

lemma day_after:
  fixes x :: ms
  shows "x < (x div ms_per_day + 1) * ms_per_day \<and> (x div ms_per_day + 1) * ms_per_day \<le> x + ms_per_day"
proof -
  have "x div ms_per_day * ms_per_day \<le> x" "x < x div ms_per_day * ms_per_day + ms_per_day"
    using div_mult_mod_eq [of x ms_per_day] pos_mod_sign [of ms_per_day x] pos_mod_bound [of ms_per_day x]
    by (simp_all add: ms_per_day_def del: div_mult_mod_eq)
  then show ?thesis by (simp add: algebra_simps)
qed

lemma reset_day_daily: "reset_day Daily (civil_of_day d) = d + 1"
proof -
  obtain y m dy where c: "civil_of_day d = (y, m, dy)" by (cases "civil_of_day d")
  show ?thesis using day_utc_civil [OF c] by (simp add: reset_day_def c day_utc_def)
qed

lemma reset_day_monthly:
  "d < reset_day Monthly (civil_of_day d)" "reset_day Monthly (civil_of_day d) \<le> d + 31"
  "\<exists>y m. civil_of_day (reset_day Monthly (civil_of_day d)) = (y, m, 1)"
proof -
  obtain y m dy where c: "civil_of_day d = (y, m, dy)" by (cases "civil_of_day d")
  show "d < reset_day Monthly (civil_of_day d)"
    using civil_bounds(2,3) [OF c] civil_bounds(1) [OF c] by (auto simp: reset_day_def c)
  show "reset_day Monthly (civil_of_day d) \<le> d + 31"
    using month_length [of m y] civil_bounds(1,4) [OF c] by (simp add: reset_day_def c split: if_splits)
  show "\<exists>y m. civil_of_day (reset_day Monthly (civil_of_day d)) = (y, m, 1)"
    using civil_bounds(1) [OF c] civil_first_of_month [of 1 "y + 1"] civil_first_of_month [of "m + 1" y]
    by (auto simp: reset_day_def c)
qed

definition zone_of :: "string option \<Rightarrow> string" where
  "zone_of tz = (if nullish tz [] = [] then ''UTC'' else nullish tz [])"

lemma compute_budget_reset_at_fixed:
  assumes "zone_offset h (zone_of tz) = Some (\<lambda>_. c)"
  shows "compute_budget_reset_at h (Some p) now tz =
    Inr (Some (reset_day p (civil_of_day ((now + c) div ms_per_day)) * ms_per_day - c))"
  using assms by (simp add: compute_budget_reset_at_def zone_of_def Let_def get_timezone_offset_ms_def local_date_def
      split: if_splits)

text \<open>
  In a zone whose offset never changes, a budget's boundary is a local midnight strictly ahead: within
  a day for a daily budget, and for a monthly one the first of a month no more than 31 days ahead.
\<close>

theorem budget_reset_is_next_midnight:
  assumes "zone_offset h (zone_of tz) = Some (\<lambda>_. c)"
  shows "\<exists>day. compute_budget_reset_at h (Some p) now tz = Inr (Some (day * ms_per_day - c)) \<and>
    now < day * ms_per_day - c \<and>
    (case p of Daily \<Rightarrow> day * ms_per_day - c \<le> now + ms_per_day
     | Monthly \<Rightarrow> day * ms_per_day - c \<le> now + 31 * ms_per_day \<and> (\<exists>y m. civil_of_day day = (y, m, 1)))"
proof -
  let ?d = "(now + c) div ms_per_day" and ?day = "reset_day p (civil_of_day ((now + c) div ms_per_day))"
  note b = day_after [of "now + c"]
  have up: "?d + 1 \<le> ?day" by (cases p) (use reset_day_monthly(1) [of ?d] in \<open>simp_all add: reset_day_daily\<close>)
  have "(?d + 1) * ms_per_day \<le> ?day * ms_per_day" using up by (intro mult_right_mono) (simp_all add: ms_per_day_def)
  then have now: "now < ?day * ms_per_day - c" using b by linarith
  have "case p of Daily \<Rightarrow> ?day * ms_per_day - c \<le> now + ms_per_day
     | Monthly \<Rightarrow> ?day * ms_per_day - c \<le> now + 31 * ms_per_day \<and> (\<exists>y m. civil_of_day ?day = (y, m, 1))"
  proof (cases p)
    case Daily
    then show ?thesis using b by (simp add: reset_day_daily)
  next
    case Monthly
    have "?day * ms_per_day \<le> (?d + 31) * ms_per_day"
      using reset_day_monthly(2) [of ?d] Monthly by (intro mult_right_mono) (simp_all add: ms_per_day_def)
    moreover have "(?d + 31) * ms_per_day = (?d + 1) * ms_per_day + 30 * ms_per_day" by (simp add: algebra_simps)
    ultimately show ?thesis using b reset_day_monthly(3) [of ?d] Monthly by simp
  qed
  then show ?thesis using compute_budget_reset_at_fixed [OF assms] now by blast
qed

definition demo_host :: "(ms \<Rightarrow> ms) \<Rightarrow> host" where
  "demo_host off = \<lparr>cron_next = (\<lambda>_ _ now. Some (Some (now + 60000))), cron_match = (\<lambda>_ _ _. Some True),
     zone_offset = (\<lambda>_. Some off), locale_number = show_int\<rparr>"

theorem budget_reset_is_next_midnight_witness:
  "\<exists>day. compute_budget_reset_at (demo_host (\<lambda>_. 3600000)) (Some Daily) 1000 None = Inr (Some (day * ms_per_day - 3600000)) \<and>
     1000 < day * ms_per_day - 3600000"
proof -
  have "zone_offset (demo_host (\<lambda>_. 3600000)) (zone_of None) = Some (\<lambda>_. 3600000)" by (simp add: demo_host_def)
  from budget_reset_is_next_midnight [OF this, of Daily 1000] show ?thesis by auto
qed

text \<open>
  Where a zone's clocks jump at midnight the boundary can already be past: the offset is read at the
  UTC midnight of the next date rather than at the local one. In a zone that goes from two hours ahead to
  three at its own midnight, half an hour before that midnight the next boundary comes out half an hour ago.
\<close>

theorem budget_reset_can_be_past:
  "\<exists>h now r. zone_offset h ''UTC'' = Some (\<lambda>t. if t < 79200000 then 7200000 else 10800000) \<and>
     compute_budget_reset_at h (Some Daily) now None = Inr (Some r) \<and> r < now"
proof -
  let ?off = "\<lambda>t::ms. if t < 79200000 then 7200000 else 10800000 :: ms"
  have "(77400000 + 7200000) div ms_per_day = 0" by (simp add: ms_per_day_def)
  then have "compute_budget_reset_at (demo_host ?off) (Some Daily) 77400000 None = Inr (Some 75600000)"
    using reset_day_daily [of 0]
    by (simp add: compute_budget_reset_at_def demo_host_def local_date_def get_timezone_offset_ms_def ms_per_day_def)
  moreover have "zone_offset (demo_host ?off) ''UTC'' = Some ?off" by (simp add: demo_host_def)
  ultimately show ?thesis by (intro exI [of _ "demo_host ?off"] exI [of _ 77400000] exI [of _ 75600000]) simp
qed

definition demo_task :: task where
  "demo_task = \<lparr>t_id = ''digest'', t_name = ''Digest'', t_description = None, t_prompt = ''Write it'',
     t_schedule = Some \<lparr>sched_type = IntervalSchedule, sched_expression = None, sched_timezone = None, sched_at = None,
        sched_intervalMs = Some 60000, sched_match = None, sched_debounceMs = None, sched_maxFiresPerHour = None\<rparr>,
     t_kind = None, t_onceDone = None, t_skills = None, t_allowedTools = None, t_inputSchema = None,
     t_outputSchema = None, t_criteria = None, t_confidenceThreshold = None, t_judge = None, t_onPoorResult = None,
     t_maxIterations = None, t_maxInputTokens = None, t_maxRunDurationMs = None, t_model = None,
     t_thinkingEffort = None, t_enabled = True, t_ownerId = Some ''u1'', t_workspaceId = Some ''w1'',
     t_source = SourceUser, t_createdAt = 0, t_updatedAt = 0, t_lastRunAt = Some 1000, t_lastRunStatus = None,
     t_nextRunAt = None, t_scheduledRunInFlight = None, t_runCount = 0, t_consecutiveErrors = 3,
     t_transientErrors = None, t_failureNoticeRunId = None, t_disabledAt = None, t_disabledReason = None,
     t_cumulativeInputTokens = 40, t_cumulativeOutputTokens = 5,
     t_tokenBudget = Some \<lparr>maxBudgetInputTokens = Some 100, maxBudgetOutputTokens = None, budget_period = Some Daily\<rparr>,
     t_budgetResetAt = Some 5000\<rparr>"

theorem failing_interval_task_runs_again_witness:
  "is_due (apply_next_run_at (demo_host (\<lambda>_. 0)) demo_task 2000 None) 3602000"
  using failing_interval_task_runs_again [of demo_task "the (t_schedule demo_task)" 60000 1000 2000 3602000
      "demo_host (\<lambda>_. 0)" None]
  by (simp add: demo_task_def)

section \<open>The budget\<close>

definition tokens_in :: "account_unit \<Rightarrow> task_run \<Rightarrow> tokens" where
  "tokens_in u run = (case u of UnitUsd \<Rightarrow> 0 | UnitInputTokens \<Rightarrow> r_inputTokens run | UnitOutputTokens \<Rightarrow> r_outputTokens run)"

definition within_caps :: "token_budget \<Rightarrow> tokens \<Rightarrow> tokens \<Rightarrow> bool" where
  "within_caps b i n \<longleftrightarrow> \<not> over_cap i (maxBudgetInputTokens b) \<and> \<not> over_cap n (maxBudgetOutputTokens b)"

text \<open>A budget as its tools write it: caps and counters that are not negative.\<close>

definition budget_ok :: "task \<Rightarrow> bool" where
  "budget_ok t \<longleftrightarrow>
     0 \<le> t_cumulativeInputTokens t \<and> 0 \<le> t_cumulativeOutputTokens t \<and>
     (case t_tokenBudget t of None \<Rightarrow> True
      | Some b \<Rightarrow> 0 \<le> nullish (maxBudgetInputTokens b) 0 \<and> 0 \<le> nullish (maxBudgetOutputTokens b) 0)"

lemma not_exceeded_iff:
  "t_tokenBudget t = Some b \<Longrightarrow>
   token_budget_exceeded h t now = None \<longleftrightarrow>
     (case t_budgetResetAt t of None \<Rightarrow> False | Some reset \<Rightarrow> reset \<le> now) \<or>
     within_caps b (t_cumulativeInputTokens t) (t_cumulativeOutputTokens t)"
  by (auto simp: token_budget_exceeded_def within_caps_def Let_def split: option.splits)

text \<open>A run that stays within its accounts leaves the counters it leads to within the caps.\<close>

lemma accounts_bound:
  assumes b: "t_tokenBudget t = Some b" and ok: "budget_ok t"
    and within: "list_all (\<lambda>a. of_int (tokens_in (sa_unit a) run) \<le> sa_remaining a) (budget_spend_accounts t started)"
    and start: "token_budget_exceeded h t started = None"
  shows "within_caps b (r_inputTokens run) (r_outputTokens run)"
    and "budget_window t started \<in> {WindowCurrent, WindowLifetime} \<Longrightarrow>
      within_caps b (t_cumulativeInputTokens t + r_inputTokens run) (t_cumulativeOutputTokens t + r_outputTokens run)"
proof -
  let ?fresh = "budget_window t started = WindowElapsed \<or> budget_window t started = WindowUnseeded"
  have left: "tokens_in u run \<le> budget_left ?fresh cap used"
    if "(u, cap, used) \<in> {(UnitInputTokens, the (maxBudgetInputTokens b), t_cumulativeInputTokens t),
        (UnitOutputTokens, the (maxBudgetOutputTokens b), t_cumulativeOutputTokens t)}"
      "(if u = UnitInputTokens then maxBudgetInputTokens b else maxBudgetOutputTokens b) \<noteq> None" for u cap used
    using within b that by (auto simp: budget_spend_accounts_def Let_def tokens_in_def)
  have fresh_or: "?fresh \<or> within_caps b (t_cumulativeInputTokens t) (t_cumulativeOutputTokens t)"
    using start b by (auto simp: not_exceeded_iff budget_window_def split: option.splits if_splits)
  have i: "r_inputTokens run \<le> budget_left ?fresh c (t_cumulativeInputTokens t)" if "maxBudgetInputTokens b = Some c" for c
    using left [of UnitInputTokens c "t_cumulativeInputTokens t"] that by (simp add: tokens_in_def)
  have n: "r_outputTokens run \<le> budget_left ?fresh c (t_cumulativeOutputTokens t)" if "maxBudgetOutputTokens b = Some c" for c
    using left [of UnitOutputTokens c "t_cumulativeOutputTokens t"] that by (simp add: tokens_in_def)
  show "within_caps b (r_inputTokens run) (r_outputTokens run)"
    using i n ok b fresh_or
    by (fastforce simp: within_caps_def over_cap_def budget_left_def budget_ok_def split: option.splits if_splits)
  show "within_caps b (t_cumulativeInputTokens t + r_inputTokens run) (t_cumulativeOutputTokens t + r_outputTokens run)"
    if "budget_window t started \<in> {WindowCurrent, WindowLifetime}"
    using i n ok b fresh_or that
    by (fastforce simp: within_caps_def over_cap_def budget_left_def budget_ok_def split: option.splits if_splits)
qed

lemma roll_budget_window_cases:
  assumes "t_tokenBudget t = Some b" "roll_budget_window h t run now tz = Inr t'"
  shows "t' = t \<and> budget_window t now \<in> {WindowCurrent, WindowLifetime} \<or>
    budget_window t now \<in> {WindowElapsed, WindowUnseeded} \<and>
      (\<exists>reset. t' = t\<lparr>t_cumulativeInputTokens := r_inputTokens run, t_cumulativeOutputTokens := r_outputTokens run,
         t_budgetResetAt := reset\<rparr>)"
  using assms by (cases "budget_window t now") (auto simp: roll_budget_window_def result_bind_Inr)


definition demo_run_record :: task_run where
  "demo_run_record = (blank_run ''run_1'' ''digest'' 1000 RunSuccess)\<lparr>r_inputTokens := 60, r_outputTokens := 9\<rparr>"


end
