(* ===== verification/Task_Paths.thy ===== *)
theory Task_Paths
  imports JsValues
begin

text \<open>
  Where a task's files are, \<open>src/platform/tasks/paths.ts\<close>: the ids that may become path segments, the
  path of each kind of file, and the binding read back from a path.

  A path is text with \<open>/\<close> between its segments. \<open>path.join\<close> normalises what it is given; on segments
  that are plain names, the only ones below, it is \<open>join_path\<close>. A builder that throws on a malformed
  id is \<open>None\<close> there.
\<close>

section \<open>Ids\<close>

fun split_on :: "char \<Rightarrow> string \<Rightarrow> string list" where
  "split_on sep [] = [[]]"
| "split_on sep (c # s) =
     (if c = sep then [] # split_on sep s
      else case split_on sep s of [] \<Rightarrow> [[c]] | w # ws \<Rightarrow> (c # w) # ws)"

definition lower_alnum :: "char \<Rightarrow> bool" where
  "lower_alnum c \<longleftrightarrow> is_lower_alpha c \<or> is_digit c"

definition hex_char :: "char \<Rightarrow> bool" where
  "hex_char c \<longleftrightarrow> is_digit c \<or> c \<in> set ''abcdef''"

text \<open>\<open>TASK_ID_RE\<close>: segments of lower-case letters and digits, with a hyphen between.\<close>

definition valid_task_id :: "string \<Rightarrow> bool" where
  "valid_task_id s = list_all (\<lambda>w. w \<noteq> [] \<and> list_all lower_alnum w) (split_on (CHR ''-'') s)"

definition run_id_char :: "char \<Rightarrow> bool" where
  "run_id_char c \<longleftrightarrow> is_alpha c \<or> is_digit c \<or> c = CHR ''_'' \<or> c = CHR ''-''"

definition valid_run_id :: "string \<Rightarrow> bool" where
  "valid_run_id s \<longleftrightarrow> take 4 s = ''run_'' \<and> drop 4 s \<noteq> [] \<and> list_all run_id_char (drop 4 s)"

definition valid_batch_id :: "string \<Rightarrow> bool" where
  "valid_batch_id s \<longleftrightarrow> take 6 s = ''batch_'' \<and> length (drop 6 s) = 12 \<and> list_all hex_char (drop 6 s)"

definition is_run_archive_month :: "string \<Rightarrow> bool" where
  "is_run_archive_month s \<longleftrightarrow>
     length s = 7 \<and> list_all is_digit (take 4 s) \<and> s ! 4 = CHR ''-'' \<and>
     (s ! 5 = CHR ''0'' \<and> is_digit (s ! 6) \<and> s ! 6 \<noteq> CHR ''0'' \<or>
      s ! 5 = CHR ''1'' \<and> s ! 6 \<in> set ''012'')"

definition valid_key_digest :: "string \<Rightarrow> bool" where
  "valid_key_digest s \<longleftrightarrow> length s = 64 \<and> list_all hex_char s"

section \<open>Paths\<close>

definition join_path :: "string list \<Rightarrow> string" where
  "join_path segments = join ''/'' segments"

definition checked :: "bool \<Rightarrow> 'a \<Rightarrow> 'a option" where
  "checked ok x = (if ok then Some x else None)"

definition workspace_tasks_root :: "string \<Rightarrow> string \<Rightarrow> string list" where
  "workspace_tasks_root workDir ws = [workDir, ''workspaces'', ws, ''tasks'']"

definition workspace_tasks_dir :: "string \<Rightarrow> string \<Rightarrow> string \<Rightarrow> string list" where
  "workspace_tasks_dir workDir ws owner = workspace_tasks_root workDir ws @ [owner]"

definition task_file_path :: "string \<Rightarrow> string \<Rightarrow> string \<Rightarrow> string \<Rightarrow> string list option" where
  "task_file_path workDir ws owner task =
     checked (valid_task_id task) (workspace_tasks_dir workDir ws owner @ [task @ ''.json''])"

definition task_runs_dir :: "string \<Rightarrow> string \<Rightarrow> string \<Rightarrow> string \<Rightarrow> string list option" where
  "task_runs_dir workDir ws owner task =
     checked (valid_task_id task) (workspace_tasks_dir workDir ws owner @ [''runs'', task])"

definition task_run_index_path :: "string \<Rightarrow> string \<Rightarrow> string \<Rightarrow> string \<Rightarrow> string list option" where
  "task_run_index_path workDir ws owner task =
     map_option (\<lambda>d. d @ [''index.jsonl'']) (task_runs_dir workDir ws owner task)"

definition task_run_archive_root :: "string \<Rightarrow> string \<Rightarrow> string \<Rightarrow> string \<Rightarrow> string list option" where
  "task_run_archive_root workDir ws owner task =
     map_option (\<lambda>d. d @ [''archive'']) (task_runs_dir workDir ws owner task)"

definition task_run_archive_dir :: "string \<Rightarrow> string \<Rightarrow> string \<Rightarrow> string \<Rightarrow> string \<Rightarrow> string list option" where
  "task_run_archive_dir workDir ws owner task month =
     (if is_run_archive_month month
      then map_option (\<lambda>d. d @ [month]) (task_run_archive_root workDir ws owner task) else None)"

definition task_run_segment_path :: "string \<Rightarrow> string \<Rightarrow> string \<Rightarrow> string \<Rightarrow> string \<Rightarrow> string list option" where
  "task_run_segment_path workDir ws owner task month =
     map_option (\<lambda>d. d @ [''index.jsonl'']) (task_run_archive_dir workDir ws owner task month)"

definition task_archived_run_result_path ::
  "string \<Rightarrow> string \<Rightarrow> string \<Rightarrow> string \<Rightarrow> string \<Rightarrow> string \<Rightarrow> string list option" where
  "task_archived_run_result_path workDir ws owner task month run =
     (if valid_run_id run
      then map_option (\<lambda>d. d @ [run @ ''.result.json'']) (task_run_archive_dir workDir ws owner task month)
      else None)"

definition task_run_result_path :: "string \<Rightarrow> string \<Rightarrow> string \<Rightarrow> string \<Rightarrow> string \<Rightarrow> string list option" where
  "task_run_result_path workDir ws owner task run =
     (if valid_run_id run
      then map_option (\<lambda>d. d @ [run @ ''.result.json'']) (task_runs_dir workDir ws owner task) else None)"

definition task_run_ticket_path :: "string \<Rightarrow> string \<Rightarrow> string \<Rightarrow> string \<Rightarrow> string list option" where
  "task_run_ticket_path workDir ws owner run =
     checked (valid_run_id run) (workspace_tasks_dir workDir ws owner @ [''run-tickets'', run @ ''.json''])"

definition task_idempotency_key_path ::
  "string \<Rightarrow> string \<Rightarrow> string \<Rightarrow> string \<Rightarrow> string \<Rightarrow> string list option" where
  "task_idempotency_key_path workDir ws owner task digest =
     (if valid_key_digest digest
      then map_option (\<lambda>d. d @ [''keys'', digest @ ''.json'']) (task_runs_dir workDir ws owner task) else None)"

definition task_batches_dir :: "string \<Rightarrow> string \<Rightarrow> string \<Rightarrow> string list" where
  "task_batches_dir workDir ws owner = workspace_tasks_dir workDir ws owner @ [''batches'']"

definition task_batch_path :: "string \<Rightarrow> string \<Rightarrow> string \<Rightarrow> string \<Rightarrow> string list option" where
  "task_batch_path workDir ws owner batch =
     checked (valid_batch_id batch) (task_batches_dir workDir ws owner @ [batch @ ''.json''])"

definition task_batch_items_path :: "string \<Rightarrow> string \<Rightarrow> string \<Rightarrow> string \<Rightarrow> string list option" where
  "task_batch_items_path workDir ws owner batch =
     checked (valid_batch_id batch) (task_batches_dir workDir ws owner @ [batch @ ''.items.jsonl''])"

definition task_batch_key_path :: "string \<Rightarrow> string \<Rightarrow> string \<Rightarrow> string \<Rightarrow> string list option" where
  "task_batch_key_path workDir ws owner digest =
     checked (valid_key_digest digest) (task_batches_dir workDir ws owner @ [''keys'', digest @ ''.json''])"

text \<open>\<open>segments.lastIndexOf(x)\<close>, as the segments after the last one that is \<open>x\<close>.\<close>

fun after_last :: "'a \<Rightarrow> 'a list \<Rightarrow> 'a list option" where
  "after_last x [] = None"
| "after_last x (y # ys) =
     (case after_last x ys of Some r \<Rightarrow> Some r | None \<Rightarrow> if y = x then Some ys else None)"

definition parse_task_path :: "string \<Rightarrow> (string \<times> string) option" where
  "parse_task_path path =
     (case after_last ''workspaces'' (split_on (CHR ''/'') path) of
        Some (ws # tasksSeg # owner # _) \<Rightarrow>
          if ws = [] \<or> tasksSeg \<noteq> ''tasks'' \<or> owner = [] then None else Some (ws, owner)
      | _ \<Rightarrow> None)"

section \<open>Ids hold no separator\<close>

lemma split_on_ne: "split_on sep s \<noteq> []"
  by (induction s) (auto split: list.splits)

lemma split_on_free: "sep \<notin> set s \<Longrightarrow> split_on sep s = [s]"
  by (induction s) auto

lemma split_on_append: "sep \<notin> set s \<Longrightarrow> split_on sep (s @ sep # r) = s # split_on sep r"
  by (induction s) (auto split: list.splits)

lemma split_on_join:
  "ws \<noteq> [] \<Longrightarrow> list_all (\<lambda>w. CHR ''/'' \<notin> set w) ws \<Longrightarrow> split_on (CHR ''/'') (join_path ws) = ws"
proof (induction ws)
  case (Cons w ws)
  then show ?case by (cases ws) (simp_all add: join_path_def split_on_free split_on_append)
qed simp

lemma set_split_on: "c \<in> set s \<Longrightarrow> c \<noteq> sep \<Longrightarrow> \<exists>w \<in> set (split_on sep s). c \<in> set w"
proof (induction s)
  case (Cons d s)
  then show ?case by (cases "split_on sep s") (auto simp: split_on_ne)
qed simp

lemma valid_task_id_chars: "valid_task_id s \<Longrightarrow> c \<in> set s \<Longrightarrow> lower_alnum c \<or> c = CHR ''-''"
  using set_split_on [of c s "CHR ''-''"] by (auto simp: valid_task_id_def list_all_iff)

lemma no_slash_chars [simp]:
  "\<not> lower_alnum (CHR ''/'')" "\<not> run_id_char (CHR ''/'')" "\<not> hex_char (CHR ''/'')"
  "\<not> lower_alnum (CHR ''.'')" "\<not> run_id_char (CHR ''.'')" "\<not> hex_char (CHR ''.'')"
  by (simp_all add: lower_alnum_def run_id_char_def hex_char_def is_lower_alpha_def is_alpha_def is_upper_alpha_def
      is_digit_def)

lemma valid_task_id_no_slash: "valid_task_id s \<Longrightarrow> CHR ''/'' \<notin> set s"
  using valid_task_id_chars by fastforce

lemma valid_run_id_no_slash: "valid_run_id s \<Longrightarrow> CHR ''/'' \<notin> set s"
proof
  assume v: "valid_run_id s" and c: "CHR ''/'' \<in> set s"
  have "CHR ''/'' \<in> set (take 4 s) \<or> CHR ''/'' \<in> set (drop 4 s)"
    using c by (metis UnE append_take_drop_id set_append)
  then show False using v by (auto simp: valid_run_id_def list_all_iff)
qed

lemma valid_batch_id_no_slash: "valid_batch_id s \<Longrightarrow> CHR ''/'' \<notin> set s"
proof
  assume v: "valid_batch_id s" and c: "CHR ''/'' \<in> set s"
  have "CHR ''/'' \<in> set (take 6 s) \<or> CHR ''/'' \<in> set (drop 6 s)"
    using c by (metis UnE append_take_drop_id set_append)
  then show False using v by (auto simp: valid_batch_id_def list_all_iff)
qed

lemma valid_key_digest_no_slash: "valid_key_digest s \<Longrightarrow> CHR ''/'' \<notin> set s"
  by (auto simp: valid_key_digest_def list_all_iff)

lemma archive_month_no_slash: "is_run_archive_month s \<Longrightarrow> CHR ''/'' \<notin> set s"
proof
  assume v: "is_run_archive_month s" and "CHR ''/'' \<in> set s"
  then obtain i where i: "i < length s" "s ! i = CHR ''/''" by (auto simp: in_set_conv_nth)
  have l: "length s = 7" using v by (simp add: is_run_archive_month_def)
  consider "i < 4" | "i = 4" | "i = 5" | "i = 6" using i(1) l by linarith
  then show False
  proof cases
    case 1
    then have "s ! i \<in> set (take 4 s)" using l by (auto simp: in_set_conv_nth)
    then show ?thesis using v i(2) by (auto simp: is_run_archive_month_def list_all_iff is_digit_def)
  qed (use v i(2) in \<open>auto simp: is_run_archive_month_def is_digit_def\<close>)
qed

section \<open>The layout\<close>

text \<open>What the store keeps, and the path of each.\<close>

datatype task_item =
    DefinitionItem string
  | IndexItem string
  | SegmentItem string string
  | ResultItem string string
  | ArchivedResultItem string string string
  | TicketItem string
  | KeyItem string string
  | BatchItemFile string
  | BatchItemsFile string
  | BatchKeyItem string

fun item_path :: "string \<Rightarrow> string \<Rightarrow> string \<Rightarrow> task_item \<Rightarrow> string list option" where
  "item_path dir ws owner (DefinitionItem t) = task_file_path dir ws owner t"
| "item_path dir ws owner (IndexItem t) = task_run_index_path dir ws owner t"
| "item_path dir ws owner (SegmentItem t m) = task_run_segment_path dir ws owner t m"
| "item_path dir ws owner (ResultItem t r) = task_run_result_path dir ws owner t r"
| "item_path dir ws owner (ArchivedResultItem t m r) = task_archived_run_result_path dir ws owner t m r"
| "item_path dir ws owner (TicketItem r) = task_run_ticket_path dir ws owner r"
| "item_path dir ws owner (KeyItem t d) = task_idempotency_key_path dir ws owner t d"
| "item_path dir ws owner (BatchItemFile b) = task_batch_path dir ws owner b"
| "item_path dir ws owner (BatchItemsFile b) = task_batch_items_path dir ws owner b"
| "item_path dir ws owner (BatchKeyItem d) = task_batch_key_path dir ws owner d"

text \<open>A workspace or owner id that is one path segment.\<close>

definition segment_ok :: "string \<Rightarrow> bool" where
  "segment_ok s \<longleftrightarrow> s \<noteq> [] \<and> CHR ''/'' \<notin> set s"

lemmas path_defs = task_file_path_def task_run_index_path_def task_run_segment_path_def task_run_result_path_def
  task_archived_run_result_path_def task_run_ticket_path_def task_idempotency_key_path_def task_batch_path_def
  task_batch_items_path_def task_batch_key_path_def task_run_archive_dir_def task_run_archive_root_def
  task_runs_dir_def task_batches_dir_def workspace_tasks_dir_def workspace_tasks_root_def checked_def

lemmas no_slashes = valid_task_id_no_slash valid_run_id_no_slash valid_batch_id_no_slash valid_key_digest_no_slash
  archive_month_no_slash

lemma item_path_shape:
  assumes "item_path dir ws owner x = Some p"
  obtains below where "p = dir # [''workspaces'', ws, ''tasks'', owner] @ below" "below \<noteq> []"
    "list_all (\<lambda>w. CHR ''/'' \<notin> set w) below"
  using assms by (cases x) (auto simp: path_defs no_slashes split: if_splits)

lemma join_path_Cons: "ws \<noteq> [] \<Longrightarrow> join_path (w # ws) = w @ CHR ''/'' # join_path ws"
  by (cases ws) (simp_all add: join_path_def)

lemma join_path_inject:
  assumes "join_path (dir # xs) = join_path (dir # ys)" "xs \<noteq> []" "ys \<noteq> []"
    "list_all (\<lambda>w. CHR ''/'' \<notin> set w) xs" "list_all (\<lambda>w. CHR ''/'' \<notin> set w) ys"
  shows "xs = ys"
proof -
  have "join_path xs = join_path ys" using assms(1-3) by (simp add: join_path_Cons)
  then show ?thesis using split_on_join [OF assms(2,4)] split_on_join [OF assms(3,5)] by metis
qed

lemma run_id_not_index: "valid_run_id r \<Longrightarrow> r @ ''.result.json'' \<noteq> ''index.jsonl''"
  by (cases r) (auto simp: valid_run_id_def)

lemma batch_id_files: "valid_batch_id b \<Longrightarrow> valid_batch_id c \<Longrightarrow> b @ ''.json'' \<noteq> c @ ''.items.jsonl''"
proof
  assume "valid_batch_id b" "valid_batch_id c" "b @ ''.json'' = c @ ''.items.jsonl''"
  then have "length b = 18" "length c = 18" "length (b @ ''.json'') = length (c @ ''.items.jsonl'')"
    by (auto simp: valid_batch_id_def)
  then show False by simp
qed

lemma item_path_inject:
  "item_path dir ws owner x = Some p \<Longrightarrow> item_path dir ws owner y = Some p \<Longrightarrow> x = y"
  by (cases x; cases y; clarsimp simp: path_defs run_id_not_index run_id_not_index [symmetric]
      batch_id_files batch_id_files [symmetric] split: if_splits)

text \<open>
  The path is the wall: two things the store keeps share a path only when they are the same thing of
  the same owner in the same workspace.
\<close>

theorem task_paths_disjoint:
  assumes "segment_ok ws" "segment_ok owner" "segment_ok ws'" "segment_ok owner'"
    and p: "item_path dir ws owner x = Some p" and q: "item_path dir ws' owner' y = Some q"
    and same: "join_path p = join_path q"
  shows "ws = ws' \<and> owner = owner' \<and> x = y"
proof -
  obtain tp where tp: "p = dir # [''workspaces'', ws, ''tasks'', owner] @ tp"
    "list_all (\<lambda>w. CHR ''/'' \<notin> set w) tp" using p by (rule item_path_shape)
  obtain tq where tq: "q = dir # [''workspaces'', ws', ''tasks'', owner'] @ tq"
    "list_all (\<lambda>w. CHR ''/'' \<notin> set w) tq" using q by (rule item_path_shape)
  have "[''workspaces'', ws, ''tasks'', owner] @ tp = [''workspaces'', ws', ''tasks'', owner'] @ tq"
    using same tp tq assms(1-4) unfolding tp(1) tq(1)
    by (intro join_path_inject [of dir]) (auto simp: segment_ok_def)
  then have "ws = ws' \<and> owner = owner' \<and> p = q" using tp(1) tq(1) by simp
  then show ?thesis using p q item_path_inject by blast
qed

theorem task_paths_disjoint_witness:
  "join_path (the (item_path ''d'' ''w'' ''u'' (DefinitionItem ''a''))) \<noteq>
   join_path (the (item_path ''d'' ''w'' ''v'' (DefinitionItem ''a'')))"
proof
  have v: "valid_task_id ''a''" by (simp add: valid_task_id_def lower_alnum_def is_lower_alpha_def)
  assume "join_path (the (item_path ''d'' ''w'' ''u'' (DefinitionItem ''a''))) =
    join_path (the (item_path ''d'' ''w'' ''v'' (DefinitionItem ''a'')))"
  then show False
    using task_paths_disjoint [of "''w''" "''u''" "''w''" "''v''" "''d''" "DefinitionItem ''a''" _ "DefinitionItem ''a''"] v
    by (auto simp: path_defs segment_ok_def)
qed

section \<open>Reading the binding back\<close>

lemma after_last_prefix: "after_last x ys = Some r \<Longrightarrow> after_last x (xs @ ys) = Some r"
  by (induction xs) auto

lemma after_last_none: "x \<notin> set ys \<Longrightarrow> after_last x ys = None"
  by (induction ys) auto

lemma split_on_join_dir:
  "ws \<noteq> [] \<Longrightarrow> list_all (\<lambda>w. CHR ''/'' \<notin> set w) ws \<Longrightarrow>
    \<exists>pre. split_on (CHR ''/'') (join_path (dir # ws)) = pre @ ws"
proof (induction dir)
  case Nil
  then show ?case using split_on_join [of ws] by (auto simp: join_path_Cons)
next
  case (Cons c dir)
  then obtain pre where pre: "split_on (CHR ''/'') (join_path (dir # ws)) = pre @ ws" by auto
  have j: "join_path ((c # dir) # ws) = c # join_path (dir # ws)" using Cons.prems by (simp add: join_path_Cons)
  have "CHR ''/'' \<in> set (join_path (dir # ws))" using Cons.prems by (simp add: join_path_Cons)
  show ?case
  proof (cases "c = CHR ''/''")
    case True
    then show ?thesis using pre j by auto
  next
    case False
    have "pre \<noteq> []"
    proof
      assume "pre = []"
      then have "length (split_on (CHR ''/'') (join_path (dir # ws))) = length ws" using pre by simp
      moreover have "length (split_on (CHR ''/'') (dir @ CHR ''/'' # r)) > length (split_on (CHR ''/'') r)" for r
        by (induction dir) (auto simp: split_on_ne split: list.splits)
      ultimately show False using split_on_join [OF Cons.prems] Cons.prems(1) by (metis join_path_Cons less_irrefl)
    qed
    then obtain w pre' where "pre = w # pre'" by (cases pre) auto
    then show ?thesis using pre j False by auto
  qed
qed

text \<open>
  The binding is read back from the path: any path under an owner's task directory, whatever the work
  directory is called, names that workspace and owner, unless a later segment is called \<open>workspaces\<close>.
\<close>

theorem parse_task_path_roundtrip:
  assumes "segment_ok ws" "segment_ok owner" "list_all segment_ok below" "''workspaces'' \<notin> set (ws # owner # below)"
  shows "parse_task_path (join_path (workspace_tasks_dir dir ws owner @ below)) = Some (ws, owner)"
proof -
  let ?segs = "[''workspaces'', ws, ''tasks'', owner] @ below"
  have "list_all (\<lambda>w. CHR ''/'' \<notin> set w) ?segs" using assms(1-3) by (auto simp: segment_ok_def list_all_iff)
  then obtain pre where pre: "split_on (CHR ''/'') (join_path (dir # ?segs)) = pre @ ?segs"
    using split_on_join_dir [of ?segs dir] by auto
  have "after_last ''workspaces'' ?segs = Some ([ws, ''tasks'', owner] @ below)"
    using assms(4) after_last_none [of "''workspaces''" "[ws, ''tasks'', owner] @ below"] by simp
  then have "after_last ''workspaces'' (pre @ ?segs) = Some ([ws, ''tasks'', owner] @ below)"
    by (rule after_last_prefix)
  then show ?thesis using pre assms(1,2)
    by (simp add: parse_task_path_def workspace_tasks_dir_def workspace_tasks_root_def segment_ok_def)
qed

theorem parse_task_path_roundtrip_witness:
  "parse_task_path (join_path (workspace_tasks_dir ''/data'' ''w1'' ''u1'' @ [''digest.json''])) = Some (''w1'', ''u1'')"
  by (rule parse_task_path_roundtrip) (simp_all add: segment_ok_def)

text \<open>
  A task may be called \<open>workspaces\<close>, and then the paths under its runs directory do not parse back.
\<close>

theorem parse_task_path_misses_task:
  "valid_task_id ''workspaces'' \<and>
   map_option (\<lambda>p. parse_task_path (join_path p)) (task_run_index_path ''d'' ''w1'' ''u1'' ''workspaces'') = Some None"
  by (simp add: valid_task_id_def lower_alnum_def is_lower_alpha_def path_defs parse_task_path_def join_path_def)

end
