(* ===== verification/Task_Store.thy ===== *)
theory Task_Store
  imports Task_Schedule Task_Paths
begin

text \<open>
  The task store, \<open>src/platform/tasks/store.ts\<close>: task definitions, the index of each task's runs with
  its archive by month, run results, tickets and idempotency keys.

  The directory tree is the record \<open>task_files\<close>, its files already parsed; \<open>Task_Paths\<close> shows that what
  it keeps apart has paths apart. A write goes through \<open>ensureWorkspaceDir\<close> and fails when the
  workspace's root is gone. Malformed lines and files, which the readers skip, are not in the model. A
  month (\<open>YYYY-MM\<close>) is the number of months since year 0.
\<close>

section \<open>State\<close>

type_synonym owner_ref = "string \<times> string"
type_synonym task_ref = "string \<times> string \<times> string"

record task_files =
  f_workspaces :: "string set"
  f_tasks :: "(task_ref \<times> task) list"
  f_index :: "(task_ref \<times> task_run list) list"
  f_archive :: "task_ref \<Rightarrow> (int \<times> task_run list) list"
  f_results :: "task_ref \<Rightarrow> string \<Rightarrow> task_run_result option"
  f_archived :: "task_ref \<Rightarrow> int \<Rightarrow> string \<Rightarrow> task_run_result option"
  f_tickets :: "owner_ref \<Rightarrow> string \<Rightarrow> run_ticket option"
  f_keys :: "task_ref \<Rightarrow> string \<Rightarrow> (string \<times> string) option"

definition empty_files :: "string set \<Rightarrow> task_files" where
  "empty_files wss =
     \<lparr>f_workspaces = wss, f_tasks = [], f_index = [], f_archive = (\<lambda>_. []), f_results = (\<lambda>_ _. None),
      f_archived = (\<lambda>_ _ _. None), f_tickets = (\<lambda>_ _. None), f_keys = (\<lambda>_ _. None)\<rparr>"

definition max_run_lines :: nat where
  "max_run_lines = 1000"

text \<open>What every write checks: the workspace's root, then the id that becomes a path segment.\<close>

definition guard_write :: "task_files \<Rightarrow> string \<Rightarrow> bool \<Rightarrow> task_error \<Rightarrow> task_error + task_files \<Rightarrow> task_error + task_files" where
  "guard_write f ws ok bad result =
     (if \<not> ok then Inl bad else if ws \<notin> f_workspaces f then Inl WorkspaceRootMissing else result)"

section \<open>Definitions\<close>

definition load_owner_tasks :: "task_files \<Rightarrow> string \<Rightarrow> string \<Rightarrow> (string \<times> task) list" where
  "load_owner_tasks f ws owner =
     fold (\<lambda>((w, u, i), t) m. if w = ws \<and> u = owner then jset (t_id t) t m else m) (f_tasks f) []"

definition load_task :: "task_files \<Rightarrow> string \<Rightarrow> string \<Rightarrow> string \<Rightarrow> task_error + task option" where
  "load_task f ws owner i =
     (if valid_task_id i then Inr (map_of (f_tasks f) (ws, owner, i)) else Inl InvalidTaskId)"

definition save_task :: "task_files \<Rightarrow> string \<Rightarrow> string \<Rightarrow> task \<Rightarrow> task_error + task_files" where
  "save_task f ws owner t =
     (if ws \<notin> f_workspaces f then Inl WorkspaceRootMissing
      else if \<not> valid_task_id (t_id t) then Inl InvalidTaskId
      else Inr (f\<lparr>f_tasks := jset (ws, owner, t_id t) t (f_tasks f)\<rparr>))"

definition delete_task_definition :: "task_files \<Rightarrow> string \<Rightarrow> string \<Rightarrow> string \<Rightarrow> task_error + task_files" where
  "delete_task_definition f ws owner i =
     (if valid_task_id i then Inr (f\<lparr>f_tasks := jdelete (ws, owner, i) (f_tasks f)\<rparr>) else Inl InvalidTaskId)"

definition delete_task_files :: "task_files \<Rightarrow> string \<Rightarrow> string \<Rightarrow> string \<Rightarrow> task_error + task_files" where
  "delete_task_files f ws owner i =
     result_bind (delete_task_definition f ws owner i)
       (\<lambda>g. let r = (ws, owner, i) in
          Inr (g\<lparr>f_index := jdelete r (f_index g), f_archive := (f_archive g)(r := []),
                 f_results := (f_results g)(r := (\<lambda>_. None)), f_archived := (f_archived g)(r := (\<lambda>_ _. None)),
                 f_keys := (f_keys g)(r := (\<lambda>_. None))\<rparr>))"

text \<open>The directory is the binding: a record that lacks its workspace or owner takes the path's.\<close>

definition backfill_binding :: "task \<Rightarrow> string \<Rightarrow> string \<Rightarrow> task" where
  "backfill_binding t ws owner =
     (let t1 = (if truthy (t_workspaceId t) then t else t\<lparr>t_workspaceId := Some ws\<rparr>)
      in if truthy (t_ownerId t1) then t1 else t1\<lparr>t_ownerId := Some owner\<rparr>)"

definition load_owner_tasks_resolved :: "task_files \<Rightarrow> string \<Rightarrow> string \<Rightarrow> task list" where
  "load_owner_tasks_resolved f ws owner =
     map (\<lambda>(_, t). backfill_binding t ws owner) (load_owner_tasks f ws owner)"

definition load_all_tasks :: "task_files \<Rightarrow> task list" where
  "load_all_tasks f =
     concat (map (\<lambda>(ws, owner). load_owner_tasks_resolved f ws owner)
       (remdups (map (\<lambda>((ws, owner, _), _). (ws, owner)) (f_tasks f))))"

section \<open>The run index\<close>

definition month_of :: "ms \<Rightarrow> int" where
  "month_of t = (case civil_of_day (t div ms_per_day) of (y, m, _) \<Rightarrow> 12 * y + (m - 1))"

definition month_start_ms :: "int \<Rightarrow> ms" where
  "month_start_ms k = day_utc (k div 12) (k mod 12 + 1) 1 * ms_per_day"

definition month_end_ms :: "int \<Rightarrow> ms" where
  "month_end_ms k = month_start_ms (k + 1)"

definition index_of :: "task_files \<Rightarrow> task_ref \<Rightarrow> task_run list" where
  "index_of f r = nullish (map_of (f_index f) r) []"

definition segment_of :: "task_files \<Rightarrow> task_ref \<Rightarrow> int \<Rightarrow> task_run list" where
  "segment_of f r m = nullish (map_of (f_archive f r) m) []"

text \<open>The rolled lines by month, in the order the months come up.\<close>

definition add_to_month :: "task_run \<Rightarrow> (int \<times> task_run list) list \<Rightarrow> (int \<times> task_run list) list" where
  "add_to_month run g =
     (let m = month_of (r_startedAt run) in jset m (nullish (map_of g m) [] @ [run]) g)"

definition by_month :: "task_run list \<Rightarrow> (int \<times> task_run list) list" where
  "by_month rolled = fold add_to_month rolled []"

definition archive_run_result :: "task_ref \<Rightarrow> int \<Rightarrow> string \<Rightarrow> task_files \<Rightarrow> task_files" where
  "archive_run_result r m run f =
     (if \<not> valid_run_id run then f
      else case f_results f r run of
             None \<Rightarrow> f
           | Some res \<Rightarrow>
               f\<lparr>f_results := (f_results f)(r := (f_results f r)(run := None)),
                 f_archived := (f_archived f)(r := (f_archived f r)(m := (f_archived f r m)(run \<mapsto> res)))\<rparr>)"

definition archive_group :: "task_ref \<Rightarrow> int \<times> task_run list \<Rightarrow> task_files \<Rightarrow> task_files" where
  "archive_group r g f =
     (case g of (m, runs) \<Rightarrow>
        fold (\<lambda>run. archive_run_result r m (r_id run)) runs
          (f\<lparr>f_archive := (f_archive f)(r := jset m (segment_of f r m @ runs) (f_archive f r))\<rparr>))"

definition append_run :: "task_files \<Rightarrow> task_ref \<Rightarrow> task_run \<Rightarrow> task_error + task_files" where
  "append_run f r run =
     (case r of (ws, owner, task) \<Rightarrow>
        guard_write f ws (valid_task_id task) InvalidTaskId
          (let lines = index_of f r @ [run];
               over = length lines - max_run_lines;
               rolled = take over lines;
               kept = drop over lines;
               g = fold (archive_group r) (by_month rolled) f
           in Inr (g\<lparr>f_index := jset r kept (f_index g)\<rparr>)))"

section \<open>Reading runs\<close>

record read_runs_options =
  ro_limit :: "int option"
  ro_since :: "written_time option"
  ro_status :: "run_status option"
  ro_before :: "written_time option"
  ro_excludeBatch :: bool

definition no_options :: read_runs_options where
  "no_options = \<lparr>ro_limit = None, ro_since = None, ro_status = None, ro_before = None, ro_excludeBatch = False\<rparr>"

text \<open>\<open>xs.slice(0, n)\<close>.\<close>

definition slice_to :: "int \<Rightarrow> 'a list \<Rightarrow> 'a list" where
  "slice_to n xs = take (nat (if n < 0 then int (length xs) + n else n)) xs"

definition apply_filters :: "task_run list \<Rightarrow> read_runs_options \<Rightarrow> task_run list" where
  "apply_filters runs opts =
     (let r1 = (case ro_since opts of
            Some w \<Rightarrow>
              if time_text w = [] then runs
              else filter (\<lambda>r. case time_ms w of None \<Rightarrow> False | Some s \<Rightarrow> s \<le> r_startedAt r) runs
          | None \<Rightarrow> runs);
          r2 = (case ro_status opts of Some s \<Rightarrow> filter (\<lambda>r. r_status r = s) r1 | None \<Rightarrow> r1);
          r3 = (if ro_excludeBatch opts then filter (\<lambda>r. \<not> truthy (r_batchId r)) r2 else r2)
      in case ro_limit opts of Some n \<Rightarrow> slice_to n r3 | None \<Rightarrow> r3)"

definition list_run_segment_months :: "task_files \<Rightarrow> task_ref \<Rightarrow> int list" where
  "list_run_segment_months f r = rev (sort (map fst (f_archive f r)))"

text \<open>\<open>t < sinceMs\<close> and \<open>end > sinceMs\<close>, absent being minus infinity and unreadable not a number.\<close>

definition below_since :: "ms \<Rightarrow> written_time option \<Rightarrow> bool" where
  "below_since t since =
     (case since of None \<Rightarrow> False | Some w \<Rightarrow> (case time_ms w of None \<Rightarrow> False | Some s \<Rightarrow> t < s))"

definition ends_by_since :: "ms \<Rightarrow> written_time option \<Rightarrow> bool" where
  "ends_by_since e since =
     (case since of None \<Rightarrow> False | Some w \<Rightarrow> (case time_ms w of None \<Rightarrow> False | Some s \<Rightarrow> e \<le> s))"

definition ends_after_since :: "ms \<Rightarrow> written_time option \<Rightarrow> bool" where
  "ends_after_since e since =
     (case since of None \<Rightarrow> True | Some w \<Rightarrow> (case time_ms w of None \<Rightarrow> False | Some s \<Rightarrow> s < e))"

definition wanted_run :: "read_runs_options \<Rightarrow> ms option \<Rightarrow> task_run \<Rightarrow> bool" where
  "wanted_run opts beforeMs r \<longleftrightarrow>
     (case beforeMs of None \<Rightarrow> True | Some b \<Rightarrow> r_startedAt r < b) \<and>
     \<not> below_since (r_startedAt r) (ro_since opts) \<and>
     (case ro_status opts of None \<Rightarrow> True | Some s \<Rightarrow> r_status r = s) \<and>
     \<not> (ro_excludeBatch opts \<and> truthy (r_batchId r))"

text \<open>\<open>take\<close>: the wanted runs of one file, each id once; \<open>seen\<close> is the ids of \<open>picked\<close>.\<close>

definition pick_run :: "(task_run \<Rightarrow> bool) \<Rightarrow> task_run \<Rightarrow> task_run list \<Rightarrow> task_run list" where
  "pick_run wanted r picked =
     (if \<not> wanted r \<or> r_id r \<in> r_id ` set picked then picked else picked @ [r])"

definition pick_runs :: "(task_run \<Rightarrow> bool) \<Rightarrow> task_run list \<Rightarrow> task_run list \<Rightarrow> task_run list" where
  "pick_runs wanted runs picked = fold (pick_run wanted) runs picked"

fun walk_segments ::
  "(int \<Rightarrow> task_run list) \<Rightarrow> (task_run \<Rightarrow> bool) \<Rightarrow> ms \<Rightarrow> written_time option \<Rightarrow> int \<Rightarrow> int list
    \<Rightarrow> int \<Rightarrow> task_run list \<Rightarrow> int \<times> task_run list" where
  "walk_segments read wanted beforeMs since limit [] unread picked = (unread, picked)"
| "walk_segments read wanted beforeMs since limit (m # ms) unread picked =
     (if ends_by_since (month_end_ms m) since then (0, picked)
      else if beforeMs \<le> month_start_ms m then
        walk_segments read wanted beforeMs since limit ms (unread - 1) picked
      else if limit \<le> int (length (filter (\<lambda>r. month_end_ms m \<le> r_startedAt r) picked)) then (unread, picked)
      else walk_segments read wanted beforeMs since limit ms (unread - 1) (pick_runs wanted (read m) picked))"

text \<open>The loop that keeps runs of one start time on one page.\<close>

function extend_cut :: "task_run list \<Rightarrow> nat \<Rightarrow> nat" where
  "extend_cut xs n =
     (if 0 < n \<and> n < length xs \<and> r_startedAt (xs ! n) = r_startedAt (xs ! (n - 1))
      then extend_cut xs (Suc n) else n)"
  by pat_completeness auto
termination
  by (relation "measure (\<lambda>(xs, n). length xs - n)") auto

declare extend_cut.simps [simp del]

record runs_page =
  page_runs :: "task_run list"
  page_nextBefore :: "ms option"

definition newest_first :: "task_run list \<Rightarrow> task_run list" where
  "newest_first runs = sort_key (\<lambda>r. - r_startedAt r) runs"

definition cut_page :: "task_run list \<Rightarrow> int \<Rightarrow> int \<Rightarrow> runs_page" where
  "cut_page picked limit unread =
     (let sorted_runs = newest_first picked;
          n = extend_cut sorted_runs (min (nat limit) (length sorted_runs));
          runs = take n sorted_runs
      in if (n < length sorted_runs \<or> unread > 0) \<and> runs \<noteq> []
         then \<lparr>page_runs = runs, page_nextBefore = Some (r_startedAt (last runs))\<rparr>
         else \<lparr>page_runs = runs, page_nextBefore = None\<rparr>)"

definition read_runs_page :: "task_files \<Rightarrow> task_ref \<Rightarrow> read_runs_options \<Rightarrow> task_error + runs_page" where
  "read_runs_page f r opts =
     (let limit = max 1 (nullish (ro_limit opts) 20);
          months = list_run_segment_months f r
      in case ro_before opts of
           None \<Rightarrow>
             (let picked = pick_runs (wanted_run opts None) (index_of f r) []
              in Inr (cut_page picked limit
                   (int (length (filter (\<lambda>m. ends_after_since (month_end_ms m) (ro_since opts)) months)))))
         | Some w \<Rightarrow>
             (case time_ms w of
                None \<Rightarrow> Inl InvalidBefore
              | Some b \<Rightarrow>
                  (let wanted = wanted_run opts (Some b);
                       (unread, picked) = walk_segments (segment_of f r) wanted b (ro_since opts) limit months
                         (int (length months)) (pick_runs wanted (index_of f r) [])
                   in Inr (cut_page picked limit unread))))"

definition read_runs :: "task_files \<Rightarrow> task_ref \<Rightarrow> read_runs_options \<Rightarrow> task_error + task_run list" where
  "read_runs f r opts =
     (if ro_before opts \<noteq> None then result_bind (read_runs_page f r opts) (\<lambda>p. Inr (page_runs p))
      else Inr (apply_filters (rev (index_of f r)) opts))"

fun collect_runs :: "(task_ref \<Rightarrow> task_error + task_run list) \<Rightarrow> task_ref list \<Rightarrow> task_error + task_run list" where
  "collect_runs read [] = Inr []"
| "collect_runs read (r # rs) =
     result_bind (read r) (\<lambda>xs. result_bind (collect_runs read rs) (\<lambda>ys. Inr (xs @ ys)))"

definition read_all_runs :: "task_files \<Rightarrow> string \<Rightarrow> string \<Rightarrow> read_runs_options \<Rightarrow> task_error + task_run list" where
  "read_all_runs f ws owner opts =
     (let refs = filter (\<lambda>(w, u, i). w = ws \<and> u = owner \<and> valid_task_id i) (map fst (f_index f))
      in result_bind
           (collect_runs (\<lambda>r. if ro_before opts \<noteq> None
              then result_bind (read_runs_page f r opts) (\<lambda>p. Inr (page_runs p)) else Inr (index_of f r)) refs)
           (\<lambda>runs. Inr (apply_filters (newest_first runs) opts)))"

section \<open>One run's record\<close>

definition last_run_of :: "string \<Rightarrow> task_run list \<Rightarrow> task_run option" where
  "last_run_of run xs = find (\<lambda>r. r_id r = run) (rev xs)"

text \<open>\<open>rewriteRunLine\<close>: the last line that records the run.\<close>

fun rewrite_last :: "string \<Rightarrow> (task_run \<Rightarrow> task_run) \<Rightarrow> task_run list \<Rightarrow> (task_run \<times> task_run list) option" where
  "rewrite_last run upd [] = None"
| "rewrite_last run upd (r # rs) =
     (case rewrite_last run upd rs of
        Some (u, rs') \<Rightarrow> Some (u, r # rs')
      | None \<Rightarrow> if r_id r = run then Some (upd r, upd r # rs) else None)"

definition find_run :: "task_files \<Rightarrow> task_ref \<Rightarrow> string \<Rightarrow> task_run option" where
  "find_run f r run =
     (case last_run_of run (index_of f r) of
        Some x \<Rightarrow> Some x
      | None \<Rightarrow>
          (case find (\<lambda>m. last_run_of run (segment_of f r m) \<noteq> None) (list_run_segment_months f r) of
             None \<Rightarrow> None
           | Some m \<Rightarrow> last_run_of run (segment_of f r m)))"

definition read_run_ticket :: "task_files \<Rightarrow> string \<Rightarrow> string \<Rightarrow> string \<Rightarrow> run_ticket option" where
  "read_run_ticket f ws owner run =
     (if \<not> valid_run_id run then None
      else case f_tickets f (ws, owner) run of
             None \<Rightarrow> None
           | Some t \<Rightarrow> if rt_runId t = run then Some t else None)"

definition save_run_ticket :: "task_files \<Rightarrow> string \<Rightarrow> string \<Rightarrow> run_ticket \<Rightarrow> task_error + task_files" where
  "save_run_ticket f ws owner t =
     guard_write f ws (valid_run_id (rt_runId t)) InvalidRunId
       (Inr (f\<lparr>f_tickets := (f_tickets f)((ws, owner) := (f_tickets f (ws, owner))(rt_runId t \<mapsto> t))\<rparr>))"

definition rewrite_run :: "task_files \<Rightarrow> task_ref \<Rightarrow> string \<Rightarrow> (task_run \<Rightarrow> task_run) \<Rightarrow> (task_run \<times> task_files) option" where
  "rewrite_run f r run upd =
     (case rewrite_last run upd (index_of f r) of
        Some (u, xs) \<Rightarrow> Some (u, f\<lparr>f_index := jset r xs (f_index f)\<rparr>)
      | None \<Rightarrow>
          (case find (\<lambda>m. rewrite_last run upd (segment_of f r m) \<noteq> None) (list_run_segment_months f r) of
             None \<Rightarrow> None
           | Some m \<Rightarrow>
               (case rewrite_last run upd (segment_of f r m) of
                  None \<Rightarrow> None
                | Some (u, xs) \<Rightarrow> Some (u, f\<lparr>f_archive := (f_archive f)(r := jset m xs (f_archive f r))\<rparr>))))"

definition update_run ::
  "task_files \<Rightarrow> task_ref \<Rightarrow> string \<Rightarrow> (task_run \<Rightarrow> task_run) \<Rightarrow> task_error + task_run option \<times> task_files" where
  "update_run f r run upd =
     (case (r, rewrite_run f r run upd) of
        (_, None) \<Rightarrow> Inr (None, f)
      | ((ws, owner, task), Some (u, g)) \<Rightarrow>
          (case read_run_ticket g ws owner run of
             Some t \<Rightarrow>
               if rt_taskId t = task
               then result_bind (save_run_ticket g ws owner (t\<lparr>rt_run := u\<rparr>)) (\<lambda>h. Inr (Some u, h))
               else Inr (Some u, g)
           | None \<Rightarrow> Inr (Some u, g)))"

section \<open>Results and keys\<close>

definition save_run_result :: "task_files \<Rightarrow> task_ref \<Rightarrow> task_run_result \<Rightarrow> task_error + task_files" where
  "save_run_result f r res =
     (case r of (ws, owner, task) \<Rightarrow>
        guard_write f ws (valid_task_id task) InvalidTaskId
          (if valid_run_id (rr_runId res)
           then Inr (f\<lparr>f_results := (f_results f)(r := (f_results f r)(rr_runId res \<mapsto> res))\<rparr>)
           else Inl InvalidRunId))"

definition read_run_result :: "task_files \<Rightarrow> task_ref \<Rightarrow> string \<Rightarrow> task_run_result option" where
  "read_run_result f r run =
     (if \<not> valid_run_id run then None
      else case f_results f r run of
             Some res \<Rightarrow> Some res
           | None \<Rightarrow>
               (case find (\<lambda>m. f_archived f r m run \<noteq> None) (list_run_segment_months f r) of
                  None \<Rightarrow> None
                | Some m \<Rightarrow> f_archived f r m run))"

definition save_idempotency_key ::
  "(string \<Rightarrow> string) \<Rightarrow> task_files \<Rightarrow> task_ref \<Rightarrow> string \<Rightarrow> string \<Rightarrow> task_error + task_files" where
  "save_idempotency_key digest f r key run =
     (case r of (ws, owner, task) \<Rightarrow>
        guard_write f ws (valid_task_id task) InvalidTaskId
          (Inr (f\<lparr>f_keys := (f_keys f)(r := (f_keys f r)(digest key \<mapsto> (key, run)))\<rparr>)))"

definition read_idempotency_key :: "(string \<Rightarrow> string) \<Rightarrow> task_files \<Rightarrow> task_ref \<Rightarrow> string \<Rightarrow> string option" where
  "read_idempotency_key digest f r key =
     (case f_keys f r (digest key) of
        None \<Rightarrow> None
      | Some (k, run) \<Rightarrow> if k = key then Some run else None)"

section \<open>Nothing is deleted\<close>

text \<open>Every line the task's history holds, wherever it is kept.\<close>

definition history :: "task_files \<Rightarrow> task_ref \<Rightarrow> task_run multiset" where
  "history f r = mset (index_of f r) + mset (concat (map snd (f_archive f r)))"

lemma mset_concat_jset:
  "mset (concat (map snd (jset k (nullish (map_of m k) [] @ xs) m))) = mset (concat (map snd m)) + mset xs"
  by (induction m) auto

lemma mset_by_month_fold:
  "mset (concat (map snd (fold add_to_month xs g))) = mset (concat (map snd g)) + mset xs"
  by (induction xs arbitrary: g) (simp_all add: add_to_month_def Let_def mset_concat_jset)

lemma mset_by_month: "mset (concat (map snd (by_month xs))) = mset xs"
  using mset_by_month_fold [of xs "[]"] by (simp add: by_month_def)

text \<open>An archive keeps each month once, and in it only runs that started in it.\<close>

definition archive_ok :: "(int \<times> task_run list) list \<Rightarrow> bool" where
  "archive_ok g \<longleftrightarrow> jmap_ok g \<and> list_all (\<lambda>(m, runs). list_all (\<lambda>r. month_of (r_startedAt r) = m) runs) g"

lemma archive_ok_segment:
  "archive_ok g \<Longrightarrow> r \<in> set (nullish (map_of g m) []) \<Longrightarrow> month_of (r_startedAt r) = m"
  by (cases "map_of g m") (fastforce simp: archive_ok_def list_all_iff dest: map_of_SomeD)+

lemma archive_ok_jset:
  assumes "archive_ok g" "list_all (\<lambda>r. month_of (r_startedAt r) = m) runs"
  shows "archive_ok (jset m runs g)"
proof -
  have "set (jset m runs g) \<subseteq> insert (m, runs) (set g)" by (induction m runs g rule: jset.induct) auto
  then show ?thesis using assms by (fastforce simp: archive_ok_def list_all_iff)
qed

lemma archive_ok_add: "archive_ok g \<Longrightarrow> archive_ok (add_to_month run g)"
  using archive_ok_segment [of g] by (auto simp: add_to_month_def Let_def list_all_iff intro!: archive_ok_jset)

lemma archive_ok_by_month: "archive_ok (by_month xs)"
proof -
  have "archive_ok g \<Longrightarrow> archive_ok (fold add_to_month xs g)" for g
    by (induction xs arbitrary: g) (simp_all add: archive_ok_add)
  then show ?thesis by (simp add: by_month_def archive_ok_def)
qed

lemma archive_run_result_frame [simp]:
  "f_index (archive_run_result r m run f) = f_index f"
  "f_archive (archive_run_result r m run f) = f_archive f"
  "f_tasks (archive_run_result r m run f) = f_tasks f"
  "f_workspaces (archive_run_result r m run f) = f_workspaces f"
  "f_tickets (archive_run_result r m run f) = f_tickets f"
  "f_keys (archive_run_result r m run f) = f_keys f"
  by (auto simp: archive_run_result_def split: option.splits)

lemma archive_results_frame [simp]:
  "f_index (fold (\<lambda>x. archive_run_result r m (h x)) xs f) = f_index f"
  "f_archive (fold (\<lambda>x. archive_run_result r m (h x)) xs f) = f_archive f"
  "f_tasks (fold (\<lambda>x. archive_run_result r m (h x)) xs f) = f_tasks f"
  "f_workspaces (fold (\<lambda>x. archive_run_result r m (h x)) xs f) = f_workspaces f"
  "f_tickets (fold (\<lambda>x. archive_run_result r m (h x)) xs f) = f_tickets f"
  "f_keys (fold (\<lambda>x. archive_run_result r m (h x)) xs f) = f_keys f"
  by (induction xs arbitrary: f) simp_all

lemma archive_group_frame [simp]:
  "f_index (archive_group r g f) = f_index f" "f_tasks (archive_group r g f) = f_tasks f"
  "f_workspaces (archive_group r g f) = f_workspaces f" "f_tickets (archive_group r g f) = f_tickets f"
  "f_keys (archive_group r g f) = f_keys f"
  "f_archive (archive_group r g f) =
     (f_archive f)(r := jset (fst g) (segment_of f r (fst g) @ snd g) (f_archive f r))"
  by (cases g; simp add: archive_group_def)+

lemma archive_groups_frame [simp]:
  "f_index (fold (archive_group r) gs f) = f_index f" "f_tasks (fold (archive_group r) gs f) = f_tasks f"
  "f_workspaces (fold (archive_group r) gs f) = f_workspaces f"
  "f_tickets (fold (archive_group r) gs f) = f_tickets f" "f_keys (fold (archive_group r) gs f) = f_keys f"
  by (induction gs arbitrary: f) simp_all

lemma archive_groups_history:
  "mset (concat (map snd (f_archive (fold (archive_group r) gs f) r))) =
     mset (concat (map snd (f_archive f r))) + mset (concat (map snd gs))"
  "r' \<noteq> r \<Longrightarrow> f_archive (fold (archive_group r) gs f) r' = f_archive f r'"
  by (induction gs arbitrary: f) (simp_all add: segment_of_def mset_concat_jset)

lemma archive_groups_ok:
  "archive_ok (f_archive f r) \<Longrightarrow> list_all (\<lambda>(m, runs). list_all (\<lambda>x. month_of (r_startedAt x) = m) runs) gs \<Longrightarrow>
   archive_ok (f_archive (fold (archive_group r) gs f) r)"
proof (induction gs arbitrary: f)
  case (Cons g gs)
  have "archive_ok (f_archive (archive_group r g f) r)"
    using Cons.prems archive_ok_segment [OF Cons.prems(1), of _ "fst g"]
    by (auto simp: segment_of_def list_all_iff intro!: archive_ok_jset)
  then show ?case using Cons by simp
qed simp

lemma append_run_shape:
  assumes "append_run f (ws, owner, task) run = Inr g"
  defines "lines \<equiv> index_of f (ws, owner, task) @ [run]"
  shows "g = (fold (archive_group (ws, owner, task)) (by_month (take (length lines - max_run_lines) lines)) f)
      \<lparr>f_index := jset (ws, owner, task) (drop (length lines - max_run_lines) lines) (f_index f)\<rparr>"
    and "valid_task_id task" "ws \<in> f_workspaces f"
  using assms by (auto simp: append_run_def guard_write_def Let_def split: if_splits)

lemma index_of_jset:
  "index_of (f\<lparr>f_index := jset r xs i\<rparr>) r' = (if r' = r then xs else nullish (map_of i r') [])"
  by (simp add: index_of_def)

text \<open>
  C16. The run index refines an append-only log. Appending a run adds that run to its task's history and
  changes no other task's, whatever rolls into the archive; the hot index keeps the newest thousand lines;
  and each archived run is in the month it started in.
\<close>

theorem append_run_refines_log:
  assumes "append_run f r run = Inr g" and "archive_ok (f_archive f r)"
  shows "history g = (history f)(r := add_mset run (history f r)) \<and>
    index_of g r = drop (length (index_of f r) + 1 - max_run_lines) (index_of f r @ [run]) \<and>
    archive_ok (f_archive g r)"
proof -
  obtain ws owner task where r: "r = (ws, owner, task)" by (cases r)
  define lines where "lines = index_of f r @ [run]"
  define over where "over = length lines - max_run_lines"
  have g: "g = (fold (archive_group r) (by_month (take over lines)) f)\<lparr>f_index := jset r (drop over lines) (f_index f)\<rparr>"
    using append_run_shape(1) [of f ws owner task run g] assms(1) by (simp add: r lines_def over_def)
  have i: "index_of g r = drop over lines" by (simp add: g index_of_def)
  have "history g r' = ((history f)(r := add_mset run (history f r))) r'" for r'
  proof (cases "r' = r")
    case True
    have "mset (take over lines) + mset (drop over lines) = mset lines" by (metis append_take_drop_id mset_append)
    then show ?thesis using i True
      by (simp add: history_def g archive_groups_history(1) mset_by_month lines_def ac_simps)
  next
    case False
    then show ?thesis by (simp add: history_def g archive_groups_history(2) index_of_def)
  qed
  moreover have "archive_ok (f_archive g r)"
    using archive_groups_ok [OF assms(2)] archive_ok_by_month [of "take over lines"] by (simp add: g archive_ok_def)
  ultimately show ?thesis using i by (auto simp: lines_def over_def)
qed

section \<open>Months\<close>

lemma div_mod_month: "1 \<le> m \<Longrightarrow> m \<le> 12 \<Longrightarrow> (12 * y + (m - 1)) div 12 = y \<and> (12 * y + (m - 1)) mod 12 = m - (1::int)"
  by simp

lemma day_utc_month: "1 \<le> m \<Longrightarrow> m \<le> 12 \<Longrightarrow> month_start_ms (12 * y + (m - 1)) = day_utc y m 1 * ms_per_day"
  by (simp add: month_start_ms_def div_mod_month)

lemma month_of_bounds: "month_start_ms (month_of t) \<le> t \<and> t < month_end_ms (month_of t)"
proof -
  obtain y m d where c: "civil_of_day (t div ms_per_day) = (y, m, d)" by (cases "civil_of_day (t div ms_per_day)")
  have mb: "1 \<le> m" "m \<le> 12" using civil_bounds(1) [OF c] by simp_all
  have k: "month_of t = 12 * y + (m - 1)" by (simp add: month_of_def c)
  have lo: "month_start_ms (month_of t) = day_utc y m 1 * ms_per_day" using k day_utc_month [OF mb] by simp
  have hi: "month_end_ms (month_of t) = (if m = 12 then day_utc (y + 1) 1 1 else day_utc y (m + 1) 1) * ms_per_day"
    using k day_utc_month [of "m + 1" y] day_utc_month [of 1 "y + 1"] mb by (auto simp: month_end_ms_def algebra_simps)
  have "t div ms_per_day + 1 \<le> (if m = 12 then day_utc (y + 1) 1 1 else day_utc y (m + 1) 1)"
    using civil_bounds(2,3) [OF c] mb by auto
  then have "(t div ms_per_day + 1) * ms_per_day \<le> month_end_ms (month_of t)"
    unfolding hi by (intro mult_right_mono) (simp_all add: ms_per_day_def)
  moreover have "day_utc y m 1 * ms_per_day \<le> t div ms_per_day * ms_per_day"
    using civil_bounds(4) [OF c] by (intro mult_right_mono) (simp_all add: ms_per_day_def)
  moreover have "t div ms_per_day * ms_per_day \<le> t" "t < (t div ms_per_day + 1) * ms_per_day"
    using day_after [of t] div_mult_mod_eq [of t ms_per_day] pos_mod_sign [of ms_per_day t]
    by (simp_all add: ms_per_day_def del: div_mult_mod_eq)
  ultimately show ?thesis unfolding lo by linarith
qed

lemma month_start_mono: "k \<le> l \<Longrightarrow> month_start_ms k \<le> month_start_ms l"
proof (induction l rule: int_ge_induct)
  case (step l)
  have mb: "1 \<le> l mod 12 + 1" "l mod 12 + 1 \<le> 12" using pos_mod_bound [of 12 l] by simp_all
  have l: "l = 12 * (l div 12) + ((l mod 12 + 1) - 1)" by simp
  have "month_start_ms l < month_end_ms (month_of (month_start_ms l))" using month_of_bounds by blast
  moreover have "month_of (month_start_ms l) = l"
    using civil_first_of_month [OF mb, of "l div 12"] by (simp add: month_of_def month_start_ms_def ms_per_day_def)
  ultimately show ?case using step by (simp add: month_end_ms_def)
qed simp

lemma month_of_less: "month_of s < month_of t \<Longrightarrow> s < month_start_ms (month_of t)"
  using month_of_bounds [of s] month_start_mono [of "month_of s + 1" "month_of t"] by (simp add: month_end_ms_def)

section \<open>A page of runs\<close>

lemma pick_runs_append: "pick_runs w (xs @ ys) p = pick_runs w ys (pick_runs w xs p)"
  by (simp add: pick_runs_def)

lemma pick_runs_extends: "\<exists>q. pick_runs w xs p = p @ q \<and> set q \<subseteq> {r \<in> set xs. w r}"
proof (induction xs arbitrary: p)
  case (Cons x xs)
  obtain q where "pick_runs w xs (pick_run w x p) = pick_run w x p @ q \<and> set q \<subseteq> {r \<in> set xs. w r}"
    using Cons.IH [of "pick_run w x p"] by blast
  then show ?case by (auto simp: pick_runs_def pick_run_def split: if_splits)
qed (simp add: pick_runs_def)

lemma pick_runs_unwanted: "list_all (\<lambda>r. \<not> w r) xs \<Longrightarrow> pick_runs w xs p = p"
proof -
  assume none: "list_all (\<lambda>r. \<not> w r) xs"
  obtain q where q: "pick_runs w xs p = p @ q" "set q \<subseteq> {r \<in> set xs. w r}" using pick_runs_extends by blast
  then show ?thesis using none by (cases q) (auto simp: list_all_iff)
qed

text \<open>What the walk leaves unread holds nothing that could stand on the page.\<close>

lemma walk_segments_complete:
  assumes "sorted_wrt (\<lambda>a b. a > b) ms" "\<And>m r. m \<in> set ms \<Longrightarrow> r \<in> set (read m) \<Longrightarrow> month_of (r_startedAt r) = m"
    "walk_segments read w b since limit ms (int (length ms)) picked = (u, picked')" "0 < limit"
    "\<And>r. w r \<Longrightarrow> r_startedAt r < b \<and> \<not> below_since (r_startedAt r) since"
  shows "\<exists>q. pick_runs w (concat (map read ms)) picked = picked' @ q \<and>
    (q = [] \<or> 0 < u \<and> (\<exists>e. list_all (\<lambda>r. r_startedAt r < e) q \<and>
       limit \<le> int (length (filter (\<lambda>r. e \<le> r_startedAt r) picked'))))"
  using assms(1,2,3)
proof (induction ms arbitrary: picked)
  case (Cons m ms)
  let ?rest = "concat (map read (m # ms))"
  have rest: "r_startedAt r < month_end_ms m" if "r \<in> set ?rest" for r
  proof -
    obtain k where k: "k \<in> set (m # ms)" "r \<in> set (read k)" using \<open>r \<in> set ?rest\<close> by auto
    then have "month_of (r_startedAt r) = k" "k \<le> m" using Cons.prems(1,2) by auto
    then show ?thesis using month_of_bounds [of "r_startedAt r"] month_start_mono [of "k + 1" "m + 1"]
      by (simp add: month_end_ms_def)
  qed
  have IH: "\<And>p. walk_segments read w b since limit ms (int (length ms)) p = (u, picked') \<Longrightarrow>
     \<exists>q. pick_runs w (concat (map read ms)) p = picked' @ q \<and>
      (q = [] \<or> 0 < u \<and> (\<exists>e. list_all (\<lambda>r. r_startedAt r < e) q \<and>
       limit \<le> int (length (filter (\<lambda>r. e \<le> r_startedAt r) picked'))))"
    using Cons.IH Cons.prems(1,2) by simp
  consider (old) "ends_by_since (month_end_ms m) since"
    | (future) "\<not> ends_by_since (month_end_ms m) since" "b \<le> month_start_ms m"
    | (full) "\<not> ends_by_since (month_end_ms m) since" "\<not> b \<le> month_start_ms m"
        "limit \<le> int (length (filter (\<lambda>r. month_end_ms m \<le> r_startedAt r) picked))"
    | (read) "\<not> ends_by_since (month_end_ms m) since" "\<not> b \<le> month_start_ms m"
        "\<not> limit \<le> int (length (filter (\<lambda>r. month_end_ms m \<le> r_startedAt r) picked))" by blast
  then show ?case
  proof cases
    case old
    have "list_all (\<lambda>r. \<not> w r) ?rest"
      using rest old assms(5) by (force simp: list_all_iff ends_by_since_def below_since_def split: option.splits)
    then show ?thesis using old Cons.prems(3) by (simp add: pick_runs_unwanted)
  next
    case future
    have "list_all (\<lambda>r. \<not> w r) (read m)"
      unfolding list_all_iff
    proof (intro ballI notI)
      fix r assume r: "r \<in> set (read m)" "w r"
      then have "month_of (r_startedAt r) = m" using Cons.prems(2) by simp
      then show False using r(2) future(2) assms(5) [of r] month_of_bounds [of "r_startedAt r"] by simp
    qed
    then show ?thesis using future Cons.prems(3) IH [of picked]
      by (simp add: pick_runs_append pick_runs_unwanted)
  next
    case full
    obtain q where q: "pick_runs w ?rest picked = picked @ q" "set q \<subseteq> set ?rest"
      using pick_runs_extends [of w ?rest picked] by blast
    have "list_all (\<lambda>r. r_startedAt r < month_end_ms m) q" using q(2) rest by (auto simp: list_all_iff)
    moreover have "picked' = picked" "0 < u" using full Cons.prems(3) by auto
    ultimately show ?thesis using full(3) q(1) by blast
  next
    case read
    then show ?thesis using Cons.prems(3) IH [of "pick_runs w (read m) picked"] by (simp add: pick_runs_append)
  qed
qed (simp add: pick_runs_def)

lemma newest_first_split:
  "newest_first xs = newest_first (filter (\<lambda>r. e \<le> r_startedAt r) xs) @ newest_first (filter (\<lambda>r. r_startedAt r < e) xs)"
proof -
  let ?hi = "filter (\<lambda>r. e \<le> r_startedAt r) xs" and ?lo = "filter (\<lambda>r. r_startedAt r < e) xs"
  have "sort_key (\<lambda>r. - r_startedAt r) xs = newest_first ?hi @ newest_first ?lo"
  proof (rule properties_for_sort_key)
    have "mset ?hi + mset ?lo = mset xs" by (induction xs) auto
    then show "mset (newest_first ?hi @ newest_first ?lo) = mset xs" by (simp add: newest_first_def)
  next
    fix k
    have "filter (\<lambda>x. - r_startedAt k = - r_startedAt x) (newest_first ys) = filter (\<lambda>x. - r_startedAt k = - r_startedAt x) ys" for ys
      using sort_key_stable [of "\<lambda>r. - r_startedAt r" "- r_startedAt k" ys] by (simp add: newest_first_def eq_commute)
    then show "filter (\<lambda>x. - r_startedAt k = - r_startedAt x) (newest_first ?hi @ newest_first ?lo) =
        filter (\<lambda>x. - r_startedAt k = - r_startedAt x) xs"
      by (cases "e \<le> r_startedAt k") (auto simp: intro!: filter_cong arg_cong2 [of _ _ _ _ append])
  next
    show "sorted (map (\<lambda>r. - r_startedAt r) (newest_first ?hi @ newest_first ?lo))"
      by (auto simp: newest_first_def sorted_append)
  qed
  then show ?thesis by (simp add: newest_first_def)
qed

lemma newest_first_simps [simp]:
  "length (newest_first xs) = length xs" "newest_first xs = [] \<longleftrightarrow> xs = []" "set (newest_first xs) = set xs"
  by (simp_all add: newest_first_def flip: length_0_conv)

lemma extend_cut_stop:
  "\<not> (0 < n \<and> n < length xs \<and> r_startedAt (xs ! n) = r_startedAt (xs ! (n - 1))) \<Longrightarrow> extend_cut xs n = n"
  by (subst extend_cut.simps) auto

lemma extend_cut_go:
  "0 < n \<Longrightarrow> n < length xs \<Longrightarrow> r_startedAt (xs ! n) = r_startedAt (xs ! (n - 1)) \<Longrightarrow>
     extend_cut xs n = extend_cut xs (Suc n)"
  by (subst extend_cut.simps) simp

lemma extend_cut_append:
  assumes "0 < n" "n \<le> length xs" "ys = [] \<or> r_startedAt (hd ys) \<noteq> r_startedAt (last xs)"
  shows "extend_cut (xs @ ys) n = extend_cut xs n \<and> extend_cut xs n \<le> length xs \<and> n \<le> extend_cut xs n"
  using assms
proof (induction xs n rule: extend_cut.induct)
  case (1 xs n)
  consider "n = length xs" | "n < length xs" "r_startedAt (xs ! n) = r_startedAt (xs ! (n - 1))"
    | "n < length xs" "r_startedAt (xs ! n) \<noteq> r_startedAt (xs ! (n - 1))" using "1.prems"(2) by linarith
  then show ?case
  proof cases
    case 1
    have "last xs = xs ! (n - 1)" using \<open>n = length xs\<close> "1.prems"(1) by (simp add: last_conv_nth)
    moreover have "ys \<noteq> [] \<Longrightarrow> (xs @ ys) ! n = hd ys" using \<open>n = length xs\<close> by (simp add: nth_append hd_conv_nth)
    ultimately have "extend_cut (xs @ ys) n = n" "extend_cut xs n = n"
      using \<open>n = length xs\<close> "1.prems"(1,3) by (auto intro!: extend_cut_stop simp: nth_append)
    then show ?thesis using \<open>n = length xs\<close> by simp
  next
    case 2
    have "extend_cut xs n = extend_cut xs (Suc n)" "extend_cut (xs @ ys) n = extend_cut (xs @ ys) (Suc n)"
      using 2 "1.prems"(1) by (auto intro!: extend_cut_go simp: nth_append less_imp_diff_less)
    then show ?thesis using "1.IH" "1.prems" 2 by simp
  next
    case 3
    have "extend_cut xs n = n" "extend_cut (xs @ ys) n = n"
      using 3 "1.prems"(1) by (auto intro!: extend_cut_stop simp: nth_append less_imp_diff_less)
    then show ?thesis using "1.prems" by simp
  qed
qed

lemma extend_cut_stops:
  assumes "0 < n" "n \<le> length xs"
  shows "extend_cut xs n = length xs \<or>
    r_startedAt (xs ! extend_cut xs n) \<noteq> r_startedAt (xs ! (extend_cut xs n - 1))"
  using assms
proof (induction xs n rule: extend_cut.induct)
  case (1 xs n)
  show ?case
  proof (cases "n < length xs \<and> r_startedAt (xs ! n) = r_startedAt (xs ! (n - 1))")
    case True
    then have "extend_cut xs n = extend_cut xs (Suc n)" using "1.prems" by (intro extend_cut_go) auto
    then show ?thesis using "1.IH" "1.prems" True by simp
  next
    case False
    then have "extend_cut xs n = n" by (intro extend_cut_stop) auto
    then show ?thesis using "1.prems" False by auto
  qed
qed

lemma extend_cut_zero: "extend_cut xs 0 = 0"
  by (simp add: extend_cut.simps)

lemma newest_first_sorted: "sorted_wrt (\<lambda>a b. r_startedAt b \<le> r_startedAt a) (newest_first xs)"
  by (simp add: newest_first_def flip: sorted_wrt_map [of _ "\<lambda>r. - r_startedAt r", simplified])
    (metis (mono_tags, lifting) neg_le_iff_le sorted_map sorted_sort_key sorted_wrt_mono_rel)

definition page_length :: "task_run list \<Rightarrow> int \<Rightarrow> nat" where
  "page_length picked limit =
     extend_cut (newest_first picked) (min (nat limit) (length (newest_first picked)))"

lemma page_runs_take: "page_runs (cut_page picked limit u) = take (page_length picked limit) (newest_first picked)"
  by (simp add: cut_page_def page_length_def Let_def)

lemma page_nextBefore_eq:
  "page_nextBefore (cut_page picked limit u) =
     (if (page_length picked limit < length (newest_first picked) \<or> u > 0) \<and> page_runs (cut_page picked limit u) \<noteq> []
      then Some (r_startedAt (last (page_runs (cut_page picked limit u)))) else None)"
  by (simp add: cut_page_def page_length_def Let_def)

lemma page_length_bounds:
  assumes "0 < limit"
  shows "min (nat limit) (length (newest_first picked)) \<le> page_length picked limit \<and>
    page_length picked limit \<le> length (newest_first picked)"
proof (cases "newest_first picked = []")
  case False
  then show ?thesis
    using extend_cut_append [of "min (nat limit) (length (newest_first picked))" "newest_first picked" "[]"] assms
    by (simp add: page_length_def)
qed (simp add: page_length_def extend_cut_zero)

text \<open>Runs older than a full page change nothing on it.\<close>

lemma page_of_older:
  assumes limit: "0 < limit" and q: "list_all (\<lambda>r. r_startedAt r < e) q"
    and full: "limit \<le> int (length (filter (\<lambda>r. e \<le> r_startedAt r) p))"
  shows "page_runs (cut_page (p @ q) limit u) = page_runs (cut_page p limit u')"
proof -
  let ?hi = "newest_first (filter (\<lambda>r. e \<le> r_startedAt r) p)"
  have hi: "filter (\<lambda>r. e \<le> r_startedAt r) (p @ q) = filter (\<lambda>r. e \<le> r_startedAt r) p"
    using q by (auto simp: list_all_iff filter_empty_conv)
  have len: "nat limit \<le> length ?hi" using full by (simp add: newest_first_def)
  have n: "0 < nat limit" using limit by simp
  have take: "page_runs (cut_page x limit v) = take (extend_cut ?hi (nat limit)) ?hi"
    if x: "filter (\<lambda>r. e \<le> r_startedAt r) x = filter (\<lambda>r. e \<le> r_startedAt r) p" for x v
  proof -
    let ?lo = "newest_first (filter (\<lambda>r. r_startedAt r < e) x)"
    have s: "newest_first x = ?hi @ ?lo" using newest_first_split [of x e] x by simp
    have ne: "?hi \<noteq> []" using len n by auto
    have "?lo = [] \<or> r_startedAt (hd ?lo) \<noteq> r_startedAt (last ?hi)"
    proof (cases "?lo = []")
      case False
      have "hd ?lo \<in> set ?lo" "last ?hi \<in> set ?hi" using False ne by (blast intro: hd_in_set last_in_set)+
      then have "r_startedAt (hd ?lo) < e" "e \<le> r_startedAt (last ?hi)" unfolding newest_first_simps by simp_all
      then show ?thesis by simp
    qed simp
    from extend_cut_append [OF n len this]
    show ?thesis using len by (simp add: page_runs_take page_length_def s min_def)
  qed
  show ?thesis using take [OF hi] take [of p] by simp
qed

lemma filter_below_drop:
  assumes s: "sorted_wrt (\<lambda>a b. r_startedAt b \<le> r_startedAt a) xs" and n: "0 < n" "n \<le> length xs"
    and stop: "n = length xs \<or> r_startedAt (xs ! n) \<noteq> r_startedAt (xs ! (n - 1))"
  shows "filter (\<lambda>r. r_startedAt r < r_startedAt (last (take n xs))) xs = drop n xs"
proof -
  let ?t = "r_startedAt (xs ! (n - 1))"
  have "take n xs \<noteq> []" using n by auto
  then have l: "r_startedAt (last (take n xs)) = ?t" using n by (simp add: last_conv_nth min_def)
  have hi: "\<not> r_startedAt r < ?t" if r: "r \<in> set (take n xs)" for r
  proof -
    obtain i where "i < n" "r = xs ! i" using r n by (auto simp: in_set_conv_nth)
    then show ?thesis using s n by (cases "i = n - 1") (auto simp: sorted_wrt_iff_nth_less not_less)
  qed
  have lo: "r_startedAt r < ?t" if r: "r \<in> set (drop n xs)" for r
  proof -
    obtain i where i: "n \<le> i" "i < length xs" "r = xs ! i"
      using r by (auto simp: in_set_conv_nth) (metis add.commute le_add2 less_diff_conv)
    have "n - 1 < n" "n < length xs" using n i by simp_all
    then have "r_startedAt (xs ! n) \<le> ?t" using s unfolding sorted_wrt_iff_nth_less by blast
    then have "r_startedAt (xs ! n) < ?t" using stop \<open>n < length xs\<close> by simp
    moreover have "r_startedAt r \<le> r_startedAt (xs ! n)"
      using s i by (cases "i = n") (auto simp: sorted_wrt_iff_nth_less)
    ultimately show ?thesis by simp
  qed
  have "filter (\<lambda>r. r_startedAt r < ?t) (take n xs @ drop n xs) = drop n xs"
    unfolding filter_append using hi lo filter_False [of "take n xs" "\<lambda>r. r_startedAt r < ?t"]
      filter_True [of "drop n xs" "\<lambda>r. r_startedAt r < ?t"] by simp
  then show ?thesis unfolding l append_take_drop_id .
qed

lemma segment_months:
  assumes "archive_ok (f_archive f r)" "x \<in> set (segment_of f r m)"
  shows "month_of (r_startedAt x) = m"
  using archive_ok_segment [OF assms(1)] assms(2) by (simp add: segment_of_def)

lemma months_descending:
  assumes "archive_ok (f_archive f r)"
  shows "sorted_wrt (\<lambda>a b. a > b) (list_run_segment_months f r)"
proof -
  have "sorted_wrt (<) (sort (map fst (f_archive f r)))"
    using assms by (simp add: archive_ok_def jmap_ok_def strict_sorted_iff)
  then show ?thesis by (simp add: list_run_segment_months_def sorted_wrt_rev)
qed

text \<open>
  C14. A page asked for by \<open>before\<close> is what reading the whole history would give: however many archive
  months it leaves unread, the page is the newest runs before that time with none skipped, at least a
  page's worth when there are as many, and the cursor it carries asks for exactly the runs left; without
  a cursor none are left.
\<close>

theorem runs_page_complete:
  assumes ok: "archive_ok (f_archive f r)" and before: "ro_before opts = Some w" "time_ms w = Some b"
    and all: "all = newest_first (pick_runs (wanted_run opts (Some b))
      (index_of f r @ concat (map (segment_of f r) (list_run_segment_months f r))) [])"
  shows "\<exists>page rest. read_runs_page f r opts = Inr page \<and> all = page_runs page @ rest \<and>
    min (max 1 (nullish (ro_limit opts) 20)) (int (length all)) \<le> int (length (page_runs page)) \<and>
    rest = (case page_nextBefore page of None \<Rightarrow> [] | Some nb \<Rightarrow> filter (\<lambda>x. r_startedAt x < nb) all)"
proof -
  define limit where "limit = max 1 (nullish (ro_limit opts) 20)"
  define wanted where "wanted = wanted_run opts (Some b)"
  define months where "months = list_run_segment_months f r"
  define p0 where "p0 = pick_runs wanted (index_of f r) []"
  have l0: "0 < limit" by (simp add: limit_def)
  obtain u p where walk: "walk_segments (segment_of f r) wanted b (ro_since opts) limit months (int (length months)) p0 = (u, p)"
    by fastforce
  have w: "\<And>x. wanted x \<Longrightarrow> r_startedAt x < b \<and> \<not> below_since (r_startedAt x) (ro_since opts)"
    by (simp add: wanted_def wanted_run_def)
  obtain q where q: "pick_runs wanted (concat (map (segment_of f r) months)) p0 = p @ q"
    "q = [] \<or> 0 < u \<and> (\<exists>e. list_all (\<lambda>r. r_startedAt r < e) q \<and>
       limit \<le> int (length (filter (\<lambda>r. e \<le> r_startedAt r) p)))"
    using walk_segments_complete [OF _ _ walk l0 w] months_descending [OF ok] segment_months [OF ok]
    unfolding months_def by blast
  let ?page = "cut_page p limit u"
  have page: "read_runs_page f r opts = Inr ?page"
    using before walk by (simp add: read_runs_page_def limit_def wanted_def months_def p0_def)
  have all': "all = newest_first (p @ q)" using all q(1) by (simp add: pick_runs_append p0_def wanted_def months_def)
  have same: "page_runs ?page = take (page_length (p @ q) limit) all"
    using q(2) page_of_older [OF l0, of _ q p u u] by (auto simp: page_runs_take all')
  let ?n = "page_length (p @ q) limit"
  have n: "min (nat limit) (length all) \<le> ?n" "?n \<le> length all"
    using page_length_bounds [OF l0, of "p @ q"] by (simp_all add: all')
  have lenall: "length all = length p + length q" by (simp add: all' newest_first_def)
  have rest: "drop ?n all = (case page_nextBefore ?page of None \<Rightarrow> [] | Some nb \<Rightarrow> filter (\<lambda>x. r_startedAt x < nb) all)"
  proof (cases "page_nextBefore ?page")
    case None
    have "?n = length all"
    proof (cases "q = []")
      case True
      then show ?thesis using None l0 page_length_bounds [OF l0, of p]
        by (auto simp: page_nextBefore_eq page_runs_take all' min_def split: if_splits)
    next
      case False
      then have "0 < u" "0 < length p" using q(2) l0 by (cases p; auto)+
      have "0 < min (nat limit) (length p)" using l0 \<open>0 < length p\<close> by simp
      moreover have "min (nat limit) (length p) \<le> page_length p limit"
        using page_length_bounds [OF l0, of p] by simp
      ultimately have "0 < page_length p limit" by (rule order_less_le_trans)
      then have "page_runs ?page \<noteq> []" using \<open>0 < length p\<close> by (simp add: page_runs_take)
      then show ?thesis using None \<open>0 < u\<close> by (simp add: page_nextBefore_eq)
    qed
    then show ?thesis using None by simp
  next
    case (Some nb)
    then have ne: "page_runs ?page \<noteq> []" and nb: "nb = r_startedAt (last (take ?n all))"
      by (auto simp: page_nextBefore_eq same split: if_splits)
    have n0: "0 < ?n" "all \<noteq> []" using ne same by auto
    have "?n = length all \<or> r_startedAt (all ! ?n) \<noteq> r_startedAt (all ! (?n - 1))"
      using extend_cut_stops [of "min (nat limit) (length all)" all] n0(2) l0 by (simp add: page_length_def all')
    then show ?thesis
      using filter_below_drop [OF newest_first_sorted [of "p @ q", folded all'] n0(1) n(2)] Some nb by simp
  qed
  have "int (min (nat limit) (length all)) \<le> int (length (page_runs ?page))" using n by (simp add: same)
  then have "min limit (int (length all)) \<le> int (length (page_runs ?page))" using l0 by (simp add: of_nat_min)
  moreover have "all = page_runs ?page @ drop ?n all" by (simp add: same)
  ultimately show ?thesis using page rest unfolding limit_def by blast
qed

definition demo_ref :: task_ref where
  "demo_ref = (''w1'', ''u1'', ''digest'')"

definition demo_files :: task_files where
  "demo_files = (empty_files {''w1''})\<lparr>f_index := [(demo_ref, [demo_run_record])]\<rparr>"

lemma demo_id: "valid_task_id ''digest''"
  by (simp add: valid_task_id_def lower_alnum_def is_lower_alpha_def)

theorem append_run_refines_log_witness:
  "\<exists>g. append_run demo_files demo_ref demo_run_record = Inr g \<and> index_of g demo_ref = [demo_run_record, demo_run_record]"
proof -
  have ok: "archive_ok (f_archive demo_files demo_ref)"
    by (simp add: demo_files_def empty_files_def archive_ok_def)
  have i: "index_of demo_files demo_ref = [demo_run_record]"
    by (simp add: index_of_def demo_files_def)
  obtain g where g: "append_run demo_files demo_ref demo_run_record = Inr g"
    by (simp add: append_run_def demo_ref_def guard_write_def demo_id demo_files_def empty_files_def Let_def)
  from append_run_refines_log [OF g ok] show ?thesis using g i by (simp add: max_run_lines_def)
qed

theorem runs_page_complete_witness:
  "\<exists>page rest. read_runs_page demo_files demo_ref
      (no_options\<lparr>ro_before := Some \<lparr>time_text = ''1970-01-01T00:00:02Z'', time_ms = Some 2000\<rparr>\<rparr>) = Inr page \<and>
    [demo_run_record] = page_runs page @ rest \<and> 1 \<le> length (page_runs page)"
proof -
  let ?opts = "no_options\<lparr>ro_before := Some \<lparr>time_text = ''1970-01-01T00:00:02Z'', time_ms = Some 2000\<rparr>\<rparr>"
  have ok: "archive_ok (f_archive demo_files demo_ref)"
    by (simp add: demo_files_def empty_files_def archive_ok_def)
  have m: "list_run_segment_months demo_files demo_ref = []"
    by (simp add: list_run_segment_months_def demo_files_def empty_files_def)
  have all: "[demo_run_record] = newest_first (pick_runs (wanted_run ?opts (Some 2000))
      (index_of demo_files demo_ref @ concat (map (segment_of demo_files demo_ref) (list_run_segment_months demo_files demo_ref))) [])"
    unfolding m by (simp add: index_of_def demo_files_def pick_runs_def pick_run_def wanted_run_def no_options_def
        demo_run_record_def blank_run_def below_since_def newest_first_def)
  from runs_page_complete [OF ok _ _ all] show ?thesis by (simp add: no_options_def) blast
qed

section \<open>One run's record and result\<close>

lemma find_append: "find P (xs @ ys) = (case find P xs of None \<Rightarrow> find P ys | Some x \<Rightarrow> Some x)"
  by (induction xs) auto

lemma last_run_of_Cons:
  "last_run_of run (x # xs) =
     (case last_run_of run xs of Some y \<Rightarrow> Some y | None \<Rightarrow> if r_id x = run then Some x else None)"
  by (auto simp: last_run_of_def find_append split: option.split)

lemma rewrite_last_fst: "map_option fst (rewrite_last run upd xs) = map_option upd (last_run_of run xs)"
proof (induction xs)
  case (Cons x xs)
  then show ?case by (auto simp: last_run_of_Cons split: option.splits)
qed (simp add: last_run_of_def)

lemma rewrite_last_None: "rewrite_last run upd xs = None \<longleftrightarrow> last_run_of run xs = None"
  using rewrite_last_fst [of run upd xs] by (metis map_option_is_None)

lemma rewrite_last_SomeD: "rewrite_last run upd xs = Some (u, ys) \<Longrightarrow> \<exists>x. last_run_of run xs = Some x \<and> u = upd x"
  using rewrite_last_fst [of run upd xs] by (cases "last_run_of run xs") auto

lemma last_run_of_id: "last_run_of run xs = Some x \<Longrightarrow> r_id x = run"
  by (auto simp: last_run_of_def dest: find_Some_iff [THEN iffD1])

lemma rewrite_last_last:
  "rewrite_last run upd xs = Some (u, ys) \<Longrightarrow> (\<And>x. r_id x = run \<Longrightarrow> r_id (upd x) = run) \<Longrightarrow>
     last_run_of run ys = Some u"
proof (induction xs arbitrary: ys)
  case (Cons x xs)
  show ?case
  proof (cases "rewrite_last run upd xs")
    case None
    then have "last_run_of run xs = None" by (simp add: rewrite_last_None)
    then show ?thesis using Cons.prems None by (auto simp: last_run_of_Cons split: if_splits)
  next
    case (Some p)
    then obtain v zs where p: "rewrite_last run upd xs = Some (v, zs)" by (cases p) auto
    then show ?thesis using Cons.prems Cons.IH [of zs] by (auto simp: last_run_of_Cons)
  qed
qed simp

lemma segment_of_jset:
  "segment_of (f\<lparr>f_archive := (f_archive f)(r := jset m xs (f_archive f r))\<rparr>) r k = (if k = m then xs else segment_of f r k)"
  by (simp add: segment_of_def)

lemma months_jset:
  assumes "m \<in> fst ` set (f_archive f r)"
  shows "list_run_segment_months (f\<lparr>f_archive := (f_archive f)(r := jset m xs (f_archive f r))\<rparr>) r = list_run_segment_months f r"
proof -
  have "m \<in> fst ` set g \<Longrightarrow> map fst (jset m xs g) = map fst g" for g :: "(int \<times> task_run list) list"
    by (induction g) force+
  then show ?thesis using assms by (simp add: list_run_segment_months_def)
qed

text \<open>
  A run's record is rewritten wherever it is: with an update that keeps the run's id, what is
  returned is the update of the record \<open>findRun\<close> finds, \<open>findRun\<close> then finds that, and nothing is
  returned exactly when the run has no record.
\<close>

theorem update_run_updates_found:
  assumes upd: "\<And>x. r_id x = run \<Longrightarrow> r_id (upd x) = run"
    and res: "update_run f r run upd = Inr (out, g)"
  shows "out = map_option upd (find_run f r run) \<and> (out = None \<or> find_run g r run = out)"
proof (cases "rewrite_run f r run upd")
  case None
  then have "find_run f r run = None"
    by (auto simp: rewrite_run_def find_run_def rewrite_last_None find_None_iff dest: find_Some_iff [THEN iffD1]
        split: option.splits)
  then show ?thesis using None res by (cases r) (simp add: update_run_def)
next
  case (Some p)
  then obtain u h where h: "rewrite_run f r run upd = Some (u, h)" by (cases p) auto
  have g: "out = Some u" "f_index g = f_index h" "f_archive g = f_archive h"
    using res h by (cases r; auto simp: update_run_def save_run_ticket_def guard_write_def result_bind_Inr
        split: option.splits if_splits)+
  have same: "find_run g r run = find_run h r run"
    using g(2,3) by (simp add: find_run_def index_of_def segment_of_def list_run_segment_months_def cong: option.case_cong)
  have "u = upd (the (find_run f r run)) \<and> find_run f r run \<noteq> None \<and> find_run h r run = Some u"
  proof (cases "rewrite_last run upd (index_of f r)")
    case None
    then have i: "last_run_of run (index_of f r) = None" by (simp add: rewrite_last_None)
    obtain m where m: "find (\<lambda>m. rewrite_last run upd (segment_of f r m) \<noteq> None) (list_run_segment_months f r) = Some m"
      using h None by (auto simp: rewrite_run_def split: option.splits)
    obtain v xs where x: "rewrite_last run upd (segment_of f r m) = Some (v, xs)"
      using m by (auto dest: find_Some_iff [THEN iffD1])
    then have uh: "u = v" "h = f\<lparr>f_archive := (f_archive f)(r := jset m xs (f_archive f r))\<rparr>"
      using h None m by (auto simp: rewrite_run_def)
    have mm: "find (\<lambda>m. last_run_of run (segment_of f r m) \<noteq> None) (list_run_segment_months f r) = Some m"
      using m by (simp add: rewrite_last_None)
    have "m \<in> set (list_run_segment_months f r)" using m by (auto simp: find_Some_iff)
    then have months: "list_run_segment_months h r = list_run_segment_months f r"
      unfolding uh(2) by (intro months_jset) (simp add: list_run_segment_months_def)
    have lx: "last_run_of run xs = Some u" using rewrite_last_last [OF x upd] uh(1) by simp
    have "find (\<lambda>k. last_run_of run (segment_of h r k) \<noteq> None) (list_run_segment_months f r) = Some m"
    proof -
      have "(last_run_of run (segment_of h r k) \<noteq> None) = (last_run_of run (segment_of f r k) \<noteq> None)" for k
        using lx x rewrite_last_None [of run upd "segment_of f r m"] unfolding uh(2) segment_of_jset by auto
      then show ?thesis using mm by simp
    qed
    then have "find_run h r run = Some u"
      using i months lx by (simp add: find_run_def uh(2) segment_of_jset index_of_def)
    moreover have "find_run f r run = last_run_of run (segment_of f r m)" using i mm by (simp add: find_run_def)
    moreover obtain y where "last_run_of run (segment_of f r m) = Some y" "u = upd y"
      using rewrite_last_SomeD [OF x] uh(1) by blast
    ultimately show ?thesis by simp
  next
    case (Some q)
    then obtain v xs where x: "rewrite_last run upd (index_of f r) = Some (v, xs)" by (cases q) auto
    then have uh: "u = v" "h = f\<lparr>f_index := jset r xs (f_index f)\<rparr>" using h by (auto simp: rewrite_run_def)
    have lx: "last_run_of run xs = Some u" using rewrite_last_last [OF x upd] uh(1) by simp
    obtain y where "last_run_of run (index_of f r) = Some y" "u = upd y"
      using rewrite_last_SomeD [OF x] uh(1) by blast
    then show ?thesis using lx by (simp add: find_run_def uh(2) index_of_jset)
  qed
  then show ?thesis using g(1) same by auto
qed

theorem update_run_updates_found_witness:
  "\<exists>g. update_run demo_files demo_ref ''run_1'' (\<lambda>x. x\<lparr>r_costUsd := Some 1\<rparr>) = Inr (Some (demo_run_record\<lparr>r_costUsd := Some 1\<rparr>), g)"
proof -
  have i: "index_of demo_files demo_ref = [demo_run_record]" by (simp add: index_of_def demo_files_def)
  have d: "r_id demo_run_record = ''run_1''" by (simp add: demo_run_record_def blank_run_def)
  have find: "find_run demo_files demo_ref ''run_1'' = Some demo_run_record"
    by (simp add: find_run_def last_run_of_def i d)
  have rw: "rewrite_run demo_files demo_ref ''run_1'' (\<lambda>x. x\<lparr>r_costUsd := Some 1\<rparr>) =
      Some (demo_run_record\<lparr>r_costUsd := Some 1\<rparr>, demo_files\<lparr>f_index :=
        jset demo_ref [demo_run_record\<lparr>r_costUsd := Some 1\<rparr>] (f_index demo_files)\<rparr>)"
    by (simp add: rewrite_run_def i d)
  have vr: "valid_run_id ''run_1''" by (simp add: valid_run_id_def run_id_char_def is_digit_def)
  have nt: "f_tickets demo_files = (\<lambda>_ _. None)" by (simp add: demo_files_def empty_files_def)
  obtain out g where g: "update_run demo_files demo_ref ''run_1'' (\<lambda>x. x\<lparr>r_costUsd := Some 1\<rparr>) = Inr (out, g)"
    by (simp add: update_run_def rw [unfolded demo_ref_def] read_run_ticket_def demo_ref_def nt vr)
  have "out = map_option (\<lambda>x. x\<lparr>r_costUsd := Some 1\<rparr>) (find_run demo_files demo_ref ''run_1'')"
    using update_run_updates_found [OF _ g] by simp
  then show ?thesis using g find by auto
qed
end
