(* ===== verification/Scheduler.thy ===== *)
theory Scheduler
  imports Admission Task_Store
begin

text \<open>
  The scheduler class of \<open>src/platform/tasks/scheduler.ts\<close>: which tasks a tick dispatches, Run now, batch
  and event runs, the queue they wait in, what a run's end writes, and recovery after a stop.

  The scheduler's state extends the admission pool it admits runs through (\<open>Admission\<close>), so the pool's
  callbacks, which run synchronously, change both. Other sources share the pool; a waiter of theirs is
  \<open>OtherRun\<close>, and its callbacks leave this state alone.

  A method is one step up to its first \<open>await\<close>. A dispatched run is a \<open>flight\<close> from the call of the
  executor until \<open>finish_flight\<close>, which is given what the executor settled with; an assessment in
  progress waits in \<open>pendingAssessments\<close> for \<open>settle_assessment\<close>. A method that can throw is an
  \<open>action\<close>: what it did before it threw stays done. Log lines are not modelled.
\<close>

section \<open>State\<close>

record queued_run =
  q_key :: string
  q_runKey :: "string option"
  q_batch :: bool
  q_trigger :: run_trigger
  q_input :: "run_input option"
  q_requested :: "requested_run option"

datatype sched_waiter = OwnRun queued_run | OtherRun

datatype dispatch_settles = SettlesRecorded | SettlesAssessed

record active_run =
  ar_startedAt :: ms
  ar_trigger :: run_trigger
  ar_runId :: string
  ar_dispatch :: nat

text \<open>Why a dispatched run never reached its executor.\<close>

datatype early_end = TicketUnwritten task_error | MarkUnwritten task_error

record flight =
  fl_dispatch :: nat
  fl_key :: string
  fl_task :: task
  fl_runId :: string
  fl_startedAt :: ms
  fl_trigger :: run_trigger
  fl_input :: "run_input option"
  fl_lease :: admission_lease
  fl_firedOnceAt :: "string option"
  fl_requested :: "requested_run option"
  fl_batch :: bool
  fl_settles :: dispatch_settles
  fl_fromQueue :: bool
  fl_aborted :: bool
  fl_early :: "early_end option"

record pending_assessment =
  pa_task :: task
  pa_run :: task_run
  pa_requested :: "requested_run option"
  pa_settles :: dispatch_settles
  pa_fromQueue :: bool

text \<open>What the scheduler tells the outside, in order.\<close>

datatype sched_notice =
    RunRecorded string
  | PoorResultNotice task task_run
  | RunFailed task task_run run_failed_notice
  | BatchRunStarted string
  | QueuedOutcome task_run bool
  | QueuedRejected string task_error

record sched = "sched_waiter pool" +
  files :: task_files
  definitions :: "(string \<times> task) list"
  activeRuns :: "(string \<times> active_run) list"
  openRuns :: "(string \<times> string) list"
  scheduledInFlight :: "string set"
  timer :: "ms option"
  running :: bool
  pendingAssessments :: "(string \<times> pending_assessment) list"
  flights :: "flight list"
  ticks :: "nat list list"
  dispatches :: nat
  minted :: nat
  notices :: "sched_notice list"

record sched_config =
  sc_host :: host
  sc_tz :: "string option"
  sc_assess :: bool
  sc_mint :: "nat \<Rightarrow> string"
  sc_digest :: "string \<Rightarrow> string"
  sc_thrown :: "task_error \<Rightarrow> thrown_error"

section \<open>Actions\<close>

type_synonym 'a action = "sched \<Rightarrow> (task_error + 'a) \<times> sched"

definition done_with :: "'a \<Rightarrow> 'a action" where
  "done_with x s = (Inr x, s)"

definition throws :: "task_error \<Rightarrow> 'a action" where
  "throws e s = (Inl e, s)"

definition after :: "'a action \<Rightarrow> ('a \<Rightarrow> 'b action) \<Rightarrow> 'b action" where
  "after m k s = (case m s of (Inl e, s') \<Rightarrow> (Inl e, s') | (Inr x, s') \<Rightarrow> k x s')"

definition catching :: "'a action \<Rightarrow> (task_error \<Rightarrow> 'a action) \<Rightarrow> 'a action" where
  "catching m h s = (case m s of (Inl e, s') \<Rightarrow> h e s' | (Inr x, s') \<Rightarrow> (Inr x, s'))"

definition change :: "(sched \<Rightarrow> sched) \<Rightarrow> unit action" where
  "change g s = (Inr (), g s)"

definition writing :: "(task_files \<Rightarrow> task_error + task_files) \<Rightarrow> unit action" where
  "writing w s = (case w (files s) of Inl e \<Rightarrow> (Inl e, s) | Inr f \<Rightarrow> (Inr (), s\<lparr>files := f\<rparr>))"

definition lifted :: "(sched \<Rightarrow> task_error + 'a) \<Rightarrow> 'a action" where
  "lifted r s = (r s, s)"

fun each :: "('a \<Rightarrow> unit action) \<Rightarrow> 'a list \<Rightarrow> unit action" where
  "each f [] = done_with ()"
| "each f (x # xs) = after (f x) (\<lambda>_. each f xs)"

definition notify :: "sched_notice \<Rightarrow> sched \<Rightarrow> sched" where
  "notify n s = s\<lparr>notices := notices s @ [n]\<rparr>"

section \<open>Keys\<close>

definition key_of :: "task \<Rightarrow> string" where
  "key_of t = nullish (t_workspaceId t) [] @ ''/'' @ nullish (t_ownerId t) [] @ ''/'' @ t_id t"

definition key_for :: "string \<Rightarrow> string \<Rightarrow> string \<Rightarrow> string" where
  "key_for ws owner taskId = ws @ ''/'' @ owner @ ''/'' @ taskId"

definition admission_of :: "string \<Rightarrow> admission_request" where
  "admission_of key =
     \<lparr>workspaceId = takeWhile (\<lambda>c. c \<noteq> CHR ''/'') key, akey = Some (admission_key_prefix @ key)\<rparr>"

definition is_own_key :: "string option \<Rightarrow> bool" where
  "is_own_key k = (case k of None \<Rightarrow> False | Some s \<Rightarrow> starts_with admission_key_prefix s)"

text \<open>The task's place in the store, when it names both its workspace and its owner.\<close>

definition place_of :: "task \<Rightarrow> (string \<times> string) option" where
  "place_of t =
     (if truthy (t_workspaceId t) \<and> truthy (t_ownerId t)
      then Some (nullish (t_workspaceId t) [], nullish (t_ownerId t) []) else None)"

definition set_definition :: "task \<Rightarrow> sched \<Rightarrow> sched" where
  "set_definition t s = s\<lparr>definitions := jset (key_of t) t (definitions s)\<rparr>"

definition load_all :: "task_files \<Rightarrow> (string \<times> task) list" where
  "load_all f = fold (\<lambda>t m. jset (key_of t) t m) (load_all_tasks f) []"

definition persist_task :: "task \<Rightarrow> unit action" where
  "persist_task t =
     (case place_of t of None \<Rightarrow> done_with () | Some (ws, owner) \<Rightarrow> writing (\<lambda>f. save_task f ws owner t))"

definition run_recorded :: "task \<Rightarrow> unit action" where
  "run_recorded t =
     (case place_of t of None \<Rightarrow> done_with () | Some (ws, owner) \<Rightarrow> change (notify (RunRecorded owner)))"

section \<open>What a run's end writes\<close>

definition bind_to :: "task \<Rightarrow> string \<Rightarrow> string \<Rightarrow> task" where
  "bind_to t ws owner = t\<lparr>t_workspaceId := Some ws, t_ownerId := Some owner\<rparr>"

definition written_at :: "task \<Rightarrow> string option" where
  "written_at t = map_option time_text (schedule_at t)"

text \<open>\<open>updateAfterRun\<close>'s changes to the stored task, and the notice the run raises.\<close>

definition task_after_run ::
  "sched_config \<Rightarrow> ms \<Rightarrow> task \<Rightarrow> task_run \<Rightarrow> run_trigger option \<Rightarrow> string option \<Rightarrow> string
    \<Rightarrow> task_error + task \<times> run_failed_notice option" where
  "task_after_run cfg now stored run trigger firedOnceAt dispatchRunId =
     (let t1 = (if map_option sf_runId (t_scheduledRunInFlight stored) = Some dispatchRunId
                then stored\<lparr>t_scheduledRunInFlight := None\<rparr> else stored);
          t2 = t1\<lparr>t_lastRunAt := Some (nullish (r_completedAt run) (r_startedAt run)),
                  t_lastRunStatus := Some (resolve_last_run_status (r_status run)),
                  t_runCount := t_runCount t1 + 1\<rparr>;
          t3 = count_tokens t2 run;
          (t4, notice) = apply_streak t3 run now;
          t5 = (if \<not> is_once_schedule (t_schedule t4) then apply_next_run_at (sc_host cfg) t4 now (sc_tz cfg)
                else if (case trigger of Some g \<Rightarrow> Some g | None \<Rightarrow> r_trigger run) = Some TriggerScheduled
                        \<and> written_at t4 = firedOnceAt
                then retire_once t4 OnceRan (r_startedAt run) (once_ran_reason @ to_iso (r_startedAt run)) now
                else t4);
          t6 = t5\<lparr>t_updatedAt := now\<rparr>
      in result_bind (apply_token_budget (sc_host cfg) t6 run now (sc_tz cfg)) (\<lambda>t. Inr (t, notice)))"

definition update_after_run ::
  "sched_config \<Rightarrow> ms \<Rightarrow> task \<Rightarrow> task_run \<Rightarrow> run_trigger option \<Rightarrow> string option \<Rightarrow> string option
    \<Rightarrow> bool \<Rightarrow> task_run_result option \<Rightarrow> unit action" where
  "update_after_run cfg now t run trigger firedOnceAt dispatchRunId appendRecord result =
     (case place_of t of
        None \<Rightarrow> done_with ()
      | Some (ws, owner) \<Rightarrow>
          after (lifted (\<lambda>s. load_task (files s) ws owner (t_id t)))
            (\<lambda>stored. case stored of
               None \<Rightarrow> done_with ()
             | Some found \<Rightarrow>
                 after (lifted (\<lambda>_. task_after_run cfg now (bind_to found ws owner) run trigger
                     (case firedOnceAt of Some a \<Rightarrow> Some a | None \<Rightarrow> written_at t)
                     (nullish dispatchRunId (r_id run))))
                   (\<lambda>(auto', notice).
                     after (if appendRecord
                            then after (writing (\<lambda>f. save_run_result f (ws, owner, t_id t) (nullish result (result_of_record run))))
                              (\<lambda>_. writing (\<lambda>f. append_run f (ws, owner, t_id t) run))
                            else done_with ())
                       (\<lambda>_. after (writing (\<lambda>f. save_task f ws owner auto'))
                         (\<lambda>_. change (\<lambda>s.
                            let s1 = set_definition auto' s in
                            case notice of None \<Rightarrow> s1 | Some n \<Rightarrow> notify (RunFailed auto' run n) s1))))))"

definition write_ticket :: "string \<Rightarrow> string \<Rightarrow> string \<Rightarrow> requested_run \<Rightarrow> task_run \<Rightarrow> unit action" where
  "write_ticket ws owner taskId rq run =
     writing (\<lambda>f. save_run_ticket f ws owner
       \<lparr>rt_runId = rq_runId rq, rt_taskId = taskId, rt_requestedAt = rq_requestedAt rq, rt_run = with_request run rq\<rparr>)"

definition ticket_for :: "task \<Rightarrow> requested_run option \<Rightarrow> task_run \<Rightarrow> unit action" where
  "ticket_for t rq run =
     (case (rq, place_of t) of
        (Some q, Some (ws, owner)) \<Rightarrow> write_ticket ws owner (t_id t) q run
      | _ \<Rightarrow> done_with ())"

definition open_ticket :: "task \<Rightarrow> requested_run \<Rightarrow> unit action" where
  "open_ticket t rq = ticket_for t (Some rq) (blank_run (rq_runId rq) (t_id t) (rq_requestedAt rq) RunQueued)"

definition record_key :: "sched_config \<Rightarrow> task \<Rightarrow> requested_run \<Rightarrow> unit action" where
  "record_key cfg t rq =
     (case (place_of t, rq_idempotencyKey rq) of
        (Some (ws, owner), Some k) \<Rightarrow>
          writing (\<lambda>f. save_idempotency_key (sc_digest cfg) f (ws, owner, t_id t) k (rq_runId rq))
      | _ \<Rightarrow> done_with ())"

definition write_not_started ::
  "task \<Rightarrow> string \<Rightarrow> run_status \<Rightarrow> ms \<Rightarrow> requested_run option \<Rightarrow> task_run action" where
  "write_not_started t reason status now rq =
     (let run = maybe_with_request
            ((blank_run (not_started_id now status) (t_id t) now status)
               \<lparr>r_completedAt := Some now, r_error := Some reason\<rparr>) rq
      in case place_of t of
           None \<Rightarrow> done_with run
         | Some (ws, owner) \<Rightarrow>
             after (writing (\<lambda>f. save_run_result f (ws, owner, t_id t) (result_of_record run)))
               (\<lambda>_. after (writing (\<lambda>f. append_run f (ws, owner, t_id t) run))
                 (\<lambda>_. after (ticket_for t rq run) (\<lambda>_. done_with run))))"

definition skipped_next :: "sched_config \<Rightarrow> ms \<Rightarrow> task \<Rightarrow> ms option" where
  "skipped_next cfg now t =
     map_option
       (\<lambda>n. if n > now then n
            else now + (case t_schedule t of None \<Rightarrow> 60000 | Some s \<Rightarrow> nullish (sched_intervalMs s) 60000))
       (next_run_or_none (sc_host cfg) t now (sc_tz cfg))"

definition record_skipped ::
  "sched_config \<Rightarrow> ms \<Rightarrow> task \<Rightarrow> string \<Rightarrow> run_trigger option \<Rightarrow> run_status \<Rightarrow> requested_run option
    \<Rightarrow> task_run action" where
  "record_skipped cfg now t reason trigger status rq =
     after (write_not_started t reason status now rq)
       (\<lambda>run. case place_of t of
          None \<Rightarrow> done_with run
        | Some (ws, owner) \<Rightarrow>
            if trigger \<noteq> None \<and> trigger \<noteq> Some TriggerScheduled
            then after (run_recorded t) (\<lambda>_. done_with run)
            else
              after (lifted (\<lambda>s. load_task (files s) ws owner (t_id t)))
                (\<lambda>stored. after
                  (case stored of
                     None \<Rightarrow> done_with ()
                   | Some found \<Rightarrow>
                       (let fresh = bind_to found ws owner;
                            fresh' = (set_next_run_at fresh (skipped_next cfg now fresh))\<lparr>t_updatedAt := now\<rparr>
                        in after (writing (\<lambda>f. save_task f ws owner fresh')) (\<lambda>_. change (set_definition fresh'))))
                  (\<lambda>_. after (run_recorded t) (\<lambda>_. done_with run))))"

definition missed_once_reason :: "task \<Rightarrow> string" where
  "missed_once_reason t =
     once_missed_reason @ nullish (written_at t) [] @ '': the runtime was not running then, and it started more '' @
     ''than '' @ show_int (once_grace_ms div 60000) @
     '' minutes later, so it did not run. Set a new time to run it.''"

definition record_missed_once :: "task \<Rightarrow> ms \<Rightarrow> unit action" where
  "record_missed_once t now =
     (case place_of t of
        None \<Rightarrow> done_with ()
      | Some (ws, owner) \<Rightarrow>
          after (write_not_started t (missed_once_reason t) RunSkipped now None)
            (\<lambda>_. after (lifted (\<lambda>s. load_task (files s) ws owner (t_id t)))
              (\<lambda>stored.
                 let fresh = bind_to (nullish stored t) ws owner;
                     fresh' = (retire_once fresh OnceMissed now (missed_once_reason t) now)\<lparr>t_updatedAt := now\<rparr>
                 in after (writing (\<lambda>f. save_task f ws owner fresh'))
                      (\<lambda>_. after (change (set_definition fresh')) (\<lambda>_. run_recorded t)))))"

definition mark_scheduled_run_in_flight :: "task \<Rightarrow> scheduled_run_in_flight \<Rightarrow> unit action" where
  "mark_scheduled_run_in_flight t mark =
     (case place_of t of
        None \<Rightarrow> done_with ()
      | Some (ws, owner) \<Rightarrow>
          after (lifted (\<lambda>s. load_task (files s) ws owner (t_id t)))
            (\<lambda>stored. case stored of
               None \<Rightarrow> done_with ()
             | Some found \<Rightarrow>
                 (let fresh = (bind_to found ws owner)\<lparr>t_scheduledRunInFlight := Some mark\<rparr>
                  in after (writing (\<lambda>f. save_task f ws owner fresh))
                       (\<lambda>_. change (\<lambda>s. set_definition fresh
                          (s\<lparr>scheduledInFlight := insert (sf_runId mark) (scheduledInFlight s)\<rparr>))))))"

section \<open>Dispatch\<close>

definition duplicate_of :: "string \<Rightarrow> sched \<Rightarrow> duplicate option" where
  "duplicate_of key s =
     (let k = admission_key_prefix @ key in
      if key \<in> fst ` set (activeRuns s) \<or> is_running k s then Some AlreadyRunning
      else if is_queued k s then Some AlreadyQueued
      else None)"

text \<open>
  \<open>dispatchRun\<close> and \<open>executeAndRecord\<close> up to the executor: the run is in flight from here, its ticket
  says running, and a scheduled run's task is marked. What fails on the way ends the flight early.
\<close>

definition before_executor :: "task \<Rightarrow> flight \<Rightarrow> unit action" where
  "before_executor t fl =
     after (ticket_for t (fl_requested fl)
         ((blank_run (case fl_requested fl of None \<Rightarrow> [] | Some q \<Rightarrow> rq_runId q) (t_id t) (fl_startedAt fl) RunRunning)
            \<lparr>r_trigger := Some (fl_trigger fl)\<rparr>))
       (\<lambda>_. done_with ())"

definition mark_flight :: "task \<Rightarrow> flight \<Rightarrow> unit action" where
  "mark_flight t fl =
     after (if fl_trigger fl = TriggerScheduled
            then mark_scheduled_run_in_flight t
              \<lparr>sf_runId = fl_runId fl, sf_startedAt = fl_startedAt fl, sf_onceAt = fl_firedOnceAt fl\<rparr>
            else done_with ())
       (\<lambda>_. if fl_batch fl then change (notify (BatchRunStarted (fl_runId fl))) else done_with ())"

definition dispatch_run ::
  "sched_config \<Rightarrow> ms \<Rightarrow> task \<Rightarrow> run_trigger \<Rightarrow> run_input option \<Rightarrow> admission_lease \<Rightarrow> requested_run option
    \<Rightarrow> dispatch_settles \<Rightarrow> string option \<Rightarrow> bool \<Rightarrow> bool \<Rightarrow> sched \<Rightarrow> sched" where
  "dispatch_run cfg now t trigger input lease rq settles runKey batch fromQueue s =
     (let key = nullish runKey (key_of t);
          d = dispatches s;
          runId = (case rq of Some q \<Rightarrow> rq_runId q | None \<Rightarrow> sc_mint cfg (minted s));
          fl = \<lparr>fl_dispatch = d, fl_key = key, fl_task = t, fl_runId = runId, fl_startedAt = now,
                fl_trigger = trigger, fl_input = input, fl_lease = lease,
                fl_firedOnceAt = (if trigger = TriggerScheduled \<and> is_once_schedule (t_schedule t)
                                  then written_at t else None),
                fl_requested = rq, fl_batch = batch, fl_settles = settles, fl_fromQueue = fromQueue,
                fl_aborted = False, fl_early = None\<rparr>;
          s1 = s\<lparr>dispatches := Suc d, minted := (if rq = None then Suc (minted s) else minted s),
                 activeRuns := jset key \<lparr>ar_startedAt = now, ar_trigger = trigger, ar_runId = runId,
                                         ar_dispatch = d\<rparr> (activeRuns s)\<rparr>;
          (early, s2) =
            (case before_executor t fl s1 of
               (Inl e, s') \<Rightarrow> (Some (TicketUnwritten e), s')
             | (Inr _, s') \<Rightarrow>
                 (case mark_flight t fl s' of
                    (Inl e, s'') \<Rightarrow> (Some (MarkUnwritten e), s'')
                  | (Inr _, s'') \<Rightarrow> (None, s'')))
      in s2\<lparr>flights := flights s2 @ [fl\<lparr>fl_early := early\<rparr>]\<rparr>)"

section \<open>Leaving the queue\<close>

text \<open>A requested run that ended is no longer open; a queued run's waiter gets its outcome.\<close>

definition forget_open :: "requested_run option \<Rightarrow> sched \<Rightarrow> sched" where
  "forget_open rq s = (case rq of None \<Rightarrow> s | Some q \<Rightarrow> s\<lparr>openRuns := jdelete (rq_runId q) (openRuns s)\<rparr>)"

definition resolve_entry :: "queued_run \<Rightarrow> (task_error + task_run) \<times> sched \<Rightarrow> sched" where
  "resolve_entry e rs =
     (case rs of
        (Inr run, s) \<Rightarrow> notify (QueuedOutcome run False) (forget_open (q_requested e) s)
      | (Inl err, s) \<Rightarrow> notify (QueuedRejected (q_key e) err) (forget_open (q_requested e) s))"

definition not_started_for_key :: "ms \<Rightarrow> queued_run \<Rightarrow> string \<Rightarrow> run_status \<Rightarrow> task_run action" where
  "not_started_for_key now e reason status =
     (let run = not_started_run (q_key e) reason status now (q_requested e) in
      case (q_requested e, split_on (CHR ''/'') (q_key e)) of
        (Some q, ws # owner # _) \<Rightarrow>
          if ws \<noteq> [] \<and> owner \<noteq> []
          then after (write_ticket ws owner (r_taskId run) q run) (\<lambda>_. done_with run)
          else done_with run
      | _ \<Rightarrow> done_with run)"

definition start_queued ::
  "sched_config \<Rightarrow> ms \<Rightarrow> sched_waiter \<Rightarrow> admission_lease \<Rightarrow> sched \<Rightarrow> sched \<times> bool" where
  "start_queued cfg now w lease s =
     (case w of
        OtherRun \<Rightarrow> (s, False)
      | OwnRun e \<Rightarrow>
          (case map_of (definitions s) (q_key e) of
             None \<Rightarrow>
               (resolve_entry e
                  (not_started_for_key now e ''the task was deleted while queued'' RunSkipped (release_slot lease s)), False)
           | Some t \<Rightarrow>
               (let refuse = (\<lambda>reason. resolve_entry e
                      (record_skipped cfg now t reason (Some (q_trigger e)) RunSkipped (q_requested e)
                         (release_slot lease s)))
                in if q_trigger e = TriggerEvent \<and> \<not> t_enabled t
                   then (refuse ''Disabled while queued (event)'', False)
                   else
                     (case (if q_trigger e = TriggerManual \<and> \<not> q_batch e
                            then run_now_budget_refusal (sc_host cfg) t now else None) of
                        Some budget \<Rightarrow> (refuse budget, False)
                      | None \<Rightarrow>
                          (dispatch_run cfg now t (q_trigger e) (q_input e) lease (q_requested e)
                             (if q_trigger e = TriggerManual then SettlesAssessed else SettlesRecorded)
                             (if q_batch e then q_runKey e else None) (q_batch e) True s, False)))))"

definition left_queue_text :: "admission_withdrawal \<Rightarrow> string" where
  "left_queue_text reason =
     (if reason = WithCancelled then ''Cancelled by user while queued''
      else if reason = WithReason workspace_deleted then ''the workspace was deleted''
      else if reason = WithReason batch_paused
        then ''Withdrawn from the queue: its batch paused before a run slot freed''
      else ''Queued run dropped: the runtime stopped before a run slot freed'')"

definition left_queue ::
  "sched_config \<Rightarrow> ms \<Rightarrow> sched_waiter \<Rightarrow> admission_withdrawal \<Rightarrow> sched \<Rightarrow> sched" where
  "left_queue cfg now w reason s =
     (case w of
        OtherRun \<Rightarrow> s
      | OwnRun e \<Rightarrow>
          (let gone = (reason = WithReason workspace_deleted);
               text = left_queue_text reason;
               status = (if reason = WithCancelled then RunCancelled else RunSkipped)
           in case (if gone then None else map_of (definitions s) (q_key e)) of
                Some t \<Rightarrow> resolve_entry e (record_skipped cfg now t text (Some (q_trigger e)) status (q_requested e) s)
              | None \<Rightarrow>
                  if gone
                  then resolve_entry e (Inr (not_started_run (q_key e) text status now (q_requested e)), s)
                  else resolve_entry e (not_started_for_key now e text status s)))"

text \<open>
  Releasing a lease hands freed slots to queued runs. No callback here queues another run, so as many
  turns as there are queued runs, and one, end the drain.
\<close>

definition release_lease :: "sched_config \<Rightarrow> ms \<Rightarrow> admission_lease \<Rightarrow> sched \<Rightarrow> sched" where
  "release_lease cfg now l s =
     nullish (release (start_queued cfg now) (Suc (length (queue s))) l s) s"

section \<open>Asking for a run\<close>

datatype run_now_ticket = RunNowStarted nat | RunNowQueued int | RunNowRefused task_run

datatype batch_refusal = BatchNotFound | BatchStopped | BatchQueueFull | BatchBudget

datatype batch_run_ticket = BatchRunStartedT nat | BatchRunQueued | BatchRunRefused batch_refusal string

datatype event_answer = EventStarted nat | EventQueued int | EventSkipped string

definition admit ::
  "string \<Rightarrow> run_trigger \<Rightarrow> run_input option \<Rightarrow> requested_run option \<Rightarrow> string option \<Rightarrow> sched
    \<Rightarrow> admission_ticket \<times> sched" where
  "admit key trigger input rq runKey s =
     request_slot (admission_of (nullish runKey key))
       (Some (OwnRun \<lparr>q_key = key, q_runKey = runKey, q_batch = (runKey \<noteq> None), q_trigger = trigger,
                       q_input = input, q_requested = rq\<rparr>)) s"

definition refusal_reason :: "admission_refusal \<Rightarrow> string \<Rightarrow> sched \<Rightarrow> string" where
  "refusal_reason why label s =
     (case why of
        RefRunning \<Rightarrow> ''Already running ('' @ label @ '')''
      | RefQueued \<Rightarrow> ''Already queued ('' @ label @ '')''
      | RefStopped \<Rightarrow> stopped_reason
      | _ \<Rightarrow> ''Run queue full: '' @ show_int (maxConcurrentRuns s) @ '' runs in flight (the concurrent-run limit) '' @
             ''and '' @ show_int (maxQueuedRuns s) @ '' waiting (the queue limit)'')"

definition event_refusal_answer :: "admission_refusal \<Rightarrow> sched \<Rightarrow> string" where
  "event_refusal_answer why s =
     (case why of
        RefRunning \<Rightarrow> event_duplicate_answer AlreadyRunning
      | RefQueued \<Rightarrow> event_duplicate_answer AlreadyQueued
      | RefStopped \<Rightarrow> ''the runtime is shutting down''
      | _ \<Rightarrow> ''the runtime was at its concurrent-run limit and its run queue was full ('' @
             show_int (maxQueuedRuns s) @ '')'')"

definition track_open :: "string \<Rightarrow> requested_run option \<Rightarrow> sched \<Rightarrow> sched" where
  "track_open key rq s =
     (case rq of None \<Rightarrow> s | Some q \<Rightarrow> s\<lparr>openRuns := jset (rq_runId q) key (openRuns s)\<rparr>)"

definition request_run_now ::
  "sched_config \<Rightarrow> ms \<Rightarrow> string \<Rightarrow> string \<Rightarrow> string \<Rightarrow> requested_run option \<Rightarrow> run_now_ticket option action" where
  "request_run_now cfg now ws owner taskId rq s =
     (let key = key_for ws owner taskId in
      case map_of (definitions s) key of
        None \<Rightarrow> (Inr None, s)
      | Some t \<Rightarrow>
          (let refuse = (\<lambda>reason. after (record_skipped cfg now t reason (Some TriggerManual) RunSkipped rq)
                 (\<lambda>run. done_with (Some (RunNowRefused run))))
           in after (case rq of None \<Rightarrow> done_with () | Some q \<Rightarrow> open_ticket t q)
                (\<lambda>_ s1.
                   if \<not> running s1 then refuse stopped_reason s1
                   else case duplicate_of key s1 of
                     Some d \<Rightarrow> refuse (duplicate_text d @ '' (runNow)'') s1
                   | None \<Rightarrow>
                       (case run_now_budget_refusal (sc_host cfg) t now of
                          Some budget \<Rightarrow> refuse budget s1
                        | None \<Rightarrow>
                            (case admit key TriggerManual (requested_input rq) rq None s1 of
                               (TicketRefused why, s2) \<Rightarrow> refuse (refusal_reason why ''runNow'' s2) s2
                             | (TicketAdmitted l, s2) \<Rightarrow>
                                 after (case rq of None \<Rightarrow> done_with () | Some q \<Rightarrow> record_key cfg t q)
                                   (\<lambda>_ s3. (Inr (Some (RunNowStarted (dispatches s3))),
                                      track_open key rq
                                        (dispatch_run cfg now t TriggerManual (requested_input rq) l rq SettlesAssessed
                                           None False False s3))) s2
                             | (TicketQueued n, s2) \<Rightarrow>
                                 after (case rq of None \<Rightarrow> done_with () | Some q \<Rightarrow> record_key cfg t q)
                                   (\<lambda>_ s3. (Inr (Some (RunNowQueued n)), track_open key rq s3)) s2))) s))"

definition request_batch_run ::
  "sched_config \<Rightarrow> ms \<Rightarrow> string \<Rightarrow> string \<Rightarrow> string \<Rightarrow> requested_run \<Rightarrow> batch_run_ticket action" where
  "request_batch_run cfg now ws owner taskId rq s =
     (let key = key_for ws owner taskId in
      case map_of (definitions s) key of
        None \<Rightarrow> (Inr (BatchRunRefused BatchNotFound ''the task is no longer here''), s)
      | Some t \<Rightarrow>
          if \<not> running s then (Inr (BatchRunRefused BatchStopped stopped_reason), s)
          else (case run_now_budget_refusal (sc_host cfg) t now of
             Some budget \<Rightarrow> (Inr (BatchRunRefused BatchBudget budget), s)
           | None \<Rightarrow>
               (let runKey = key @ ''#'' @ rq_runId rq in
                case admit key TriggerManual (requested_input (Some rq)) (Some rq) (Some runKey) s of
                  (TicketRefused why, s1) \<Rightarrow>
                    (if why = RefStopped then (Inr (BatchRunRefused BatchStopped stopped_reason), s1)
                     else (Inr (BatchRunRefused BatchQueueFull (refusal_reason why ''runNow'' s1)), s1))
                | (TicketAdmitted l, s1) \<Rightarrow>
                    after (open_ticket t rq)
                      (\<lambda>_ s2. (Inr (BatchRunStartedT (dispatches s2)),
                         track_open runKey (Some rq)
                           (dispatch_run cfg now t TriggerManual (requested_input (Some rq)) l (Some rq)
                              SettlesAssessed (Some runKey) True False s2))) s1
                | (TicketQueued n, s1) \<Rightarrow>
                    after (open_ticket t rq)
                      (\<lambda>_ s2. (Inr BatchRunQueued, track_open runKey (Some rq) s2)) s1)))"

definition run_from_event ::
  "sched_config \<Rightarrow> ms \<Rightarrow> string \<Rightarrow> string \<Rightarrow> string \<Rightarrow> run_input \<Rightarrow> event_answer action" where
  "run_from_event cfg now ws owner taskId input s =
     (let key = key_for ws owner taskId in
      case map_of (definitions s) key of
        None \<Rightarrow> (Inr (EventSkipped ''the task is no longer in this workspace''), s)
      | Some t \<Rightarrow>
          if \<not> t_enabled t then (Inr (EventSkipped ''the task is disabled''), s)
          else if \<not> running s then (Inr (EventSkipped stopped_reason), s)
          else (case duplicate_of key s of
             Some d \<Rightarrow>
               after (record_skipped cfg now t (duplicate_text d @ '' (event)'') (Some TriggerEvent) RunSkipped None)
                 (\<lambda>_. done_with (EventSkipped (event_duplicate_answer d))) s
           | None \<Rightarrow>
               (case admit key TriggerEvent (Some input) None None s of
                  (TicketAdmitted l, s1) \<Rightarrow>
                    (Inr (EventStarted (dispatches s1)),
                     dispatch_run cfg now t TriggerEvent (Some input) l None SettlesRecorded None False False s1)
                | (TicketRefused why, s1) \<Rightarrow>
                    after (record_skipped cfg now t (refusal_reason why ''event'' s1) (Some TriggerEvent) RunSkipped None)
                      (\<lambda>_ s2. (Inr (EventSkipped (event_refusal_answer why s2)), s2)) s1
                | (TicketQueued n, s1) \<Rightarrow> (Inr (EventQueued n), s1))))"

section \<open>The timer\<close>

definition key_matches :: "string \<Rightarrow> string \<Rightarrow> string \<Rightarrow> bool" where
  "key_matches ws owner key = starts_with (ws @ ''/'' @ owner @ ''/'') key"

fun timer_delay :: "task list \<Rightarrow> ms \<Rightarrow> ms \<Rightarrow> ms" where
  "timer_delay [] now minDelay = minDelay"
| "timer_delay (t # ts) now minDelay =
     (if \<not> t_enabled t \<or> is_event_schedule (t_schedule t) then timer_delay ts now minDelay
      else case t_nextRunAt t of
             None \<Rightarrow> if due_without_next_run_at t then 0 else timer_delay ts now minDelay
           | Some n \<Rightarrow> timer_delay ts now (min minDelay (max 0 (n - now))))"

definition arm_timer :: "ms \<Rightarrow> sched \<Rightarrow> sched" where
  "arm_timer now s =
     (if \<not> running s then s
      else if \<not> has_free_slot s then s\<lparr>timer := Some max_timer_ms\<rparr>
      else s\<lparr>timer := Some (timer_delay (map snd (definitions s)) now max_timer_ms)\<rparr>)"

definition consider_for_dispatch :: "sched_config \<Rightarrow> ms \<Rightarrow> task \<Rightarrow> nat option action" where
  "consider_for_dispatch cfg now t s =
     (if \<not> t_enabled t \<or> \<not> is_due t now \<or> is_in_backoff t now then (Inr None, s)
      else if duplicate_of (key_of t) s = Some AlreadyRunning then
        after (record_skipped cfg now t ''Previous run still active'' None RunSkipped None) (\<lambda>_. done_with None) s
      else case request_slot (admission_of (key_of t)) None s of
             (TicketAdmitted l, s1) \<Rightarrow>
               (Inr (Some (dispatches s1)), dispatch_run cfg now t TriggerScheduled None l None SettlesRecorded None False False s1)
           | (_, s1) \<Rightarrow> (Inr None, s1))"

text \<open>One task's turn of the sweep: a throw drops the task when its workspace is gone.\<close>

definition sweep_task :: "sched_config \<Rightarrow> ms \<Rightarrow> task \<Rightarrow> nat list \<times> sched \<Rightarrow> nat list \<times> sched" where
  "sweep_task cfg now t acc =
     (case acc of (ids, s) \<Rightarrow>
        (case consider_for_dispatch cfg now t s of
           (Inr None, s') \<Rightarrow> (ids, s')
         | (Inr (Some d), s') \<Rightarrow> (ids @ [d], s')
         | (Inl e, s') \<Rightarrow>
             (ids, if e = WorkspaceRootMissing then s'\<lparr>definitions := jdelete (key_of t) (definitions s')\<rparr> else s')))"

definition on_timer :: "sched_config \<Rightarrow> ms \<Rightarrow> sched \<Rightarrow> sched" where
  "on_timer cfg now s =
     (if \<not> running s then s
      else
        let (ids, s1) = fold (sweep_task cfg now) (by_next_run_at (map snd (definitions s))) ([], s)
        in if ids = [] then arm_timer now s1 else s1\<lparr>ticks := ticks s1 @ [ids]\<rparr>)"

section \<open>A run's end\<close>

type_synonym executed = "thrown_error + task_run \<times> task_run_result option"

definition failed_record :: "flight \<Rightarrow> ms \<Rightarrow> thrown_error \<Rightarrow> task_run" where
  "failed_record fl now e =
     (case classify_run_failure e of (status, err, transient) \<Rightarrow>
        maybe_with_request
          ((blank_run (fl_runId fl) (t_id (fl_task fl)) (fl_startedAt fl) status)
             \<lparr>r_completedAt := Some now, r_error := Some err, r_transient := transient,
              r_trigger := Some (fl_trigger fl)\<rparr>) (fl_requested fl))"

definition record_end :: "sched_config \<Rightarrow> ms \<Rightarrow> flight \<Rightarrow> task_run \<Rightarrow> task_run_result \<Rightarrow> task_run action" where
  "record_end cfg now fl run result =
     after (update_after_run cfg now (fl_task fl) run (Some (fl_trigger fl)) (fl_firedOnceAt fl)
              (Some (fl_runId fl)) True (Some result))
       (\<lambda>_. after (ticket_for (fl_task fl) (fl_requested fl) run)
         (\<lambda>_. after (run_recorded (fl_task fl)) (\<lambda>_. done_with run)))"

definition record_failure :: "sched_config \<Rightarrow> ms \<Rightarrow> flight \<Rightarrow> thrown_error \<Rightarrow> task_run action" where
  "record_failure cfg now fl e =
     (let run = failed_record fl now e in record_end cfg now fl run (result_of_record run))"

definition executed_result :: "task_run \<Rightarrow> task_run_result option \<Rightarrow> task_run_result" where
  "executed_result run result =
     (case result of
        None \<Rightarrow> result_of_record run
      | Some x \<Rightarrow> x\<lparr>rr_runId := r_id run, rr_error := (case r_error run of None \<Rightarrow> rr_error x | Some e \<Rightarrow> Some e)\<rparr>)"

definition execute_and_record :: "sched_config \<Rightarrow> ms \<Rightarrow> flight \<Rightarrow> executed \<Rightarrow> task_run action" where
  "execute_and_record cfg now fl outcome =
     (case fl_early fl of
        Some (TicketUnwritten e) \<Rightarrow> throws e
      | Some (MarkUnwritten e) \<Rightarrow> record_failure cfg now fl (sc_thrown cfg e)
      | None \<Rightarrow>
          (case outcome of
             Inl e \<Rightarrow> record_failure cfg now fl e
           | Inr (executed_run, result) \<Rightarrow>
               (let run = maybe_with_request executed_run (fl_requested fl)
                in catching (record_end cfg now fl run (executed_result run result))
                     (\<lambda>e. record_failure cfg now fl (sc_thrown cfg e)))))"

definition settle_flight :: "flight \<Rightarrow> task_error + task_run \<Rightarrow> sched \<Rightarrow> sched" where
  "settle_flight fl r s =
     (let s1 = forget_open (fl_requested fl) s in
      if fl_fromQueue fl
      then (case r of Inl e \<Rightarrow> notify (QueuedRejected (fl_key fl) e) s1 | Inr run \<Rightarrow> notify (QueuedOutcome run True) s1)
      else s1)"

text \<open>The dispatched runs a tick still waits for; a tick that waits for none arms the timer again.\<close>

fun end_in_ticks :: "nat \<Rightarrow> nat list list \<Rightarrow> nat list list" where
  "end_in_ticks d [] = []"
| "end_in_ticks d (ids # rest) = filter (\<lambda>i. i \<noteq> d) ids # end_in_ticks d rest"

definition end_tick :: "ms \<Rightarrow> nat \<Rightarrow> sched \<Rightarrow> sched" where
  "end_tick now d s =
     (let ts = end_in_ticks d (ticks s);
          s1 = s\<lparr>ticks := filter (\<lambda>ids. ids \<noteq> []) ts\<rparr>
      in if [] \<in> set ts then arm_timer now s1 else s1)"

definition assess_recorded :: "sched_config \<Rightarrow> flight \<Rightarrow> task_run \<Rightarrow> sched \<Rightarrow> sched" where
  "assess_recorded cfg fl run s =
     (if \<not> sc_assess cfg \<or> \<not> is_assessable run \<or> place_of (fl_task fl) = None then settle_flight fl (Inr run) s
      else
        let s1 = s\<lparr>pendingAssessments := jset (r_id run)
              \<lparr>pa_task = fl_task fl, pa_run = run, pa_requested = fl_requested fl, pa_settles = fl_settles fl,
               pa_fromQueue = fl_fromQueue fl\<rparr> (pendingAssessments s)\<rparr>
        in if fl_settles fl = SettlesRecorded then settle_flight fl (Inr run) s1 else s1)"

definition finish_flight :: "sched_config \<Rightarrow> ms \<Rightarrow> flight \<Rightarrow> executed \<Rightarrow> sched \<Rightarrow> sched" where
  "finish_flight cfg now fl outcome s =
     (let (r, s1) = execute_and_record cfg now fl outcome s;
          s2 = s1\<lparr>activeRuns := jdelete (fl_key fl) (activeRuns s1),
                  scheduledInFlight := scheduledInFlight s1 - {fl_runId fl},
                  flights := filter (\<lambda>f. fl_dispatch f \<noteq> fl_dispatch fl) (flights s1)\<rparr>;
          s3 = release_lease cfg now (fl_lease fl) s2;
          s4 = (case r of Inl e \<Rightarrow> settle_flight fl (Inl e) s3 | Inr run \<Rightarrow> assess_recorded cfg fl run s3)
      in end_tick now (fl_dispatch fl) s4)"

section \<open>Assessment\<close>

definition with_assessment :: "run_assessment \<Rightarrow> task_run \<Rightarrow> task_run" where
  "with_assessment a r =
     r\<lparr>r_assessment := Some (case r_assessment r of
         Some old \<Rightarrow> (case as_human old of Some h \<Rightarrow> a\<lparr>as_human := Some h\<rparr> | None \<Rightarrow> a)
       | None \<Rightarrow> a)\<rparr>"

definition record_assessment :: "task \<Rightarrow> string \<Rightarrow> run_assessment \<Rightarrow> task_run option action" where
  "record_assessment t run a s =
     (case place_of t of
        None \<Rightarrow> (Inr None, s)
      | Some (ws, owner) \<Rightarrow>
          (case update_run (files s) (ws, owner, t_id t) run (with_assessment a) of
             Inl e \<Rightarrow> (Inl e, s)
           | Inr (None, f) \<Rightarrow> (Inr None, s\<lparr>files := f\<rparr>)
           | Inr (Some u, f) \<Rightarrow> (Inr (Some u), notify (RunRecorded owner) (s\<lparr>files := f\<rparr>))))"

definition retry_run :: "sched_config \<Rightarrow> ms \<Rightarrow> task \<Rightarrow> task_run \<Rightarrow> run_assessment \<Rightarrow> bool action" where
  "retry_run cfg now t run a s =
     (case place_of t of
        None \<Rightarrow> (Inr False, s)
      | Some (ws, owner) \<Rightarrow>
          (let rq = \<lparr>rq_runId = sc_mint cfg (minted s), rq_requestedAt = now, rq_input = r_input run,
                     rq_idempotencyKey = None, rq_retryOf = Some (r_id run),
                     rq_guidance = Some (retry_guidance t (r_id run) a), rq_batch = None\<rparr>
           in after (request_run_now cfg now ws owner (t_id t) (Some rq))
                (\<lambda>ticket. done_with (case ticket of None \<Rightarrow> False | Some (RunNowRefused _) \<Rightarrow> False | Some _ \<Rightarrow> True))
                (s\<lparr>minted := Suc (minted s)\<rparr>)))"

definition after_assessed :: "sched_config \<Rightarrow> ms \<Rightarrow> task \<Rightarrow> task_run \<Rightarrow> unit action" where
  "after_assessed cfg now t run =
     (case r_assessment run of
        None \<Rightarrow> done_with ()
      | Some a \<Rightarrow>
          if as_verdict a \<noteq> VerdictFail \<or> truthy (r_batchId run)
             \<or> nullish (t_onPoorResult t) default_on_poor_result = PoorRecord then done_with ()
          else after (if nullish (t_onPoorResult t) default_on_poor_result = PoorRetryOnce \<and> \<not> truthy (r_retryOf run)
                      then retry_run cfg now t run a else done_with False)
                 (\<lambda>retried. if retried then done_with () else change (notify (PoorResultNotice t run))))"

definition settle_assessment :: "sched_config \<Rightarrow> ms \<Rightarrow> string \<Rightarrow> run_assessment option \<Rightarrow> sched \<Rightarrow> sched" where
  "settle_assessment cfg now runId assessment s =
     (case map_of (pendingAssessments s) runId of
        None \<Rightarrow> s
      | Some pa \<Rightarrow>
          (let (r, s1) =
             (case assessment of
                None \<Rightarrow> (Inr (pa_run pa), s)
              | Some a \<Rightarrow>
                  after (record_assessment (pa_task pa) (r_id (pa_run pa)) a)
                    (\<lambda>u. let run = nullish u ((pa_run pa)\<lparr>r_assessment := Some a\<rparr>)
                         in after (after_assessed cfg now (pa_task pa) run) (\<lambda>_. done_with run)) s);
               run = (case r of Inl _ \<Rightarrow> pa_run pa | Inr x \<Rightarrow> x);
               s2 = s1\<lparr>pendingAssessments := jdelete runId (pendingAssessments s1)\<rparr>
           in if pa_settles pa = SettlesAssessed
              then (if pa_fromQueue pa then notify (QueuedOutcome run True) else (\<lambda>x. x))
                     (forget_open (pa_requested pa) s2)
              else s2))"

section \<open>Cancelling and looking\<close>

definition abort_dispatch :: "nat \<Rightarrow> sched \<Rightarrow> sched" where
  "abort_dispatch d s =
     s\<lparr>flights := map (\<lambda>f. if fl_dispatch f = d then f\<lparr>fl_aborted := True\<rparr> else f) (flights s)\<rparr>"

definition cancel_key :: "sched_config \<Rightarrow> ms \<Rightarrow> string \<Rightarrow> sched \<Rightarrow> bool \<times> sched" where
  "cancel_key cfg now key s =
     (case map_of (activeRuns s) key of
        Some r \<Rightarrow> (True, abort_dispatch (ar_dispatch r) s)
      | None \<Rightarrow> cancel (left_queue cfg now) (admission_key_prefix @ key) None s)"

definition cancel_run :: "sched_config \<Rightarrow> ms \<Rightarrow> string \<Rightarrow> string \<Rightarrow> string \<Rightarrow> sched \<Rightarrow> bool \<times> sched" where
  "cancel_run cfg now ws owner taskId s = cancel_key cfg now (key_for ws owner taskId) s"

definition cancel_run_by_id :: "sched_config \<Rightarrow> ms \<Rightarrow> string \<Rightarrow> string \<Rightarrow> string \<Rightarrow> sched \<Rightarrow> bool \<times> sched" where
  "cancel_run_by_id cfg now ws owner runId s =
     (case map_of (openRuns s) runId of
        Some key \<Rightarrow> if key_matches ws owner key then cancel_key cfg now key s else (False, s)
      | None \<Rightarrow>
          (case find (\<lambda>(key, r). ar_runId r = runId \<and> key_matches ws owner key) (activeRuns s) of
             Some (key, _) \<Rightarrow> cancel_key cfg now key s
           | None \<Rightarrow> (False, s)))"

definition withdraw_queued_run :: "sched_config \<Rightarrow> ms \<Rightarrow> string \<Rightarrow> string \<Rightarrow> string \<Rightarrow> sched \<Rightarrow> bool \<times> sched" where
  "withdraw_queued_run cfg now ws owner runId s =
     (case map_of (openRuns s) runId of
        Some key \<Rightarrow>
          if key_matches ws owner key
          then cancel (left_queue cfg now) (admission_key_prefix @ key) (Some (WithReason batch_paused)) s
          else (False, s)
      | None \<Rightarrow> (False, s))"

definition is_run_open :: "string \<Rightarrow> sched \<Rightarrow> bool" where
  "is_run_open runId s \<longleftrightarrow> runId \<in> fst ` set (openRuns s)"

definition is_assessing :: "string \<Rightarrow> sched \<Rightarrow> bool" where
  "is_assessing runId s \<longleftrightarrow> runId \<in> fst ` set (pendingAssessments s)"

definition get_queued_run_ids :: "sched \<Rightarrow> string list" where
  "get_queued_run_ids s =
     map (\<lambda>r. drop (length admission_key_prefix) (nullish (akey r) []))
       (filter (\<lambda>r. is_own_key (akey r)) (queued s))"

datatype queue_state = ViewRunning | ViewQueued

record queue_view_entry =
  qv_taskId :: string
  qv_runId :: "string option"
  qv_state :: queue_state
  qv_position :: "nat option"
  qv_startedAt :: "ms option"
  qv_trigger :: "run_trigger option"

text \<open>What is left of a key after its workspace and owner: the task, and a batch run's own id.\<close>

definition parse_view_key :: "string \<Rightarrow> string \<times> string option" where
  "parse_view_key rest =
     (if CHR ''#'' \<in> set rest
      then (takeWhile (\<lambda>c. c \<noteq> CHR ''#'') rest, Some (tl (dropWhile (\<lambda>c. c \<noteq> CHR ''#'') rest)))
      else (rest, None))"

definition queue_view :: "string \<Rightarrow> string \<Rightarrow> sched \<Rightarrow> queue_view_entry list" where
  "queue_view ws owner s =
     (let n = length (ws @ ''/'' @ owner @ ''/'');
          runIdByKey = fold (\<lambda>(run, key). jset key run) (openRuns s) []
      in map (\<lambda>(key, r). \<lparr>qv_taskId = fst (parse_view_key (drop n key)), qv_runId = Some (ar_runId r),
            qv_state = ViewRunning, qv_position = None, qv_startedAt = Some (ar_startedAt r),
            qv_trigger = Some (ar_trigger r)\<rparr>)
           (filter (\<lambda>(key, _). key_matches ws owner key) (activeRuns s)) @
         map (\<lambda>(i, key). let (taskId, runId) = parse_view_key (drop n key);
                  found = (case runId of Some x \<Rightarrow> Some x | None \<Rightarrow> map_of runIdByKey key)
              in \<lparr>qv_taskId = taskId, qv_runId = (if truthy found then found else None), qv_state = ViewQueued,
                  qv_position = Some (i + 1), qv_startedAt = None, qv_trigger = None\<rparr>)
           (filter (\<lambda>(_, key). key_matches ws owner key)
              (zip [0..<length (get_queued_run_ids s)] (get_queued_run_ids s))))"

section \<open>Starting, stopping, recovering\<close>

definition reconcile_next_run_at :: "sched_config \<Rightarrow> ms \<Rightarrow> task \<Rightarrow> task \<times> bool" where
  "reconcile_next_run_at cfg now t =
     (if is_event_schedule (t_schedule t) then (t, False)
      else if \<not> t_enabled t \<or> place_of t = None then (t, False)
      else
        let next = next_run_or_none (sc_host cfg) t now (sc_tz cfg) in
        if next = None \<and> is_pending_occurrence (sc_host cfg) t (sc_tz cfg) then (t, False)
        else if (case next of None \<Rightarrow> t_nextRunAt t \<noteq> None | Some _ \<Rightarrow> t_nextRunAt t = None)
        then (set_next_run_at t next, True)
        else (t, False))"

definition seed_next_run_at :: "sched_config \<Rightarrow> ms \<Rightarrow> unit action" where
  "seed_next_run_at cfg now s =
     (let swept = map (\<lambda>(k, t). (k, reconcile_next_run_at cfg now t)) (definitions s)
      in each persist_task (map (\<lambda>(_, t, _). t) (filter (\<lambda>(_, _, changed). changed) swept))
           (s\<lparr>definitions := map (\<lambda>(k, t, _). (k, t)) swept\<rparr>))"

definition interrupted_record :: "ms \<Rightarrow> task \<Rightarrow> scheduled_run_in_flight \<Rightarrow> task_run" where
  "interrupted_record now t mark =
     (blank_run (sf_runId mark) (t_id t) (sf_startedAt mark) RunFailure)
       \<lparr>r_completedAt := Some now, r_error := Some interrupted_run_error, r_trigger := Some TriggerScheduled\<rparr>"

definition settle_interrupted_run :: "sched_config \<Rightarrow> ms \<Rightarrow> task \<Rightarrow> unit action" where
  "settle_interrupted_run cfg now t s =
     (case (t_scheduledRunInFlight t, place_of t) of
        (Some mark, Some (ws, owner)) \<Rightarrow>
          if sf_runId mark \<in> scheduledInFlight s then (Inr (), s)
          else
            after (lifted (\<lambda>s. read_runs (files s) (ws, owner, t_id t) no_options))
              (\<lambda>runs.
                 let recorded = find (\<lambda>r. r_id r = sf_runId mark) runs;
                     run = nullish recorded (interrupted_record now t mark)
                 in after (update_after_run cfg now t run (Some TriggerScheduled) (sf_onceAt mark) None
                             (recorded = None) None)
                      (\<lambda>_. run_recorded t)) s
      | _ \<Rightarrow> (Inr (), s))"

definition ignoring :: "unit action \<Rightarrow> unit action" where
  "ignoring m = catching m (\<lambda>_. done_with ())"

definition settle_interrupted_runs :: "sched_config \<Rightarrow> ms \<Rightarrow> unit action" where
  "settle_interrupted_runs cfg now s =
     each (\<lambda>t. ignoring (settle_interrupted_run cfg now t)) (map snd (definitions s)) s"

definition retire_onces_missed_while_down :: "ms \<Rightarrow> unit action" where
  "retire_onces_missed_while_down now s =
     each (\<lambda>t. if once_missed_while_down t now then ignoring (record_missed_once t now) else done_with ())
       (map snd (definitions s)) s"

definition start_scheduler :: "sched_config \<Rightarrow> ms \<Rightarrow> unit action" where
  "start_scheduler cfg now s =
     (if running s then (Inr (), s)
      else after (change (\<lambda>s. s\<lparr>running := True, definitions := load_all (files s)\<rparr>))
        (\<lambda>_. after (settle_interrupted_runs cfg now)
          (\<lambda>_. after (retire_onces_missed_while_down now)
            (\<lambda>_. after (seed_next_run_at cfg now) (\<lambda>_. change (arm_timer now))))) s)"

definition stop_scheduler :: "sched_config \<Rightarrow> ms \<Rightarrow> sched \<Rightarrow> sched" where
  "stop_scheduler cfg now s =
     (let s1 = s\<lparr>running := False, timer := None\<rparr>;
          s2 = snd (withdraw (left_queue cfg now) (\<lambda>e. is_own_key (akey (request e))) WithStopped s1);
          s3 = fold (\<lambda>(_, r). abort_dispatch (ar_dispatch r)) (activeRuns s2) s2
      in s3\<lparr>activeRuns := []\<rparr>)"

definition reload :: "sched_config \<Rightarrow> ms \<Rightarrow> unit action" where
  "reload cfg now =
     after (change (\<lambda>s. s\<lparr>definitions := load_all (files s)\<rparr>))
       (\<lambda>_. after (seed_next_run_at cfg now) (\<lambda>_. change (\<lambda>s. arm_timer now (s\<lparr>timer := None\<rparr>))))"

definition drop_workspace :: "sched_config \<Rightarrow> ms \<Rightarrow> string \<Rightarrow> sched \<Rightarrow> nat \<times> sched" where
  "drop_workspace cfg now ws s =
     (let gone = filter (\<lambda>(_, t). t_workspaceId t = Some ws) (definitions s);
          s1 = s\<lparr>definitions := filter (\<lambda>(_, t). t_workspaceId t \<noteq> Some ws) (definitions s)\<rparr>;
          s2 = snd (withdraw (left_queue cfg now)
                 (\<lambda>e. case akey (request e) of None \<Rightarrow> False
                      | Some k \<Rightarrow> starts_with (admission_key_prefix @ ws @ ''/'') k)
                 (WithReason workspace_deleted) s1)
      in if gone = [] then (0, s2)
         else (length gone, arm_timer now (s2\<lparr>timer := None\<rparr>)))"

definition settle_lost_run :: "ms \<Rightarrow> string \<Rightarrow> string \<Rightarrow> run_ticket \<Rightarrow> run_ticket action" where
  "settle_lost_run now ws owner ticket s =
     (if \<not> is_open_run (r_status (rt_run ticket)) \<or> is_run_open (rt_runId ticket) s then (Inr ticket, s)
      else
        let r = (ws, owner, rt_taskId ticket) in
        after (lifted (\<lambda>s. read_runs (files s) r no_options))
          (\<lambda>runs. case find (\<lambda>x. r_id x = rt_runId ticket) runs of
             Some recorded \<Rightarrow>
               (let settled = ticket\<lparr>rt_run := recorded\<rparr>
                in after (writing (\<lambda>f. save_run_ticket f ws owner settled))
                     (\<lambda>_. after (change (notify (RunRecorded owner))) (\<lambda>_. done_with settled)))
           | None \<Rightarrow>
               (let wasRunning = (r_status (rt_run ticket) = RunRunning);
                    run = (rt_run ticket)\<lparr>r_completedAt := Some now,
                       r_status := (if wasRunning then RunFailure else RunSkipped),
                       r_error := Some (if wasRunning
                          then ''The runtime stopped while this run was in flight, so it did not finish.''
                          else ''The runtime stopped before this queued run started.'')\<rparr>;
                    settled = ticket\<lparr>rt_run := run\<rparr>
                in after (writing (\<lambda>f. save_run_result f r (result_of_record run)))
                     (\<lambda>_. after (writing (\<lambda>f. append_run f r run))
                       (\<lambda>_. after (writing (\<lambda>f. save_run_ticket f ws owner settled))
                         (\<lambda>_. after (change (notify (RunRecorded owner))) (\<lambda>_. done_with settled)))))) s)"

definition new_scheduler :: "task_files \<Rightarrow> int option \<Rightarrow> int option \<Rightarrow> sched" where
  "new_scheduler f concurrent queuedRuns =
     pool.extend (create_run_admission concurrent queuedRuns)
       (sched.fields f [] [] [] {} None False [] [] [] 0 0 [])"

end
