(* ===== verification/Scheduler_Inv.thy ===== *)
theory Scheduler_Inv
  imports Scheduler
begin

text \<open>
  What the scheduler keeps in every state it can reach: it never leaks a run slot, never has two runs of
  one task holding slots, and its definitions stay under their own keys. The pool's part comes from
  \<open>Admission\<close>, whose contract and client invariant are interpreted here on the scheduler's callbacks.
\<close>

section \<open>Steps that leave the pool alone\<close>

definition same_pool :: "sched \<Rightarrow> sched \<Rightarrow> bool" where
  "same_pool s s' \<longleftrightarrow>
     maxConcurrentRuns s' = maxConcurrentRuns s \<and> maxQueuedRuns s' = maxQueuedRuns s \<and> leases s' = leases s \<and>
     runningKeys s' = runningKeys s \<and> heldByWorkspace s' = heldByWorkspace s \<and> queue s' = queue s \<and>
     stopped s' = stopped s \<and> draining s' = draining s \<and> releasedIds s' = releasedIds s \<and> nextId s' = nextId s"

definition defs_ok :: "sched \<Rightarrow> bool" where
  "defs_ok s \<longleftrightarrow> list_all (\<lambda>(k, t). k = key_of t) (definitions s) \<and> jmap_ok (definitions s)"

text \<open>A step that changes neither the pool nor the runs in flight.\<close>

definition quiet :: "sched \<Rightarrow> sched \<Rightarrow> bool" where
  "quiet s s' \<longleftrightarrow>
     same_pool s s' \<and> flights s' = flights s \<and> activeRuns s' = activeRuns s \<and>
     dispatches s' = dispatches s \<and> (defs_ok s \<longrightarrow> defs_ok s')"

named_theorems quiet_intros \<open>actions that leave the pool and the flights alone\<close>

definition quiet_action :: "'a action \<Rightarrow> bool" where
  "quiet_action m \<longleftrightarrow> (\<forall>s. quiet s (snd (m s)))"

lemma quiet_refl [simp]: "quiet s s"
  by (simp add: quiet_def same_pool_def)

lemma quiet_trans: "quiet s s' \<Longrightarrow> quiet s' s'' \<Longrightarrow> quiet s s''"
  by (simp add: quiet_def same_pool_def)

lemma quiet_done [quiet_intros]: "quiet_action (done_with x)"
  by (simp add: quiet_action_def done_with_def)

lemma quiet_throws [quiet_intros]: "quiet_action (throws e)"
  by (simp add: quiet_action_def throws_def)

lemma quiet_lifted [quiet_intros]: "quiet_action (lifted r)"
  by (simp add: quiet_action_def lifted_def)

lemma quiet_writing [quiet_intros]: "quiet_action (writing w)"
  by (simp add: quiet_action_def writing_def quiet_def same_pool_def defs_ok_def split: sum.split)

lemma quiet_after [quiet_intros]:
  assumes "quiet_action m" "\<And>x. quiet_action (k x)"
  shows "quiet_action (after m k)"
  unfolding quiet_action_def
proof
  fix s
  obtain r s' where m: "m s = (r, s')" by fastforce
  have "quiet s s'" using assms(1) m by (auto simp: quiet_action_def dest: spec [of _ s])
  then show "quiet s (snd (after m k s))"
    using assms(2) m quiet_trans by (cases r) (auto simp: after_def quiet_action_def)
qed

lemma quiet_catching [quiet_intros]:
  assumes "quiet_action m" "\<And>e. quiet_action (h e)"
  shows "quiet_action (catching m h)"
  unfolding quiet_action_def
proof
  fix s
  obtain r s' where m: "m s = (r, s')" by fastforce
  have "quiet s s'" using assms(1) m by (auto simp: quiet_action_def dest: spec [of _ s])
  then show "quiet s (snd (catching m h s))"
    using assms(2) m quiet_trans by (cases r) (auto simp: catching_def quiet_action_def)
qed

lemma quiet_each [quiet_intros]: "(\<And>x. x \<in> set xs \<Longrightarrow> quiet_action (f x)) \<Longrightarrow> quiet_action (each f xs)"
  by (induction xs) (auto intro!: quiet_intros)

lemma quiet_change: "(\<And>s. quiet s (g s)) \<Longrightarrow> quiet_action (change g)"
  by (simp add: quiet_action_def change_def)

lemma quiet_change_notify [quiet_intros]: "quiet_action (change (notify n))"
  by (rule quiet_change) (simp add: notify_def quiet_def same_pool_def defs_ok_def)

lemma defs_ok_jset:
  "list_all (\<lambda>(k, t). k = key_of t) m \<Longrightarrow> list_all (\<lambda>(k, t). k = key_of t) (jset (key_of t) t m)"
  by (induction "key_of t" t m rule: jset.induct) auto

lemma quiet_set_definition: "quiet s (set_definition t s)"
  by (simp add: set_definition_def quiet_def same_pool_def defs_ok_def defs_ok_jset)

lemma quiet_notify: "quiet s (notify n s)"
  by (simp add: notify_def quiet_def same_pool_def defs_ok_def)

lemma quiet_change_definition [quiet_intros]: "quiet_action (change (set_definition t))"
  by (rule quiet_change) (rule quiet_set_definition)

lemma quiet_if [quiet_intros]: "quiet_action m \<Longrightarrow> quiet_action n \<Longrightarrow> quiet_action (if b then m else n)"
  by simp

lemma quiet_option [quiet_intros]:
  "quiet_action m \<Longrightarrow> (\<And>x. quiet_action (k x)) \<Longrightarrow> quiet_action (case v of None \<Rightarrow> m | Some x \<Rightarrow> k x)"
  by (cases v) auto

lemma quiet_prod [quiet_intros]: "(\<And>x y. quiet_action (k x y)) \<Longrightarrow> quiet_action (case p of (x, y) \<Rightarrow> k x y)"
  by (cases p) auto

lemma quiet_let [quiet_intros]: "(\<And>x. quiet_action (k x)) \<Longrightarrow> quiet_action (let x = v in k x)"
  by simp

lemma quiet_run_recorded [quiet_intros]: "quiet_action (run_recorded t)"
  unfolding run_recorded_def by (intro quiet_intros)

lemma quiet_persist [quiet_intros]: "quiet_action (persist_task t)"
  unfolding persist_task_def by (intro quiet_intros)

lemma quiet_update_after_run [quiet_intros]:
  "quiet_action (update_after_run cfg now t run trigger fired d ap result)"
  unfolding update_after_run_def
  by (intro quiet_intros quiet_change)
    (auto simp: Let_def quiet_set_definition intro: quiet_trans quiet_set_definition quiet_notify split: option.split)

lemma quiet_write_ticket [quiet_intros]: "quiet_action (write_ticket ws owner i q run)"
  unfolding write_ticket_def by (intro quiet_intros)

lemma quiet_ticket_for [quiet_intros]: "quiet_action (ticket_for t rq run)"
  unfolding ticket_for_def by (intro quiet_intros)

lemma quiet_open_ticket [quiet_intros]: "quiet_action (open_ticket t rq)"
  unfolding open_ticket_def by (intro quiet_intros)

lemma quiet_record_key [quiet_intros]: "quiet_action (record_key cfg t rq)"
  unfolding record_key_def by (intro quiet_intros)

lemma quiet_write_not_started [quiet_intros]: "quiet_action (write_not_started t reason st now rq)"
  unfolding write_not_started_def by (intro quiet_intros)

lemma quiet_record_skipped [quiet_intros]: "quiet_action (record_skipped cfg now t reason trigger st rq)"
  unfolding record_skipped_def by (intro quiet_intros)

lemma quiet_record_missed_once [quiet_intros]: "quiet_action (record_missed_once t now)"
  unfolding record_missed_once_def by (intro quiet_intros)

lemma quiet_mark [quiet_intros]: "quiet_action (mark_scheduled_run_in_flight t mark)"
  unfolding mark_scheduled_run_in_flight_def
  by (intro quiet_intros quiet_change)
    (simp add: set_definition_def quiet_def same_pool_def defs_ok_def defs_ok_jset)

lemma quiet_not_started_for_key [quiet_intros]: "quiet_action (not_started_for_key now e reason st)"
  unfolding not_started_for_key_def by (auto intro!: quiet_intros simp: Let_def split: option.split list.split)

lemma quiet_execute_and_record [quiet_intros]: "quiet_action (execute_and_record cfg now fl outcome)"
  unfolding execute_and_record_def record_failure_def record_end_def
  by (auto intro!: quiet_intros simp: Let_def split: option.split early_end.split sum.split)

lemma quiet_actionD: "quiet_action m \<Longrightarrow> m s = (r, s') \<Longrightarrow> quiet s s'"
  by (metis quiet_action_def snd_conv)

lemma quiet_forget_open: "quiet s (forget_open rq s)"
  by (simp add: forget_open_def quiet_def same_pool_def defs_ok_def split: option.split)

lemma quiet_resolve_entry: "quiet s (snd rs) \<Longrightarrow> quiet s (resolve_entry e rs)"
  by (cases rs; cases "fst rs")
    (auto simp: resolve_entry_def intro: quiet_trans [OF quiet_trans] quiet_notify quiet_forget_open)

lemma quiet_left_queue: "quiet s (left_queue cfg now w reason s)"
proof (cases w)
  case (OwnRun e)
  have "quiet s (snd (m s))" if "quiet_action m" for m :: "task_run action"
    using that by (simp add: quiet_action_def)
  then show ?thesis using OwnRun
    by (auto simp: left_queue_def Let_def intro!: quiet_resolve_entry quiet_record_skipped quiet_not_started_for_key
        split: option.split)
qed (simp add: left_queue_def)

section \<open>Dispatch\<close>

lemma dispatch_run_effect:
  assumes "dispatch_run cfg now t trigger input l rq settles runKey batch fromQueue s = s'"
  shows "\<exists>fl. flights s' = flights s @ [fl] \<and> fl_lease fl = l \<and> fl_key fl = nullish runKey (key_of t) \<and>
    fl_task fl = t \<and> fl_dispatch fl = dispatches s \<and> dispatches s' = Suc (dispatches s) \<and> same_pool s s' \<and>
    fst ` set (activeRuns s') = insert (nullish runKey (key_of t)) (fst ` set (activeRuns s)) \<and>
    (defs_ok s \<longrightarrow> defs_ok s')"
proof -
  define s1 where "s1 = s\<lparr>dispatches := Suc (dispatches s), minted := (if rq = None then Suc (minted s) else minted s),
     activeRuns := jset (nullish runKey (key_of t)) \<lparr>ar_startedAt = now, ar_trigger = trigger,
       ar_runId = (case rq of Some q \<Rightarrow> rq_runId q | None \<Rightarrow> sc_mint cfg (minted s)),
       ar_dispatch = dispatches s\<rparr> (activeRuns s)\<rparr>"
  have s1: "same_pool s s1" "flights s1 = flights s" "dispatches s1 = Suc (dispatches s)" "defs_ok s1 = defs_ok s"
    "fst ` set (activeRuns s1) = insert (nullish runKey (key_of t)) (fst ` set (activeRuns s))"
    by (simp_all add: s1_def same_pool_def defs_ok_def keys_jset)
  have b: "quiet_action (before_executor t fl)" "quiet_action (mark_flight t fl)" for fl
    unfolding before_executor_def mark_flight_def by (intro quiet_intros)+
  show ?thesis
    using assms s1 unfolding dispatch_run_def Let_def s1_def [symmetric]
    by (auto split: prod.splits sum.splits simp: quiet_def same_pool_def defs_ok_def
        dest!: quiet_actionD [OF b(1)] quiet_actionD [OF b(2)])
qed

section \<open>The pool, through a quiet step\<close>

lemma same_pool_cong:
  assumes "same_pool s s'"
  shows "pool_inv s' = pool_inv s" "settled s' = settled s" "known l s' = known l s" "same_limits s s'"
    "queue_weight w s' = queue_weight w s"
  using assms by (auto simp: same_pool_def pool_inv_def settled_def known_def same_limits_def queue_weight_def)

lemma quiet_poolD: "quiet s s' \<Longrightarrow> same_pool s s'"
  by (simp add: quiet_def)

section \<open>The scheduler's own invariant\<close>

definition own_entry :: "sched_waiter admission_entry \<Rightarrow> bool" where
  "own_entry e =
     (case waiter e of
        OtherRun \<Rightarrow> \<not> is_own_key (akey (request e))
      | OwnRun q \<Rightarrow> request e = admission_of (nullish (q_runKey q) (q_key q)) \<and> (q_batch q \<longleftrightarrow> q_runKey q \<noteq> None))"

text \<open>
  Every lease under one of the scheduler's keys belongs to a run in flight, each run in flight has its
  lease under its own key, and no two runs in flight share a lease or a dispatch. \<open>X\<close> holds the leases
  granted to a run that is not in flight yet.
\<close>

definition flights_ok_but :: "admission_lease set \<Rightarrow> sched \<Rightarrow> bool" where
  "flights_ok_but X s \<longleftrightarrow>
     distinct (map fl_dispatch (flights s)) \<and> distinct (map (\<lambda>f. leaseId (fl_lease f)) (flights s)) \<and>
     (\<forall>f \<in> set (flights s). fl_dispatch f < dispatches s \<and> known (fl_lease f) s \<and>
        leaseRequest (fl_lease f) = admission_of (fl_key f)) \<and>
     (\<forall>l \<in> set (leases s). is_own_key (akey (leaseRequest l)) \<longrightarrow> l \<in> X \<or> l \<in> fl_lease ` set (flights s)) \<and>
     list_all own_entry (queue s) \<and> defs_ok s"

abbreviation flights_ok :: "sched \<Rightarrow> bool" where
  "flights_ok \<equiv> flights_ok_but {}"

lemma flights_ok_quiet: "quiet s s' \<Longrightarrow> flights_ok_but X s \<Longrightarrow> flights_ok_but X s'"
  by (auto simp: flights_ok_but_def quiet_def same_pool_def known_def)

lemma starts_with_append [simp]: "starts_with p (p @ s)"
  by (induction p) simp_all

lemma is_own_admission [simp]: "is_own_key (akey (admission_of k))"
  by (simp add: is_own_key_def admission_of_def)

lemma admission_of_inject: "akey (admission_of k) = akey (admission_of k') \<longleftrightarrow> k = k'"
  by (simp add: admission_of_def)

lemma known_less: "pool_inv s \<Longrightarrow> known l s \<Longrightarrow> leaseId l < nextId s"
  by (auto simp: known_def pool_inv_def)

section \<open>The scheduler's callbacks\<close>

definition dispatched :: "sched \<Rightarrow> sched \<Rightarrow> task \<Rightarrow> admission_lease \<Rightarrow> string \<Rightarrow> bool" where
  "dispatched s s' t l key \<longleftrightarrow>
     (\<exists>fl. flights s' = flights s @ [fl] \<and> fl_lease fl = l \<and> fl_key fl = key \<and> fl_task fl = t \<and>
       fl_dispatch fl = dispatches s \<and> dispatches s' = Suc (dispatches s) \<and> same_pool s s' \<and>
       fst ` set (activeRuns s') = insert key (fst ` set (activeRuns s)) \<and> (defs_ok s \<longrightarrow> defs_ok s'))"

lemma dispatch_run_dispatched:
  "dispatched s (dispatch_run cfg now t trigger input l rq settles runKey batch fromQueue s) t l
     (nullish runKey (key_of t))"
  unfolding dispatched_def by (rule dispatch_run_effect) (rule refl)

lemma defs_ok_lookup: "defs_ok s \<Longrightarrow> map_of (definitions s) k = Some t \<Longrightarrow> key_of t = k"
  by (auto simp: defs_ok_def list_all_iff dest: map_of_SomeD)

lemma quiet_resolve_action: "quiet_action m \<Longrightarrow> quiet s (resolve_entry e (m s))"
  by (rule quiet_resolve_entry) (simp add: quiet_action_def)

text \<open>What \<open>startQueued\<close> does to the pool and the flights: it frees the slot, or puts one run in flight.\<close>

lemma start_queued_cases:
  assumes "start_queued cfg now w l s = (s', threw)"
  obtains (other) "w = OtherRun" "s' = s" "\<not> threw"
  | (refused) q where "w = OwnRun q" "quiet (release_slot l s) s'" "\<not> threw"
  | (started) q t where "w = OwnRun q" "map_of (definitions s) (q_key q) = Some t" "\<not> threw"
      "dispatched s s' t l (nullish (if q_batch q then q_runKey q else None) (key_of t))"
proof (cases w)
  case OtherRun
  then show ?thesis using assms that(1) by (simp add: start_queued_def)
next
  case (OwnRun q)
  show ?thesis
  proof (cases "map_of (definitions s) (q_key q)")
    case None
    then have "quiet (release_slot l s) s'" "\<not> threw" using assms OwnRun
      by (auto simp: start_queued_def intro!: quiet_resolve_action quiet_intros)
    then show ?thesis using that(2) OwnRun by blast
  next
    case (Some t)
    have r: "quiet (release_slot l s)
      (resolve_entry q (record_skipped cfg now t reason g st rq (release_slot l s)))" for reason g st rq
      by (intro quiet_resolve_action quiet_intros)
    show ?thesis
    proof (cases "q_trigger q = TriggerEvent \<and> \<not> t_enabled t \<or>
        (if q_trigger q = TriggerManual \<and> \<not> q_batch q then run_now_budget_refusal (sc_host cfg) t now else None) \<noteq> None")
      case True
      then have "quiet (release_slot l s) s'" "\<not> threw" using assms OwnRun Some r
        by (auto simp: start_queued_def Let_def split: if_splits)
      then show ?thesis using that(2) OwnRun by blast
    next
      case False
      then have e: "s' = dispatch_run cfg now t (q_trigger q) (q_input q) l (q_requested q)
          (if q_trigger q = TriggerManual then SettlesAssessed else SettlesRecorded)
          (if q_batch q then q_runKey q else None) (q_batch q) True s" "\<not> threw"
        using assms OwnRun Some by (auto simp: start_queued_def Let_def split: if_splits)
      have "dispatched s s' t l (nullish (if q_batch q then q_runKey q else None) (key_of t))"
        unfolding e(1) by (rule dispatch_run_dispatched)
      then show ?thesis using that(3) [OF OwnRun Some e(2)] by blast
    qed
  qed
qed

interpretation waiters: waiter_contract "start_queued cfg now" "left_queue cfg now" for cfg now
proof unfold_locales
  fix p :: sched and l w p' threw
  assume p: "pool_inv p" "draining p" "l \<in> set (leases p)" and a: "start_queued cfg now w l p = (p', threw)"
  have l: "known l p" using p(3) by (simp add: known_def)
  from a show "pool_inv p' \<and> same_limits p p' \<and> known l p'"
  proof (cases rule: start_queued_cases)
    case (refused q)
    note sp = same_pool_cong [OF quiet_poolD [OF refused(2)]]
    have "pool_inv (release_slot l p)" "known l (release_slot l p)" "same_limits p (release_slot l p)"
      using release_slot_inv [OF p(1) l] known_release_slot [OF l l] by simp_all
    then show ?thesis using sp by (metis same_limits_trans)
  next
    case (started q t)
    then have "same_pool p p'" by (auto simp: dispatched_def)
    note sp = same_pool_cong [OF this]
    show ?thesis using p(1) l sp by blast
  qed (use p l in simp)
next
  fix p :: sched and w r
  assume "pool_inv p" "settled p"
  then show "pool_inv (left_queue cfg now w r p) \<and> settled (left_queue cfg now w r p) \<and>
      same_limits p (left_queue cfg now w r p)"
    using same_pool_cong [OF quiet_poolD [OF quiet_left_queue [of p cfg now w r]]] by simp
qed

interpretation returning: terminating_waiters "start_queued cfg now" "left_queue cfg now" "\<lambda>_. 0" for cfg now
proof unfold_locales
  fix w l and p :: sched and p' threw
  assume "start_queued cfg now w l p = (p', threw)"
  then show "queue_weight (\<lambda>_. 0) p' \<le> queue_weight (\<lambda>_. 0) p + 0"
    by (cases rule: start_queued_cases)
      (auto simp: queue_weight_def dispatched_def quiet_def same_pool_def)
qed

text \<open>As many turns as there are queued runs, and one, end the drain a release starts.\<close>

lemma release_lease_returns:
  assumes "pool_inv s" "known l s"
  shows "release (start_queued cfg now) (Suc (length (queue s))) l s = Some (release_lease cfg now l s)"
proof -
  have "queue_weight (\<lambda>_. 0) (release_slot l s) < Suc (length (queue s))"
    by (simp add: queue_weight_def sum_list_triv)
  then have "\<exists>q. drain (start_queued cfg now) (Suc (length (queue s))) (release_slot l s) = Some q"
    using returning.drain_returns release_slot_inv(1) [OF assms] by blast
  then obtain q where "release (start_queued cfg now) (Suc (length (queue s))) l s = Some q"
    by (cases "leaseId l \<in> releasedIds s") (auto simp: release_def)
  then show ?thesis by (simp add: release_lease_def nullish_def)
qed

section \<open>Slots and flights\<close>

lemma flights_ok_grant:
  assumes ok: "flights_ok s" and inv: "pool_inv s" and g: "grant r s = (l, s')"
  shows "flights_ok_but {l} s'" "\<And>f. f \<in> set (flights s') \<Longrightarrow> leaseId (fl_lease f) \<noteq> leaseId l"
proof -
  have s': "s' = s\<lparr>leases := leases s @ [l],
      runningKeys := (case akey r of None \<Rightarrow> runningKeys s | Some k \<Rightarrow> insert k (runningKeys s)),
      heldByWorkspace := (heldByWorkspace s)(workspaceId r \<mapsto> held s (workspaceId r) + 1),
      nextId := Suc (nextId s)\<rparr>"
    and l: "leaseId l = nextId s" using g by (auto simp: grant_def Let_def)
  show "flights_ok_but {l} s'" using ok by (auto simp: s' flights_ok_but_def known_def defs_ok_def)
  fix f
  assume "f \<in> set (flights s')"
  then have "leaseId (fl_lease f) < nextId s" using ok inv by (auto simp: s' flights_ok_but_def dest: known_less)
  then show "leaseId (fl_lease f) \<noteq> leaseId l" using l by simp
qed

lemma flights_ok_release_slot:
  assumes ok: "flights_ok_but {l} s" and inv: "pool_inv s" and l: "known l s"
  shows "flights_ok (release_slot l s)"
proof -
  have lid: "l' = l" if "l' \<in> set (leases s)" "leaseId l' = leaseId l" "leaseId l \<notin> releasedIds s" for l'
    using inv l that by (auto simp: pool_inv_def known_def distinct_map inj_on_def)
  have rel: "l \<notin> set (leases s)" if "leaseId l \<in> releasedIds s" using inv that by (auto simp: pool_inv_def)
  have fs: "flights (release_slot l s) = flights s" "dispatches (release_slot l s) = dispatches s"
    "definitions (release_slot l s) = definitions s"
    by (simp_all add: release_slot_def Let_def)
  have ls: "set (leases (release_slot l s)) = set (leases s) - {l}"
    using rel lid by (auto simp: release_slot_def Let_def)
  have k: "known l' (release_slot l s)" if "known l' s" for l'
    using known_release_slot [OF l that] .
  show ?thesis using ok k unfolding flights_ok_but_def fs ls release_slot_frame defs_ok_def by auto
qed

lemma flights_ok_dispatched:
  assumes ok: "flights_ok_but {l} s" and d: "dispatched s s' t l key" and k: "known l s"
    and r: "leaseRequest l = admission_of key"
    and fresh: "\<And>f. f \<in> set (flights s) \<Longrightarrow> leaseId (fl_lease f) \<noteq> leaseId l"
  shows "flights_ok s'"
proof -
  obtain fl where fl: "flights s' = flights s @ [fl]" "fl_lease fl = l" "fl_key fl = key"
    "fl_dispatch fl = dispatches s" "dispatches s' = Suc (dispatches s)" "same_pool s s'" "defs_ok s \<longrightarrow> defs_ok s'"
    using d by (auto simp: dispatched_def)
  have p: "leases s' = leases s" "queue s' = queue s" "known l' s' = known l' s" for l'
    using fl(6) same_pool_cong(3) [OF fl(6)] by (simp_all add: same_pool_def)
  have "dispatches s \<notin> fl_dispatch ` set (flights s)" "leaseId l \<notin> (\<lambda>f. leaseId (fl_lease f)) ` set (flights s)"
    using ok by (auto simp: flights_ok_but_def dest: fresh [THEN not_sym])
  then show ?thesis using ok k r fl(2,3,4,7)
    unfolding flights_ok_but_def fl(1,5) p by (auto simp: less_Suc_eq)
qed

lemma flights_ok_not_own:
  "flights_ok_but {l} s \<Longrightarrow> \<not> is_own_key (akey (leaseRequest l)) \<Longrightarrow> flights_ok s"
  by (auto simp: flights_ok_but_def)

lemma flights_ok_drain_step:
  assumes inv: "pool_inv s" and m: "may_admit s" and ok: "flights_ok s"
  shows "flights_ok (drain_step (start_queued cfg now) s)"
proof -
  let ?i = "next_index s"
  let ?e = "queue s ! ?i"
  let ?s0 = "s\<lparr>queue := splice_out ?i (queue s)\<rparr>"
  have i: "?i < length (queue s)" using next_index_fair(1) inv m by (auto simp: may_admit_def)
  obtain l s1 where g: "grant (request ?e) ?s0 = (l, s1)" by fastforce
  obtain s2 threw where a: "start_queued cfg now (waiter ?e) l s1 = (s2, threw)" by fastforce
  have e: "own_entry ?e" using ok i by (auto simp: flights_ok_but_def list_all_iff)
  have "set (splice_out ?i (queue s)) \<subseteq> set (queue s)" by (rule set_splice_out_subset)
  then have ok0: "flights_ok ?s0" using ok by (auto simp: flights_ok_but_def list_all_iff known_def defs_ok_def)
  note inv0 = pool_inv_remove_queue(1) [OF inv i]
  note ok1 = flights_ok_grant [OF ok0 inv0 g]
  have inv1: "pool_inv s1"
    using grant_inv(1) [OF inv0 g] pool_inv_remove_queue(2) [OF inv i] m by (auto simp: may_admit_def)
  have l: "known l s1" "leaseRequest l = request ?e" "map_of (definitions s1) = map_of (definitions s)" "defs_ok s1"
    using grant_facts [OF g] ok1(1) g by (auto simp: known_def flights_ok_but_def grant_def Let_def)
  from a have "\<not> threw \<and> flights_ok s2"
  proof (cases rule: start_queued_cases)
    case other
    then show ?thesis using ok1(1) e l(2) by (auto simp: own_entry_def intro: flights_ok_not_own)
  next
    case (refused q)
    then show ?thesis using flights_ok_quiet flights_ok_release_slot [OF ok1(1) inv1 l(1)] by blast
  next
    case (started q t)
    have "key_of t = q_key q" using defs_ok_lookup [OF l(4) started(2)] .
    then have "leaseRequest l = admission_of (nullish (if q_batch q then q_runKey q else None) (key_of t))"
      using e l(2) started(1) by (auto simp: own_entry_def)
    then show ?thesis using flights_ok_dispatched [OF ok1(1) started(4) l(1)] ok1(2) started(3) by blast
  qed
  moreover have "drain_step (start_queued cfg now) s = (if threw then release_slot l s2 else s2)"
    by (simp add: drain_step_def Let_def g a)
  ultimately show ?thesis by simp
qed

interpretation slots: client_invariant "start_queued cfg now" "left_queue cfg now" flights_ok for cfg now
proof unfold_locales
  fix p :: sched and w r
  assume "flights_ok p"
  then show "flights_ok (left_queue cfg now w r p)" using flights_ok_quiet quiet_left_queue by blast
qed (auto simp: flights_ok_drain_step, auto simp: flights_ok_but_def known_def defs_ok_def list_all_iff)

end
