(* ===== verification/Scheduler_Steps.thy ===== *)
theory Scheduler_Steps
  imports Scheduler_Inv
begin

text \<open>
  The scheduler as a state machine: every call the rest of the program makes on it, the ends of its runs,
  the other users of its pool and outside changes to the task files, in any order. Its invariant holds in
  every state they reach, so run slots are never leaked, and a tick starts exactly the due tasks that fit.
\<close>

section \<open>The invariant\<close>

definition sched_inv :: "sched \<Rightarrow> bool" where
  "sched_inv s \<longleftrightarrow> pool_inv s \<and> settled s \<and> \<not> draining s \<and> flights_ok s"

named_theorems keeps_inv \<open>operations that keep the scheduler's invariant\<close>

lemma sched_inv_quiet: "quiet s s' \<Longrightarrow> sched_inv s \<Longrightarrow> sched_inv s'"
  using same_pool_cong [OF quiet_poolD] flights_ok_quiet
  by (auto simp: sched_inv_def) (auto simp: quiet_def same_pool_def)

lemma sched_inv_action: "quiet_action m \<Longrightarrow> m s = (r, s') \<Longrightarrow> sched_inv s \<Longrightarrow> sched_inv s'"
  using sched_inv_quiet quiet_actionD by blast

lemma pool_fields_of_sched [simp]:
  "pool_inv (s\<lparr>files := a\<rparr>) = pool_inv s" "pool_inv (s\<lparr>definitions := b\<rparr>) = pool_inv s"
  "pool_inv (s\<lparr>timer := c\<rparr>) = pool_inv s" "pool_inv (s\<lparr>activeRuns := d\<rparr>) = pool_inv s"
  "pool_inv (s\<lparr>running := e\<rparr>) = pool_inv s" "pool_inv (s\<lparr>flights := f\<rparr>) = pool_inv s"
  "settled (s\<lparr>files := a\<rparr>) = settled s" "settled (s\<lparr>definitions := b\<rparr>) = settled s"
  "settled (s\<lparr>timer := c\<rparr>) = settled s" "settled (s\<lparr>activeRuns := d\<rparr>) = settled s"
  "settled (s\<lparr>running := e\<rparr>) = settled s" "settled (s\<lparr>flights := f\<rparr>) = settled s"
  for s :: sched
  by (simp_all add: pool_inv_def settled_def)

text \<open>
  Every release keeps the invariant: by an executor as its run ends, when a run's record is written, or by
  another user of the pool.
\<close>

lemma release_lease_inv:
  assumes inv: "pool_inv s" "settled s" "\<not> draining s" and ok: "flights_ok_but {l} s" and l: "known l s"
  shows "sched_inv (release_lease cfg now l s)"
proof -
  note r = release_lease_returns [OF inv(1) l, of cfg now]
  have "flights_ok s" if "leaseId l \<in> releasedIds s"
    using ok inv(1) that by (auto simp: flights_ok_but_def pool_inv_def)
  then have "flights_ok (release_lease cfg now l s)"
    using slots.release_I [OF r inv(1) l] flights_ok_release_slot [OF ok inv(1) l] by blast
  then show ?thesis
    using waiters.release_keeps [OF r inv(1,2) l] inv(3) by (auto simp: sched_inv_def same_limits_def)
qed

lemma flights_ok_weaken: "flights_ok s \<Longrightarrow> flights_ok_but X s"
  by (auto simp: flights_ok_but_def)

lemma withdraw_inv:
  assumes "sched_inv s" "withdraw (left_queue cfg now) m r s = (n, s')"
  shows "sched_inv s'"
  using waiters.withdraw_keeps [OF assms(2)] slots.withdraw_I [OF assms(2)] assms(1)
  by (auto simp: sched_inv_def same_limits_def)

lemma cancel_inv: "sched_inv s \<Longrightarrow> sched_inv (snd (cancel (left_queue cfg now) k r s))"
  by (auto simp: cancel_def split: prod.splits intro: withdraw_inv)

lemma sched_inv_abort: "sched_inv (abort_dispatch d s) = sched_inv s"
proof -
  let ?g = "\<lambda>f :: flight. if fl_dispatch f = d then f\<lparr>fl_aborted := True\<rparr> else f"
  have m: "map fl_dispatch (map ?g fs) = map fl_dispatch fs" "map (\<lambda>f. leaseId (fl_lease f)) (map ?g fs) =
      map (\<lambda>f. leaseId (fl_lease f)) fs" "fl_lease ` set (map ?g fs) = fl_lease ` set fs"
    "list_all P (map ?g fs) = list_all P fs" if "\<And>f. P (?g f) = P f" for fs P
    using that by (induction fs) auto
  define Q where "Q f \<longleftrightarrow> fl_dispatch f < dispatches s \<and> known (fl_lease f) s \<and>
      leaseRequest (fl_lease f) = admission_of (fl_key f)" for f :: flight
  have Q: "Q (?g f) = Q f" for f by (simp add: Q_def)
  have f: "flights_ok_but {} t \<longleftrightarrow> distinct (map fl_dispatch (flights t)) \<and>
      distinct (map (\<lambda>f. leaseId (fl_lease f)) (flights t)) \<and> list_all Q (flights t) \<and>
      (\<forall>l \<in> set (leases s). is_own_key (akey (leaseRequest l)) \<longrightarrow> l \<in> fl_lease ` set (flights t)) \<and>
      list_all own_entry (queue s) \<and> defs_ok s"
    if "dispatches t = dispatches s" "\<And>l. known l t = known l s" "leases t = leases s" "queue t = queue s"
      "defs_ok t = defs_ok s" for t
    unfolding flights_ok_but_def that list_all_iff Q_def by simp
  have a: "flights (abort_dispatch d s) = map ?g (flights s)" "dispatches (abort_dispatch d s) = dispatches s"
    "known l (abort_dispatch d s) = known l s" "leases (abort_dispatch d s) = leases s"
    "queue (abort_dispatch d s) = queue s" "defs_ok (abort_dispatch d s) = defs_ok s" for l
    by (simp_all add: abort_dispatch_def known_def defs_ok_def)
  have "flights_ok (abort_dispatch d s) = flights_ok s"
    unfolding f [OF refl refl refl refl refl] f [OF a(2-6)] a(1) m [where P = Q, OF Q] ..
  then show ?thesis by (simp add: sched_inv_def abort_dispatch_def settled_def pool_inv_def)
qed

section \<open>Admission\<close>

lemma admit_cases:
  assumes inv: "sched_inv s" and a: "admit key trigger input rq runKey s = (ticket, s')"
  obtains (refused) why where "ticket = TicketRefused why" "s' = s"
  | (admitted) l where "ticket = TicketAdmitted l" "pool_inv s'" "settled s'" "\<not> draining s'" "known l s'"
      "flights_ok_but {l} s'" "leaseRequest l = admission_of (nullish runKey key)"
      "\<And>f. f \<in> set (flights s') \<Longrightarrow> leaseId (fl_lease f) \<noteq> leaseId l"
      "definitions s' = definitions s" "length (leases s') = Suc (length (leases s))"
  | (queued) n where "ticket = TicketQueued n" "sched_inv s'" "definitions s' = definitions s"
      "length (leases s') = length (leases s)"
proof -
  have r: "request_slot (admission_of (nullish runKey key))
      (Some (OwnRun \<lparr>q_key = key, q_runKey = runKey, q_batch = (runKey \<noteq> None), q_trigger = trigger,
                      q_input = input, q_requested = rq\<rparr>)) s = (ticket, s')"
    using a by (simp add: admit_def)
  have p: "pool_inv s" "settled s" "\<not> draining s" "flights_ok s" using inv by (simp_all add: sched_inv_def)
  have p': "pool_inv s'" "settled s'" "\<not> draining s'"
    using request_slot_inv [OF p(1) r] request_slot_settled [OF p(2) r] request_slot_frame(1) [OF r] p(3) by simp_all
  show ?thesis
  proof (cases ticket)
    case (TicketRefused why)
    then have "s' = s" using r by (auto simp: request_slot_def Let_def split: option.splits if_splits prod.splits)
    then show ?thesis using that(1) TicketRefused by blast
  next
    case (TicketAdmitted l)
    then have g: "grant (admission_of (nullish runKey key)) s = (l, s')"
      using r by (auto simp: request_slot_def Let_def split: option.splits if_splits prod.splits)
    note f = grant_facts [OF g] and ok = flights_ok_grant [OF p(4,1) g]
    have d: "definitions s' = definitions s" using g by (auto simp: grant_def Let_def)
    show ?thesis
      by (rule that(2) [OF TicketAdmitted p' _ ok(1) f(2) ok(2) d]) (use f in \<open>simp_all add: known_def\<close>)
  next
    case (TicketQueued n)
    then have s': "s' = s\<lparr>queue := queue s @ [\<lparr>entryId = nextId s, request = admission_of (nullish runKey key),
          waiter = OwnRun \<lparr>q_key = key, q_runKey = runKey, q_batch = (runKey \<noteq> None), q_trigger = trigger,
                      q_input = input, q_requested = rq\<rparr>\<rparr>], nextId := Suc (nextId s)\<rparr>"
      using r by (auto simp: request_slot_def Let_def split: option.splits if_splits prod.splits)
    have "flights_ok s'" using p(4) by (auto simp: s' flights_ok_but_def known_def defs_ok_def own_entry_def)
    then show ?thesis using that(3) [OF TicketQueued] p' by (simp add: sched_inv_def s')
  qed
qed

lemma dispatch_inv:
  assumes s: "pool_inv s" "settled s" "\<not> draining s" "known l s" "flights_ok_but {l} s"
    and r: "leaseRequest l = admission_of key"
    and fresh: "\<And>f. f \<in> set (flights s) \<Longrightarrow> leaseId (fl_lease f) \<noteq> leaseId l"
    and k: "key = nullish runKey (key_of t)"
  shows "sched_inv (dispatch_run cfg now t trigger input l rq settles runKey batch fromQueue s)"
proof -
  let ?s' = "dispatch_run cfg now t trigger input l rq settles runKey batch fromQueue s"
  have d: "dispatched s ?s' t l key" unfolding k by (rule dispatch_run_dispatched)
  then have sp: "same_pool s ?s'" by (auto simp: dispatched_def)
  have "\<not> draining ?s'" using sp s(3) by (simp add: same_pool_def)
  then show ?thesis
    using flights_ok_dispatched [OF s(5) d s(4) r fresh] same_pool_cong [OF sp] s by (simp add: sched_inv_def)
qed

text \<open>What a quiet step keeps of a run that is admitted but not in flight yet.\<close>

lemma dispatch_after_quiet:
  assumes s: "pool_inv s" "settled s" "\<not> draining s" "known l s" "flights_ok_but {l} s"
    and r: "leaseRequest l = admission_of key" "key = nullish runKey (key_of t)"
    and fresh: "\<And>f. f \<in> set (flights s) \<Longrightarrow> leaseId (fl_lease f) \<noteq> leaseId l"
    and q: "quiet s s'"
  shows "sched_inv (dispatch_run cfg now t trigger input l rq settles runKey batch fromQueue s')"
proof -
  note sp = same_pool_cong [OF quiet_poolD [OF q]]
  have "\<not> draining s'" "flights s' = flights s" using q s(3) by (simp_all add: quiet_def same_pool_def)
  then show ?thesis
    using s sp fresh flights_ok_quiet [OF q s(5)] by (intro dispatch_inv [OF _ _ _ _ _ r(1) _ r(2)]) simp_all
qed

lemma quiet_track_open: "quiet s (track_open key rq s)"
  by (simp add: track_open_def quiet_def same_pool_def defs_ok_def split: option.split)

lemma key_of_found:
  assumes "sched_inv s" "map_of (definitions s) k = Some t"
  shows "key_of t = k"
  using assms defs_ok_lookup by (auto simp: sched_inv_def flights_ok_but_def)

section \<open>Asking for a run\<close>

lemma after_cases:
  assumes "after m k s = (r, s')"
  obtains (threw) e where "m s = (Inl e, s')" "r = Inl e"
  | (went_on) x s1 where "m s = (Inr x, s1)" "k x s1 = (r, s')"
  using assms by (auto simp: after_def split: prod.splits sum.splits)

text \<open>
  A request that throws after it was given a slot loses the slot; whoever else throws keeps the invariant.
\<close>

definition slot_kept :: "(task_error + 'a) \<Rightarrow> sched \<Rightarrow> sched \<Rightarrow> bool" where
  "slot_kept r s s' \<longleftrightarrow> (\<exists>x. r = Inr x) \<or> length (leases s') = length (leases s)"

lemma start_admitted:
  assumes s: "pool_inv s" "settled s" "\<not> draining s" "known l s" "flights_ok_but {l} s"
    and r: "leaseRequest l = admission_of key" "key = nullish runKey (key_of t)"
    and fresh: "\<And>f. f \<in> set (flights s) \<Longrightarrow> leaseId (fl_lease f) \<noteq> leaseId l"
    and m: "quiet_action m"
    and a: "after m (\<lambda>_ s3. (Inr (y s3), track_open k rq'
              (dispatch_run cfg now t trigger input l rq settles runKey batch fromQueue s3))) s = (res, s')"
    and kept: "(\<exists>x. res = Inr x) \<or> length (leases s') \<noteq> length (leases s)"
  shows "sched_inv s'"
  using a
proof (cases rule: after_cases)
  case (threw e)
  then have "leases s' = leases s" using quiet_actionD [OF m] by (simp add: quiet_def same_pool_def)
  then show ?thesis using kept threw by simp
next
  case (went_on x s3)
  have "quiet s s3" using quiet_actionD [OF m went_on(1)] .
  then have "sched_inv (dispatch_run cfg now t trigger input l rq settles runKey batch fromQueue s3)"
    using dispatch_after_quiet [OF s r fresh] by blast
  then show ?thesis using went_on(2) sched_inv_quiet [OF quiet_track_open] by auto
qed

lemma queue_admitted:
  assumes "sched_inv s" "quiet_action m" "after m (\<lambda>_ s3. (Inr y, track_open k rq s3)) s = (res, s')"
  shows "sched_inv s'"
  using assms(3)
proof (cases rule: after_cases)
  case (threw e)
  then show ?thesis using sched_inv_action assms by blast
next
  case (went_on x s1)
  then show ?thesis using sched_inv_action [OF assms(2) went_on(1)] sched_inv_quiet [OF quiet_track_open] assms(1)
    by auto
qed

lemma quiet_requested: "quiet_action (case rq of None \<Rightarrow> done_with () | Some q \<Rightarrow> open_ticket t q)"
  "quiet_action (case rq of None \<Rightarrow> done_with () | Some q \<Rightarrow> record_key cfg t q)"
  by (intro quiet_intros)+

lemma request_run_now_inv:
  assumes inv: "sched_inv s" and a: "request_run_now cfg now ws owner taskId rq s = (r, s')"
    and kept: "slot_kept r s s' \<or> map_option rq_idempotencyKey rq = Some None"
  shows "sched_inv s'"
proof (cases "map_of (definitions s) (key_for ws owner taskId)")
  case None
  then show ?thesis using a inv by (simp add: request_run_now_def)
next
  case (Some t)
  let ?key = "key_for ws owner taskId"
  have key: "?key = nullish None (key_of t)" using key_of_found [OF inv Some] by simp
  define refuse where "refuse reason = after (record_skipped cfg now t reason (Some TriggerManual) RunSkipped rq)
    (\<lambda>run. done_with (Some (RunNowRefused run)))" for reason
  have refuse: "quiet_action (refuse reason)" for reason unfolding refuse_def by (intro quiet_intros)
  define rest where "rest s1 =
    (if \<not> running s1 then refuse stopped_reason s1
     else case duplicate_of ?key s1 of
       Some d \<Rightarrow> refuse (duplicate_text d @ '' (runNow)'') s1
     | None \<Rightarrow>
         (case run_now_budget_refusal (sc_host cfg) t now of
            Some budget \<Rightarrow> refuse budget s1
          | None \<Rightarrow>
              (case admit ?key TriggerManual (requested_input rq) rq None s1 of
                 (TicketRefused why, s2) \<Rightarrow> refuse (refusal_reason why ''runNow'' s2) s2
               | (TicketAdmitted l, s2) \<Rightarrow>
                   after (case rq of None \<Rightarrow> done_with () | Some q \<Rightarrow> record_key cfg t q)
                     (\<lambda>_ s3. (Inr (Some (RunNowStarted (dispatches s3))), track_open ?key rq
                          (dispatch_run cfg now t TriggerManual (requested_input rq) l rq SettlesAssessed
                             None False False s3))) s2
               | (TicketQueued n, s2) \<Rightarrow>
                   after (case rq of None \<Rightarrow> done_with () | Some q \<Rightarrow> record_key cfg t q)
                     (\<lambda>_ s3. (Inr (Some (RunNowQueued n)), track_open ?key rq s3)) s2)))" for s1
  have "after (case rq of None \<Rightarrow> done_with () | Some q \<Rightarrow> open_ticket t q) (\<lambda>_. rest) s = (r, s')"
    using a Some unfolding request_run_now_def rest_def refuse_def Let_def by simp
  then show ?thesis
  proof (cases rule: after_cases)
    case (threw e)
    then show ?thesis using sched_inv_action [OF quiet_requested(1)] inv by blast
  next
    case (went_on x s1)
    have q1: "quiet s s1" using quiet_actionD [OF quiet_requested(1) went_on(1)] .
    have inv1: "sched_inv s1" using sched_inv_quiet [OF q1 inv] .
    have l1: "leases s1 = leases s" using q1 by (simp add: quiet_def same_pool_def)
    have ref: "refuse reason s2 = (r, s') \<Longrightarrow> sched_inv s2 \<Longrightarrow> sched_inv s'" for reason s2
      using sched_inv_action [OF refuse] by blast
    consider (plain) reason where "refuse reason s1 = (r, s')"
      | (asked) ticket s2 where "admit ?key TriggerManual (requested_input rq) rq None s1 = (ticket, s2)"
          "rest s1 = (case ticket of
               TicketRefused why \<Rightarrow> refuse (refusal_reason why ''runNow'' s2) s2
             | TicketAdmitted l \<Rightarrow>
                   after (case rq of None \<Rightarrow> done_with () | Some q \<Rightarrow> record_key cfg t q)
                     (\<lambda>_ s3. (Inr (Some (RunNowStarted (dispatches s3))), track_open ?key rq
                          (dispatch_run cfg now t TriggerManual (requested_input rq) l rq SettlesAssessed
                             None False False s3))) s2
             | TicketQueued n \<Rightarrow>
                   after (case rq of None \<Rightarrow> done_with () | Some q \<Rightarrow> record_key cfg t q)
                     (\<lambda>_ s3. (Inr (Some (RunNowQueued n)), track_open ?key rq s3)) s2)"
      using went_on(2) unfolding rest_def
      by (cases "admit ?key TriggerManual (requested_input rq) rq None s1")
        (auto split: if_splits option.splits admission_ticket.splits)
    then show ?thesis
    proof cases
      case plain
      then show ?thesis using ref inv1 by blast
    next
      case (asked ticket s2)
      note r = went_on(2) [unfolded asked(2)]
      from inv1 asked(1) show ?thesis
      proof (cases rule: admit_cases)
        case (refused why)
        then show ?thesis using r ref inv1 by simp
      next
        case (admitted l)
        have "\<exists>x. r = Inr x" if "map_option rq_idempotencyKey rq = Some None"
          using r that admitted(1) by (auto simp: record_key_def after_def done_with_def split: option.splits prod.splits)
        then have "(\<exists>x. r = Inr x) \<or> length (leases s') \<noteq> length (leases s2)"
          using kept admitted(10) l1 by (auto simp: slot_kept_def)
        then show ?thesis
          using start_admitted [OF admitted(2-6) _ key admitted(8) quiet_requested(2)] r admitted(1,7) by simp
      next
        case (queued n)
        then show ?thesis using queue_admitted [OF queued(2) quiet_requested(2)] r by simp
      qed
    qed
  qed
qed

lemma request_batch_run_inv:
  assumes inv: "sched_inv s" and a: "request_batch_run cfg now ws owner taskId rq s = (r, s')"
    and kept: "slot_kept r s s'"
  shows "sched_inv s'"
proof (cases "map_of (definitions s) (key_for ws owner taskId)")
  case None
  then show ?thesis using a inv by (simp add: request_batch_run_def)
next
  case (Some t)
  let ?key = "key_for ws owner taskId"
  let ?runKey = "?key @ ''#'' @ rq_runId rq"
  obtain ticket s1 where adm: "admit ?key TriggerManual (requested_input (Some rq)) (Some rq) (Some ?runKey) s = (ticket, s1)"
    by fastforce
  show ?thesis
  proof (cases "\<not> running s \<or> run_now_budget_refusal (sc_host cfg) t now \<noteq> None")
    case True
    then have "s' = s" using a Some by (auto simp: request_batch_run_def Let_def split: if_splits)
    then show ?thesis using inv by simp
  next
    case False
    then have r: "(case ticket of
          TicketRefused why \<Rightarrow>
            (if why = RefStopped then (Inr (BatchRunRefused BatchStopped stopped_reason), s1)
             else (Inr (BatchRunRefused BatchQueueFull (refusal_reason why ''runNow'' s1)), s1))
        | TicketAdmitted l \<Rightarrow>
            after (open_ticket t rq)
              (\<lambda>_ s2. (Inr (BatchRunStartedT (dispatches s2)), track_open ?runKey (Some rq)
                 (dispatch_run cfg now t TriggerManual (requested_input (Some rq)) l (Some rq)
                    SettlesAssessed (Some ?runKey) True False s2))) s1
        | TicketQueued n \<Rightarrow>
            after (open_ticket t rq) (\<lambda>_ s2. (Inr BatchRunQueued, track_open ?runKey (Some rq) s2)) s1) = (r, s')"
      using a Some adm by (auto simp: request_batch_run_def Let_def split: admission_ticket.splits)
    from inv adm show ?thesis
    proof (cases rule: admit_cases)
      case (refused why)
      then show ?thesis using r inv by (simp split: if_splits)
    next
      case (admitted l)
      have "(\<exists>x. r = Inr x) \<or> length (leases s') \<noteq> length (leases s1)"
        using kept admitted(10) by (auto simp: slot_kept_def)
      then show ?thesis
        using r [unfolded admitted(1) admission_ticket.case]
          start_admitted [where runKey = "Some ?runKey" and key = ?runKey, OF admitted(2-6) _ _ admitted(8) quiet_open_ticket]
          admitted(7) by simp
    next
      case (queued n)
      then show ?thesis using queue_admitted [OF queued(2) quiet_open_ticket] r by simp
    qed
  qed
qed

lemma run_from_event_inv:
  assumes inv: "sched_inv s" and a: "run_from_event cfg now ws owner taskId input s = (r, s')"
  shows "sched_inv s'"
proof (cases "map_of (definitions s) (key_for ws owner taskId)")
  case None
  then show ?thesis using a inv by (simp add: run_from_event_def)
next
  case (Some t)
  let ?key = "key_for ws owner taskId"
  have key: "?key = nullish None (key_of t)" using key_of_found [OF inv Some] by simp
  obtain ticket s1 where adm: "admit ?key TriggerEvent (Some input) None None s = (ticket, s1)" by fastforce
  consider (same) "s' = s" | (duplicate) d where "duplicate_of ?key s = Some d"
      "after (record_skipped cfg now t (duplicate_text d @ '' (event)'') (Some TriggerEvent) RunSkipped None)
         (\<lambda>_. done_with (EventSkipped (event_duplicate_answer d))) s = (r, s')"
    | (asked) "(case ticket of
          TicketAdmitted l \<Rightarrow>
            (Inr (EventStarted (dispatches s1)),
             dispatch_run cfg now t TriggerEvent (Some input) l None SettlesRecorded None False False s1)
        | TicketRefused why \<Rightarrow>
            after (record_skipped cfg now t (refusal_reason why ''event'' s1) (Some TriggerEvent) RunSkipped None)
              (\<lambda>_ s2. (Inr (EventSkipped (event_refusal_answer why s2)), s2)) s1
        | TicketQueued n \<Rightarrow> (Inr (EventQueued n), s1)) = (r, s')"
    using a Some adm
    by (auto simp: run_from_event_def Let_def split: if_splits option.splits admission_ticket.splits)
  then show ?thesis
  proof cases
    case same
    then show ?thesis using inv by simp
  next
    case duplicate
    have "quiet_action (after (record_skipped cfg now t (duplicate_text d @ '' (event)'') (Some TriggerEvent) RunSkipped None)
         (\<lambda>_. done_with (EventSkipped (event_duplicate_answer d))))"
      by (intro quiet_intros)
    then show ?thesis using sched_inv_action duplicate(2) inv by blast
  next
    case asked
    from inv adm show ?thesis
    proof (cases rule: admit_cases)
      case (refused why)
      have "quiet_action (after (record_skipped cfg now t (refusal_reason why ''event'' s1) (Some TriggerEvent) RunSkipped None)
              (\<lambda>_ s2. (Inr (EventSkipped (event_refusal_answer why s2)), s2)))"
        by (intro quiet_intros) (simp add: quiet_action_def)
      then show ?thesis using sched_inv_action inv asked refused by simp
    next
      case (admitted l)
      then show ?thesis using asked dispatch_inv [OF admitted(2-6) _ admitted(8) key] by auto
    next
      case (queued n)
      then show ?thesis using asked by simp
    qed
  qed
qed

section \<open>A tick\<close>

text \<open>The tasks a tick at \<open>now\<close> may start, and the slots it may start them in.\<close>

definition may_start :: "ms \<Rightarrow> sched \<Rightarrow> task \<Rightarrow> bool" where
  "may_start now s t \<longleftrightarrow>
     t_enabled t \<and> is_due t now \<and> \<not> is_in_backoff t now \<and> duplicate_of (key_of t) s \<noteq> Some AlreadyRunning"

definition free_slots :: "sched \<Rightarrow> nat" where
  "free_slots s =
     (if stopped s \<or> queue s \<noteq> [] then 0 else nat (maxConcurrentRuns s - int (length (leases s))))"

lemma free_slots_pos: "0 < free_slots s \<longleftrightarrow> has_free_slot s"
  by (auto simp: free_slots_def has_free_slot_def)

lemma already_running:
  "duplicate_of k s = Some AlreadyRunning \<longleftrightarrow> k \<in> fst ` set (activeRuns s) \<or> admission_key_prefix @ k \<in> runningKeys s"
  by (simp add: duplicate_of_def Let_def is_running_def)

lemma quiet_view:
  assumes "quiet s s'"
  shows "free_slots s' = free_slots s" "may_start now s' = may_start now s" "flights s' = flights s"
  using assms by (auto simp: quiet_def same_pool_def free_slots_def may_start_def already_running fun_eq_iff)

lemma request_without_waiter:
  assumes inv: "sched_inv s" and d: "duplicate_of (key_of t) s \<noteq> Some AlreadyRunning"
    and r: "request_slot (admission_of (key_of t)) None s = (ticket, s1)"
  obtains (admitted) l where "has_free_slot s" "ticket = TicketAdmitted l" "grant (admission_of (key_of t)) s = (l, s1)"
  | (busy) why where "\<not> has_free_slot s" "ticket = TicketRefused why" "s1 = s"
proof -
  have k: "akey (admission_of (key_of t)) = Some (admission_key_prefix @ key_of t)" by (simp add: admission_of_def)
  have n: "admission_key_prefix @ key_of t \<notin> runningKeys s" using d by (simp add: already_running)
  have "refusal_for (admission_of (key_of t)) s = None" if "has_free_slot s"
    using that n by (auto simp: refusal_for_def k has_free_slot_def)
  then show ?thesis using that r
    by (cases "has_free_slot s")
      (auto simp: request_slot_def Let_def split: option.splits prod.splits)
qed

lemma consider_cases:
  assumes inv: "sched_inv s" and c: "consider_for_dispatch cfg now t s = (r, s')"
  obtains (passed) "quiet s s'" "\<And>d. r \<noteq> Inr (Some d)" "\<not> (may_start now s t \<and> has_free_slot s)"
  | (started) l s1 where "may_start now s t" "has_free_slot s" "grant (admission_of (key_of t)) s = (l, s1)"
      "dispatched s1 s' t l (key_of t)" "r = Inr (Some (dispatches s))"
proof (cases "may_start now s t")
  case False
  show ?thesis
  proof (rule that(1))
    have q: "quiet_action (after (record_skipped cfg now t ''Previous run still active'' None RunSkipped None) (\<lambda>_. done_with None))"
      for k :: "nat option"
      by (intro quiet_intros)
    show "quiet s s'" using c False quiet_actionD [OF q]
      by (auto simp: consider_for_dispatch_def may_start_def split: if_splits)
    show "r \<noteq> Inr (Some d)" for d using c False
      by (auto simp: consider_for_dispatch_def may_start_def after_def done_with_def split: if_splits prod.splits sum.splits)
  qed (use False in simp)
next
  case True
  then have d: "duplicate_of (key_of t) s \<noteq> Some AlreadyRunning" by (simp add: may_start_def)
  obtain ticket s1 where r: "request_slot (admission_of (key_of t)) None s = (ticket, s1)" by fastforce
  have c': "(case ticket of
      TicketAdmitted l \<Rightarrow>
        (Inr (Some (dispatches s1)), dispatch_run cfg now t TriggerScheduled None l None SettlesRecorded None False False s1)
    | _ \<Rightarrow> (Inr None, s1)) = (r, s')"
    using c True r by (auto simp: consider_for_dispatch_def may_start_def split: admission_ticket.splits)
  from inv d r show ?thesis
  proof (cases rule: request_without_waiter)
    case (admitted l)
    have "dispatches s1 = dispatches s" using admitted(3) by (auto simp: grant_def Let_def)
    moreover have "dispatched s1 s' t l (nullish None (key_of t))"
      using c' admitted(2) dispatch_run_dispatched [where runKey = None] by auto
    ultimately show ?thesis using that(2) [OF True admitted(1,3)] c' admitted(2) by auto
  next
    case (busy why)
    then show ?thesis using c' True by (intro that(1)) auto
  qed
qed

lemma sched_inv_started:
  assumes inv: "sched_inv s" and free: "has_free_slot s" and m: "may_start now s t"
    and g: "grant (admission_of (key_of t)) s = (l, s1)" and d: "dispatched s1 s' t l (key_of t)"
  shows "sched_inv s'" "free_slots s' = free_slots s - 1"
    "may_start now s' t' = (may_start now s t' \<and> key_of t' \<noteq> key_of t)"
    "\<exists>fl. flights s' = flights s @ [fl] \<and> fl_task fl = t"
proof -
  have p: "pool_inv s" "settled s" "\<not> draining s" "flights_ok s" using inv by (simp_all add: sched_inv_def)
  have sp: "same_pool s1 s'" using d by (auto simp: dispatched_def)
  note f = grant_facts [OF g] and ok = flights_ok_grant [OF p(4,1) g] and c = same_pool_cong [OF sp]
  have q: "queue s = []" "\<not> stopped s" "int (length (leases s)) < maxConcurrentRuns s"
    using free by (simp_all add: has_free_slot_def)
  have n: "admission_key_prefix @ key_of t \<notin> runningKeys s" using m by (simp add: may_start_def already_running)
  have inv1: "pool_inv s1" "settled s1"
    using grant_inv(1) [OF p(1) g q(3)] n q(1) f(4) by (auto simp: admission_of_def settled_def)
  have "flights_ok s'" using flights_ok_dispatched [OF ok(1) d _ f(2) ok(2)] f(1) by (simp add: known_def)
  then show "sched_inv s'" using c inv1 sp f(6) p(3) by (simp add: sched_inv_def same_pool_def)
  show "free_slots s' = free_slots s - 1" using sp f q by (simp add: free_slots_def same_pool_def)
  have g': "flights s1 = flights s" "activeRuns s1 = activeRuns s"
    "runningKeys s1 = insert (admission_key_prefix @ key_of t) (runningKeys s)"
    using g by (auto simp: grant_def Let_def admission_of_def)
  then show "\<exists>fl. flights s' = flights s @ [fl] \<and> fl_task fl = t" using d by (auto simp: dispatched_def)
  have "fst ` set (activeRuns s') = insert (key_of t) (fst ` set (activeRuns s))"
    "runningKeys s' = insert (admission_key_prefix @ key_of t) (runningKeys s)"
    using d g' by (auto simp: dispatched_def same_pool_def)
  then show "may_start now s' t' = (may_start now s t' \<and> key_of t' \<noteq> key_of t)"
    by (auto simp: may_start_def already_running)
qed

lemma sched_inv_jdelete:
  "sched_inv s \<Longrightarrow> sched_inv (s\<lparr>definitions := jdelete k (definitions s)\<rparr>)"
  by (auto simp: sched_inv_def flights_ok_but_def known_def defs_ok_def jdelete_def [of k "definitions s"] list_all_iff
      jmap_ok_jdelete [unfolded jdelete_def])

lemma view_definitions:
  "free_slots (s\<lparr>definitions := ds\<rparr>) = free_slots s" "may_start now (s\<lparr>definitions := ds\<rparr>) = may_start now s"
  by (auto simp: free_slots_def may_start_def already_running)

lemma sweep_starts:
  "\<lbrakk>fold (sweep_task cfg now) ts (ids, s) = (ids', s'); sched_inv s; distinct (map key_of ts)\<rbrakk> \<Longrightarrow>
     sched_inv s' \<and> (\<exists>fs. flights s' = flights s @ fs \<and> map fl_task fs = take (free_slots s) (filter (may_start now s) ts))"
proof (induction ts arbitrary: ids s)
  case (Cons t ts)
  obtain r s1 where c: "consider_for_dispatch cfg now t s = (r, s1)" by fastforce
  obtain ids2 s2 where sw: "sweep_task cfg now t (ids, s) = (ids2, s2)" by fastforce
  have rest: "fold (sweep_task cfg now) ts (ids2, s2) = (ids', s')" using Cons.prems(1) sw by simp
  from Cons.prems(2) c show ?case
  proof (cases rule: consider_cases)
    case passed
    have "s2 = s1 \<or> s2 = s1\<lparr>definitions := jdelete (key_of t) (definitions s1)\<rparr>"
      using sw c by (auto simp: sweep_task_def split: sum.splits option.splits if_splits)
    then have s2: "sched_inv s2" "free_slots s2 = free_slots s" "may_start now s2 = may_start now s" "flights s2 = flights s"
      using sched_inv_quiet [OF passed(1) Cons.prems(2)] sched_inv_jdelete quiet_view [OF passed(1)]
        view_definitions [where s = s1] by auto
    have "free_slots s = 0" if "may_start now s t" using passed(3) that free_slots_pos [of s] by auto
    then have "take (free_slots s) (filter (may_start now s) (t # ts)) = take (free_slots s) (filter (may_start now s) ts)"
      by auto
    then show ?thesis using Cons.IH [OF rest s2(1)] Cons.prems(3) s2 by simp
  next
    case (started l s0)
    note st = sched_inv_started [OF Cons.prems(2) started(2,1,3,4)]
    have s2: "s2 = s1" using sw c started(5) by (simp add: sweep_task_def)
    obtain fl where fl: "flights s1 = flights s @ [fl]" "fl_task fl = t" using st(4) by blast
    have k: "key_of t' \<noteq> key_of t" if "t' \<in> set ts" for t' using Cons.prems(3) that by (auto simp: image_iff)
    have "filter (may_start now s1) ts = filter (may_start now s) ts"
      by (rule filter_cong) (use st(3) k in auto)
    moreover obtain fs where fs: "sched_inv s'" "flights s' = flights s1 @ fs"
      "map fl_task fs = take (free_slots s1) (filter (may_start now s1) ts)"
      using Cons.IH [OF rest [unfolded s2] st(1)] Cons.prems(3) by auto
    moreover have "0 < free_slots s" using started(2) by (simp add: free_slots_pos)
    ultimately have "map fl_task (fl # fs) = take (free_slots s) (filter (may_start now s) (t # ts))"
      using fl(2) started(1) st(2) by (simp add: take_Cons')
    then show ?thesis using fs(1,2) fl(1) by (metis append.assoc append_Cons append_Nil)
  qed
qed simp

lemma sched_inv_timer [simp]: "sched_inv (s\<lparr>timer := x\<rparr>) = sched_inv s" "sched_inv (s\<lparr>ticks := y\<rparr>) = sched_inv s"
  by (simp_all add: sched_inv_def flights_ok_but_def known_def defs_ok_def pool_inv_def settled_def)

lemma arm_timer_inv [simp]: "sched_inv (arm_timer now s) = sched_inv s" "flights (arm_timer now s) = flights s"
  by (simp_all add: arm_timer_def)

lemma distinct_task_keys:
  assumes "sched_inv s"
  shows "distinct (map key_of (by_next_run_at (map snd (definitions s))))"
proof -
  have d: "defs_ok s" using assms by (simp add: sched_inv_def flights_ok_but_def)
  then have "map key_of (map snd (definitions s)) = map fst (definitions s)"
    by (auto simp: defs_ok_def list_all_iff)
  then have "distinct (map key_of (map snd (definitions s)))" using d by (simp add: defs_ok_def jmap_ok_def del: map_map)
  moreover have "mset (map key_of (by_next_run_at ts)) = mset (map key_of ts)" for ts
    by (simp add: by_next_run_at_def)
  ultimately show ?thesis using mset_eq_imp_distinct_iff by blast
qed

lemma on_timer_starts:
  assumes "sched_inv s" "running s"
  shows "sched_inv (on_timer cfg now s)"
    "\<exists>fs. flights (on_timer cfg now s) = flights s @ fs \<and>
       map fl_task fs = take (free_slots s) (filter (may_start now s) (by_next_run_at (map snd (definitions s))))"
proof -
  obtain ids s1 where f: "fold (sweep_task cfg now) (by_next_run_at (map snd (definitions s))) ([], s) = (ids, s1)"
    by fastforce
  note sw = sweep_starts [OF f assms(1) distinct_task_keys [OF assms(1)]]
  have "on_timer cfg now s = (if ids = [] then arm_timer now s1 else s1\<lparr>ticks := ticks s1 @ [ids]\<rparr>)"
    using assms(2) f by (simp add: on_timer_def)
  then show "sched_inv (on_timer cfg now s)"
    "\<exists>fs. flights (on_timer cfg now s) = flights s @ fs \<and>
       map fl_task fs = take (free_slots s) (filter (may_start now s) (by_next_run_at (map snd (definitions s))))"
    using sw by auto
qed

section \<open>The end of a run, and its assessment\<close>

lemma quiet_forget_notify: "quiet s (settle_flight fl r s)"
  by (auto simp: settle_flight_def Let_def intro: quiet_trans quiet_forget_open quiet_notify split: sum.split)

lemma quiet_fields:
  "quiet s (s\<lparr>pendingAssessments := a\<rparr>)" "quiet s (s\<lparr>minted := n\<rparr>)" "quiet s (s\<lparr>ticks := y\<rparr>)"
  "quiet s (s\<lparr>timer := x\<rparr>)" "quiet s (s\<lparr>files := f\<rparr>)" "quiet s (s\<lparr>running := b\<rparr>)"
  "quiet s (s\<lparr>openRuns := o'\<rparr>)" "quiet s (s\<lparr>scheduledInFlight := i\<rparr>)"
  by (simp_all add: quiet_def same_pool_def defs_ok_def)

lemma quiet_assess_recorded: "quiet s (assess_recorded cfg fl run s)"
  by (auto simp: assess_recorded_def Let_def quiet_forget_notify quiet_fields
      intro: quiet_trans [OF quiet_fields(1) quiet_forget_notify])

lemma sched_inv_end_tick [simp]: "sched_inv (end_tick now d s) = sched_inv s"
  by (simp add: end_tick_def Let_def)

lemma finish_flight_inv:
  assumes inv: "sched_inv s" and fl: "fl \<in> set (flights s)"
  shows "sched_inv (finish_flight cfg now fl outcome s)"
proof -
  obtain r s1 where e: "execute_and_record cfg now fl outcome s = (r, s1)" by fastforce
  have q: "quiet s s1" using quiet_actionD [OF quiet_execute_and_record e] .
  have inv1: "sched_inv s1" using sched_inv_quiet [OF q inv] .
  have fl1: "fl \<in> set (flights s1)" using q fl by (simp add: quiet_def)
  define s2 where "s2 = s1\<lparr>activeRuns := jdelete (fl_key fl) (activeRuns s1),
                  scheduledInFlight := scheduledInFlight s1 - {fl_runId fl},
                  flights := filter (\<lambda>f. fl_dispatch f \<noteq> fl_dispatch fl) (flights s1)\<rparr>"
  have ok1: "flights_ok s1" "pool_inv s1" "settled s1" "\<not> draining s1" using inv1 by (simp_all add: sched_inv_def)
  have one: "f = fl" if "f \<in> set (flights s1)" "fl_dispatch f = fl_dispatch fl" for f
    using ok1(1) that fl1 by (auto simp: flights_ok_but_def distinct_map inj_on_def)
  have own: "l = fl_lease fl \<or> l \<in> fl_lease ` set (flights s2)" if "l \<in> fl_lease ` set (flights s1)" for l
    using one that by (auto simp: s2_def)
  have d: "distinct (map fl_dispatch (flights s2))" "distinct (map (\<lambda>f. leaseId (fl_lease f)) (flights s2))"
    using ok1(1) by (simp_all add: s2_def flights_ok_but_def distinct_map_filter)
  have f2: "set (flights s2) \<subseteq> set (flights s1)" "dispatches s2 = dispatches s1"
    "known l s2 = known l s1" "leases s2 = leases s1" "queue s2 = queue s1" "defs_ok s2 = defs_ok s1" for l
    by (auto simp: s2_def known_def defs_ok_def)
  have ok2: "flights_ok_but {fl_lease fl} s2"
    unfolding flights_ok_but_def f2
  proof (intro conjI d ballI impI)
    fix l
    assume "l \<in> set (leases s1)" "is_own_key (akey (leaseRequest l))"
    then have "l \<in> fl_lease ` set (flights s1)" using ok1(1) by (auto simp: flights_ok_but_def)
    then show "l \<in> {fl_lease fl} \<or> l \<in> fl_lease ` set (flights s2)" using own by blast
  qed (use ok1(1) f2(1) in \<open>auto simp: flights_ok_but_def\<close>)
  have p2: "pool_inv s2" "settled s2" "\<not> draining s2" "known (fl_lease fl) s2"
    using ok1 fl1 by (auto simp: s2_def pool_inv_def settled_def known_def flights_ok_but_def)
  have inv3: "sched_inv (release_lease cfg now (fl_lease fl) s2)" using release_lease_inv [OF p2(1-3) ok2 p2(4)] .
  have "finish_flight cfg now fl outcome s = end_tick now (fl_dispatch fl)
      (case r of Inl e \<Rightarrow> settle_flight fl (Inl e) (release_lease cfg now (fl_lease fl) s2)
       | Inr run \<Rightarrow> assess_recorded cfg fl run (release_lease cfg now (fl_lease fl) s2))"
    unfolding finish_flight_def e s2_def Let_def by simp
  then show ?thesis
    using inv3 sched_inv_quiet [OF quiet_forget_notify] sched_inv_quiet [OF quiet_assess_recorded]
    by (simp split: sum.split)
qed

lemma quiet_record_assessment [quiet_intros]: "quiet_action (record_assessment t run a)"
  by (auto simp: quiet_action_def record_assessment_def quiet_fields
      intro: quiet_trans [OF quiet_fields(5) quiet_notify] split: option.split sum.split prod.split)

lemma retry_run_inv:
  assumes "retry_run cfg now t run a s = (r, s')" "sched_inv s"
  shows "sched_inv s'"
proof (cases "place_of t")
  case None
  then show ?thesis using assms by (simp add: retry_run_def)
next
  case (Some p)
  obtain ws owner where p: "p = (ws, owner)" by fastforce
  let ?s = "s\<lparr>minted := Suc (minted s)\<rparr>"
  let ?rq = "\<lparr>rq_runId = sc_mint cfg (minted s), rq_requestedAt = now, rq_input = r_input run,
     rq_idempotencyKey = None, rq_retryOf = Some (r_id run),
     rq_guidance = Some (retry_guidance t (r_id run) a), rq_batch = None\<rparr>"
  obtain r1 s1 where n: "request_run_now cfg now ws owner (t_id t) (Some ?rq) ?s = (r1, s1)" by fastforce
  have "sched_inv ?s" using sched_inv_quiet [OF quiet_fields(2)] assms(2) by blast
  then have "sched_inv s1" using request_run_now_inv [OF _ n] by simp
  moreover have "s' = s1" using assms(1) Some p n
    by (auto simp: retry_run_def Let_def after_def done_with_def split: sum.splits)
  ultimately show ?thesis by simp
qed

lemma after_assessed_inv:
  assumes "after_assessed cfg now t run s = (r, s')" "sched_inv s"
  shows "sched_inv s'"
proof (cases "r_assessment run")
  case (Some a)
  show ?thesis
  proof (cases "as_verdict a \<noteq> VerdictFail \<or> truthy (r_batchId run)
      \<or> nullish (t_onPoorResult t) default_on_poor_result = PoorRecord")
    case False
    define b where "b \<longleftrightarrow> nullish (t_onPoorResult t) default_on_poor_result = PoorRetryOnce \<and> \<not> truthy (r_retryOf run)"
    from False Some assms(1) have "after (if b then retry_run cfg now t run a else done_with False)
        (\<lambda>retried. if retried then done_with () else change (notify (PoorResultNotice t run))) s = (r, s')"
      by (simp add: after_assessed_def b_def)
    then show ?thesis
    proof (cases rule: after_cases)
      case (threw e)
      then show ?thesis using retry_run_inv [OF _ assms(2)] assms(2) by (cases b) (auto simp: done_with_def)
    next
      case (went_on x s1)
      have "sched_inv s1" using went_on(1) retry_run_inv [OF _ assms(2)] assms(2)
        by (cases b) (auto simp: done_with_def)
      moreover have "quiet_action (if x then done_with () else change (notify (PoorResultNotice t run)))"
        by (intro quiet_intros)
      ultimately show ?thesis using went_on(2) sched_inv_action by blast
    qed
  qed (use assms Some in \<open>auto simp: after_assessed_def done_with_def\<close>)
qed (use assms in \<open>simp add: after_assessed_def done_with_def\<close>)

lemma settle_assessment_inv:
  assumes inv: "sched_inv s"
  shows "sched_inv (settle_assessment cfg now runId assessment s)"
proof (cases "map_of (pendingAssessments s) runId")
  case (Some pa)
  define m where "m = (case assessment of
       None \<Rightarrow> (Inr (pa_run pa), s)
     | Some a \<Rightarrow>
         after (record_assessment (pa_task pa) (r_id (pa_run pa)) a)
           (\<lambda>u. let run = nullish u ((pa_run pa)\<lparr>r_assessment := Some a\<rparr>)
                in after (after_assessed cfg now (pa_task pa) run) (\<lambda>_. done_with run)) s)"
  obtain r s1 where m1: "m = (r, s1)" by fastforce
  have inv1: "sched_inv s1"
  proof (cases assessment)
    case None
    then show ?thesis using m1 inv by (simp add: m_def)
  next
    case (Some a)
    then have "after (record_assessment (pa_task pa) (r_id (pa_run pa)) a)
        (\<lambda>u. let run = nullish u ((pa_run pa)\<lparr>r_assessment := Some a\<rparr>)
             in after (after_assessed cfg now (pa_task pa) run) (\<lambda>_. done_with run)) s = (r, s1)"
      using m1 by (simp add: m_def)
    then show ?thesis
    proof (cases rule: after_cases)
      case (threw e)
      then show ?thesis using sched_inv_action [OF quiet_record_assessment _ inv] by blast
    next
      case (went_on u s2)
      have "sched_inv s2" using went_on(1) sched_inv_action [OF quiet_record_assessment _ inv] by blast
      then show ?thesis using went_on(2) after_assessed_inv
        by (auto simp: Let_def after_def done_with_def split: prod.splits sum.splits)
    qed
  qed
  define s2 where "s2 = s1\<lparr>pendingAssessments := jdelete runId (pendingAssessments s1)\<rparr>"
  have "sched_inv s2" unfolding s2_def using sched_inv_quiet [OF quiet_fields(1) inv1] .
  moreover have "quiet s2 (settle_assessment cfg now runId assessment s)"
    using Some m1 [unfolded m_def] by (auto simp: settle_assessment_def Let_def s2_def [symmetric]
        intro: quiet_forget_open quiet_trans [OF quiet_forget_open quiet_notify])
  ultimately show ?thesis using sched_inv_quiet by blast
qed (use inv in \<open>simp add: settle_assessment_def\<close>)

section \<open>Cancelling, starting, stopping\<close>

lemma cancel_key_inv: "sched_inv s \<Longrightarrow> sched_inv (snd (cancel_key cfg now key s))"
  by (auto simp: cancel_key_def sched_inv_abort intro: cancel_inv split: option.split)

lemma cancel_run_by_id_inv: "sched_inv s \<Longrightarrow> sched_inv (snd (cancel_run_by_id cfg now ws owner runId s))"
  by (auto simp: cancel_run_by_id_def cancel_key_inv split: option.split prod.split)

lemma withdraw_queued_run_inv: "sched_inv s \<Longrightarrow> sched_inv (snd (withdraw_queued_run cfg now ws owner runId s))"
  by (auto simp: withdraw_queued_run_def cancel_inv split: option.split)

lemma load_all_ok: "list_all (\<lambda>(k, t). k = key_of t) (load_all f) \<and> jmap_ok (load_all f)"
proof -
  have "list_all (\<lambda>(k, t). k = key_of t) m \<and> jmap_ok m \<Longrightarrow>
      list_all (\<lambda>(k, t). k = key_of t) (fold (\<lambda>t m. jset (key_of t) t m) ts m) \<and>
      jmap_ok (fold (\<lambda>t m. jset (key_of t) t m) ts m)" for ts m
    by (induction ts arbitrary: m) (auto simp: defs_ok_jset)
  then show ?thesis by (simp add: load_all_def)
qed

lemma quiet_loading:
  "quiet s (s\<lparr>definitions := load_all f\<rparr>)" "quiet s (s\<lparr>running := b, definitions := load_all f\<rparr>)"
  using load_all_ok by (simp_all add: quiet_def same_pool_def defs_ok_def)

lemma quiet_arm_timer: "quiet s (arm_timer now s)"
  by (simp add: arm_timer_def quiet_fields)

lemma key_of_set_next_run_at [simp]: "key_of (set_next_run_at t n) = key_of t"
  by (simp add: set_next_run_at_def key_of_def)

lemma key_of_reconcile [simp]: "key_of (fst (reconcile_next_run_at cfg now t)) = key_of t"
  by (simp add: reconcile_next_run_at_def Let_def)

lemma quiet_seed [quiet_intros]: "quiet_action (seed_next_run_at cfg now)"
  unfolding quiet_action_def
proof
  fix s :: sched
  let ?swept = "map (\<lambda>(k, t). (k, reconcile_next_run_at cfg now t)) (definitions s)"
  let ?s = "s\<lparr>definitions := map (\<lambda>(k, t, _). (k, t)) ?swept\<rparr>"
  have d: "map (\<lambda>(k, t, _). (k, t)) ?swept = map (\<lambda>(k, t). (k, fst (reconcile_next_run_at cfg now t))) (definitions s)"
    by (auto split: prod.split)
  have "quiet s ?s" unfolding d
    by (auto simp: quiet_def same_pool_def defs_ok_def list_all_iff jmap_ok_def split_def comp_def)
  moreover have "quiet_action (each persist_task ts)" for ts by (intro quiet_intros)
  ultimately show "quiet s (snd (seed_next_run_at cfg now s))"
    using quiet_trans by (simp add: seed_next_run_at_def Let_def quiet_action_def)
qed

lemma quiet_settle_interrupted_run [quiet_intros]: "quiet_action (settle_interrupted_run cfg now t)"
proof -
  have "quiet_action (after (lifted (\<lambda>s. read_runs (files s) (ws, owner, t_id t) no_options))
      (\<lambda>runs. let recorded = find (\<lambda>r. r_id r = sf_runId mark) runs;
                  run = nullish recorded (interrupted_record now t mark)
              in after (update_after_run cfg now t run (Some TriggerScheduled) (sf_onceAt mark) None
                          (recorded = None) None)
                   (\<lambda>_. run_recorded t)))" for ws owner mark
    by (intro quiet_intros)
  then show ?thesis unfolding quiet_action_def settle_interrupted_run_def by (simp split: option.split)
qed

lemma quiet_ignoring [quiet_intros]: "quiet_action m \<Longrightarrow> quiet_action (ignoring m)"
  unfolding ignoring_def by (intro quiet_intros)

lemma quiet_settle_interrupted_runs [quiet_intros]: "quiet_action (settle_interrupted_runs cfg now)"
proof -
  have "quiet_action (each (\<lambda>t. ignoring (settle_interrupted_run cfg now t)) ts)" for ts
    by (intro quiet_intros)
  then show ?thesis by (simp add: quiet_action_def settle_interrupted_runs_def)
qed

lemma quiet_retire_onces [quiet_intros]: "quiet_action (retire_onces_missed_while_down now)"
proof -
  have "quiet_action (each (\<lambda>t. if once_missed_while_down t now then ignoring (record_missed_once t now)
      else done_with ()) ts)" for ts
    by (intro quiet_intros)
  then show ?thesis by (simp add: quiet_action_def retire_onces_missed_while_down_def)
qed

lemma quiet_start [quiet_intros]: "quiet_action (start_scheduler cfg now)"
proof -
  have "quiet_action (after (change (\<lambda>s. s\<lparr>running := True, definitions := load_all (files s)\<rparr>))
        (\<lambda>_. after (settle_interrupted_runs cfg now)
          (\<lambda>_. after (retire_onces_missed_while_down now)
            (\<lambda>_. after (seed_next_run_at cfg now) (\<lambda>_. change (arm_timer now))))))"
    by (intro quiet_intros quiet_change quiet_loading quiet_arm_timer)
  then show ?thesis by (simp add: quiet_action_def start_scheduler_def)
qed

lemma quiet_reload [quiet_intros]: "quiet_action (reload cfg now)"
  unfolding reload_def
  by (intro quiet_intros quiet_change quiet_loading quiet_trans [OF quiet_fields(4) quiet_arm_timer])

lemma quiet_guard: "quiet_action m \<Longrightarrow> quiet_action (\<lambda>s. if b s then (r, s) else m s)"
  by (simp add: quiet_action_def)

lemma quiet_settle_lost [quiet_intros]: "quiet_action (settle_lost_run now ws owner ticket)"
  unfolding settle_lost_run_def [abs_def] Let_def by (rule quiet_guard) (intro quiet_intros)

lemma sched_inv_activeRuns [simp]: "sched_inv (s\<lparr>activeRuns := a\<rparr>) = sched_inv s"
  by (simp add: sched_inv_def flights_ok_but_def known_def defs_ok_def pool_inv_def settled_def)

lemma stop_scheduler_inv:
  assumes "sched_inv s"
  shows "sched_inv (stop_scheduler cfg now s)"
proof -
  let ?s1 = "s\<lparr>running := False, timer := None\<rparr>"
  have "sched_inv ?s1" using sched_inv_quiet [OF quiet_fields(6) assms] by simp
  then have w: "sched_inv (snd (withdraw (left_queue cfg now) m r ?s1))" for m r
    using withdraw_inv [of ?s1] by (metis prod.collapse)
  have "sched_inv s' \<Longrightarrow> sched_inv (fold (\<lambda>(_, r). abort_dispatch (ar_dispatch r)) rs s')"
    for rs :: "(string \<times> active_run) list" and s'
    by (induction rs arbitrary: s') (auto simp: sched_inv_abort)
  then show ?thesis using w by (simp add: stop_scheduler_def Let_def)
qed

lemma drop_workspace_inv:
  assumes "sched_inv s"
  shows "sched_inv (snd (drop_workspace cfg now ws s))"
proof -
  let ?s1 = "s\<lparr>definitions := filter (\<lambda>(_, t). t_workspaceId t \<noteq> Some ws) (definitions s)\<rparr>"
  have "quiet s ?s1"
    by (auto simp: quiet_def same_pool_def defs_ok_def list_all_iff jmap_ok_def distinct_map_filter)
  then have "sched_inv ?s1" using sched_inv_quiet assms by blast
  then have "sched_inv (snd (withdraw (left_queue cfg now) m r ?s1))" for m r
    using withdraw_inv [of ?s1] by (metis prod.collapse)
  then show ?thesis by (simp add: drop_workspace_def Let_def)
qed

section \<open>The scheduler as a state machine\<close>

text \<open>
  One call, in any order: the runs asked for (a request that throws has not been granted a slot, see
  \<open>sched_step.run_now\<close> and \<open>batch_run\<close>), a tick, the end of a run in flight or its executor freeing the
  slot first, an assessment, cancelling, the lifecycle calls, other users of the pool under keys that are
  not the scheduler's, a withdrawal from the queue, and any change to the files from outside.
\<close>

inductive sched_step :: "sched_config \<Rightarrow> sched \<Rightarrow> sched \<Rightarrow> bool" for cfg where
  run_now: "\<lbrakk>request_run_now cfg now ws owner taskId rq s = (r, s'); slot_kept r s s'\<rbrakk> \<Longrightarrow> sched_step cfg s s'"
| batch_run: "\<lbrakk>request_batch_run cfg now ws owner taskId q s = (b, s'); slot_kept b s s'\<rbrakk> \<Longrightarrow> sched_step cfg s s'"
| event_run: "run_from_event cfg now ws owner taskId input s = (a, s') \<Longrightarrow> sched_step cfg s s'"
| tick: "running s \<Longrightarrow> sched_step cfg s (on_timer cfg now s)"
| run_ends: "fl \<in> set (flights s) \<Longrightarrow> sched_step cfg s (finish_flight cfg now fl outcome s)"
| slot_freed: "fl \<in> set (flights s) \<Longrightarrow> sched_step cfg s (release_lease cfg now (fl_lease fl) s)"
| assessed: "sched_step cfg s (settle_assessment cfg now runId assessment s)"
| cancelled: "sched_step cfg s (snd (cancel_run cfg now ws owner taskId s))"
| cancelled_id: "sched_step cfg s (snd (cancel_run_by_id cfg now ws owner runId s))"
| batch_paused: "sched_step cfg s (snd (withdraw_queued_run cfg now ws owner runId s))"
| started: "sched_step cfg s (snd (start_scheduler cfg now s))"
| stopping: "sched_step cfg s (stop_scheduler cfg now s)"
| reloaded: "sched_step cfg s (snd (reload cfg now s))"
| dropped: "sched_step cfg s (snd (drop_workspace cfg now ws s))"
| settled_lost: "sched_step cfg s (snd (settle_lost_run now ws owner tk s))"
| other_request: "\<lbrakk>\<not> is_own_key (akey q); w = None \<or> w = Some OtherRun; request_slot q w s = (ticket, s')\<rbrakk>
    \<Longrightarrow> sched_step cfg s s'"
| other_release: "\<lbrakk>known l s; \<not> is_own_key (akey (leaseRequest l))\<rbrakk> \<Longrightarrow> sched_step cfg s (release_lease cfg now l s)"
| other_withdraw: "sched_step cfg s (snd (withdraw (left_queue cfg now) m reason s))"
| pool_stop: "sched_step cfg s (stop (left_queue cfg now) s)"
| files_change: "sched_step cfg s (s\<lparr>files := f\<rparr>)"

inductive sched_reachable :: "sched_config \<Rightarrow> int option \<Rightarrow> int option \<Rightarrow> sched \<Rightarrow> bool" for cfg c q where
  fresh: "sched_reachable cfg c q (new_scheduler f c q)"
| steps: "\<lbrakk>sched_reachable cfg c q s; sched_step cfg s s'\<rbrakk> \<Longrightarrow> sched_reachable cfg c q s'"

inductive_cases sched_stepE: "sched_step cfg s s'"

lemma other_request_inv:
  assumes inv: "sched_inv s" and q: "\<not> is_own_key (akey q)" and w: "w = None \<or> w = Some OtherRun"
    and r: "request_slot q w s = (ticket, s')"
  shows "sched_inv s'"
proof -
  have p: "pool_inv s" "settled s" "\<not> draining s" "flights_ok s" using inv by (simp_all add: sched_inv_def)
  have "flights_ok s'"
  proof (cases ticket)
    case (TicketRefused why)
    then have "s' = s" using r by (auto simp: request_slot_def Let_def split: option.splits if_splits prod.splits)
    then show ?thesis using p(4) by simp
  next
    case (TicketAdmitted l)
    then have g: "grant q s = (l, s')"
      using r by (auto simp: request_slot_def Let_def split: option.splits if_splits prod.splits)
    show ?thesis using flights_ok_not_own flights_ok_grant(1) [OF p(4,1) g] grant_facts(2) [OF g] q by blast
  next
    case (TicketQueued n)
    then have s': "s' = s\<lparr>queue := queue s @ [\<lparr>entryId = nextId s, request = q, waiter = OtherRun\<rparr>], nextId := Suc (nextId s)\<rparr>"
      using r w by (auto simp: request_slot_def Let_def split: option.splits if_splits prod.splits)
    then show ?thesis using p(4) q by (auto simp: s' flights_ok_but_def known_def defs_ok_def own_entry_def)
  qed
  then show ?thesis
    using request_slot_inv [OF p(1) r] request_slot_settled [OF p(2) r] request_slot_frame(1) [OF r] p(3)
    by (simp add: sched_inv_def)
qed

lemma pool_stop_inv:
  assumes "sched_inv s"
  shows "sched_inv (stop (left_queue cfg now) s)"
proof -
  let ?s = "s\<lparr>stopped := True\<rparr>"
  have "sched_inv ?s" using assms
    by (simp add: sched_inv_def flights_ok_but_def known_def defs_ok_def settled_def)
  then show ?thesis using withdraw_inv [of ?s cfg now "\<lambda>_. True" WithStopped] by (metis stop_def prod.collapse)
qed

lemma sched_inv_snd: "quiet_action m \<Longrightarrow> sched_inv s \<Longrightarrow> sched_inv (snd (m s))"
  using sched_inv_quiet by (auto simp: quiet_action_def)

lemma sched_step_inv: "sched_step cfg s s' \<Longrightarrow> sched_inv s \<Longrightarrow> sched_inv s'"
proof (induction rule: sched_step.induct)
  case (slot_freed fl s now)
  then have "known (fl_lease fl) s" by (auto simp: sched_inv_def flights_ok_but_def)
  then show ?case using slot_freed flights_ok_weaken by (auto simp: sched_inv_def [of s] intro: release_lease_inv)
next
  case (other_release l s now)
  then show ?case using flights_ok_weaken by (auto simp: sched_inv_def [of s] intro: release_lease_inv)
next
  case (other_withdraw s now m reason)
  then show ?case using withdraw_inv by (metis prod.collapse)
next
  case (other_request q w s ticket s')
  then show ?case using other_request_inv by blast
next
  case (files_change s f)
  then show ?case using sched_inv_quiet [OF quiet_fields(5)] by blast
next
  case (started s now)
  then show ?case using sched_inv_snd quiet_start by blast
next
  case (reloaded s now)
  then show ?case using sched_inv_snd quiet_reload by blast
next
  case (settled_lost s now ws owner tk)
  then show ?case using sched_inv_snd quiet_settle_lost by blast
qed (auto intro: request_run_now_inv request_batch_run_inv run_from_event_inv on_timer_starts finish_flight_inv
    settle_assessment_inv cancel_key_inv cancel_run_by_id_inv withdraw_queued_run_inv stop_scheduler_inv
    drop_workspace_inv pool_stop_inv simp: cancel_run_def)

lemma sched_reachable_inv: "sched_reachable cfg c q s \<Longrightarrow> sched_inv s"
proof (induction rule: sched_reachable.induct)
  case (fresh f)
  show ?case
    by (simp add: sched_inv_def flights_ok_but_def new_scheduler_def defs_ok_def)
      (simp add: create_run_admission_def pool.defs sched.defs)
next
  case (steps s s')
  then show ?case using sched_step_inv by blast
qed

end
