(* ===== verification/Scheduler_Props.thy ===== *)
theory Scheduler_Props
  imports Scheduler_Steps
begin

text \<open>
  What the scheduler promises, over the states its steps reach: slots, ticks, once schedules, recovery.
\<close>

section \<open>A small scheduler, for the witnesses\<close>

definition demo_config :: sched_config where
  "demo_config =
     \<lparr>sc_host = demo_host (\<lambda>_. 0), sc_tz = None, sc_assess = False, sc_mint = (\<lambda>n. ''run_'' @ show_int (int n)),
      sc_digest = (\<lambda>x. x), sc_thrown = (\<lambda>_. demo_error)\<rparr>"

definition hourly_task :: task where
  "hourly_task = demo_task\<lparr>t_nextRunAt := Some 5000, t_consecutiveErrors := 0, t_lastRunAt := None\<rparr>"

definition hourly_files :: task_files where
  "hourly_files = (empty_files {''w1''})\<lparr>f_tasks := [((''w1'', ''u1'', ''digest''), hourly_task)]\<rparr>"

definition demo_sched :: sched where
  "demo_sched = snd (start_scheduler demo_config 1000 (new_scheduler hourly_files (Some 1) None))"

lemma demo_sched_reachable: "sched_reachable demo_config (Some 1) None demo_sched"
  unfolding demo_sched_def by (rule sched_reachable.steps [OF sched_reachable.fresh sched_step.started])

lemma demo_sched_facts:
  "running demo_sched" "leases demo_sched = []" "queue demo_sched = []" "stopped demo_sched = False"
  "maxConcurrentRuns demo_sched = 1" "map snd (definitions demo_sched) = [hourly_task]" "flights demo_sched = []"
  "activeRuns demo_sched = []" "runningKeys demo_sched = {}"
  by code_simp+

section \<open>Slots\<close>

lemma flights_lease_inj:
  "\<lbrakk>flights_ok s; fl \<in> set (flights s); fl' \<in> set (flights s); fl_lease fl = fl_lease fl'\<rbrakk> \<Longrightarrow> fl = fl'"
  by (auto simp: flights_ok_but_def distinct_map inj_on_def)

lemma distinct_keys_inj:
  "distinct (keys_of (map f xs)) \<Longrightarrow> x \<in> set xs \<Longrightarrow> y \<in> set xs \<Longrightarrow> akey (f x) = Some k \<Longrightarrow> akey (f y) = Some k \<Longrightarrow> x = y"
  by (induction xs) (force simp: in_keys_of split: option.splits)+


definition demo_ticked :: sched where
  "demo_ticked = on_timer demo_config 6000 demo_sched"

lemma demo_ticked_reachable: "sched_reachable demo_config (Some 1) None demo_ticked"
  unfolding demo_ticked_def
  by (rule sched_reachable.steps [OF demo_sched_reachable sched_step.tick]) (rule demo_sched_facts(1))

lemma demo_ticked_leases:
  "map leaseRequest (leases demo_ticked) = [admission_of ''w1/u1/digest'']" "map fl_key (flights demo_ticked) = [''w1/u1/digest'']"
  "map fl_lease (flights demo_ticked) = leases demo_ticked"
  by code_simp+


text \<open>
  C4. Two runs in flight never hold slots under one key: a task's own runs (scheduled, manual or from an
  event) exclude each other, and each batch run has a key of its own.
\<close>

theorem one_run_per_key:
  assumes "sched_reachable cfg c q s" "fl \<in> set (flights s)" "fl' \<in> set (flights s)"
    "fl_lease fl \<in> set (leases s)" "fl_lease fl' \<in> set (leases s)" "fl_key fl = fl_key fl'"
  shows "fl = fl'"
proof -
  have inv: "pool_inv s" "flights_ok s" using sched_reachable_inv [OF assms(1)] by (simp_all add: sched_inv_def)
  have r: "leaseRequest (fl_lease fl) = leaseRequest (fl_lease fl')"
    using inv(2) assms(2,3,6) by (auto simp: flights_ok_but_def)
  have "akey (leaseRequest (fl_lease fl)) = Some (admission_key_prefix @ fl_key fl)"
    using inv(2) assms(2) by (auto simp: flights_ok_but_def admission_of_def)
  moreover have "distinct (lease_keys s)" using inv(1) by (simp add: pool_inv_def)
  ultimately have "fl_lease fl = fl_lease fl'"
    using assms(4,5) r distinct_keys_inj by metis
  then show ?thesis using flights_lease_inj [OF inv(2) assms(2,3)] by simp
qed

theorem one_run_per_key_witness: "hd (flights demo_ticked) = last (flights demo_ticked)"
proof -
  obtain fl where fl: "flights demo_ticked = [fl]" using demo_ticked_leases(2) by (cases "flights demo_ticked") auto
  then have "fl_lease fl \<in> set (leases demo_ticked)" using demo_ticked_leases(3) [symmetric] by simp
  then show ?thesis using one_run_per_key [OF demo_ticked_reachable, of fl fl] fl by simp
qed

text \<open>
  C6. A tick starts exactly the due tasks that fit: of the enabled tasks that are due, out of backoff and
  not running already, in the order they came due, as many as there are free slots; none while runs wait.
\<close>

theorem tick_starts_due_tasks:
  assumes "sched_reachable cfg c q s" "running s"
  shows "\<exists>fs. flights (on_timer cfg now s) = flights s @ fs \<and>
     map fl_task fs = take (free_slots s) (filter (may_start now s) (by_next_run_at (map snd (definitions s))))"
  using on_timer_starts(2) [OF sched_reachable_inv [OF assms(1)] assms(2)] .

theorem tick_starts_due_tasks_witness: "map fl_task (flights demo_ticked) = [hourly_task]"
proof -
  have "free_slots demo_sched = 1" "by_next_run_at [hourly_task] = [hourly_task]" "may_start 6000 demo_sched hourly_task"
    by (simp_all add: free_slots_def demo_sched_facts by_next_run_at_def) code_simp
  then show ?thesis
    using tick_starts_due_tasks [OF demo_sched_reachable demo_sched_facts(1), of 6000]
    by (simp add: demo_sched_facts demo_ticked_def)
qed

section \<open>Slots a failed write loses\<close>

text \<open>
  A batch run that is granted a slot and whose ticket cannot be written loses the slot: the request
  throws, no run is in flight, and nothing holds the lease to release it.
\<close>

theorem batch_run_can_leak_its_slot:
  assumes "map_of (definitions s) (key_for ws owner taskId) = Some t" "place_of t = Some (ws, owner)" "running s"
    "run_now_budget_refusal (sc_host cfg) t now = None" "has_free_slot s"
    "admission_key_prefix @ key_for ws owner taskId @ ''#'' @ rq_runId rq \<notin> runningKeys s"
    "ws \<notin> f_workspaces (files s)"
  shows "\<exists>e s'. request_batch_run cfg now ws owner taskId rq s = (Inl e, s') \<and>
    length (leases s') = Suc (length (leases s)) \<and> flights s' = flights s"
proof -
  let ?runKey = "key_for ws owner taskId @ ''#'' @ rq_runId rq"
  let ?r = "admission_of ?runKey"
  obtain l s1 where g: "grant ?r s = (l, s1)" by fastforce
  have "refusal_for ?r s = None"
    using assms(5,6) by (auto simp: refusal_for_def admission_of_def has_free_slot_def)
  then have a: "admit (key_for ws owner taskId) TriggerManual (requested_input (Some rq)) (Some rq) (Some ?runKey) s =
      (TicketAdmitted l, s1)"
    using assms(5) g by (simp add: admit_def request_slot_def)
  have s1: "files s1 = files s" "flights s1 = flights s" "leases s1 = leases s @ [l]"
    using g by (auto simp: grant_def Let_def)
  have "\<exists>e. open_ticket t rq s1 = (Inl e, s1)"
    using assms(2,7) s1(1)
    by (auto simp: open_ticket_def ticket_for_def write_ticket_def writing_def save_run_ticket_def guard_write_def
        split: sum.split)
  then obtain e where "open_ticket t rq s1 = (Inl e, s1)" by blast
  then have "request_batch_run cfg now ws owner taskId rq s = (Inl e, s1)"
    using assms(1,3,4) a by (simp add: request_batch_run_def Let_def after_def)
  then show ?thesis using s1 by auto
qed

definition demo_request_run :: requested_run where
  "demo_request_run = \<lparr>rq_runId = ''run_9'', rq_requestedAt = 2000, rq_input = None, rq_idempotencyKey = None,
     rq_retryOf = None, rq_guidance = None, rq_batch = None\<rparr>"

theorem batch_run_can_leak_its_slot_witness:
  "\<exists>e s'. request_batch_run demo_config 2000 ''w1'' ''u1'' ''digest'' demo_request_run (demo_sched\<lparr>files := empty_files {}\<rparr>) =
     (Inl e, s') \<and> length (leases s') = 1 \<and> flights s' = []"
proof -
  have "map_of (definitions (demo_sched\<lparr>files := empty_files {}\<rparr>)) (key_for ''w1'' ''u1'' ''digest'') = Some hourly_task"
    "place_of hourly_task = Some (''w1'', ''u1'')" "running (demo_sched\<lparr>files := empty_files {}\<rparr>)"
    "run_now_budget_refusal (sc_host demo_config) hourly_task 2000 = None"
    "has_free_slot (demo_sched\<lparr>files := empty_files {}\<rparr>)"
    "admission_key_prefix @ key_for ''w1'' ''u1'' ''digest'' @ ''#'' @ rq_runId demo_request_run
      \<notin> runningKeys (demo_sched\<lparr>files := empty_files {}\<rparr>)"
    "''w1'' \<notin> f_workspaces (files (demo_sched\<lparr>files := empty_files {}\<rparr>))"
    by code_simp+
  from batch_run_can_leak_its_slot [OF this] show ?thesis by (simp add: demo_sched_facts)
qed

section \<open>What a run's end writes\<close>

text \<open>What no change to a task between its loads touches.\<close>

definition same_task :: "task \<Rightarrow> task \<Rightarrow> bool" where
  "same_task t t' \<longleftrightarrow> t_id t' = t_id t \<and> t_workspaceId t' = t_workspaceId t \<and> t_ownerId t' = t_ownerId t \<and>
     t_schedule t' = t_schedule t \<and> t_scheduledRunInFlight t' = t_scheduledRunInFlight t"

lemma same_task_steps:
  "same_task t (count_tokens t run)" "same_task t (disable now reason t)" "same_task t (apply_consecutive_errors t run now)"
  "same_task t (fst (apply_streak t run now))" "same_task t (apply_next_run_at h t now tz)"
  "same_task t (retire_once t oc at' reason now)" "same_task t (t\<lparr>t_updatedAt := now\<rparr>)"
  by (simp_all add: same_task_def count_tokens_def disable_def apply_consecutive_errors_def apply_streak_def Let_def
      apply_next_run_at_def set_next_run_at_def retire_once_def split: option.split)

lemma same_task_trans: "same_task t t' \<Longrightarrow> same_task t' t'' \<Longrightarrow> same_task t t''"
  by (simp add: same_task_def)

lemma budget_keeps:
  assumes "apply_token_budget h t run now tz = Inr t'"
  shows "same_task t t' \<and> (\<not> t_enabled t \<longrightarrow> \<not> t_enabled t') \<and> t_onceDone t' = t_onceDone t \<and> t_nextRunAt t' = t_nextRunAt t"
  using assms
  by (auto simp: apply_token_budget_def roll_budget_window_def Let_def same_task_def disable_def result_bind_def
      split: option.splits sum.splits if_splits)

lemma task_after_run_facts:
  assumes "task_after_run cfg now stored run trigger firedOnceAt d = Inr (t', n)"
  shows "t_id t' = t_id stored" "t_workspaceId t' = t_workspaceId stored" "t_ownerId t' = t_ownerId stored"
    "t_schedule t' = t_schedule stored"
    "t_scheduledRunInFlight t' = (if map_option sf_runId (t_scheduledRunInFlight stored) = Some d
       then None else t_scheduledRunInFlight stored)"
    "is_once_schedule (t_schedule stored) \<Longrightarrow> (case trigger of Some g \<Rightarrow> Some g | None \<Rightarrow> r_trigger run) = Some TriggerScheduled \<Longrightarrow>
       written_at stored = firedOnceAt \<Longrightarrow>
       \<not> t_enabled t' \<and> t_nextRunAt t' = None \<and> t_onceDone t' = Some \<lparr>od_at = r_startedAt run, od_outcome = OnceRan\<rparr>"
    "is_once_schedule (t_schedule stored) \<Longrightarrow> written_at stored \<noteq> firedOnceAt \<Longrightarrow>
       t_nextRunAt t' = t_nextRunAt stored \<and> t_onceDone t' = t_onceDone stored"
proof -
  define t1 where "t1 = (if map_option sf_runId (t_scheduledRunInFlight stored) = Some d
                then stored\<lparr>t_scheduledRunInFlight := None\<rparr> else stored)"
  define t2 where "t2 = t1\<lparr>t_lastRunAt := Some (nullish (r_completedAt run) (r_startedAt run)),
                  t_lastRunStatus := Some (resolve_last_run_status (r_status run)), t_runCount := t_runCount t1 + 1\<rparr>"
  define t3 where "t3 = count_tokens t2 run"
  define t4 where "t4 = fst (apply_streak t3 run now)"
  define t5 where "t5 = (if \<not> is_once_schedule (t_schedule t4) then apply_next_run_at (sc_host cfg) t4 now (sc_tz cfg)
                else if (case trigger of Some g \<Rightarrow> Some g | None \<Rightarrow> r_trigger run) = Some TriggerScheduled
                        \<and> written_at t4 = firedOnceAt
                then retire_once t4 OnceRan (r_startedAt run) (once_ran_reason @ to_iso (r_startedAt run)) now
                else t4)"
  have res: "apply_token_budget (sc_host cfg) (t5\<lparr>t_updatedAt := now\<rparr>) run now (sc_tz cfg) = Inr t'"
    using assms unfolding task_after_run_def Let_def t1_def [symmetric] t2_def [symmetric] t3_def [symmetric]
    by (auto simp: result_bind_Inr t4_def t5_def split: prod.splits)
  note b = budget_keeps [OF res]
  have t24: "same_task t2 t4"
    unfolding t3_def t4_def by (rule same_task_trans [OF same_task_steps(1) same_task_steps(4)])
  have "same_task t2 t5"
    unfolding t5_def using same_task_trans [OF t24 same_task_steps(5)] same_task_trans [OF t24 same_task_steps(6)] t24
    by simp
  moreover have "same_task t1 t2" by (simp add: same_task_def t2_def)
  ultimately have s: "same_task t1 t'" "same_task t1 t5"
    using b same_task_trans [OF same_task_trans [OF _ same_task_steps(7)]] same_task_trans by blast+
  then show "t_id t' = t_id stored" "t_workspaceId t' = t_workspaceId stored" "t_ownerId t' = t_ownerId stored"
    "t_schedule t' = t_schedule stored"
    "t_scheduledRunInFlight t' = (if map_option sf_runId (t_scheduledRunInFlight stored) = Some d
       then None else t_scheduledRunInFlight stored)"
    by (auto simp: same_task_def t1_def)
  have sch: "t_schedule t4 = t_schedule stored" using t24 by (simp add: same_task_def t2_def t1_def)
  then have w: "written_at t4 = written_at stored" by (simp add: written_at_def schedule_at_def)
  show "\<not> t_enabled t' \<and> t_nextRunAt t' = None \<and> t_onceDone t' = Some \<lparr>od_at = r_startedAt run, od_outcome = OnceRan\<rparr>"
    if "is_once_schedule (t_schedule stored)" "(case trigger of Some g \<Rightarrow> Some g | None \<Rightarrow> r_trigger run) = Some TriggerScheduled"
      "written_at stored = firedOnceAt"
    using that b sch w by (simp add: t5_def retire_once_def)
  have "t_nextRunAt t4 = t_nextRunAt stored \<and> t_onceDone t4 = t_onceDone stored"
    by (simp add: t4_def t3_def t2_def t1_def apply_streak_def apply_consecutive_errors_def Let_def disable_def count_tokens_def)
  then show "t_nextRunAt t' = t_nextRunAt stored \<and> t_onceDone t' = t_onceDone stored"
    if "is_once_schedule (t_schedule stored)" "written_at stored \<noteq> firedOnceAt"
    using that b sch w by (simp add: t5_def)
qed

lemma writing_Inr: "writing w s = (Inr x, s') \<longleftrightarrow> (\<exists>f. w (files s) = Inr f \<and> s' = s\<lparr>files := f\<rparr>)"
  by (auto simp: writing_def split: sum.splits)

lemma after_Inr: "after m k s = (Inr y, s') \<longleftrightarrow> (\<exists>x s1. m s = (Inr x, s1) \<and> k x s1 = (Inr y, s'))"
  by (auto simp: after_def split: prod.splits sum.splits)

lemma update_after_run_effect:
  assumes u: "update_after_run cfg now t run trigger fired d ap result s = (Inr (), s')"
    and p: "place_of t = Some (ws, owner)" and l: "load_task (files s) ws owner (t_id t) = Inr (Some stored)"
  obtains t' n f where
    "task_after_run cfg now (bind_to stored ws owner) run trigger
       (case fired of Some a \<Rightarrow> Some a | None \<Rightarrow> written_at t) (nullish d (r_id run)) = Inr (t', n)"
    "ap \<Longrightarrow> \<exists>g. save_run_result (files s) (ws, owner, t_id t) (nullish result (result_of_record run)) = Inr g \<and>
       append_run g (ws, owner, t_id t) run = Inr f"
    "\<not> ap \<Longrightarrow> f = files s" "save_task f ws owner t' = Inr (files s')"
    "definitions s' = jset (key_of t') t' (definitions s)" "scheduledInFlight s' = scheduledInFlight s"
proof -
  have "\<exists>t' n f. task_after_run cfg now (bind_to stored ws owner) run trigger
       (case fired of Some a \<Rightarrow> Some a | None \<Rightarrow> written_at t) (nullish d (r_id run)) = Inr (t', n) \<and>
    (ap \<longrightarrow> (\<exists>g. save_run_result (files s) (ws, owner, t_id t) (nullish result (result_of_record run)) = Inr g \<and>
       append_run g (ws, owner, t_id t) run = Inr f)) \<and>
    (\<not> ap \<longrightarrow> f = files s) \<and> save_task f ws owner t' = Inr (files s') \<and>
    definitions s' = jset (key_of t') t' (definitions s) \<and> scheduledInFlight s' = scheduledInFlight s"
    using u p l
    by (cases ap)
      (auto simp: update_after_run_def after_Inr writing_Inr lifted_def change_def done_with_def Let_def
        set_definition_def notify_def split: prod.splits option.splits)
  then show ?thesis using that by blast
qed

lemma save_run_result_index:
  "save_run_result f r res = Inr g \<Longrightarrow> f_index g = f_index f \<and> f_tasks g = f_tasks f"
  by (auto simp: save_run_result_def guard_write_def split: if_splits prod.splits)

lemma append_run_index:
  assumes "append_run f (ws, owner, i) run = Inr g"
  shows "index_of g (ws, owner, i) = drop (length (index_of f (ws, owner, i)) + 1 - max_run_lines)
      (index_of f (ws, owner, i) @ [run])" "f_tasks g = f_tasks f"
  using append_run_shape(1) [OF assms] by (simp_all add: index_of_def)

lemma save_task_load:
  assumes "save_task f ws owner t = Inr g" "t_id t = i"
  shows "load_task g ws owner i = Inr (Some t)" "f_index g = f_index f"
  using assms by (auto simp: save_task_def load_task_def split: if_splits)

text \<open>
  A once task runs once: when the record of its scheduled run is written (at the run's end, or on the
  next start for a run a stop interrupted), the stored task and the scheduler's own definition of it are
  retired, so no later tick starts it. A time edited while the run was out is a new occurrence, which the
  record leaves pending.
\<close>

theorem once_run_retires:
  assumes "update_after_run cfg now t run trigger fired d ap result s = (Inr (), s')"
    "place_of t = Some (ws, owner)" "load_task (files s) ws owner (t_id t) = Inr (Some stored)" "t_id stored = t_id t"
    "is_once_schedule (t_schedule stored)"
    "(case trigger of Some g \<Rightarrow> Some g | None \<Rightarrow> r_trigger run) = Some TriggerScheduled"
  shows "\<exists>t'. load_task (files s') ws owner (t_id t) = Inr (Some t') \<and> map_of (definitions s') (key_of t') = Some t' \<and>
    (if written_at stored = (case fired of Some a \<Rightarrow> Some a | None \<Rightarrow> written_at t)
     then \<not> t_enabled t' \<and> t_nextRunAt t' = None \<and>
       t_onceDone t' = Some \<lparr>od_at = r_startedAt run, od_outcome = OnceRan\<rparr> \<and> \<not> may_start later s'' t'
     else t_nextRunAt t' = t_nextRunAt stored \<and> t_onceDone t' = t_onceDone stored)"
proof -
  obtain t' n f where e: "task_after_run cfg now (bind_to stored ws owner) run trigger
       (case fired of Some a \<Rightarrow> Some a | None \<Rightarrow> written_at t) (nullish d (r_id run)) = Inr (t', n)"
    "save_task f ws owner t' = Inr (files s')" "definitions s' = jset (key_of t') t' (definitions s)"
    using update_after_run_effect [OF assms(1-3)] by metis
  note ft = task_after_run_facts [OF e(1)]
  have b: "t_schedule (bind_to stored ws owner) = t_schedule stored" "written_at (bind_to stored ws owner) = written_at stored"
    "t_id (bind_to stored ws owner) = t_id stored" "t_nextRunAt (bind_to stored ws owner) = t_nextRunAt stored"
    "t_onceDone (bind_to stored ws owner) = t_onceDone stored"
    by (simp_all add: bind_to_def written_at_def schedule_at_def)
  have "load_task (files s') ws owner (t_id t) = Inr (Some t')"
    using save_task_load(1) [OF e(2)] ft(1) b(3) assms(4) by simp
  moreover have "map_of (definitions s') (key_of t') = Some t'" using e(3) by simp
  ultimately show ?thesis
    using ft(6,7) assms(5,6) b by (intro exI [of _ t']) (auto simp: may_start_def)
qed

definition once_task :: task where
  "once_task = hourly_task\<lparr>t_schedule := Some \<lparr>sched_type = OnceSchedule, sched_expression = None, sched_timezone = None,
     sched_at = Some \<lparr>time_text = ''1970-01-01T00:00:05Z'', time_ms = Some 5000\<rparr>, sched_intervalMs = None,
     sched_match = None, sched_debounceMs = None, sched_maxFiresPerHour = None\<rparr>\<rparr>"

definition marked_task :: task where
  "marked_task = hourly_task\<lparr>t_scheduledRunInFlight := Some \<lparr>sf_runId = ''run_7'', sf_startedAt = 5000, sf_onceAt = None\<rparr>\<rparr>"

definition sched_with :: "task \<Rightarrow> sched" where
  "sched_with t = new_scheduler ((empty_files {''w1''})\<lparr>f_tasks := [((''w1'', ''u1'', ''digest''), t)]\<rparr>) (Some 1) None"

theorem once_run_retires_witness:
  "\<exists>s' t'. update_after_run demo_config 7000 once_task (demo_run_record\<lparr>r_trigger := Some TriggerScheduled\<rparr>)
      (Some TriggerScheduled) None None True None (sched_with once_task) = (Inr (), s') \<and>
    load_task (files s') ''w1'' ''u1'' ''digest'' = Inr (Some t') \<and> \<not> t_enabled t'"
proof -
  let ?run = "demo_run_record\<lparr>r_trigger := Some TriggerScheduled\<rparr>"
  define s' where "s' = snd (update_after_run demo_config 7000 once_task ?run (Some TriggerScheduled) None None True None
      (sched_with once_task))"
  have "fst (update_after_run demo_config 7000 once_task ?run (Some TriggerScheduled) None None True None
      (sched_with once_task)) = Inr ()"
    by code_simp
  then have u: "update_after_run demo_config 7000 once_task ?run (Some TriggerScheduled) None None True None
      (sched_with once_task) = (Inr (), s')"
    by (simp add: s'_def prod_eq_iff)
  have f: "place_of once_task = Some (''w1'', ''u1'')" "t_id once_task = ''digest''"
    "load_task (files (sched_with once_task)) ''w1'' ''u1'' (t_id once_task) = Inr (Some once_task)"
    "is_once_schedule (t_schedule once_task)"
    by code_simp+
  show ?thesis using once_run_retires [OF u f(1,3) refl f(4)] u f(2) by auto
qed

text \<open>
  C10. A run that a stop cut off is settled exactly once: the first start writes its failure record under
  the run's own id (unless the record was there already) and clears the mark, and settling again is no step.
\<close>

theorem interrupted_run_settled_once:
  assumes "settle_interrupted_run cfg now t s = (Inr (), s')"
    "place_of t = Some (ws, owner)" "load_task (files s) ws owner (t_id t) = Inr (Some stored)" "t_id stored = t_id t"
    "t_scheduledRunInFlight t = Some mark" "t_scheduledRunInFlight stored = Some mark"
    "sf_runId mark \<notin> scheduledInFlight s"
  shows "\<exists>t'. load_task (files s') ws owner (t_id t) = Inr (Some t') \<and> t_scheduledRunInFlight t' = None \<and>
    index_of (files s') (ws, owner, t_id t) =
      (let runs = index_of (files s) (ws, owner, t_id t) in
       if sf_runId mark \<in> r_id ` set runs then runs
       else drop (length runs + 1 - max_run_lines) (runs @ [interrupted_record now t mark])) \<and>
    settle_interrupted_run cfg later t' s' = (Inr (), s')"
proof -
  let ?ref = "(ws, owner, t_id t)"
  define recorded where "recorded = find (\<lambda>r. r_id r = sf_runId mark) (rev (index_of (files s) ?ref))"
  define run where "run = nullish recorded (interrupted_record now t mark)"
  have rr: "read_runs (files s) ?ref no_options = Inr (rev (index_of (files s) ?ref))"
    by (simp add: read_runs_def no_options_def apply_filters_def)
  obtain s1 where u: "update_after_run cfg now t run (Some TriggerScheduled) (sf_onceAt mark) None (recorded = None) None s =
      (Inr (), s1)" and s': "run_recorded t s1 = (Inr (), s')"
    using assms(1,2,5,7) rr
    by (auto simp: settle_interrupted_run_def after_Inr lifted_def Let_def recorded_def run_def)
  have f1: "files s' = files s1" using s' assms(2) by (auto simp: run_recorded_def change_def notify_def)
  have rid: "r_id run = sf_runId mark"
    by (auto simp: run_def recorded_def interrupted_record_def blank_run_def nullish_def find_Some_iff split: option.split)
  have rec: "recorded = None \<longleftrightarrow> sf_runId mark \<notin> r_id ` set (index_of (files s) ?ref)"
    unfolding recorded_def find_None_iff by (auto simp: image_iff)
  obtain t' n f where e: "task_after_run cfg now (bind_to stored ws owner) run (Some TriggerScheduled)
       (case sf_onceAt mark of Some a \<Rightarrow> Some a | None \<Rightarrow> written_at t) (nullish None (r_id run)) = Inr (t', n)"
    "recorded = None \<Longrightarrow> \<exists>g. save_run_result (files s) ?ref (nullish None (result_of_record run)) = Inr g \<and>
       append_run g ?ref run = Inr f"
    "recorded \<noteq> None \<Longrightarrow> f = files s" "save_task f ws owner t' = Inr (files s1)"
    using update_after_run_effect [OF u assms(2,3)] by metis
  note ft = task_after_run_facts [OF e(1)]
  have id': "t_id t' = t_id t" using ft(1) assms(4) by (simp add: bind_to_def)
  have mark: "t_scheduledRunInFlight t' = None" using ft(5) assms(6) rid by (simp add: bind_to_def)
  have i1: "index_of (files s1) ?ref = index_of f ?ref"
    using save_task_load(2) [OF e(4) id'] by (simp add: index_of_def)
  have "index_of f ?ref = (let runs = index_of (files s) ?ref in
       if sf_runId mark \<in> r_id ` set runs then runs
       else drop (length runs + 1 - max_run_lines) (runs @ [interrupted_record now t mark]))"
  proof (cases "recorded = None")
    case True
    then obtain g where g: "save_run_result (files s) ?ref (nullish None (result_of_record run)) = Inr g"
      "append_run g ?ref run = Inr f" using e(2) by blast
    have "index_of g ?ref = index_of (files s) ?ref" using save_run_result_index [OF g(1)] by (simp add: index_of_def)
    moreover have "run = interrupted_record now t mark" using True by (simp add: run_def)
    ultimately show ?thesis using append_run_index(1) [OF g(2)] True rec by (simp add: Let_def)
  next
    case False
    then show ?thesis using e(3) rec by (simp add: Let_def)
  qed
  then show ?thesis
    using save_task_load(1) [OF e(4) id'] f1 i1 mark
    by (intro exI [of _ t']) (simp add: settle_interrupted_run_def)
qed

theorem interrupted_run_settled_once_witness:
  "\<exists>s' t'. settle_interrupted_run demo_config 9000 marked_task (sched_with marked_task) = (Inr (), s') \<and>
    load_task (files s') ''w1'' ''u1'' ''digest'' = Inr (Some t') \<and> t_scheduledRunInFlight t' = None \<and>
    settle_interrupted_run demo_config 9900 t' s' = (Inr (), s')"
proof -
  define s' where "s' = snd (settle_interrupted_run demo_config 9000 marked_task (sched_with marked_task))"
  have "fst (settle_interrupted_run demo_config 9000 marked_task (sched_with marked_task)) = Inr ()"
    by code_simp
  then have u: "settle_interrupted_run demo_config 9000 marked_task (sched_with marked_task) = (Inr (), s')"
    by (simp add: s'_def prod_eq_iff)
  have f: "place_of marked_task = Some (''w1'', ''u1'')" "t_id marked_task = ''digest''"
    "load_task (files (sched_with marked_task)) ''w1'' ''u1'' (t_id marked_task) = Inr (Some marked_task)"
    "t_scheduledRunInFlight marked_task = Some \<lparr>sf_runId = ''run_7'', sf_startedAt = 5000, sf_onceAt = None\<rparr>"
    "sf_runId \<lparr>sf_runId = ''run_7'', sf_startedAt = 5000, sf_onceAt = None\<rparr> \<notin> scheduledInFlight (sched_with marked_task)"
    by code_simp+
  show ?thesis using interrupted_run_settled_once [OF u f(1,3) refl f(4,4,5)] u f(2) by auto
qed

end
