(* ===== verification/Batch_Store.thy ===== *)
theory Batch_Store
  imports Assessment Task_Paths
begin

text \<open>
  Batches on disk (\<open>src/platform/tasks/batch-store.ts\<close>): the batch records, the items files, the
  idempotency keys, and the counts and cost derived from items. An items file is a list of lines: a whole
  item, an item's later state without its input, or a torn line, which a reader skips. The digest of a key
  is a parameter; directories and the temporary file of an atomic write are not modelled.
\<close>

section \<open>Files\<close>

datatype item_line = WholeItem batch_item | ItemState batch_item | TornLine

type_synonym batch_ref = "string \<times> string \<times> string"

record batch_files =
  bf_workspaces :: "string set"
  bf_records :: "(batch_ref \<times> batch) list"
  bf_items :: "(batch_ref \<times> item_line list) list"
  bf_keys :: "string \<times> string \<Rightarrow> string \<Rightarrow> (string \<times> string) option"

text \<open>What a write throws: the workspace is gone, or the write itself failed.\<close>

datatype batch_write_error = BatchRootMissing | BatchWriteFailed

section \<open>The record\<close>

definition save_batch :: "batch_files \<Rightarrow> batch \<Rightarrow> batch_write_error + batch_files" where
  "save_batch f b =
     (if b_workspaceId b \<notin> bf_workspaces f then Inl BatchRootMissing
      else if \<not> valid_batch_id (b_id b) then Inl BatchWriteFailed
      else Inr (f\<lparr>bf_records := jset (b_workspaceId b, b_ownerId b, b_id b) b (bf_records f)\<rparr>))"

definition load_batch :: "batch_files \<Rightarrow> string \<Rightarrow> string \<Rightarrow> string \<Rightarrow> batch option" where
  "load_batch f ws owner i =
     (if \<not> valid_batch_id i then None
      else case map_of (bf_records f) (ws, owner, i) of
             None \<Rightarrow> None
           | Some b \<Rightarrow> if b_id b \<noteq> i then None else Some (b\<lparr>b_workspaceId := ws, b_ownerId := owner\<rparr>))"

definition list_batches :: "batch_files \<Rightarrow> string \<Rightarrow> string \<Rightarrow> batch list" where
  "list_batches f ws owner =
     sort_key (\<lambda>b. - b_createdAt b)
       (List.map_filter (\<lambda>((w, u, i), _). if w = ws \<and> u = owner then load_batch f ws owner i else None) (bf_records f))"

definition list_all_batches :: "batch_files \<Rightarrow> batch list" where
  "list_all_batches f =
     concat (map (\<lambda>(ws, owner). list_batches f ws owner) (remdups (map (\<lambda>((ws, owner, _), _). (ws, owner)) (bf_records f))))"

section \<open>The items\<close>

definition write_batch_items :: "batch_files \<Rightarrow> batch_ref \<Rightarrow> batch_item list \<Rightarrow> batch_write_error + batch_files" where
  "write_batch_items f r items =
     (case r of (ws, owner, i) \<Rightarrow>
        if ws \<notin> bf_workspaces f then Inl BatchRootMissing
        else if \<not> valid_batch_id i then Inl BatchWriteFailed
        else Inr (f\<lparr>bf_items := jset r (map WholeItem items) (bf_items f)\<rparr>))"

definition append_batch_item :: "batch_files \<Rightarrow> batch_ref \<Rightarrow> batch_item \<Rightarrow> batch_write_error + batch_files" where
  "append_batch_item f r item =
     (case r of (ws, owner, i) \<Rightarrow>
        if ws \<notin> bf_workspaces f \<or> \<not> valid_batch_id i then Inl BatchWriteFailed
        else Inr (f\<lparr>bf_items := jset r (nullish (map_of (bf_items f) r) [] @ [ItemState item]) (bf_items f)\<rparr>))"

fun fold_line :: "item_line \<Rightarrow> (nat \<times> batch_item) list \<Rightarrow> (nat \<times> batch_item) list" where
  "fold_line TornLine m = m"
| "fold_line (WholeItem x) m = jset (bi_index x) x m"
| "fold_line (ItemState x) m =
     (case map_of m (bi_index x) of
        None \<Rightarrow> m
      | Some base \<Rightarrow> jset (bi_index x) (x\<lparr>bi_input := bi_input base\<rparr>) m)"

definition read_batch_items :: "batch_files \<Rightarrow> batch_ref \<Rightarrow> batch_item list" where
  "read_batch_items f r =
     sort_key bi_index (map snd (fold fold_line (nullish (map_of (bf_items f) r) []) []))"

definition compact_batch_items :: "batch_files \<Rightarrow> batch_ref \<Rightarrow> batch_write_error + batch_item list \<times> batch_files" where
  "compact_batch_items f r =
     (let items = read_batch_items f r in
      case write_batch_items f r items of Inl e \<Rightarrow> Inl e | Inr g \<Rightarrow> Inr (items, g))"

section \<open>Counts and cost\<close>

datatype bucket =
    BPending | BQueued | BRunning | BPass | BFail | BUncertain | BNotAssessed | BFailed | BSkipped | BCancelled

definition empty_counts :: batch_counts where
  "empty_counts = \<lparr>cnt_pending = 0, cnt_queued = 0, cnt_running = 0, cnt_pass = 0, cnt_fail = 0, cnt_uncertain = 0,
     cnt_not_assessed = 0, cnt_failed = 0, cnt_skipped = 0, cnt_cancelled = 0\<rparr>"

definition bucket_of :: "batch_item \<Rightarrow> bucket" where
  "bucket_of x =
     (case bi_state x of
        ItemPending \<Rightarrow> BPending
      | ItemQueued \<Rightarrow> BQueued
      | ItemRunning \<Rightarrow> BRunning
      | ItemDone \<Rightarrow>
          (case bi_execution x of
             Some ExecFailed \<Rightarrow> BFailed
           | Some ExecSkipped \<Rightarrow> BSkipped
           | Some ExecCancelled \<Rightarrow> BCancelled
           | _ \<Rightarrow> (case bi_verdict x of
                Some VerdictPass \<Rightarrow> BPass
              | Some VerdictFail \<Rightarrow> BFail
              | Some VerdictUncertain \<Rightarrow> BUncertain
              | _ \<Rightarrow> BNotAssessed)))"

text \<open>\<open>counts[bucket] += d\<close>.\<close>

fun bump :: "bucket \<Rightarrow> int \<Rightarrow> batch_counts \<Rightarrow> batch_counts" where
  "bump BPending d c = c\<lparr>cnt_pending := cnt_pending c + d\<rparr>"
| "bump BQueued d c = c\<lparr>cnt_queued := cnt_queued c + d\<rparr>"
| "bump BRunning d c = c\<lparr>cnt_running := cnt_running c + d\<rparr>"
| "bump BPass d c = c\<lparr>cnt_pass := cnt_pass c + d\<rparr>"
| "bump BFail d c = c\<lparr>cnt_fail := cnt_fail c + d\<rparr>"
| "bump BUncertain d c = c\<lparr>cnt_uncertain := cnt_uncertain c + d\<rparr>"
| "bump BNotAssessed d c = c\<lparr>cnt_not_assessed := cnt_not_assessed c + d\<rparr>"
| "bump BFailed d c = c\<lparr>cnt_failed := cnt_failed c + d\<rparr>"
| "bump BSkipped d c = c\<lparr>cnt_skipped := cnt_skipped c + d\<rparr>"
| "bump BCancelled d c = c\<lparr>cnt_cancelled := cnt_cancelled c + d\<rparr>"

definition count_items :: "batch_item list \<Rightarrow> batch_counts" where
  "count_items items = fold (\<lambda>x c. bump (bucket_of x) 1 c) items empty_counts"

definition sum_cost :: "batch_item list \<Rightarrow> rat" where
  "sum_cost items = foldl (\<lambda>total x. total + nullish (bi_costUsd x) 0) 0 items"

definition item_verdict_of :: "task_run \<Rightarrow> assessment_verdict option" where
  "item_verdict_of run =
     (case r_assessment run of None \<Rightarrow> None | Some a \<Rightarrow> Some (effective_verdict (Some a)))"

section \<open>Idempotency keys\<close>

definition save_batch_key ::
  "(string \<Rightarrow> string) \<Rightarrow> batch_files \<Rightarrow> string \<Rightarrow> string \<Rightarrow> string \<Rightarrow> string \<Rightarrow> batch_write_error + batch_files" where
  "save_batch_key digest f ws owner key batch =
     (if ws \<notin> bf_workspaces f then Inl BatchRootMissing
      else Inr (f\<lparr>bf_keys := (bf_keys f)((ws, owner) := (bf_keys f (ws, owner))(digest key \<mapsto> (key, batch)))\<rparr>))"

definition read_batch_key :: "(string \<Rightarrow> string) \<Rightarrow> batch_files \<Rightarrow> string \<Rightarrow> string \<Rightarrow> string \<Rightarrow> string option" where
  "read_batch_key digest f ws owner key =
     (case bf_keys f (ws, owner) (digest key) of
        None \<Rightarrow> None
      | Some (k, batch) \<Rightarrow> if k = key then Some batch else None)"

section \<open>Reading back\<close>

lemma bump_commute: "bump a d (bump b e c) = bump b e (bump a d c)"
  by (cases a; cases b) (simp_all add: batch_counts.equality)

lemma bump_bump: "bump a d (bump a e c) = bump a (d + e) c"
  by (cases a) (simp_all add: algebra_simps)

lemma bump_0 [simp]: "bump a 0 c = c"
  by (cases a) simp_all

lemma fold_bump: "fold (\<lambda>x c. bump (bucket_of x) 1 c) xs (bump b d c) = bump b d (fold (\<lambda>x c. bump (bucket_of x) 1 c) xs c)"
  by (induction xs arbitrary: c) (simp_all add: bump_commute [of _ 1])

lemma count_items_Cons: "count_items (x # xs) = bump (bucket_of x) 1 (count_items xs)"
  by (simp add: count_items_def fold_bump)

lemma count_items_update:
  "k < length xs \<Longrightarrow> count_items (xs[k := y]) = bump (bucket_of y) 1 (bump (bucket_of (xs ! k)) (-1) (count_items xs))"
proof (induction xs arbitrary: k)
  case (Cons x xs)
  then show ?case
    by (cases k) (simp_all add: count_items_Cons bump_bump bump_commute [of _ "- 1" _ 1] bump_commute [of _ 1 _ 1])
qed simp

lemma sum_cost_sum: "sum_cost xs = (\<Sum>x\<leftarrow>xs. nullish (bi_costUsd x) 0)"
proof -
  have "foldl (\<lambda>total x. total + nullish (bi_costUsd x) 0) c xs = c + (\<Sum>x\<leftarrow>xs. nullish (bi_costUsd x) 0)" for c
    by (induction xs arbitrary: c) simp_all
  then show ?thesis by (simp add: sum_cost_def)
qed

lemma sum_cost_update:
  "k < length xs \<Longrightarrow> sum_cost (xs[k := y]) = sum_cost xs + (nullish (bi_costUsd y) 0 - nullish (bi_costUsd (xs ! k)) 0)"
  unfolding sum_cost_sum
proof (induction xs arbitrary: k)
  case (Cons x xs)
  then show ?case by (cases k) simp_all
qed simp

text \<open>Items that stand at their index, as a batch keeps them.\<close>

definition indexed :: "batch_item list \<Rightarrow> bool" where
  "indexed xs \<longleftrightarrow> map bi_index xs = [0..<length xs]"

lemma indexed_nth: "indexed xs \<Longrightarrow> k < length xs \<Longrightarrow> bi_index (xs ! k) = k"
  unfolding indexed_def by (metis add_0 nth_map nth_upt)

lemma indexed_update: "indexed xs \<Longrightarrow> bi_index y = k \<Longrightarrow> indexed (xs[k := y])"
  by (metis (no_types, lifting) indexed_def indexed_nth length_list_update linorder_not_less list_update_beyond
      list_update_id map_update nth_map)

text \<open>A whole write followed by state lines, as the driver makes them.\<close>

fun append_all :: "batch_files \<Rightarrow> batch_ref \<Rightarrow> batch_item list \<Rightarrow> batch_write_error + batch_files" where
  "append_all f r [] = Inr f"
| "append_all f r (x # xs) = (case append_batch_item f r x of Inl e \<Rightarrow> Inl e | Inr g \<Rightarrow> append_all g r xs)"

definition apply_state :: "batch_item \<Rightarrow> batch_item list \<Rightarrow> batch_item list" where
  "apply_state y xs = xs[bi_index y := y\<lparr>bi_input := bi_input (xs ! bi_index y)\<rparr>]"

definition entries :: "batch_item list \<Rightarrow> (nat \<times> batch_item) list" where
  "entries xs = map (\<lambda>x. (bi_index x, x)) xs"

lemma jset_new: "k \<notin> fst ` set m \<Longrightarrow> jset k v m = m @ [(k, v)]"
  by (induction k v m rule: jset.induct) auto

lemma jset_replace: "distinct (map fst m) \<Longrightarrow> i < length m \<Longrightarrow> fst (m ! i) = k \<Longrightarrow> jset k v m = m[i := (k, v)]"
proof (induction k v m arbitrary: i rule: jset.induct)
  case (2 k v k' v' m)
  show ?case
  proof (cases i)
    case (Suc j)
    then have "k \<noteq> k'" using 2(2-4) nth_mem [of j m] by auto
    then show ?thesis using 2 Suc by simp
  qed (use 2 in simp)
qed simp

lemma fold_whole: "distinct (map bi_index (ys @ xs)) \<Longrightarrow> fold fold_line (map WholeItem xs) (entries ys) = entries (ys @ xs)"
proof (induction xs arbitrary: ys)
  case (Cons x xs)
  have "jset (bi_index x) x (entries ys) = entries (ys @ [x])"
    using Cons.prems by (subst jset_new) (auto simp: entries_def)
  then show ?case using Cons.IH [of "ys @ [x]"] Cons.prems by simp
qed simp

lemma fold_state:
  assumes "indexed xs"
  shows "fold_line (ItemState y) (entries xs) = entries (apply_state y xs)" "indexed (apply_state y xs)"
proof -
  let ?k = "bi_index y"
  have d: "map fst (entries xs) = [0..<length xs]" using assms by (simp add: entries_def indexed_def comp_def)
  have l: "length (entries xs) = length xs" by (simp add: entries_def)
  show i: "indexed (apply_state y xs)" using assms by (simp add: apply_state_def indexed_update)
  show "fold_line (ItemState y) (entries xs) = entries (apply_state y xs)"
  proof (cases "?k < length xs")
    case True
    then have e: "entries xs ! ?k = (?k, xs ! ?k)" using assms indexed_nth by (simp add: entries_def)
    then have "map_of (entries xs) ?k = Some (xs ! ?k)"
      using d l True by (intro map_of_is_SomeI) (auto simp: in_set_conv_nth intro: exI [of _ ?k])
    moreover have "jset ?k z (entries xs) = (entries xs)[?k := (?k, z)]" for z
      using d l True e by (intro jset_replace) simp_all
    ultimately show ?thesis by (simp add: apply_state_def entries_def map_update)
  next
    case False
    then have "map_of (entries xs) ?k = None" using d by (simp add: map_of_eq_None_iff flip: set_map)
    then show ?thesis using False by (simp add: apply_state_def list_update_beyond)
  qed
qed

lemma fold_states:
  "indexed xs \<Longrightarrow> fold fold_line (map ItemState ys) (entries xs) = entries (fold apply_state ys xs) \<and> indexed (fold apply_state ys xs)"
  by (induction ys arbitrary: xs) (use fold_state in \<open>simp_all\<close>)

lemma append_all_lines:
  "append_all f r ys = Inr g \<Longrightarrow> nullish (map_of (bf_items g) r) [] = nullish (map_of (bf_items f) r) [] @ map ItemState ys"
proof (induction ys arbitrary: f)
  case (Cons y ys)
  then obtain h where h: "append_batch_item f r y = Inr h" "append_all h r ys = Inr g" by (auto split: sum.splits)
  then have "nullish (map_of (bf_items h) r) [] = nullish (map_of (bf_items f) r) [] @ [ItemState y]"
    by (auto simp: append_batch_item_def split: prod.splits if_splits)
  then show ?case using Cons.IH [OF h(2)] by simp
qed simp

lemma sorted_indexed: "indexed xs \<Longrightarrow> sort_key bi_index xs = xs"
  by (rule sort_key_id_if_sorted) (simp add: indexed_def)

text \<open>
  The items file reads back as the items in memory: after a whole write and any number of appended
  changes, the fold gives each item's last state with its first line's input, in index order; a torn last
  line (a crash mid-append) changes nothing.
\<close>

theorem items_file_reads_back:
  assumes "write_batch_items f r xs = Inr g" "indexed xs" "append_all g r ys = Inr h"
  shows "read_batch_items h r = fold apply_state ys xs \<and>
    read_batch_items (h\<lparr>bf_items := jset r (nullish (map_of (bf_items h) r) [] @ [TornLine]) (bf_items h)\<rparr>) r =
      fold apply_state ys xs"
proof -
  have "nullish (map_of (bf_items g) r) [] = map WholeItem xs"
    using assms(1) by (auto simp: write_batch_items_def split: prod.splits if_splits)
  then have l: "nullish (map_of (bf_items h) r) [] = map WholeItem xs @ map ItemState ys"
    using append_all_lines [OF assms(3)] by simp
  have "distinct (map bi_index xs)" using assms(2) by (simp add: indexed_def)
  then have w: "fold fold_line (map WholeItem xs) [] = entries xs" using fold_whole [of "[]" xs] by (simp add: entries_def)
  have e: "map snd (entries zs) = zs" for zs by (simp add: entries_def comp_def)
  note fs = fold_states [OF assms(2), of ys]
  show ?thesis
    using fs sorted_indexed by (simp add: read_batch_items_def l w e)
qed

definition demo_item :: "nat \<Rightarrow> batch_item" where
  "demo_item k = \<lparr>bi_index = k, bi_input = JNull, bi_state = ItemPending, bi_runId = None, bi_previousRunIds = [],
     bi_execution = None, bi_verdict = None, bi_degraded = False, bi_costUsd = None, bi_error = None\<rparr>"

definition demo_batch_files :: batch_files where
  "demo_batch_files = \<lparr>bf_workspaces = {''w1''}, bf_records = [], bf_items = [], bf_keys = (\<lambda>_ _. None)\<rparr>"

theorem items_file_reads_back_witness:
  "\<exists>g h. write_batch_items demo_batch_files (''w1'', ''u1'', ''batch_0123456789ab'') [demo_item 0, demo_item 1] = Inr g \<and>
    append_all g (''w1'', ''u1'', ''batch_0123456789ab'') [demo_item 1\<lparr>bi_state := ItemQueued\<rparr>] = Inr h \<and>
    read_batch_items h (''w1'', ''u1'', ''batch_0123456789ab'') = [demo_item 0, demo_item 1\<lparr>bi_state := ItemQueued\<rparr>]"
proof -
  let ?r = "(''w1'', ''u1'', ''batch_0123456789ab'')"
  have v: "valid_batch_id ''batch_0123456789ab''" by code_simp
  obtain g where g: "write_batch_items demo_batch_files ?r [demo_item 0, demo_item 1] = Inr g" "bf_workspaces g = {''w1''}"
    using v by (simp add: write_batch_items_def demo_batch_files_def)
  then obtain h where h: "append_all g ?r [demo_item 1\<lparr>bi_state := ItemQueued\<rparr>] = Inr h"
    using v by (simp add: append_batch_item_def)
  have "indexed [demo_item 0, demo_item 1]" by (simp add: indexed_def demo_item_def)
  from items_file_reads_back [OF g(1) this h] g(1) h show ?thesis by (simp add: apply_state_def demo_item_def)
qed

end
