(* ===== verification/Batch.thy ===== *)
theory Batch
  imports Batch_Store Scheduler Spend
begin

text \<open>
  The batch driver (\<open>src/platform/tasks/batch.ts\<close>): one task run over many inputs. It asks the scheduler
  for its items' runs, at most \<open>concurrency\<close> at once, holds the batch's spend account open, and pauses,
  resumes, completes, cancels and reruns batches.

  A loaded batch is an object the driver's callbacks keep: the objects are a list, an object is named by its
  place, and \<open>live\<close> says which object a batch's key stands for. The scheduler and the spend balances are a
  \<open>door\<close>: functions on a state of their own, which the driver only reaches through it. A callback of a run
  (\<open>item_started\<close>, \<open>item_ended\<close>, \<open>item_rejected\<close>) and the end of a wait (\<open>retry_now\<close>) are steps of their own.
  Log lines and the promise of a run are not modelled.
\<close>

section \<open>State\<close>

definition max_batch_items :: nat where "max_batch_items = 10000"
definition max_batch_input_bytes :: nat where "max_batch_input_bytes = 16 * 1024 * 1024"

record live_batch =
  lb_batch :: batch
  lb_items :: "batch_item list"
  lb_pending :: "nat list"
  lb_outstanding :: "nat list"
  lb_anchor :: "hold option"
  lb_retry :: bool
  lb_withdrawn :: "string list"
  lb_waitForSettle :: bool
  lb_settled :: nat
  lb_settledAtRequest :: "(string \<times> nat) list"

record 'd door =
  door_request :: "string \<Rightarrow> string \<Rightarrow> string \<Rightarrow> requested_run \<Rightarrow> 'd \<Rightarrow> (task_error + batch_run_ticket) \<times> 'd"
  door_cancel :: "string \<Rightarrow> string \<Rightarrow> string \<Rightarrow> 'd \<Rightarrow> bool \<times> 'd"
  door_withdraw :: "string \<Rightarrow> string \<Rightarrow> string \<Rightarrow> 'd \<Rightarrow> bool \<times> 'd"
  door_settle_lost :: "string \<Rightarrow> string \<Rightarrow> run_ticket \<Rightarrow> 'd \<Rightarrow> (task_error + run_ticket) \<times> 'd"
  door_ticket :: "string \<Rightarrow> string \<Rightarrow> string \<Rightarrow> 'd \<Rightarrow> run_ticket option"
  door_spend :: bool
  door_balance :: "string \<Rightarrow> 'd \<Rightarrow> rat option"
  door_open :: "spend_account list \<Rightarrow> 'd \<Rightarrow> hold \<times> 'd"
  door_release :: "hold \<Rightarrow> 'd \<Rightarrow> 'd"
  door_ledger :: "(batch \<Rightarrow> string list \<Rightarrow> (string \<times> rat) list) option"
  door_runId :: "nat \<Rightarrow> string"
  door_batchId :: "nat \<Rightarrow> string"
  door_digest :: "string \<Rightarrow> string"

datatype batch_notice = BatchChanged string | BatchPausedNotice batch

record 'd driver =
  objs :: "live_batch list"
  live :: "(string \<times> nat) list"
  stopping :: bool
  bfiles :: batch_files
  dstate :: 'd
  runsMinted :: nat
  batchesMinted :: nat
  bnotices :: "batch_notice list"

section \<open>Helpers\<close>

definition batch_account_id :: "batch \<Rightarrow> string" where
  "batch_account_id b = batch_account_prefix @ b_workspaceId b @ ''/'' @ b_ownerId b @ ''/'' @ b_id b"

definition pass_rate_of :: "batch_counts \<Rightarrow> rat option" where
  "pass_rate_of c =
     (let judged = cnt_pass c + cnt_fail c
      in if judged = 0 then None else Some (of_int (cnt_pass c) / of_int judged))"

definition is_rerunnable :: "batch_item \<Rightarrow> bool" where
  "is_rerunnable x \<longleftrightarrow>
     bi_state x = ItemDone \<and>
     (bi_execution x \<in> {Some ExecFailed, Some ExecSkipped, Some ExecCancelled} \<or> bi_verdict x = Some VerdictFail)"

definition back_to_pending :: "batch_item \<Rightarrow> batch_item" where
  "back_to_pending x =
     \<lparr>bi_index = bi_index x, bi_input = bi_input x, bi_state = ItemPending, bi_runId = None,
      bi_previousRunIds = bi_previousRunIds x @
        (case bi_runId x of None \<Rightarrow> [] | Some r \<Rightarrow> if r = [] then [] else [r]),
      bi_execution = None, bi_verdict = None, bi_degraded = False, bi_costUsd = bi_costUsd x, bi_error = None\<rparr>"

definition batch_key_of :: "string \<Rightarrow> string \<Rightarrow> string \<Rightarrow> string" where
  "batch_key_of ws owner batch = ws @ ''/'' @ owner @ ''/'' @ batch"

definition ref_of :: "batch \<Rightarrow> batch_ref" where
  "ref_of b = (b_workspaceId b, b_ownerId b, b_id b)"

definition key_of_batch :: "batch \<Rightarrow> string" where
  "key_of_batch b = batch_key_of (b_workspaceId b) (b_ownerId b) (b_id b)"

abbreviation obj :: "nat \<Rightarrow> 'd driver \<Rightarrow> live_batch" where
  "obj i s \<equiv> objs s ! i"

text \<open>\<open>Set.add\<close>: at the end, unless it is there.\<close>

definition set_add :: "'a \<Rightarrow> 'a list \<Rightarrow> 'a list" where
  "set_add x xs = (if x \<in> set xs then xs else xs @ [x])"

definition set_obj :: "nat \<Rightarrow> (live_batch \<Rightarrow> live_batch) \<Rightarrow> 'd driver \<Rightarrow> 'd driver" where
  "set_obj i g s = s\<lparr>objs := (objs s)[i := g (obj i s)]\<rparr>"

definition set_batch :: "nat \<Rightarrow> (batch \<Rightarrow> batch) \<Rightarrow> 'd driver \<Rightarrow> 'd driver" where
  "set_batch i g = set_obj i (\<lambda>lb. lb\<lparr>lb_batch := g (lb_batch lb)\<rparr>)"

section \<open>Writing\<close>

definition release_anchor :: "'d door \<Rightarrow> nat \<Rightarrow> 'd driver \<Rightarrow> 'd driver" where
  "release_anchor D i s =
     (case lb_anchor (obj i s) of
        None \<Rightarrow> s
      | Some h \<Rightarrow> set_obj i (\<lambda>lb. lb\<lparr>lb_anchor := None\<rparr>) (s\<lparr>dstate := door_release D h (dstate s)\<rparr>))"

definition clear_retry :: "nat \<Rightarrow> 'd driver \<Rightarrow> 'd driver" where
  "clear_retry i = set_obj i (\<lambda>lb. lb\<lparr>lb_retry := False\<rparr>)"

definition drop_batches :: "'d door \<Rightarrow> string \<Rightarrow> 'd driver \<Rightarrow> nat \<times> 'd driver" where
  "drop_batches D ws s =
     (let gone = filter (\<lambda>(key, _). starts_with (ws @ ''/'') key) (live s)
      in (length gone,
          fold (\<lambda>(key, i) s. (release_anchor D i (clear_retry i s))\<lparr>live := jdelete key (live s)\<rparr>) gone s))"

definition guarded :: "'d door \<Rightarrow> nat \<Rightarrow> (batch_files \<Rightarrow> batch_write_error + batch_files) \<Rightarrow> 'd driver \<Rightarrow> 'd driver" where
  "guarded D i w s =
     (case w (bfiles s) of
        Inr f \<Rightarrow> s\<lparr>bfiles := f\<rparr>
      | Inl BatchWriteFailed \<Rightarrow> s
      | Inl BatchRootMissing \<Rightarrow>
          snd (drop_batches D (b_workspaceId (lb_batch (obj i s))) (set_batch i (\<lambda>b. b\<lparr>b_state := BatchCancelled\<rparr>) s)))"

definition replaced_item :: "batch_item \<Rightarrow> live_batch \<Rightarrow> live_batch" where
  "replaced_item y lb =
     (let prev = lb_items lb ! bi_index y; b = lb_batch lb in
      lb\<lparr>lb_batch := b\<lparr>b_counts := bump (bucket_of y) 1 (bump (bucket_of prev) (-1) (b_counts b)),
                       b_costUsd := b_costUsd b + (nullish (bi_costUsd y) 0 - nullish (bi_costUsd prev) 0)\<rparr>,
         lb_items := (lb_items lb)[bi_index y := y]\<rparr>)"

definition set_item :: "'d door \<Rightarrow> nat \<Rightarrow> batch_item \<Rightarrow> 'd driver \<Rightarrow> 'd driver" where
  "set_item D i y s =
     (if length (lb_items (obj i s)) \<le> bi_index y then s
      else guarded D i (\<lambda>f. append_batch_item f (ref_of (lb_batch (obj i s))) y) (set_obj i (replaced_item y) s))"

definition persist_batch :: "'d door \<Rightarrow> ms \<Rightarrow> nat \<Rightarrow> 'd driver \<Rightarrow> 'd driver" where
  "persist_batch D now i s =
     (let s1 = set_batch i (\<lambda>b. b\<lparr>b_updatedAt := now\<rparr>) s;
          s2 = guarded D i (\<lambda>f. save_batch f (lb_batch (obj i s1))) s1
      in s2\<lparr>bnotices := bnotices s2 @ [BatchChanged (b_ownerId (lb_batch (obj i s2)))]\<rparr>)"

section \<open>Pausing and completing\<close>

text \<open>What \<open>settleIdle\<close> does to a batch that leaves memory.\<close>

definition leave :: "'d door \<Rightarrow> nat \<Rightarrow> 'd driver \<Rightarrow> 'd driver" where
  "leave D i s =
     (let s1 = release_anchor D i (clear_retry i s);
          key = key_of_batch (lb_batch (obj i s1))
      in if map_of (live s1) key = Some i then s1\<lparr>live := jdelete key (live s1)\<rparr> else s1)"

text \<open>\<open>complete\<close>; its own call of \<open>settleIdle\<close> finds the batch completed (or cancelled by a failed write).\<close>

definition complete_batch :: "'d door \<Rightarrow> ms \<Rightarrow> nat \<Rightarrow> 'd driver \<Rightarrow> 'd driver" where
  "complete_batch D now i s =
     (let s1 = set_batch i (\<lambda>b. b\<lparr>b_state := BatchCompleted, b_completedAt := Some now\<rparr>) s;
          s2 = guarded D i (\<lambda>f. write_batch_items f (ref_of (lb_batch (obj i s1))) (lb_items (obj i s1))) s1;
          s3 = persist_batch D now i s2
      in if lb_outstanding (obj i s3) \<noteq> [] then s3 else leave D i s3)"

definition settle_idle :: "'d door \<Rightarrow> ms \<Rightarrow> nat \<Rightarrow> 'd driver \<Rightarrow> 'd driver" where
  "settle_idle D now i s =
     (let lb = obj i s in
      if b_state (lb_batch lb) = BatchRunning \<or> lb_outstanding lb \<noteq> [] then s
      else leave D i
        (if b_state (lb_batch lb) = BatchPaused \<and> \<not> list_ex (\<lambda>x. bi_state x = ItemPending) (lb_items lb)
         then complete_batch D now i (set_batch i (\<lambda>b. b\<lparr>b_pause := None\<rparr>) s)
         else s))"

text \<open>The loop of \<open>pause\<close> over the runs asked for.\<close>

fun withdraw_queued :: "'d door \<Rightarrow> nat \<Rightarrow> nat list \<Rightarrow> 'd driver \<Rightarrow> 'd driver" where
  "withdraw_queued D i [] s = s"
| "withdraw_queued D i (k # ks) s =
     (let lb = obj i s; x = lb_items lb ! k; b = lb_batch lb in
      if length (lb_items lb) \<le> k \<or> bi_state x \<noteq> ItemQueued \<or> \<not> truthy (bi_runId x) then withdraw_queued D i ks s
      else
        let run = nullish (bi_runId x) [];
            (taken, d) = door_withdraw D (b_workspaceId b) (b_ownerId b) run (dstate s)
        in withdraw_queued D i ks
             (set_obj i (\<lambda>lb. lb\<lparr>lb_withdrawn :=
                if taken then set_add run (lb_withdrawn lb) else filter (\<lambda>r. r \<noteq> run) (lb_withdrawn lb)\<rparr>)
               (s\<lparr>dstate := d\<rparr>)))"

definition pause_batch :: "'d door \<Rightarrow> ms \<Rightarrow> nat \<Rightarrow> batch_pause_reason \<Rightarrow> string \<Rightarrow> 'd driver \<Rightarrow> 'd driver" where
  "pause_batch D now i reason message s =
     (if b_state (lb_batch (obj i s)) \<noteq> BatchRunning then s
      else
        let s1 = set_batch i (\<lambda>b. b\<lparr>b_state := BatchPaused,
                   b_pause := Some \<lparr>pause_reason = reason, pause_message = message, pause_at = now\<rparr>\<rparr>) s;
            s2 = clear_retry i s1;
            s3 = withdraw_queued D i (lb_outstanding (obj i s2)) s2;
            s4 = persist_batch D now i (release_anchor D i s3)
        in if reason = PauseBudget \<or> reason = PausePassRate
           then s4\<lparr>bnotices := bnotices s4 @ [BatchPausedNotice (lb_batch (obj i s4))]\<rparr> else s4)"

section \<open>Driving\<close>

definition accounts_for :: "batch \<Rightarrow> spend_account list" where
  "accounts_for b =
     (case b_budgetUsd b of
        None \<Rightarrow> []
      | Some budget \<Rightarrow>
          [\<lparr>account_id = batch_account_id b, account_unit = Usd, remaining = max 0 (budget - b_costUsd b)\<rparr>])"

definition balance_left :: "'d door \<Rightarrow> batch \<Rightarrow> rat \<Rightarrow> 'd \<Rightarrow> rat" where
  "balance_left D b budget d =
     nullish (if door_spend D then door_balance D (batch_account_id b) d else None) (budget - b_costUsd b)"

definition budget_spent :: "'d door \<Rightarrow> batch \<Rightarrow> 'd \<Rightarrow> bool" where
  "budget_spent D b d =
     (case b_budgetUsd b of None \<Rightarrow> False | Some budget \<Rightarrow> balance_left D b budget d \<le> 0)"

text \<open>\<open>nextPending\<close>: the next index whose item is still pending, and what is left of the list.\<close>

fun next_pending :: "batch_item list \<Rightarrow> nat list \<Rightarrow> nat option \<times> nat list" where
  "next_pending items [] = (None, [])"
| "next_pending items (k # ks) =
     (if k < length items \<and> bi_state (items ! k) = ItemPending then (Some k, ks) else next_pending items ks)"

datatype asked = Asked | NotNow | RequestThrew

definition request_item :: "'d door \<Rightarrow> ms \<Rightarrow> nat \<Rightarrow> nat \<Rightarrow> 'd driver \<Rightarrow> asked \<times> 'd driver" where
  "request_item D now i k s =
     (let lb = obj i s; b = lb_batch lb; x = lb_items lb ! k;
          rq = \<lparr>rq_runId = door_runId D (runsMinted s), rq_requestedAt = now, rq_input = Some (bi_input x),
                rq_idempotencyKey = None, rq_retryOf = None, rq_guidance = None, rq_batch = Some (b_id b, k)\<rparr>;
          (answer, d) = door_request D (b_workspaceId b) (b_ownerId b) (b_taskId b) rq (dstate s);
          s1 = s\<lparr>dstate := d, runsMinted := Suc (runsMinted s)\<rparr>;
          back = set_obj i (\<lambda>lb. lb\<lparr>lb_pending := k # lb_pending lb\<rparr>) s1;
          took = (\<lambda>state.
            let s2 = set_obj i (\<lambda>lb. lb\<lparr>lb_outstanding := set_add k (lb_outstanding lb),
                       lb_settledAtRequest := jset (rq_runId rq) (lb_settled lb) (lb_settledAtRequest lb)\<rparr>) s1
            in (Asked, persist_batch D now i (set_item D i (x\<lparr>bi_state := state, bi_runId := Some (rq_runId rq)\<rparr>) s2)))
      in case answer of
           Inl e \<Rightarrow> (RequestThrew, s1)
         | Inr (BatchRunRefused why message) \<Rightarrow>
             (NotNow,
              (case why of
                 BatchQueueFull \<Rightarrow> set_obj i (\<lambda>lb. lb\<lparr>lb_retry := True\<rparr>) back
               | BatchBudget \<Rightarrow> pause_batch D now i PauseBudget message back
               | BatchNotFound \<Rightarrow>
                   pause_batch D now i PauseUnavailable (''The batch's task cannot be run: '' @ message @ ''.'') back
               | BatchStopped \<Rightarrow> back))
         | Inr (BatchRunStartedT _) \<Rightarrow> took ItemRunning
         | Inr BatchRunQueued \<Rightarrow> took ItemQueued)"

text \<open>
  The loop of \<open>pump\<close>. Every turn takes an index off the pending list, so as many turns as it is long, and
  one, end the loop. The flag says a request threw out of it.
\<close>

fun pump_loop :: "'d door \<Rightarrow> ms \<Rightarrow> nat \<Rightarrow> nat \<Rightarrow> 'd driver \<Rightarrow> bool \<times> bool \<times> 'd driver" where
  "pump_loop D now i 0 s = (False, True, s)"
| "pump_loop D now i (Suc n) s =
     (let lb = obj i s in
      if \<not> int (length (lb_outstanding lb)) < b_concurrency (lb_batch lb) then (True, False, s)
      else case next_pending (lb_items lb) (lb_pending lb) of
             (None, rest) \<Rightarrow> (True, False, set_obj i (\<lambda>lb. lb\<lparr>lb_pending := rest\<rparr>) s)
           | (Some k, rest) \<Rightarrow>
               (let s1 = set_obj i (\<lambda>lb. lb\<lparr>lb_pending := rest\<rparr>) s in
                if budget_spent D (lb_batch lb) (dstate s)
                then (False, False,
                      pause_batch D now i PauseBudget ''The batch's budget has nothing left for another run.''
                        (set_obj i (\<lambda>lb. lb\<lparr>lb_pending := k # rest\<rparr>) s1))
                else case request_item D now i k s1 of
                       (Asked, s2) \<Rightarrow> pump_loop D now i n s2
                     | (NotNow, s2) \<Rightarrow> (False, False, s2)
                     | (RequestThrew, s2) \<Rightarrow> (False, True, s2)))"

definition pump :: "'d door \<Rightarrow> ms \<Rightarrow> nat \<Rightarrow> 'd driver \<Rightarrow> bool \<times> 'd driver" where
  "pump D now i s =
     (let lb = obj i s in
      if b_state (lb_batch lb) \<noteq> BatchRunning then (False, settle_idle D now i s)
      else if stopping s \<or> lb_retry lb \<or> lb_waitForSettle lb then (False, s)
      else case pump_loop D now i (Suc (length (lb_pending lb))) s of
             (ended, threw, s1) \<Rightarrow>
               (threw,
                if ended \<and> lb_outstanding (obj i s1) = [] \<and> lb_pending (obj i s1) = [] then complete_batch D now i s1
                else s1))"

definition activate :: "'d door \<Rightarrow> ms \<Rightarrow> nat \<Rightarrow> 'd driver \<Rightarrow> bool \<times> 'd driver" where
  "activate D now i s =
     (let s1 = set_obj i (\<lambda>lb. lb\<lparr>lb_waitForSettle := False\<rparr>) s;
          lb = obj i s1
      in pump D now i
           (if door_spend D \<and> b_budgetUsd (lb_batch lb) \<noteq> None \<and> lb_anchor lb = None
            then (case door_open D (accounts_for (lb_batch lb)) (dstate s1) of
                    (h, d) \<Rightarrow> set_obj i (\<lambda>lb. lb\<lparr>lb_anchor := Some h\<rparr>) (s1\<lparr>dstate := d\<rparr>))
            else s1))"

definition retry_now :: "'d door \<Rightarrow> ms \<Rightarrow> nat \<Rightarrow> 'd driver \<Rightarrow> bool \<times> 'd driver" where
  "retry_now D now i s = pump D now i (clear_retry i s)"

section \<open>The end of an item's run\<close>

definition item_started :: "'d door \<Rightarrow> ms \<Rightarrow> nat \<Rightarrow> nat \<Rightarrow> string \<Rightarrow> 'd driver \<Rightarrow> 'd driver" where
  "item_started D now i k run s =
     (let items = lb_items (obj i s); x = items ! k in
      if length items \<le> k \<or> bi_runId x \<noteq> Some run \<or> bi_state x \<noteq> ItemQueued then s
      else persist_batch D now i (set_item D i (x\<lparr>bi_state := ItemRunning\<rparr>) s))"

definition outcome_of :: "batch_item \<Rightarrow> task_run \<Rightarrow> batch_item" where
  "outcome_of x run =
     \<lparr>bi_index = bi_index x, bi_input = bi_input x, bi_state = ItemDone, bi_runId = Some (r_id run),
      bi_previousRunIds = bi_previousRunIds x, bi_execution = Some (execution_of run),
      bi_verdict = (if is_assessable run then item_verdict_of run else None),
      bi_degraded = (r_status run = RunDegraded \<or> nullish (r_unrecoveredToolFailures run) [] \<noteq> []),
      bi_costUsd = Some (nullish (bi_costUsd x) 0 + nullish (r_costUsd run) 0),
      bi_error = (if truthy (r_error run) then r_error run else None)\<rparr>"

definition others_running :: "live_batch \<Rightarrow> bool" where
  "others_running lb \<longleftrightarrow>
     list_ex (\<lambda>k. k < length (lb_items lb) \<and> bi_state (lb_items lb ! k) = ItemRunning) (lb_outstanding lb)"

definition reserved_out :: "'d door \<Rightarrow> live_batch \<Rightarrow> bool \<Rightarrow> 'd \<Rightarrow> bool" where
  "reserved_out D lb endedSince d =
     (case b_budgetUsd (lb_batch lb) of
        None \<Rightarrow> False
      | Some budget \<Rightarrow> (endedSince \<or> others_running lb) \<and> 0 < balance_left D (lb_batch lb) budget d)"

definition settle_item ::
  "'d door \<Rightarrow> nat \<Rightarrow> nat \<Rightarrow> task_run \<Rightarrow> bool \<Rightarrow> bool \<Rightarrow> 'd driver \<Rightarrow> 'd driver" where
  "settle_item D i k run batchStop withdrawn s =
     (let settled = outcome_of (lb_items (obj i s) ! k) run;
          producedNothing = (bi_execution settled \<in> {Some ExecFailed, Some ExecSkipped});
          again = (r_trigger run = None \<and> (stopping s \<or> withdrawn)
                   \<or> batchStop \<and> producedNothing)
      in if \<not> again then set_item D i settled s
         else if b_state (lb_batch (obj i s)) = BatchCancelled
         then set_item D i ((back_to_pending settled)\<lparr>bi_state := ItemDone, bi_execution := Some ExecCancelled\<rparr>) s
         else
           let s1 = set_item D i (back_to_pending settled) s
           in if stopping s1 then s1 else set_obj i (\<lambda>lb. lb\<lparr>lb_pending := k # lb_pending lb\<rparr>) s1)"

text \<open>\<open>Number.prototype.toFixed\<close>: the nearest value with that many decimals, the larger of two.\<close>

definition to_fixed :: "nat \<Rightarrow> rat \<Rightarrow> string" where
  "to_fixed d x =
     (let n = \<lfloor>\<bar>x\<bar> * 10 ^ d + 1 / 2\<rfloor>; frac = show_int (n mod 10 ^ d)
      in (if x < 0 then ''-'' else []) @ show_int (n div 10 ^ d) @
         (if d = 0 then [] else ''.'' @ replicate (d - length frac) (CHR ''0'') @ frac))"

definition pass_rate_text :: "batch_counts \<Rightarrow> rat \<Rightarrow> rat \<Rightarrow> string" where
  "pass_rate_text c rate minRate =
     ''Pass rate '' @ to_fixed 1 (rate * 100) @ ''% (pass '' @ show_int (cnt_pass c) @ '', fail '' @ show_int (cnt_fail c) @
     ''; uncertain excluded) fell below '' @ to_fixed 1 (minRate * 100) @ ''% after '' @
     show_int (cnt_pass c + cnt_fail c + cnt_uncertain c) @ '' assessed runs.''"

definition apply_stop_rule :: "'d door \<Rightarrow> ms \<Rightarrow> nat \<Rightarrow> 'd driver \<Rightarrow> 'd driver" where
  "apply_stop_rule D now i s =
     (let b = lb_batch (obj i s); c = b_counts b in
      case b_stopWhen b of
        None \<Rightarrow> s
      | Some rule \<Rightarrow>
          if b_stopRuleDisarmed b \<or> b_state b \<noteq> BatchRunning then s
          else if cnt_pass c + cnt_fail c + cnt_uncertain c < afterItems rule then s
          else case pass_rate_of c of
                 None \<Rightarrow> s
               | Some rate \<Rightarrow>
                   if rate \<ge> minPassRate rule then s
                   else pause_batch D now i PausePassRate (pass_rate_text c rate (minPassRate rule)) s)"

definition item_ended ::
  "'d door \<Rightarrow> ms \<Rightarrow> nat \<Rightarrow> nat \<Rightarrow> string \<Rightarrow> task_run \<Rightarrow> 'd driver \<Rightarrow> bool \<times> 'd driver" where
  "item_ended D now i k runId run s =
     (let s1 = set_obj i (\<lambda>lb. lb\<lparr>lb_outstanding := filter (\<lambda>j. j \<noteq> k) (lb_outstanding lb)\<rparr>) s;
          lb1 = obj i s1
      in if length (lb_items lb1) \<le> k \<or> bi_runId (lb_items lb1 ! k) \<noteq> Some runId then (False, s1)
         else
           let batchStop = (r_stopReason run = Some StopSpendLimit \<and>
                 r_spendAccountId run = Some (batch_account_id (lb_batch lb1)));
               endedSince = (nullish (map_of (lb_settledAtRequest lb1) runId) (lb_settled lb1) < lb_settled lb1);
               s2 = set_obj i (\<lambda>lb. lb\<lparr>lb_waitForSettle := False,
                      lb_settledAtRequest := jdelete runId (lb_settledAtRequest lb),
                      lb_settled := (if r_inputTokens run > 0 \<or> r_outputTokens run > 0
                                     then Suc (lb_settled lb) else lb_settled lb)\<rparr>) s1;
               reservedOut = (batchStop \<and> reserved_out D (obj i s2) endedSince (dstate s2));
               withdrawn = (runId \<in> set (lb_withdrawn (obj i s2)));
               s3 = set_obj i (\<lambda>lb. lb\<lparr>lb_withdrawn := filter (\<lambda>r. r \<noteq> runId) (lb_withdrawn lb)\<rparr>) s2;
               s4 = settle_item D i k run batchStop withdrawn s3;
               s5 = (if reservedOut then set_obj i (\<lambda>lb. lb\<lparr>lb_waitForSettle := others_running lb\<rparr>) s4
                     else if batchStop
                     then pause_batch D now i PauseBudget
                            ''The batch's budget has too little left for another model call.'' s4
                     else if r_stopReason run = Some StopSpendLimit \<and>
                             (case r_spendAccountId run of None \<Rightarrow> False | Some a \<Rightarrow> starts_with budget_account_prefix a)
                     then pause_batch D now i PauseBudget ''The task's token budget is spent for its window.'' s4
                     else s4);
               s6 = persist_batch D now i (apply_stop_rule D now i s5)
           in pump D now i s6)"

definition item_rejected :: "'d door \<Rightarrow> ms \<Rightarrow> nat \<Rightarrow> nat \<Rightarrow> string \<Rightarrow> string \<Rightarrow> 'd driver \<Rightarrow> bool \<times> 'd driver" where
  "item_rejected D now i k runId err s =
     (let s1 = set_obj i (\<lambda>lb. lb\<lparr>lb_outstanding := filter (\<lambda>j. j \<noteq> k) (lb_outstanding lb)\<rparr>) s;
          items = lb_items (obj i s1); x = items ! k
      in pump D now i
           (if k < length items \<and> bi_runId x = Some runId
            then persist_batch D now i (set_item D i
                   (x\<lparr>bi_state := ItemDone, bi_execution := Some ExecFailed, bi_error := Some err\<rparr>) s1)
            else s1))"

section \<open>Loading, creating, reconciling\<close>

definition loaded :: "batch \<Rightarrow> batch_item list \<Rightarrow> live_batch" where
  "loaded b items =
     \<lparr>lb_batch = b, lb_items = items,
      lb_pending = map bi_index (filter (\<lambda>x. bi_state x = ItemPending) items),
      lb_outstanding = [], lb_anchor = None, lb_retry = False, lb_withdrawn = [], lb_waitForSettle = False,
      lb_settled = 0, lb_settledAtRequest = []\<rparr>"

definition add_live :: "live_batch \<Rightarrow> 'd driver \<Rightarrow> nat \<times> 'd driver" where
  "add_live lb s =
     (length (objs s),
      s\<lparr>objs := objs s @ [lb], live := jset (key_of_batch (lb_batch lb)) (length (objs s)) (live s)\<rparr>)"

definition load_live :: "string \<Rightarrow> string \<Rightarrow> string \<Rightarrow> 'd driver \<Rightarrow> nat option \<times> 'd driver" where
  "load_live ws owner batch s =
     (case map_of (live s) (batch_key_of ws owner batch) of
        Some i \<Rightarrow> (Some i, s)
      | None \<Rightarrow>
          (case load_batch (bfiles s) ws owner batch of
             None \<Rightarrow> (None, s)
           | Some b \<Rightarrow>
               (case add_live (loaded b (read_batch_items (bfiles s) (ws, owner, batch))) s of
                  (i, s1) \<Rightarrow> (Some i, s1))))"

definition get_batch :: "string \<Rightarrow> string \<Rightarrow> string \<Rightarrow> 'd driver \<Rightarrow> (batch \<times> batch_item list) option" where
  "get_batch ws owner batch s =
     (case map_of (live s) (batch_key_of ws owner batch) of
        Some i \<Rightarrow> Some (lb_batch (obj i s), lb_items (obj i s))
      | None \<Rightarrow>
          (case load_batch (bfiles s) ws owner batch of
             None \<Rightarrow> None
           | Some b \<Rightarrow> Some (b, read_batch_items (bfiles s) (ws, owner, batch))))"

definition is_resident :: "string \<Rightarrow> string \<Rightarrow> string \<Rightarrow> 'd driver \<Rightarrow> bool" where
  "is_resident ws owner batch s \<longleftrightarrow> map_of (live s) (batch_key_of ws owner batch) \<noteq> None"

record new_batch =
  nb_wsId :: string
  nb_ownerId :: string
  nb_taskId :: string
  nb_inputs :: "json list"
  nb_concurrency :: int
  nb_budgetUsd :: "rat option"
  nb_stopWhen :: "batch_stop_rule option"
  nb_idempotencyKey :: "string option"
  nb_createdBy :: string

definition fresh_item :: "nat \<times> json \<Rightarrow> batch_item" where
  "fresh_item p =
     \<lparr>bi_index = fst p, bi_input = snd p, bi_state = ItemPending, bi_runId = None, bi_previousRunIds = [],
      bi_execution = None, bi_verdict = None, bi_degraded = False, bi_costUsd = None, bi_error = None\<rparr>"

definition fresh_batch :: "'d door \<Rightarrow> ms \<Rightarrow> new_batch \<Rightarrow> nat \<Rightarrow> batch" where
  "fresh_batch D now spec n =
     \<lparr>b_id = door_batchId D n, b_taskId = nb_taskId spec, b_workspaceId = nb_wsId spec, b_ownerId = nb_ownerId spec,
      b_items = length (nb_inputs spec), b_concurrency = nb_concurrency spec, b_budgetUsd = nb_budgetUsd spec,
      b_stopWhen = nb_stopWhen spec, b_stopRuleDisarmed = False, b_state = BatchRunning, b_pause = None,
      b_counts = empty_counts\<lparr>cnt_pending := int (length (nb_inputs spec))\<rparr>, b_costUsd = 0,
      b_idempotencyKey = nb_idempotencyKey spec, b_createdAt = now, b_updatedAt = now, b_completedAt = None,
      b_createdBy = nb_createdBy spec\<rparr>"

datatype batch_failure = WriteThrew batch_write_error | RunRequestThrew

definition create_batch :: "'d door \<Rightarrow> ms \<Rightarrow> new_batch \<Rightarrow> 'd driver \<Rightarrow> (batch_failure + batch) \<times> 'd driver" where
  "create_batch D now spec s =
     (let items = map fresh_item (zip [0..<length (nb_inputs spec)] (nb_inputs spec));
          b = fresh_batch D now spec (batchesMinted s);
          s0 = s\<lparr>batchesMinted := Suc (batchesMinted s)\<rparr>
      in case write_batch_items (bfiles s) (ref_of b) items of
           Inl e \<Rightarrow> (Inl (WriteThrew e), s0)
         | Inr f1 \<Rightarrow>
             (case save_batch f1 b of
                Inl e \<Rightarrow> (Inl (WriteThrew e), s0\<lparr>bfiles := f1\<rparr>)
              | Inr f2 \<Rightarrow>
                  (case (case nb_idempotencyKey spec of
                           None \<Rightarrow> Inr f2
                         | Some k \<Rightarrow> save_batch_key (door_digest D) f2 (nb_wsId spec) (nb_ownerId spec) k (b_id b)) of
                     Inl e \<Rightarrow> (Inl (WriteThrew e), s0\<lparr>bfiles := f2\<rparr>)
                   | Inr f3 \<Rightarrow>
                       (case add_live (loaded b items) (s0\<lparr>bfiles := f3\<rparr>) of
                          (i, s1) \<Rightarrow>
                            (case activate D now i s1 of
                               (threw, s2) \<Rightarrow>
                                 (if threw then Inl RunRequestThrew else Inr (lb_batch (obj i s2)), s2))))))"

definition sync_run :: "'d door \<Rightarrow> ms \<Rightarrow> string \<Rightarrow> string \<Rightarrow> task_run \<Rightarrow> 'd driver \<Rightarrow> 'd driver" where
  "sync_run D now ws owner run s =
     (case (r_batchId run, r_batchIndex run) of
        (Some batch, Some k) \<Rightarrow>
          if batch = [] then s
          else (case load_live ws owner batch s of
             (None, s1) \<Rightarrow> s1
           | (Some i, s1) \<Rightarrow>
               (let items = lb_items (obj i s1); x = items ! k;
                    verdict = (if is_assessable run then item_verdict_of run else None)
                in if length items \<le> k \<or> bi_runId x \<noteq> Some (r_id run) \<or> bi_state x \<noteq> ItemDone \<or> verdict = bi_verdict x
                   then s1
                   else settle_idle D now i (persist_batch D now i (set_item D i (x\<lparr>bi_verdict := verdict\<rparr>) s1))))
      | _ \<Rightarrow> s)"

text \<open>\<open>settleLostItem\<close>: the item's outcome, the run lost with the process, and the door after it.\<close>

definition settle_lost_item ::
  "'d door \<Rightarrow> batch \<Rightarrow> batch_item \<Rightarrow> 'd \<Rightarrow> (task_error + batch_item \<times> string option) \<times> 'd" where
  "settle_lost_item D stored x d =
     (let ws = b_workspaceId stored; owner = b_ownerId stored;
          ticket = (if truthy (bi_runId x) then door_ticket D ws owner (nullish (bi_runId x) []) d else None);
          lost = (case ticket of None \<Rightarrow> None
                  | Some t \<Rightarrow> if r_status (rt_run t) = RunRunning then Some (rt_runId t) else None);
          (settled, d1) = (case ticket of
              None \<Rightarrow> (Inr None, d)
            | Some t \<Rightarrow>
                if is_open_run (r_status (rt_run t))
                then (case door_settle_lost D ws owner t d of
                        (Inl e, d') \<Rightarrow> (Inl e, d') | (Inr t', d') \<Rightarrow> (Inr (Some t'), d'))
                else (Inr (Some t), d))
      in (case settled of
            Inl e \<Rightarrow> Inl e
          | Inr ticket' \<Rightarrow>
              (case ticket' of
                 Some t \<Rightarrow>
                   if r_trigger (rt_run t) \<noteq> None then Inr (outcome_of x (rt_run t), lost)
                   else Inr (if b_state stored = BatchCancelled
                             then (back_to_pending x)\<lparr>bi_state := ItemDone, bi_execution := Some ExecCancelled\<rparr>
                             else back_to_pending x, None)
               | None \<Rightarrow>
                   Inr (if b_state stored = BatchCancelled
                        then (back_to_pending x)\<lparr>bi_state := ItemDone, bi_execution := Some ExecCancelled\<rparr>
                        else back_to_pending x, None)), d1))"

fun settle_lost_items ::
  "'d door \<Rightarrow> batch \<Rightarrow> nat \<Rightarrow> batch_item list \<Rightarrow> 'd
    \<Rightarrow> (task_error + batch_item list \<times> (string \<times> nat) list \<times> bool) \<times> 'd" where
  "settle_lost_items D stored k [] d = (Inr ([], [], False), d)"
| "settle_lost_items D stored k (x # xs) d =
     (if bi_state x \<noteq> ItemQueued \<and> bi_state x \<noteq> ItemRunning
      then (case settle_lost_items D stored (Suc k) xs d of
              (Inl e, d') \<Rightarrow> (Inl e, d')
            | (Inr (ys, lost, changed), d') \<Rightarrow> (Inr (x # ys, lost, changed), d'))
      else (case settle_lost_item D stored x d of
              (Inl e, d1) \<Rightarrow> (Inl e, d1)
            | (Inr (y, lost1), d1) \<Rightarrow>
                (case settle_lost_items D stored (Suc k) xs d1 of
                   (Inl e, d') \<Rightarrow> (Inl e, d')
                 | (Inr (ys, lost, changed), d') \<Rightarrow>
                     (Inr (y # ys, (case lost1 of None \<Rightarrow> [] | Some r \<Rightarrow> [(r, k)]) @ lost, True), d'))))"

fun charge_each :: "(string \<times> rat) list \<Rightarrow> (string \<times> nat) list \<Rightarrow> batch_item list \<Rightarrow> batch_item list" where
  "charge_each costs [] items = items"
| "charge_each costs ((run, k) # rest) items =
     (let spent = nullish (map_of costs run) 0 in
      charge_each costs rest
        (if k < length items \<and> spent > 0
         then items[k := (items ! k)\<lparr>bi_costUsd := Some (nullish (bi_costUsd (items ! k)) 0 + spent)\<rparr>]
         else items))"

definition charge_lost_runs :: "'d door \<Rightarrow> batch \<Rightarrow> (string \<times> nat) list \<Rightarrow> batch_item list \<Rightarrow> batch_item list" where
  "charge_lost_runs D stored lost items =
     (case door_ledger D of
        None \<Rightarrow> items
      | Some costs \<Rightarrow> if lost = [] then items
          else let by_run = fold (\<lambda>(r, k). jset r k) lost [] in charge_each (costs stored (map fst by_run)) by_run items)"

datatype reconcile_failure = ReconcileWrite batch_write_error | ReconcileRun task_error

definition reconcile :: "'d door \<Rightarrow> ms \<Rightarrow> batch \<Rightarrow> 'd driver \<Rightarrow> (reconcile_failure + live_batch) \<times> 'd driver" where
  "reconcile D now stored s =
     (let r = ref_of stored in
      case compact_batch_items (bfiles s) r of
        Inl e \<Rightarrow> (Inl (ReconcileWrite e), s)
      | Inr (items, f1) \<Rightarrow>
          (case settle_lost_items D stored 0 items (dstate s) of
             (Inl e, d) \<Rightarrow> (Inl (ReconcileRun e), s\<lparr>bfiles := f1, dstate := d\<rparr>)
           | (Inr (ended, lost, changed), d) \<Rightarrow>
               (let s1 = s\<lparr>bfiles := f1, dstate := d\<rparr>;
                    items' = charge_lost_runs D stored lost ended;
                    b = stored\<lparr>b_counts := count_items items', b_costUsd := sum_cost items',
                               b_updatedAt := (if changed then now else b_updatedAt stored)\<rparr>
                in case (if changed then write_batch_items f1 r items' else Inr f1) of
                     Inl e \<Rightarrow> (Inl (ReconcileWrite e), s1)
                   | Inr f2 \<Rightarrow>
                       (case save_batch f2 b of
                          Inl e \<Rightarrow> (Inl (ReconcileWrite e), s1\<lparr>bfiles := f2\<rparr>)
                        | Inr f3 \<Rightarrow> (Inr (loaded b items'), s1\<lparr>bfiles := f3\<rparr>)))))"

definition resume_stored :: "'d door \<Rightarrow> ms \<Rightarrow> batch \<Rightarrow> 'd driver \<Rightarrow> 'd driver" where
  "resume_stored D now stored s =
     (if b_state stored \<noteq> BatchRunning \<and> b_state stored \<noteq> BatchPaused \<and>
         \<not> cnt_queued (b_counts stored) + cnt_running (b_counts stored) > 0 then s
      else case reconcile D now stored s of
             (Inl _, s1) \<Rightarrow> s1
           | (Inr lb, s1) \<Rightarrow>
               (case add_live lb s1 of
                  (i, s2) \<Rightarrow>
                    if b_state (lb_batch lb) = BatchRunning then snd (activate D now i s2) else settle_idle D now i s2))"

definition start_batches :: "'d door \<Rightarrow> ms \<Rightarrow> 'd driver \<Rightarrow> 'd driver" where
  "start_batches D now s =
     fold (resume_stored D now) (list_all_batches (bfiles s)) (s\<lparr>stopping := False\<rparr>)"

definition stop_batches :: "'d door \<Rightarrow> 'd driver \<Rightarrow> 'd driver" where
  "stop_batches D s =
     fold (\<lambda>(_, i) s. release_anchor D i (clear_retry i s)) (live s) (s\<lparr>stopping := True\<rparr>)"

section \<open>Controls\<close>

datatype batch_action = ActPause | ActResume | ActCancel | ActRerunFailed

datatype control_error =
    BatchNotHere | BudgetGoesWithResume | NotRunning batch_state | IsCancelled | IsCompleted | PauseFirst
  | BudgetBelowSpent | BudgetInUse | ControlRunThrew

type_synonym 'd control = "'d driver \<Rightarrow> (control_error + batch \<times> nat) \<times> 'd driver"

definition answer :: "nat \<Rightarrow> nat \<Rightarrow> 'd control" where
  "answer i affected s = (Inr (lb_batch (obj i s), affected), s)"

definition control_pause :: "'d door \<Rightarrow> ms \<Rightarrow> nat \<Rightarrow> 'd control" where
  "control_pause D now i s =
     (if b_state (lb_batch (obj i s)) \<noteq> BatchRunning then (Inl (NotRunning (b_state (lb_batch (obj i s)))), s)
      else answer i 0 (pause_batch D now i PauseManual ''Paused by a person.'' s))"

definition set_budget :: "'d door \<Rightarrow> nat \<Rightarrow> rat \<Rightarrow> 'd driver \<Rightarrow> (control_error + unit) \<times> 'd driver" where
  "set_budget D i budget s =
     (let b = lb_batch (obj i s) in
      if \<not> budget > b_costUsd b then (Inl BudgetBelowSpent, s)
      else if b_budgetUsd b = Some budget then (Inr (), s)
      else if door_spend D \<and> door_balance D (batch_account_id b) (dstate s) \<noteq> None then (Inl BudgetInUse, s)
      else (Inr (), set_batch i (\<lambda>b. b\<lparr>b_budgetUsd := Some budget\<rparr>) s))"

definition disarmed_by_pass_rate :: "batch \<Rightarrow> batch" where
  "disarmed_by_pass_rate b =
     (if map_option pause_reason (b_pause b) = Some PausePassRate then b\<lparr>b_stopRuleDisarmed := True\<rparr> else b)"

definition control_resume :: "'d door \<Rightarrow> ms \<Rightarrow> nat \<Rightarrow> rat option \<Rightarrow> 'd control" where
  "control_resume D now i budget s =
     (case b_state (lb_batch (obj i s)) of
        BatchCancelled \<Rightarrow> (Inl IsCancelled, s)
      | BatchCompleted \<Rightarrow> (Inl IsCompleted, s)
      | BatchRunning \<Rightarrow> if budget \<noteq> None then (Inl PauseFirst, s) else answer i 0 s
      | BatchPaused \<Rightarrow>
          (case (case budget of None \<Rightarrow> (Inr (), s) | Some x \<Rightarrow> set_budget D i x s) of
             (Inl e, s1) \<Rightarrow> (Inl e, s1)
           | (Inr _, s1) \<Rightarrow>
               (let s2 = set_batch i (\<lambda>b. (disarmed_by_pass_rate b)\<lparr>b_state := BatchRunning, b_pause := None\<rparr>) s1
                in case activate D now i (persist_batch D now i s2) of
                     (threw, s3) \<Rightarrow> if threw then (Inl ControlRunThrew, s3) else answer i 0 s3)))"

fun cancel_pending :: "'d door \<Rightarrow> nat \<Rightarrow> nat list \<Rightarrow> 'd driver \<Rightarrow> nat \<times> 'd driver" where
  "cancel_pending D i [] s = (0, s)"
| "cancel_pending D i (k # ks) s =
     (let x = lb_items (obj i s) ! k in
      if bi_state x \<noteq> ItemPending then cancel_pending D i ks s
      else case cancel_pending D i ks (set_item D i (x\<lparr>bi_state := ItemDone, bi_execution := Some ExecCancelled\<rparr>) s) of
             (n, s1) \<Rightarrow> (Suc n, s1))"

fun cancel_runs :: "'d door \<Rightarrow> nat \<Rightarrow> nat list \<Rightarrow> 'd driver \<Rightarrow> nat \<times> 'd driver" where
  "cancel_runs D i [] s = (0, s)"
| "cancel_runs D i (k # ks) s =
     (let lb = obj i s; b = lb_batch lb; run = bi_runId (lb_items lb ! k) in
      if length (lb_items lb) \<le> k \<or> \<not> truthy run then cancel_runs D i ks s
      else case door_cancel D (b_workspaceId b) (b_ownerId b) (nullish run []) (dstate s) of
             (done, d) \<Rightarrow>
               (case cancel_runs D i ks (s\<lparr>dstate := d\<rparr>) of
                  (n, s1) \<Rightarrow> (if done then Suc n else n, s1)))"

definition control_cancel :: "'d door \<Rightarrow> ms \<Rightarrow> nat \<Rightarrow> 'd control" where
  "control_cancel D now i s =
     (case b_state (lb_batch (obj i s)) of
        BatchCancelled \<Rightarrow> answer i 0 s
      | BatchCompleted \<Rightarrow> (Inl IsCompleted, s)
      | _ \<Rightarrow>
          (let s1 = clear_retry i (set_batch i (\<lambda>b. b\<lparr>b_state := BatchCancelled, b_pause := None\<rparr>) s);
               (n, s2) = cancel_pending D i [0..<length (lb_items (obj i s1))] s1;
               s3 = set_obj i (\<lambda>lb. lb\<lparr>lb_pending := []\<rparr>) s2;
               (m, s4) = cancel_runs D i (lb_outstanding (obj i s3)) s3
           in answer i (n + m) (persist_batch D now i (release_anchor D i s4))))"

fun rerun_items :: "'d door \<Rightarrow> nat \<Rightarrow> batch_item list \<Rightarrow> 'd driver \<Rightarrow> 'd driver" where
  "rerun_items D i [] s = s"
| "rerun_items D i (x # xs) s =
     rerun_items D i xs
       (set_obj i (\<lambda>lb. lb\<lparr>lb_pending := lb_pending lb @ [bi_index x]\<rparr>) (set_item D i (back_to_pending x) s))"

definition control_rerun :: "'d door \<Rightarrow> ms \<Rightarrow> nat \<Rightarrow> 'd control" where
  "control_rerun D now i s =
     (if b_state (lb_batch (obj i s)) = BatchCancelled then (Inl IsCancelled, s)
      else
        let again = filter is_rerunnable (lb_items (obj i s)) in
        if again = [] then answer i 0 s
        else
          let s1 = rerun_items D i again s;
              s2 = (if b_state (lb_batch (obj i s1)) \<noteq> BatchRunning
                    then set_batch i (\<lambda>b. (disarmed_by_pass_rate b)
                           \<lparr>b_state := BatchRunning, b_pause := None, b_completedAt := None\<rparr>) s1
                    else s1)
          in case activate D now i (persist_batch D now i s2) of
               (threw, s3) \<Rightarrow> if threw then (Inl ControlRunThrew, s3) else answer i (length again) s3)"

definition control :: "'d door \<Rightarrow> ms \<Rightarrow> string \<Rightarrow> string \<Rightarrow> string \<Rightarrow> batch_action \<Rightarrow> rat option \<Rightarrow> 'd control" where
  "control D now ws owner batch action budget s =
     (case load_live ws owner batch s of
        (None, s1) \<Rightarrow> (Inl BatchNotHere, s1)
      | (Some i, s1) \<Rightarrow>
          (let (result, s2) =
             (if budget \<noteq> None \<and> action \<noteq> ActResume then (Inl BudgetGoesWithResume, s1)
              else case action of
                     ActPause \<Rightarrow> control_pause D now i s1
                   | ActResume \<Rightarrow> control_resume D now i budget s1
                   | ActCancel \<Rightarrow> control_cancel D now i s1
                   | ActRerunFailed \<Rightarrow> control_rerun D now i s1)
           in (result, settle_idle D now i s2)))"

definition new_driver :: "batch_files \<Rightarrow> 'd \<Rightarrow> 'd driver" where
  "new_driver f d =
     \<lparr>objs = [], live = [], stopping = False, bfiles = f, dstate = d, runsMinted = 0, batchesMinted = 0, bnotices = []\<rparr>"

end
