(* ===== verification/Batch_Inv.thy ===== *)
theory Batch_Inv
  imports Batch
begin

text \<open>
  What the batch driver keeps, whatever the scheduler answers: every batch's counts and cost are those of
  its items, the runs it has asked for are the queued and running items and within its concurrency, and no
  item that should run is forgotten.
\<close>

section \<open>Steps that leave the items alone\<close>

definition same_core :: "live_batch \<Rightarrow> live_batch \<Rightarrow> bool" where
  "same_core lb lb' \<longleftrightarrow>
     lb_items lb' = lb_items lb \<and> lb_outstanding lb' = lb_outstanding lb \<and> lb_pending lb' = lb_pending lb \<and>
     b_counts (lb_batch lb') = b_counts (lb_batch lb) \<and> b_costUsd (lb_batch lb') = b_costUsd (lb_batch lb) \<and>
     b_concurrency (lb_batch lb') = b_concurrency (lb_batch lb)"

definition core_eq :: "'d driver \<Rightarrow> 'd driver \<Rightarrow> bool" where
  "core_eq s s' \<longleftrightarrow>
     length (objs s') = length (objs s) \<and> (\<forall>j. j < length (objs s) \<longrightarrow> same_core (obj j s) (obj j s')) \<and>
     stopping s' = stopping s"

named_theorems core_intros \<open>steps that leave the items and what is asked for alone\<close>

lemma same_core_refl [simp]: "same_core lb lb"
  by (simp add: same_core_def)

lemma core_refl [simp]: "core_eq s s"
  by (simp add: core_eq_def)

lemma core_trans: "core_eq s s' \<Longrightarrow> core_eq s' s'' \<Longrightarrow> core_eq s s''"
  by (simp add: core_eq_def same_core_def)

lemma core_set_obj: "(\<And>lb. same_core lb (g lb)) \<Longrightarrow> core_eq s (set_obj i g s)"
  by (cases "i < length (objs s)") (auto simp: core_eq_def set_obj_def nth_list_update list_update_beyond)

lemma core_set_batch:
  "(\<And>b. b_counts (g b) = b_counts b \<and> b_costUsd (g b) = b_costUsd b \<and> b_concurrency (g b) = b_concurrency b)
     \<Longrightarrow> core_eq s (set_batch i g s)"
  unfolding set_batch_def by (rule core_set_obj) (simp add: same_core_def)

lemma core_fields [simp]:
  "core_eq s (s\<lparr>bfiles := f\<rparr>)" "core_eq s (s\<lparr>dstate := d\<rparr>)" "core_eq s (s\<lparr>bnotices := n\<rparr>)"
  "core_eq s (s\<lparr>live := l\<rparr>)" "core_eq s (s\<lparr>runsMinted := m\<rparr>)" "core_eq s (s\<lparr>batchesMinted := m\<rparr>)"
  by (simp_all add: core_eq_def)

lemma core_clear_retry [core_intros]: "core_eq s (clear_retry i s)"
  unfolding clear_retry_def by (rule core_set_obj) (simp add: same_core_def)

lemma core_release_anchor [core_intros]: "core_eq s (release_anchor D i s)"
  by (auto simp: release_anchor_def same_core_def intro!: core_trans [OF core_fields(2) core_set_obj] split: option.split)

lemma core_drop [core_intros]: "core_eq s (snd (drop_batches D ws s))"
proof -
  have step: "core_eq s ((release_anchor D i (clear_retry i s))\<lparr>live := l\<rparr>)" for s :: "'a driver" and i l
    by (rule core_trans [OF core_trans [OF core_clear_retry core_release_anchor] core_fields(4)])
  have "core_eq s (fold (\<lambda>(key, i) s. (release_anchor D i (clear_retry i s))\<lparr>live := jdelete key (live s)\<rparr>) ks s)"
    for ks and s :: "'a driver"
  proof (induction ks arbitrary: s)
    case (Cons k ks)
    obtain key i where "k = (key, i)" by fastforce
    then show ?case using core_trans [OF step Cons.IH] by simp
  qed simp
  then show ?thesis by (simp add: drop_batches_def Let_def)
qed

lemma core_guarded [core_intros]: "core_eq s (guarded D i w s)"
proof -
  have "core_eq s (snd (drop_batches D ws (set_batch i (\<lambda>b. b\<lparr>b_state := BatchCancelled\<rparr>) s)))" for ws
    by (rule core_trans [OF core_set_batch core_drop]) simp
  then show ?thesis by (simp add: guarded_def split: sum.split batch_write_error.split)
qed

lemma core_persist [core_intros]: "core_eq s (persist_batch D now i s)"
  unfolding persist_batch_def Let_def
  by (rule core_trans [OF core_trans [OF core_set_batch core_guarded] core_fields(3)]) simp

lemma core_leave [core_intros]: "core_eq s (leave D i s)"
proof -
  have c: "core_eq s (release_anchor D i (clear_retry i s))"
    by (rule core_trans [OF core_clear_retry core_release_anchor])
  show ?thesis by (simp add: leave_def Let_def c core_trans [OF c core_fields(4)])
qed

lemma core_complete [core_intros]: "core_eq s (complete_batch D now i s)"
proof -
  have "core_eq s (persist_batch D now i (guarded D i w (set_batch i (\<lambda>b. b\<lparr>b_state := BatchCompleted, b_completedAt := Some now\<rparr>) s)))" for w
    by (rule core_trans [OF core_trans [OF core_set_batch core_guarded] core_persist]) simp
  then show ?thesis by (auto simp: complete_batch_def Let_def intro: core_trans [OF _ core_leave])
qed

lemma core_settle_idle [core_intros]: "core_eq s (settle_idle D now i s)"
proof -
  have "core_eq s (complete_batch D now i (set_batch i (\<lambda>b. b\<lparr>b_pause := None\<rparr>) s))"
    by (rule core_trans [OF core_set_batch core_complete]) simp
  then show ?thesis by (auto simp: settle_idle_def Let_def intro: core_trans [OF _ core_leave] core_leave)
qed

lemma core_withdraw_queued [core_intros]: "core_eq s (withdraw_queued D i ks s)"
proof (induction D i ks s rule: withdraw_queued.induct)
  case (2 D i k ks s)
  show ?case
  proof (cases "length (lb_items (obj i s)) \<le> k \<or> bi_state (lb_items (obj i s) ! k) \<noteq> ItemQueued \<or>
      \<not> truthy (bi_runId (lb_items (obj i s) ! k))")
    case True
    then show ?thesis using 2(1) [OF refl refl refl] by (auto simp: Let_def)
  next
    case False
    obtain taken d where w: "door_withdraw D (b_workspaceId (lb_batch (obj i s))) (b_ownerId (lb_batch (obj i s)))
        (nullish (bi_runId (lb_items (obj i s) ! k)) []) (dstate s) = (taken, d)" by fastforce
    let ?s = "set_obj i (\<lambda>lb. lb\<lparr>lb_withdrawn :=
        if taken then set_add (nullish (bi_runId (lb_items (obj i s) ! k)) []) (lb_withdrawn lb)
        else filter (\<lambda>r. r \<noteq> nullish (bi_runId (lb_items (obj i s) ! k)) []) (lb_withdrawn lb)\<rparr>) (s\<lparr>dstate := d\<rparr>)"
    have e: "withdraw_queued D i (k # ks) s = withdraw_queued D i ks ?s" using False w by (auto simp: Let_def)
    have "core_eq s ?s" by (rule core_trans [OF core_fields(2) core_set_obj]) (simp add: same_core_def)
    moreover have "core_eq ?s (withdraw_queued D i ks ?s)"
      using 2(2) [OF refl refl refl _ refl w [symmetric] refl] False by blast
    ultimately show ?thesis unfolding e using core_trans by blast
  qed
qed simp

lemma core_pause [core_intros]: "core_eq s (pause_batch D now i reason m s)"
proof -
  have "core_eq s (persist_batch D now i (release_anchor D i (withdraw_queued D i ks (clear_retry i
      (set_batch i (\<lambda>b. b\<lparr>b_state := BatchPaused,
         b_pause := Some \<lparr>pause_reason = reason, pause_message = m, pause_at = now\<rparr>\<rparr>) s)))))" for ks
    by (rule core_trans [OF core_trans [OF core_trans [OF core_trans [OF core_set_batch core_clear_retry]
          core_withdraw_queued] core_release_anchor] core_persist]) simp
  then show ?thesis by (auto simp: pause_batch_def Let_def intro: core_trans [OF _ core_fields(3)])
qed

lemma core_stop_rule [core_intros]: "core_eq s (apply_stop_rule D now i s)"
  by (auto simp: apply_stop_rule_def Let_def core_pause split: option.split)

section \<open>The invariant of a batch\<close>

definition asked_state :: "batch_item \<Rightarrow> bool" where
  "asked_state x \<longleftrightarrow> bi_state x = ItemQueued \<or> bi_state x = ItemRunning"

text \<open>The runs asked for; \<open>K\<close> holds an item on its way between asked for and not.\<close>

definition obj_ok_but :: "nat set \<Rightarrow> live_batch \<Rightarrow> bool" where
  "obj_ok_but K lb \<longleftrightarrow>
     indexed (lb_items lb) \<and>
     b_counts (lb_batch lb) = count_items (lb_items lb) \<and> b_costUsd (lb_batch lb) = sum_cost (lb_items lb) \<and>
     distinct (lb_outstanding lb) \<and> int (length (lb_outstanding lb)) \<le> max 0 (b_concurrency (lb_batch lb)) \<and>
     (\<forall>k \<in> set (lb_outstanding lb). k < length (lb_items lb)) \<and>
     (\<forall>k < length (lb_items lb). k \<notin> K \<longrightarrow> asked_state (lb_items lb ! k) = (k \<in> set (lb_outstanding lb)))"

abbreviation obj_ok :: "live_batch \<Rightarrow> bool" where
  "obj_ok \<equiv> obj_ok_but {}"

definition driver_ok :: "'d driver \<Rightarrow> bool" where
  "driver_ok s \<longleftrightarrow> list_all obj_ok (objs s)"

text \<open>Every batch is as it should be but the one under work, where \<open>K\<close> may be on its way.\<close>

definition driver_ok_at :: "nat \<Rightarrow> nat set \<Rightarrow> 'd driver \<Rightarrow> bool" where
  "driver_ok_at i K s \<longleftrightarrow> i < length (objs s) \<and> (\<forall>j < length (objs s). obj_ok_but (if j = i then K else {}) (obj j s))"

lemma driver_ok_at_empty: "driver_ok s \<Longrightarrow> i < length (objs s) \<Longrightarrow> driver_ok_at i {} s"
  by (simp add: driver_ok_def driver_ok_at_def list_all_length)

lemma driver_ok_at_ok: "driver_ok_at i {} s \<Longrightarrow> driver_ok s"
  by (simp add: driver_ok_def driver_ok_at_def list_all_length)

lemma obj_ok_core: "same_core lb lb' \<Longrightarrow> obj_ok_but K lb' = obj_ok_but K lb"
  by (auto simp: same_core_def obj_ok_but_def)

lemma core_objs:
  assumes "core_eq s s'" "j < length (objs s)"
  shows "obj_ok_but K (obj j s') = obj_ok_but K (obj j s)"
  using assms obj_ok_core by (simp add: core_eq_def)

lemma driver_ok_core: "core_eq s s' \<Longrightarrow> driver_ok s' = driver_ok s"
  using core_objs [of s s'] by (simp add: driver_ok_def list_all_length core_eq_def [of s s'])

lemma driver_ok_at_core: "core_eq s s' \<Longrightarrow> driver_ok_at i K s' = driver_ok_at i K s"
  using core_objs [of s s'] by (simp add: driver_ok_at_def core_eq_def [of s s'])

lemma core_objD: "core_eq s s' \<Longrightarrow> i < length (objs s) \<Longrightarrow> same_core (obj i s) (obj i s')"
  by (simp add: core_eq_def)

lemma driver_ok_at_set_obj:
  assumes "driver_ok_at i K s" "\<And>lb. obj_ok_but K lb \<Longrightarrow> lb = obj i s \<Longrightarrow> obj_ok_but K' (g lb)"
  shows "driver_ok_at i K' (set_obj i g s)"
  using assms by (auto simp: driver_ok_at_def set_obj_def nth_list_update)

lemma obj_set_obj [simp]: "i < length (objs s) \<Longrightarrow> obj i (set_obj i g s) = g (obj i s)"
  by (simp add: set_obj_def)

lemma length_set_obj [simp]: "length (objs (set_obj i g s)) = length (objs s)"
  by (simp add: set_obj_def)

lemma obj_ok_replaced:
  assumes ok: "obj_ok_but K lb" and k: "bi_index y < length (lb_items lb)"
    and st: "bi_index y \<notin> K' \<Longrightarrow> asked_state y = (bi_index y \<in> set (lb_outstanding lb))"
    and K: "\<And>k. k \<noteq> bi_index y \<Longrightarrow> k \<in> K \<Longrightarrow> k \<in> K'"
  shows "obj_ok_but K' (replaced_item y lb)"
  using assms unfolding obj_ok_but_def replaced_item_def Let_def
  by (auto simp: indexed_update count_items_update sum_cost_update nth_list_update)

text \<open>\<open>setItem\<close> keeps the invariant where the item's new state fits what is asked for.\<close>

lemma driver_ok_set_item:
  assumes ok: "driver_ok_at i K s"
    and st: "bi_index y \<notin> K' \<Longrightarrow> bi_index y < length (lb_items (obj i s)) \<Longrightarrow>
      asked_state y = (bi_index y \<in> set (lb_outstanding (obj i s)))"
    and K: "\<And>k. k \<noteq> bi_index y \<Longrightarrow> k \<in> K \<Longrightarrow> k \<in> K'" and b: "length (lb_items (obj i s)) \<le> bi_index y \<Longrightarrow> K \<subseteq> K'"
  shows "driver_ok_at i K' (set_item D i y s)"
proof (cases "length (lb_items (obj i s)) \<le> bi_index y")
  case True
  have "obj_ok_but K lb \<Longrightarrow> obj_ok_but K' lb" for lb using b [OF True] by (auto simp: obj_ok_but_def)
  then show ?thesis using ok True by (auto simp: set_item_def driver_ok_at_def)
next
  case False
  have "driver_ok_at i K' (set_obj i (replaced_item y) s)"
    using ok by (rule driver_ok_at_set_obj) (use False st K in \<open>auto intro!: obj_ok_replaced\<close>)
  then show ?thesis using False by (simp add: set_item_def driver_ok_at_core [OF core_guarded])
qed

section \<open>Asking for an item\<close>

lemma next_pending_found:
  "next_pending items ks = (Some k, rest) \<Longrightarrow> k < length items \<and> bi_state (items ! k) = ItemPending"
  by (induction items ks rule: next_pending.induct) (auto split: if_splits)

lemma core_pending: "obj_ok_but K (lb\<lparr>lb_pending := ps\<rparr>) = obj_ok_but K lb"
  by (simp add: obj_ok_but_def)

lemma driver_ok_at_pending: "driver_ok_at i K s \<Longrightarrow> driver_ok_at i K (set_obj i (\<lambda>lb. lb\<lparr>lb_pending := g lb\<rparr>) s)"
  by (rule driver_ok_at_set_obj) (auto simp: core_pending)

lemma items_set_item_obj: "i < length (objs s) \<Longrightarrow>
    lb_outstanding (obj i (set_item D i y s)) = lb_outstanding (obj i s) \<and>
    lb_items (obj i (set_item D i y s)) =
      (if bi_index y < length (lb_items (obj i s)) then (lb_items (obj i s))[bi_index y := y] else lb_items (obj i s)) \<and>
    lb_pending (obj i (set_item D i y s)) = lb_pending (obj i s) \<and> length (objs (set_item D i y s)) = length (objs s) \<and>
    stopping (set_item D i y s) = stopping s"
proof -
  assume i: "i < length (objs s)"
  let ?s = "set_obj i (replaced_item y) s"
  have c: "core_eq ?s (guarded D i w ?s)" for w by (rule core_guarded)
  have "same_core (obj i ?s) (obj i (guarded D i w ?s))" for w by (rule core_objD [OF c]) (use i in simp)
  then show ?thesis using i c
    by (auto simp: set_item_def same_core_def replaced_item_def Let_def core_eq_def set_obj_def)
qed

lemma request_item_ok:
  assumes ok: "driver_ok_at i {} s" and r: "request_item D now i k s = (a, s')"
    and k: "k < length (lb_items (obj i s))" "bi_state (lb_items (obj i s) ! k) = ItemPending"
    and room: "int (length (lb_outstanding (obj i s))) < b_concurrency (lb_batch (obj i s))"
  shows "driver_ok_at i {} s'"
proof -
  let ?x = "lb_items (obj i s) ! k"
  let ?run = "door_runId D (runsMinted s)"
  obtain answer d where q: "door_request D (b_workspaceId (lb_batch (obj i s))) (b_ownerId (lb_batch (obj i s)))
      (b_taskId (lb_batch (obj i s)))
      \<lparr>rq_runId = ?run, rq_requestedAt = now, rq_input = Some (bi_input ?x),
       rq_idempotencyKey = None, rq_retryOf = None, rq_guidance = None, rq_batch = Some (b_id (lb_batch (obj i s)), k)\<rparr>
      (dstate s) = (answer, d)" by fastforce
  define s1 where "s1 = s\<lparr>dstate := d, runsMinted := Suc (runsMinted s)\<rparr>"
  have c1: "core_eq s s1" by (simp add: core_eq_def s1_def)
  have ok1: "driver_ok_at i {} s1" using ok by (simp add: driver_ok_at_core [OF c1])
  have i: "i < length (objs s1)" using ok1 by (simp add: driver_ok_at_def)
  have o1: "obj i s1 = obj i s" by (simp add: s1_def)
  define put_back where "put_back = set_obj i (\<lambda>lb. lb\<lparr>lb_pending := k # lb_pending lb\<rparr>) s1"
  have okb: "driver_ok_at i {} put_back" unfolding put_back_def by (rule driver_ok_at_pending [OF ok1])
  define s2 where "s2 = set_obj i (\<lambda>lb. lb\<lparr>lb_outstanding := set_add k (lb_outstanding lb),
                       lb_settledAtRequest := jset ?run (lb_settled lb) (lb_settledAtRequest lb)\<rparr>) s1"
  have okobj: "obj_ok (obj i s)" using ok by (auto simp: driver_ok_at_def)
  have xk: "bi_index ?x = k" using okobj k(1) indexed_nth by (simp add: obj_ok_but_def)
  have notout: "k \<notin> set (lb_outstanding (obj i s))"
    using okobj k by (auto simp: obj_ok_but_def asked_state_def)
  have ok2: "driver_ok_at i {k} s2" unfolding s2_def
    by (rule driver_ok_at_set_obj [OF ok1]) (use k room notout o1 in \<open>auto simp: obj_ok_but_def set_add_def\<close>)
  have o2: "lb_items (obj i s2) = lb_items (obj i s)" "k \<in> set (lb_outstanding (obj i s2))"
    using i o1 by (auto simp: s2_def set_add_def)
  have took: "driver_ok_at i {} (persist_batch D now i (set_item D i (?x\<lparr>bi_state := st, bi_runId := Some ?run\<rparr>) s2))"
    if "st = ItemQueued \<or> st = ItemRunning" for st
  proof -
    have "driver_ok_at i {} (set_item D i (?x\<lparr>bi_state := st, bi_runId := Some ?run\<rparr>) s2)"
      by (rule driver_ok_set_item [OF ok2]) (use that xk o2 k(1) in \<open>auto simp: asked_state_def\<close>)
    then show ?thesis by (simp add: driver_ok_at_core [OF core_persist])
  qed
  show ?thesis
    using r okb took ok1 unfolding request_item_def Let_def q
    by (auto simp: s1_def [symmetric] put_back_def [symmetric] s2_def [symmetric] driver_ok_at_core [OF core_pause]
        driver_ok_at_core [OF core_set_obj [where g = "\<lambda>lb. lb\<lparr>lb_retry := True\<rparr>"]] same_core_def
        split: sum.splits batch_run_ticket.splits batch_refusal.splits)
qed

lemma pump_loop_ok: "driver_ok_at i {} s \<Longrightarrow> driver_ok_at i {} (snd (snd (pump_loop D now i n s)))"
proof (induction n arbitrary: s)
  case (Suc n)
  show ?case
  proof (cases "int (length (lb_outstanding (obj i s))) < b_concurrency (lb_batch (obj i s))")
    case False
    then show ?thesis using Suc.prems by (simp add: Let_def)
  next
    case room: True
    obtain found rest where np: "next_pending (lb_items (obj i s)) (lb_pending (obj i s)) = (found, rest)" by fastforce
    let ?s1 = "set_obj i (\<lambda>lb. lb\<lparr>lb_pending := rest\<rparr>) s"
    have ok1: "driver_ok_at i {} ?s1" by (rule driver_ok_at_pending [OF Suc.prems])
    have i: "i < length (objs s)" using Suc.prems by (simp add: driver_ok_at_def)
    show ?thesis
    proof (cases found)
      case None
      then show ?thesis using room np ok1 by (simp add: Let_def)
    next
      case (Some k)
      note k = next_pending_found [OF np [unfolded Some]]
      obtain a s2 where r: "request_item D now i k ?s1 = (a, s2)" by fastforce
      have ok2: "driver_ok_at i {} s2" by (rule request_item_ok [OF ok1 r]) (use i k room in simp_all)
      have "driver_ok_at i {} (set_obj i (\<lambda>lb. lb\<lparr>lb_pending := k # rest\<rparr>) ?s1)"
        by (rule driver_ok_at_pending [OF ok1])
      then show ?thesis
        using room np Some r ok2 Suc.IH [OF ok2]
        by (auto simp: Let_def driver_ok_at_core [OF core_pause] split: asked.split)
    qed
  qed
qed simp

lemma pump_ok: "driver_ok_at i {} s \<Longrightarrow> driver_ok_at i {} (snd (pump D now i s))"
proof -
  assume ok: "driver_ok_at i {} s"
  obtain ended threw s1 where p: "pump_loop D now i (Suc (length (lb_pending (obj i s)))) s = (ended, threw, s1)"
    by (metis prod_cases3)
  have "driver_ok_at i {} s1" using pump_loop_ok [OF ok, of D now "Suc (length (lb_pending (obj i s)))"] p by simp
  then show ?thesis using ok p
    unfolding pump_def Let_def p
    by (auto simp: driver_ok_at_core [OF core_settle_idle] driver_ok_at_core [OF core_complete])
qed

lemma activate_ok: "driver_ok_at i {} s \<Longrightarrow> driver_ok_at i {} (snd (activate D now i s))"
proof -
  assume ok: "driver_ok_at i {} s"
  let ?s1 = "set_obj i (\<lambda>lb. lb\<lparr>lb_waitForSettle := False\<rparr>) s"
  have c1: "core_eq s ?s1" by (rule core_set_obj) (simp add: same_core_def)
  have "core_eq ?s1 (set_obj i (\<lambda>lb. lb\<lparr>lb_anchor := Some h\<rparr>) (?s1\<lparr>dstate := d\<rparr>))" for h d
    by (rule core_trans [OF core_fields(2) core_set_obj]) (simp add: same_core_def)
  note c2 = core_trans [OF c1 this]
  show ?thesis
    unfolding activate_def Let_def
    by (rule pump_ok) (auto simp: driver_ok_at_core [OF c1] driver_ok_at_core [OF c2] ok split: prod.split)
qed

end
