(* ===== verification/Batch_Steps.thy ===== *)
theory Batch_Steps
  imports Batch_Inv
begin

text \<open>
  The batch driver as a state machine: what the items files keep, the remaining operations (loading,
  creating, reconciling, the controls), the steps, and what holds in every reachable state.
\<close>

section \<open>The items files\<close>

text \<open>A file whose items stand at their index: what the driver writes, and what it relies on to read.\<close>

definition lines_ok :: "item_line list \<Rightarrow> bool" where
  "lines_ok ls \<longleftrightarrow> (\<exists>xs. indexed xs \<and> fold fold_line ls [] = entries xs)"

definition files_ok :: "batch_files \<Rightarrow> bool" where
  "files_ok f \<longleftrightarrow> (\<forall>r. lines_ok (nullish (map_of (bf_items f) r) []))"

lemma lines_ok_whole: "indexed xs \<Longrightarrow> lines_ok (map WholeItem xs)"
  using fold_whole [of "[]" xs] by (auto simp: lines_ok_def indexed_def entries_def intro!: exI [of _ xs])

lemma lines_ok_state: "lines_ok ls \<Longrightarrow> lines_ok (ls @ [ItemState y])"
  unfolding lines_ok_def using fold_state by fastforce

lemma lines_ok_torn: "lines_ok (ls @ [TornLine]) = lines_ok ls"
  by (simp add: lines_ok_def)

lemma read_indexed: "files_ok f \<Longrightarrow> indexed (read_batch_items f r)"
proof -
  assume "files_ok f"
  then have "lines_ok (nullish (map_of (bf_items f) r) [])" unfolding files_ok_def by blast
  then obtain xs where xs: "indexed xs" "fold fold_line (nullish (map_of (bf_items f) r) []) [] = entries xs"
    unfolding lines_ok_def by blast
  then show ?thesis by (simp add: read_batch_items_def entries_def comp_def sorted_indexed)
qed

lemma files_okD: "files_ok f \<Longrightarrow> lines_ok (nullish (map_of (bf_items f) r) [])"
  unfolding files_ok_def by blast

lemma files_ok_set: "files_ok f \<Longrightarrow> lines_ok ls \<Longrightarrow> files_ok (f\<lparr>bf_items := jset r ls (bf_items f)\<rparr>)"
  unfolding files_ok_def by (simp add: files_okD)

lemma files_ok_append: "files_ok f \<Longrightarrow> append_batch_item f r y = Inr g \<Longrightarrow> files_ok g"
  using files_ok_set [OF _ lines_ok_state [OF files_okD [of f r]], of f r y]
  by (auto simp: append_batch_item_def split: prod.splits if_splits)

lemma files_ok_write: "files_ok f \<Longrightarrow> indexed xs \<Longrightarrow> write_batch_items f r xs = Inr g \<Longrightarrow> files_ok g"
  using files_ok_set [OF _ lines_ok_whole, of f xs r]
  by (auto simp: write_batch_items_def split: prod.splits if_splits)

lemma files_ok_save: "files_ok f \<Longrightarrow> save_batch f b = Inr g \<Longrightarrow> files_ok g"
  by (auto simp: save_batch_def files_ok_def split: if_splits)

lemma files_ok_key: "files_ok f \<Longrightarrow> save_batch_key h f ws owner k b = Inr g \<Longrightarrow> files_ok g"
  by (auto simp: save_batch_key_def files_ok_def split: if_splits)

text \<open>What is kept beside the batches: sound items files, and live names of objects there are.\<close>

definition stored_ok :: "'d driver \<Rightarrow> bool" where
  "stored_ok s \<longleftrightarrow> files_ok (bfiles s) \<and> (\<forall>i \<in> snd ` set (live s). i < length (objs s))"

lemma stored_same [simp]:
  "stored_ok (set_obj i g s) = stored_ok s" "stored_ok (set_batch i h s) = stored_ok s"
  "stored_ok (clear_retry i s) = stored_ok s" "stored_ok (s\<lparr>dstate := d\<rparr>) = stored_ok s"
  "stored_ok (s\<lparr>bnotices := ns\<rparr>) = stored_ok s" "stored_ok (s\<lparr>runsMinted := m\<rparr>) = stored_ok s"
  "stored_ok (s\<lparr>batchesMinted := m\<rparr>) = stored_ok s" "stored_ok (s\<lparr>stopping := b\<rparr>) = stored_ok s"
  by (simp_all add: stored_ok_def set_obj_def set_batch_def clear_retry_def)

lemma stored_release_anchor [simp]: "stored_ok (release_anchor D i s) = stored_ok s"
  by (simp add: release_anchor_def split: option.split)

lemma stored_jdelete: "stored_ok s \<Longrightarrow> stored_ok (s\<lparr>live := jdelete k (live s)\<rparr>)"
  unfolding stored_ok_def by (auto simp: jdelete_def)

lemma live_same [simp]: "live (release_anchor D i s) = live s" "live (clear_retry i s) = live s"
  by (simp_all add: release_anchor_def clear_retry_def set_obj_def split: option.split)

lemma stored_drop: "stored_ok s \<Longrightarrow> stored_ok (snd (drop_batches D ws s))"
proof -
  have step: "stored_ok ((release_anchor D i (clear_retry i s))\<lparr>live := jdelete k (live s)\<rparr>)" if "stored_ok s" for k i and s :: "'a driver"
    using that stored_jdelete [of "release_anchor D i (clear_retry i s)" k] by simp
  have "stored_ok s \<Longrightarrow> stored_ok (fold (\<lambda>(key, i) s. (release_anchor D i (clear_retry i s))\<lparr>live := jdelete key (live s)\<rparr>) ks s)"
    for ks and s :: "'a driver"
    by (induction ks arbitrary: s) (auto simp: step)
  then show "stored_ok s \<Longrightarrow> ?thesis" by (simp add: drop_batches_def Let_def)
qed

lemma stored_guarded:
  assumes "stored_ok s" "\<And>g. w (bfiles s) = Inr g \<Longrightarrow> files_ok g"
  shows "stored_ok (guarded D i w s)"
proof (cases "w (bfiles s)")
  case (Inl e)
  then show ?thesis using assms(1) by (cases e) (simp_all add: guarded_def stored_drop)
next
  case (Inr g)
  then show ?thesis using assms by (simp add: guarded_def stored_ok_def)
qed

lemma stored_filesD: "stored_ok s \<Longrightarrow> files_ok (bfiles s)"
  by (simp add: stored_ok_def)

lemma stored_writes:
  "stored_ok s \<Longrightarrow> stored_ok (guarded D i (\<lambda>f. append_batch_item f r y) s)"
  "stored_ok s \<Longrightarrow> stored_ok (guarded D i (\<lambda>f. save_batch f b) s)"
  "stored_ok s \<Longrightarrow> indexed xs \<Longrightarrow> stored_ok (guarded D i (\<lambda>f. write_batch_items f r xs) s)"
  by (rule stored_guarded, assumption, rule files_ok_append, rule stored_filesD, assumption, assumption)
    (rule stored_guarded, assumption, rule files_ok_save, rule stored_filesD, assumption, assumption,
     rule stored_guarded, assumption, rule files_ok_write, rule stored_filesD, assumption, assumption, assumption)

lemma stored_set_item: "stored_ok s \<Longrightarrow> stored_ok (set_item D i y s)"
  unfolding set_item_def by (simp add: stored_writes)

lemma stored_persist: "stored_ok s \<Longrightarrow> stored_ok (persist_batch D now i s)"
  unfolding persist_batch_def Let_def by (simp add: stored_writes)

lemma stored_leave: "stored_ok s \<Longrightarrow> stored_ok (leave D i s)"
  using stored_jdelete [of "release_anchor D i (clear_retry i s)"] by (simp add: leave_def Let_def)

lemma items_set_batch [simp]: "lb_items (obj i (set_batch i g s)) = lb_items (obj i s)"
  by (cases "i < length (objs s)") (simp_all add: set_batch_def set_obj_def list_update_beyond)

lemma stored_complete: "stored_ok s \<Longrightarrow> indexed (lb_items (obj i s)) \<Longrightarrow> stored_ok (complete_batch D now i s)"
  unfolding complete_batch_def Let_def by (simp add: stored_persist stored_writes stored_leave)

lemma stored_settle_idle: "stored_ok s \<Longrightarrow> indexed (lb_items (obj i s)) \<Longrightarrow> stored_ok (settle_idle D now i s)"
  unfolding settle_idle_def Let_def by (simp add: stored_complete stored_leave)

lemma stored_withdraw [simp]: "stored_ok (withdraw_queued D i ks s) = stored_ok s"
  by (induction D i ks s rule: withdraw_queued.induct) (simp_all add: Let_def split: prod.split)

lemma stored_pause: "stored_ok s \<Longrightarrow> stored_ok (pause_batch D now i reason m s)"
  unfolding pause_batch_def Let_def by (simp add: stored_persist)

lemma stored_request: "stored_ok s \<Longrightarrow> stored_ok (snd (request_item D now i k s))"
  unfolding request_item_def Let_def
  by (simp add: stored_persist stored_set_item stored_pause split: prod.split sum.split batch_run_ticket.split batch_refusal.split)

lemma stored_pump_loop: "stored_ok s \<Longrightarrow> stored_ok (snd (snd (pump_loop D now i n s)))"
proof (induction n arbitrary: s)
  case (Suc n)
  have "stored_ok s2" if "request_item D now i k (set_obj i g s) = (a, s2)" for k g a s2
    using stored_request [of "set_obj i g s" D now i k] that Suc.prems by simp
  then show ?case
    using Suc by (simp add: Let_def stored_pause split: prod.split option.split asked.split)
qed simp

lemma indexed_ok: "driver_ok_at i K s \<Longrightarrow> indexed (lb_items (obj i s))"
  by (simp add: driver_ok_at_def obj_ok_but_def)

text \<open>Both together, as every operation on one batch keeps them.\<close>

definition sound_at :: "nat \<Rightarrow> nat set \<Rightarrow> 'd driver \<Rightarrow> bool" where
  "sound_at i K s \<longleftrightarrow> driver_ok_at i K s \<and> stored_ok s"

definition sound :: "'d driver \<Rightarrow> bool" where
  "sound s \<longleftrightarrow> driver_ok s \<and> stored_ok s"

lemma sound_atD: "sound_at i K s \<Longrightarrow> driver_ok_at i K s" "sound_at i K s \<Longrightarrow> stored_ok s"
  "sound_at i K s \<Longrightarrow> indexed (lb_items (obj i s))"
  by (auto simp: sound_at_def indexed_ok)

lemma sound_at_empty: "sound s \<Longrightarrow> i < length (objs s) \<Longrightarrow> sound_at i {} s"
  by (simp add: sound_def sound_at_def driver_ok_at_empty)

lemma sound_at_sound: "sound_at i {} s \<Longrightarrow> sound s"
  using driver_ok_at_ok by (auto simp: sound_def sound_at_def)

lemma sound_core: "core_eq s s' \<Longrightarrow> stored_ok s' \<Longrightarrow> sound_at i K s \<Longrightarrow> sound_at i K s'"
  by (simp add: sound_at_def driver_ok_at_core)

lemma sound_set_batch:
  "sound_at i K s \<Longrightarrow> (\<And>b. b_counts (g b) = b_counts b \<and> b_costUsd (g b) = b_costUsd b \<and> b_concurrency (g b) = b_concurrency b)
     \<Longrightarrow> sound_at i K (set_batch i g s)"
  by (rule sound_core [OF core_set_batch]) (simp_all add: sound_at_def)

lemma sound_persist: "sound_at i K s \<Longrightarrow> sound_at i K (persist_batch D now i s)"
  by (rule sound_core [OF core_persist]) (simp_all add: stored_persist sound_atD)

lemma sound_settle_idle: "sound_at i K s \<Longrightarrow> sound_at i K (settle_idle D now i s)"
  by (rule sound_core [OF core_settle_idle]) (simp_all add: stored_settle_idle sound_atD)

lemma sound_pause: "sound_at i K s \<Longrightarrow> sound_at i K (pause_batch D now i reason m s)"
  by (rule sound_core [OF core_pause]) (simp_all add: stored_pause sound_atD)

lemma sound_clear_retry: "sound_at i K s \<Longrightarrow> sound_at i K (clear_retry i s)"
  by (rule sound_core [OF core_clear_retry]) (simp_all add: sound_atD)

lemma sound_release_anchor: "sound_at i K s \<Longrightarrow> sound_at i K (release_anchor D i s)"
  by (rule sound_core [OF core_release_anchor]) (simp_all add: sound_atD)

lemma sound_stop_rule: "sound_at i K s \<Longrightarrow> sound_at i K (apply_stop_rule D now i s)"
  unfolding apply_stop_rule_def Let_def by (simp add: sound_pause split: option.split)

lemma sound_pump: "sound_at i {} s \<Longrightarrow> sound_at i {} (snd (pump D now i s))"
proof -
  assume s: "sound_at i {} s"
  note ok = sound_atD [OF s]
  obtain ended threw s1 where p: "pump_loop D now i (Suc (length (lb_pending (obj i s)))) s = (ended, threw, s1)"
    by (metis prod_cases3)
  have 1: "sound_at i {} s1"
    using pump_loop_ok [OF ok(1), of D now "Suc (length (lb_pending (obj i s)))"]
      stored_pump_loop [OF ok(2), of D now i "Suc (length (lb_pending (obj i s)))"] p
    by (simp add: sound_at_def)
  have "sound_at i {} (complete_batch D now i s1)"
    by (rule sound_core [OF core_complete]) (simp_all add: stored_complete sound_atD [OF 1] 1)
  then show ?thesis using s 1 p unfolding pump_def Let_def by (simp add: sound_settle_idle)
qed

lemma sound_activate: "sound_at i {} s \<Longrightarrow> sound_at i {} (snd (activate D now i s))"
proof -
  assume s: "sound_at i {} s"
  let ?s1 = "set_obj i (\<lambda>lb. lb\<lparr>lb_waitForSettle := False\<rparr>) s"
  have s1: "sound_at i {} ?s1"
    by (rule sound_core [OF core_set_obj _ s]) (simp_all add: same_core_def sound_atD [OF s])
  have "sound_at i {} (set_obj i (\<lambda>lb. lb\<lparr>lb_anchor := Some h\<rparr>) (?s1\<lparr>dstate := d\<rparr>))" for h d
    by (rule sound_core [OF core_trans [OF core_fields(2) core_set_obj] _ s1])
      (simp_all add: same_core_def sound_atD [OF s])
  then show ?thesis
    unfolding activate_def Let_def using s1 by (intro sound_pump) (simp split: prod.split)
qed

section \<open>The end of an item's run\<close>

lemma ok_indexD: "driver_ok_at i K s \<Longrightarrow> k < length (lb_items (obj i s)) \<Longrightarrow> bi_index (lb_items (obj i s) ! k) = k"
  using indexed_nth by (fastforce simp: driver_ok_at_def obj_ok_but_def)

lemma ok_askedD:
  "driver_ok_at i {} s \<Longrightarrow> k < length (lb_items (obj i s)) \<Longrightarrow>
     asked_state (lb_items (obj i s) ! k) = (k \<in> set (lb_outstanding (obj i s)))"
  by (auto simp: driver_ok_at_def obj_ok_but_def)

lemma ok_outstandingD: "driver_ok_at i {} s \<Longrightarrow> k \<in> set (lb_outstanding (obj i s)) \<Longrightarrow> k < length (lb_items (obj i s))"
  by (auto simp: driver_ok_at_def obj_ok_but_def)

lemma take_out_ok:
  assumes ok: "driver_ok_at i {} s"
  shows "driver_ok_at i {k} (set_obj i (\<lambda>lb. lb\<lparr>lb_outstanding := filter (\<lambda>j. j \<noteq> k) (lb_outstanding lb)\<rparr>) s)"
proof (rule driver_ok_at_set_obj [OF ok])
  fix lb
  assume o: "obj_ok lb"
  have "int (length (filter (\<lambda>j. j \<noteq> k) (lb_outstanding lb))) \<le> max 0 (b_concurrency (lb_batch lb))"
    using o length_filter_le [of "\<lambda>j. j \<noteq> k" "lb_outstanding lb"] unfolding obj_ok_but_def by linarith
  then show "obj_ok_but {k} (lb\<lparr>lb_outstanding := filter (\<lambda>j. j \<noteq> k) (lb_outstanding lb)\<rparr>)"
    using o by (auto simp: obj_ok_but_def)
qed

lemma index_outcome [simp]: "bi_index (outcome_of x run) = bi_index x" "bi_index (back_to_pending x) = bi_index x"
  "\<not> asked_state (outcome_of x run)" "\<not> asked_state (back_to_pending x)"
  by (simp_all add: outcome_of_def back_to_pending_def asked_state_def)

lemma not_asked_done [simp]: "\<not> asked_state (x\<lparr>bi_state := ItemDone\<rparr>)" "asked_state (x\<lparr>bi_execution := e\<rparr>) = asked_state x"
  "asked_state (x\<lparr>bi_error := r\<rparr>) = asked_state x" "asked_state (x\<lparr>bi_verdict := v\<rparr>) = asked_state x"
  by (simp_all add: asked_state_def)

lemma settle_item_ok:
  assumes ok: "driver_ok_at i {k} s" and k: "k < length (lb_items (obj i s))" "k \<notin> set (lb_outstanding (obj i s))"
  shows "driver_ok_at i {} (settle_item D i k run batchStop withdrawn s)"
proof -
  let ?x = "lb_items (obj i s) ! k"
  have xk: "bi_index ?x = k" using ok_indexD [OF ok k(1)] .
  have done': "driver_ok_at i {} (set_item D i y s)" if "bi_index y = k" "\<not> asked_state y" for y
    by (rule driver_ok_set_item [OF ok]) (use that k in auto)
  have "driver_ok_at i {} (set_item D i (outcome_of ?x run) s)"
    "driver_ok_at i {} (set_item D i ((back_to_pending (outcome_of ?x run))\<lparr>bi_state := ItemDone, bi_execution := Some ExecCancelled\<rparr>) s)"
    "driver_ok_at i {} (set_item D i (back_to_pending (outcome_of ?x run)) s)"
    by (rule done'; simp add: xk)+
  then show ?thesis
    unfolding settle_item_def Let_def by (auto simp: driver_ok_at_pending)
qed

lemma set_obj_set_obj: "set_obj i f (set_obj i g s) = set_obj i (\<lambda>lb. f (g lb)) s"
  by (cases "i < length (objs s)") (simp_all add: set_obj_def list_update_beyond)

lemma core_flags:
  "core_eq s (set_obj i (\<lambda>lb. lb\<lparr>lb_withdrawn := f lb\<rparr>) s)"
  "core_eq s (set_obj i (\<lambda>lb. lb\<lparr>lb_waitForSettle := g lb\<rparr>) s)"
  "core_eq s (set_obj i (\<lambda>lb. lb\<lparr>lb_waitForSettle := False, lb_settledAtRequest := h lb, lb_settled := n lb\<rparr>) s)"
  by (rule core_set_obj; simp add: same_core_def)+

lemma sound_set_item:
  assumes "sound_at i K s" "driver_ok_at i K' (set_item D i y s)"
  shows "sound_at i K' (set_item D i y s)"
  using assms by (simp add: sound_at_def stored_set_item)

lemma stored_settle_item: "stored_ok s \<Longrightarrow> stored_ok (settle_item D i k run bs wd s)"
  unfolding settle_item_def Let_def by (simp add: stored_set_item)

lemma sound_flags:
  "sound_at i K s \<Longrightarrow> sound_at i K (set_obj i (\<lambda>lb. lb\<lparr>lb_waitForSettle := g lb\<rparr>) s)"
  by (rule sound_core [OF core_flags(2)]) (simp_all add: sound_atD)

lemma sound_take_out:
  "sound_at i {} s \<Longrightarrow> sound_at i {k} (set_obj i (\<lambda>lb. lb\<lparr>lb_outstanding := filter (\<lambda>j. j \<noteq> k) (lb_outstanding lb)\<rparr>) s)"
  by (simp add: sound_at_def take_out_ok)

lemma item_ended_ok:
  assumes ok: "sound_at i {} s" and k: "k \<in> set (lb_outstanding (obj i s))"
    and run: "bi_runId (lb_items (obj i s) ! k) = Some runId"
  shows "sound_at i {} (snd (item_ended D now i k runId run' s))"
proof -
  note dok = sound_atD(1) [OF ok]
  have i: "i < length (objs s)" using dok by (simp add: driver_ok_at_def)
  have kl: "k < length (lb_items (obj i s))" using ok_outstandingD [OF dok k] .
  define s1 where "s1 = set_obj i (\<lambda>lb. lb\<lparr>lb_outstanding := filter (\<lambda>j. j \<noteq> k) (lb_outstanding lb)\<rparr>) s"
  have ok1: "sound_at i {k} s1" unfolding s1_def by (rule sound_take_out [OF ok])
  have o1: "lb_items (obj i s1) = lb_items (obj i s)" "k \<notin> set (lb_outstanding (obj i s1))" using i by (auto simp: s1_def)
  define s2 where "s2 = set_obj i (\<lambda>lb. lb\<lparr>lb_waitForSettle := False,
                      lb_settledAtRequest := jdelete runId (lb_settledAtRequest lb),
                      lb_settled := (if r_inputTokens run' > 0 \<or> r_outputTokens run' > 0
                                     then Suc (lb_settled lb) else lb_settled lb)\<rparr>) s1"
  define s3 where "s3 = set_obj i (\<lambda>lb. lb\<lparr>lb_withdrawn := filter (\<lambda>r. r \<noteq> runId) (lb_withdrawn lb)\<rparr>) s2"
  have c3: "core_eq s1 s3" unfolding s3_def s2_def by (rule core_trans [OF core_flags(3) core_flags(1)])
  have f3: "stored_ok s3 = stored_ok s1" by (simp add: s3_def s2_def)
  have i1: "i < length (objs s1)" using i by (simp add: s1_def)
  have o3: "lb_items (obj i s3) = lb_items (obj i s)" "lb_outstanding (obj i s3) = lb_outstanding (obj i s1)"
    using core_objD [OF c3 i1] o1(1) by (simp_all add: same_core_def)
  define s4 where "s4 batchStop withdrawn = settle_item D i k run' batchStop withdrawn s3" for batchStop withdrawn
  have ok3: "sound_at i {k} s3" by (rule sound_core [OF c3 _ ok1]) (simp add: f3 sound_atD [OF ok1])
  have "driver_ok_at i {} (s4 bs wd)" for bs wd
    unfolding s4_def by (rule settle_item_ok) (use sound_atD(1) [OF ok3] kl o1 o3 in simp_all)
  then have ok4: "sound_at i {} (s4 bs wd)" for bs wd
    using sound_atD(2) [OF ok3] by (simp add: s4_def sound_at_def stored_settle_item)
  have tail: "sound_at i {} (snd (pump D now i (persist_batch D now i (apply_stop_rule D now i s5))))"
    if "sound_at i {} s5" for s5
    by (intro sound_pump sound_persist sound_stop_rule that)
  show ?thesis
    unfolding item_ended_def Let_def s1_def [symmetric] s2_def [symmetric] s3_def [symmetric] s4_def [symmetric]
    using kl run o1(1) i
    by (auto intro!: tail simp: ok4 sound_pause sound_flags)
qed

lemma item_rejected_ok:
  assumes ok: "sound_at i {} s" and k: "k \<in> set (lb_outstanding (obj i s))"
    and run: "bi_runId (lb_items (obj i s) ! k) = Some runId"
  shows "sound_at i {} (snd (item_rejected D now i k runId err s))"
proof -
  note dok = sound_atD(1) [OF ok]
  have i: "i < length (objs s)" using dok by (simp add: driver_ok_at_def)
  have kl: "k < length (lb_items (obj i s))" using ok_outstandingD [OF dok k] .
  define s1 where "s1 = set_obj i (\<lambda>lb. lb\<lparr>lb_outstanding := filter (\<lambda>j. j \<noteq> k) (lb_outstanding lb)\<rparr>) s"
  have ok1: "sound_at i {k} s1" unfolding s1_def by (rule sound_take_out [OF ok])
  have o1: "lb_items (obj i s1) = lb_items (obj i s)" "k \<notin> set (lb_outstanding (obj i s1))" using i by (auto simp: s1_def)
  let ?y = "(lb_items (obj i s) ! k)\<lparr>bi_state := ItemDone, bi_execution := Some ExecFailed, bi_error := Some err\<rparr>"
  have "driver_ok_at i {} (set_item D i ?y s1)"
    by (rule driver_ok_set_item [OF sound_atD(1) [OF ok1]]) (use ok_indexD [OF dok kl] o1 kl in auto)
  then have "sound_at i {} (set_item D i ?y s1)" by (rule sound_set_item [OF ok1])
  then show ?thesis
    unfolding item_rejected_def Let_def s1_def [symmetric] using kl run
    by (intro sound_pump) (simp add: o1(1) sound_persist)
qed

lemma item_started_ok:
  assumes ok: "sound_at i {} s"
  shows "sound_at i {} (item_started D now i k runId s)"
proof (cases "length (lb_items (obj i s)) \<le> k \<or> bi_runId (lb_items (obj i s) ! k) \<noteq> Some runId \<or>
    bi_state (lb_items (obj i s) ! k) \<noteq> ItemQueued")
  case False
  note dok = sound_atD(1) [OF ok]
  let ?x = "lb_items (obj i s) ! k"
  have kl: "k < length (lb_items (obj i s))" using False by simp
  have "k \<in> set (lb_outstanding (obj i s))" using ok_askedD [OF dok kl] False by (simp add: asked_state_def)
  then have "driver_ok_at i {} (set_item D i (?x\<lparr>bi_state := ItemRunning\<rparr>) s)"
    by (intro driver_ok_set_item [OF dok]) (use ok_indexD [OF dok kl] in \<open>auto simp: asked_state_def\<close>)
  then show ?thesis using False by (simp add: item_started_def Let_def sound_persist sound_set_item [OF ok])
qed (use ok in \<open>auto simp: item_started_def Let_def\<close>)

section \<open>Controls\<close>

lemma cancel_pending_ok:
  "driver_ok_at i {} s \<Longrightarrow> set ks \<subseteq> {0..<length (lb_items (obj i s))} \<Longrightarrow> driver_ok_at i {} (snd (cancel_pending D i ks s))"
proof (induction ks arbitrary: s)
  case (Cons k ks)
  let ?x = "lb_items (obj i s) ! k"
  let ?y = "?x\<lparr>bi_state := ItemDone, bi_execution := Some ExecCancelled\<rparr>"
  have kl: "k < length (lb_items (obj i s))" using Cons.prems(2) by simp
  have i: "i < length (objs s)" using Cons.prems(1) by (simp add: driver_ok_at_def)
  show ?case
  proof (cases "bi_state ?x = ItemPending")
    case True
    then have "k \<notin> set (lb_outstanding (obj i s))" using ok_askedD [OF Cons.prems(1) kl] by (simp add: asked_state_def)
    then have ok1: "driver_ok_at i {} (set_item D i ?y s)"
      by (intro driver_ok_set_item [OF Cons.prems(1)]) (use ok_indexD [OF Cons.prems(1) kl] in auto)
    have "length (lb_items (obj i (set_item D i ?y s))) = length (lb_items (obj i s))"
      using items_set_item_obj [OF i, of D ?y] by simp
    then have "driver_ok_at i {} (snd (cancel_pending D i ks (set_item D i ?y s)))"
      using Cons.IH [OF ok1] Cons.prems(2) by simp
    then show ?thesis using True by (cases "cancel_pending D i ks (set_item D i ?y s)") (simp add: Let_def)
  next
    case False
    then show ?thesis using Cons by (simp add: Let_def)
  qed
qed simp

lemma core_cancel_runs: "core_eq s (snd (cancel_runs D i ks s))"
proof (induction ks arbitrary: s)
  case (Cons k ks)
  show ?case using Cons.IH core_trans [OF core_fields(2) Cons.IH]
    by (auto simp: Let_def split: prod.split) (metis snd_conv)+
qed simp

lemma rerun_items_ok:
  "driver_ok_at i {} s \<Longrightarrow> \<forall>x \<in> set xs. bi_index x \<notin> set (lb_outstanding (obj i s)) \<Longrightarrow>
     driver_ok_at i {} (rerun_items D i xs s)"
proof (induction xs arbitrary: s)
  case (Cons x xs)
  have i: "i < length (objs s)" using Cons.prems(1) by (simp add: driver_ok_at_def)
  let ?s1 = "set_item D i (back_to_pending x) s"
  have ok1: "driver_ok_at i {} ?s1"
    by (rule driver_ok_set_item [OF Cons.prems(1)]) (use Cons.prems(2) in auto)
  have o: "lb_outstanding (obj i ?s1) = lb_outstanding (obj i s)" "length (objs ?s1) = length (objs s)"
    using items_set_item_obj [OF i] by blast+
  show ?case
    unfolding rerun_items.simps
    by (rule Cons.IH) (use driver_ok_at_pending [OF ok1] o i Cons.prems(2) in simp_all)
qed simp

lemma stored_cancel_pending: "stored_ok s \<Longrightarrow> stored_ok (snd (cancel_pending D i ks s))"
  by (induction D i ks s rule: cancel_pending.induct) (auto simp: Let_def stored_set_item split: prod.split)

lemma stored_cancel_runs [simp]: "stored_ok (snd (cancel_runs D i ks s)) = stored_ok s"
proof (induction ks arbitrary: s)
  case (Cons k ks)
  have "stored_ok s1 = stored_ok s" if "cancel_runs D i ks (s\<lparr>dstate := d\<rparr>) = (n, s1)" for d n s1
    using Cons.IH [of "s\<lparr>dstate := d\<rparr>"] that by simp
  then show ?case by (simp add: Let_def Cons.IH split: prod.split)
qed simp

lemma stored_rerun: "stored_ok s \<Longrightarrow> stored_ok (rerun_items D i xs s)"
  by (induction D i xs s rule: rerun_items.induct) (simp_all add: stored_set_item)

lemma snd_answer [simp]: "snd (answer i n s) = s"
  by (simp add: answer_def)

lemma control_pause_ok: "sound_at i {} s \<Longrightarrow> sound_at i {} (snd (control_pause D now i s))"
  by (simp add: control_pause_def sound_pause)

lemma set_budget_ok: "sound_at i {} s \<Longrightarrow> sound_at i {} (snd (set_budget D i budget s))"
  unfolding set_budget_def Let_def by (simp add: sound_set_batch)

lemma disarmed_fields [simp]:
  "b_counts (disarmed_by_pass_rate b) = b_counts b" "b_costUsd (disarmed_by_pass_rate b) = b_costUsd b"
  "b_concurrency (disarmed_by_pass_rate b) = b_concurrency b" "b_state (disarmed_by_pass_rate b) = b_state b"
  by (simp_all add: disarmed_by_pass_rate_def)

lemma control_resume_ok:
  assumes s: "sound_at i {} s"
  shows "sound_at i {} (snd (control_resume D now i budget s))"
proof -
  obtain r s1 where b: "(case budget of None \<Rightarrow> (Inr (), s) | Some x \<Rightarrow> set_budget D i x s) = (r, s1)" by fastforce
  have s1: "sound_at i {} s1" using s b set_budget_ok [OF s, of D] by (auto split: option.splits) (metis snd_conv)
  let ?s2 = "set_batch i (\<lambda>b. (disarmed_by_pass_rate b)\<lparr>b_state := BatchRunning, b_pause := None\<rparr>) s1"
  have "sound_at i {} (snd (activate D now i (persist_batch D now i ?s2)))"
    by (intro sound_activate sound_persist sound_set_batch s1) simp
  then show ?thesis
    unfolding control_resume_def Let_def b
    by (simp add: s s1 case_prod_beta split: batch_state.split sum.split if_split)
qed

lemma control_cancel_ok:
  assumes s: "sound_at i {} s"
  shows "sound_at i {} (snd (control_cancel D now i s))"
proof -
  define s1 where "s1 = clear_retry i (set_batch i (\<lambda>b. b\<lparr>b_state := BatchCancelled, b_pause := None\<rparr>) s)"
  have s1: "sound_at i {} s1" unfolding s1_def by (intro sound_clear_retry sound_set_batch s) simp
  define c2 where "c2 = cancel_pending D i [0..<length (lb_items (obj i s1))] s1"
  have s2: "sound_at i {} (snd c2)" unfolding c2_def
    using cancel_pending_ok [OF sound_atD(1) [OF s1], of "[0..<length (lb_items (obj i s1))]" D]
      stored_cancel_pending [OF sound_atD(2) [OF s1]] by (simp add: sound_at_def)
  define s3 where "s3 = set_obj i (\<lambda>lb. lb\<lparr>lb_pending := []\<rparr>) (snd c2)"
  have s3: "sound_at i {} s3" using s2 by (simp add: s3_def sound_at_def driver_ok_at_pending)
  define c4 where "c4 = cancel_runs D i (lb_outstanding (obj i s3)) s3"
  have s4: "sound_at i {} (snd c4)" unfolding c4_def
    by (rule sound_core [OF core_cancel_runs _ s3]) (simp add: sound_atD [OF s3])
  have "sound_at i {} (persist_batch D now i (release_anchor D i (snd c4)))"
    by (intro sound_persist sound_release_anchor s4)
  then show ?thesis
    unfolding control_cancel_def Let_def s1_def [symmetric] c2_def [symmetric]
    by (simp add: s split: batch_state.split prod.split)
      (auto simp: s3_def c4_def)
qed

lemma control_rerun_ok:
  assumes s: "sound_at i {} s"
  shows "sound_at i {} (snd (control_rerun D now i s))"
proof -
  let ?again = "filter is_rerunnable (lb_items (obj i s))"
  note ok = sound_atD(1) [OF s]
  define s1 where "s1 = rerun_items D i ?again s"
  have "\<forall>x \<in> set ?again. bi_index x \<notin> set (lb_outstanding (obj i s))"
  proof
    fix x assume "x \<in> set ?again"
    then obtain k where k: "k < length (lb_items (obj i s))" "lb_items (obj i s) ! k = x" "is_rerunnable x"
      by (auto simp: in_set_conv_nth)
    then show "bi_index x \<notin> set (lb_outstanding (obj i s))"
      using ok_indexD [OF ok k(1)] ok_askedD [OF ok k(1)] by (auto simp: is_rerunnable_def asked_state_def)
  qed
  then have s1: "sound_at i {} s1"
    using rerun_items_ok [OF ok] stored_rerun [OF sound_atD(2) [OF s]] by (simp add: s1_def sound_at_def)
  have "sound_at i {} (set_batch i (\<lambda>b. (disarmed_by_pass_rate b)
          \<lparr>b_state := BatchRunning, b_pause := None, b_completedAt := None\<rparr>) s1)"
    by (rule sound_set_batch [OF s1]) simp
  then have "sound_at i {} (snd (activate D now i (persist_batch D now i
      (if b then set_batch i (\<lambda>b. (disarmed_by_pass_rate b)
          \<lparr>b_state := BatchRunning, b_pause := None, b_completedAt := None\<rparr>) s1 else s1))))" for b
    using s1 by (intro sound_activate sound_persist) simp
  then show ?thesis
    unfolding control_rerun_def Let_def s1_def [symmetric] by (simp add: s case_prod_beta)
qed

section \<open>Loading, creating, reconciling\<close>

text \<open>A record in step with its items, none of them asked for: what a batch out of memory leaves on disk.\<close>

definition in_step :: "batch \<Rightarrow> batch_item list \<Rightarrow> bool" where
  "in_step b items \<longleftrightarrow>
     indexed items \<and> b_counts b = count_items items \<and> b_costUsd b = sum_cost items \<and> \<not> list_ex asked_state items"

lemma loaded_ok: "in_step b items \<Longrightarrow> obj_ok (loaded b items)"
  by (auto simp: in_step_def loaded_def obj_ok_but_def list_ex_iff)

lemma obj_add_live: "j < length (objs s) \<Longrightarrow> obj j (snd (add_live lb s)) = obj j s"
  "obj (length (objs s)) (snd (add_live lb s)) = lb" "length (objs (snd (add_live lb s))) = Suc (length (objs s))"
  "bfiles (snd (add_live lb s)) = bfiles s" "fst (add_live lb s) = length (objs s)"
  by (simp_all add: add_live_def nth_append)

lemma add_live_ok:
  assumes "sound s" "obj_ok lb"
  shows "sound_at (length (objs s)) {} (snd (add_live lb s))"
proof -
  have "obj_ok (obj j (snd (add_live lb s)))" if "j < Suc (length (objs s))" for j
    using that assms obj_add_live(1) [of j s lb]
    by (cases "j = length (objs s)") (auto simp: sound_def driver_ok_def list_all_length obj_add_live(2))
  moreover have "stored_ok (snd (add_live lb s))"
  proof -
    have "snd ` set (jset k v m) \<subseteq> insert v (snd ` set m)" for k v and m :: "(string \<times> nat) list"
      by (induction k v m rule: jset.induct) auto
    then show ?thesis using assms(1) unfolding sound_def stored_ok_def add_live_def by (fastforce simp: less_Suc_eq)
  qed
  ultimately show ?thesis by (simp add: sound_at_def driver_ok_at_def obj_add_live)
qed

lemma load_live_ok:
  assumes s: "sound s" and l: "\<forall>b. load_batch (bfiles s) ws owner batch = Some b \<longrightarrow>
      in_step b (read_batch_items (bfiles s) (ws, owner, batch))"
    and r: "load_live ws owner batch s = (Some i, s')"
  shows "sound_at i {} s'"
proof (cases "map_of (live s) (batch_key_of ws owner batch)")
  case (Some j)
  then have "j < length (objs s)" using s map_of_SomeD by (fastforce simp: sound_def stored_ok_def)
  then show ?thesis using r Some s by (simp add: load_live_def sound_at_empty)
next
  case None
  then show ?thesis
    using r l add_live_ok [OF s loaded_ok]
    by (auto simp: load_live_def case_prod_beta obj_add_live(5) split: option.splits)
qed

lemma count_fresh: "count_items (map fresh_item xs) = empty_counts\<lparr>cnt_pending := int (length xs)\<rparr>"
proof (induction xs)
  case Nil
  show ?case by (simp add: count_items_def empty_counts_def)
next
  case (Cons x xs)
  then show ?case by (simp add: count_items_Cons bucket_of_def fresh_item_def)
qed

lemma fresh_in_step:
  "in_step (fresh_batch D now spec n) (map fresh_item (zip [0..<length (nb_inputs spec)] (nb_inputs spec)))"
proof -
  let ?z = "zip [0..<length (nb_inputs spec)] (nb_inputs spec)"
  have "map (bi_index \<circ> fresh_item) ?z = map fst ?z" by (simp add: fresh_item_def comp_def)
  moreover have "(\<Sum>x\<leftarrow>?z. nullish (bi_costUsd (fresh_item x)) 0) = 0"
    by (simp add: fresh_item_def)
  ultimately show ?thesis
    by (auto simp: in_step_def indexed_def count_fresh fresh_batch_def sum_cost_sum comp_def list_ex_iff asked_state_def fresh_item_def)
qed

lemma create_batch_ok:
  assumes s: "sound s"
  shows "sound (snd (create_batch D now spec s))"
proof -
  let ?items = "map fresh_item (zip [0..<length (nb_inputs spec)] (nb_inputs spec))"
  let ?b = "fresh_batch D now spec (batchesMinted s)"
  have step: "in_step ?b ?items" by (rule fresh_in_step)
  have f: "sound (s\<lparr>batchesMinted := m, bfiles := f\<rparr>)" if "files_ok f" for f m
    using that s by (simp add: sound_def driver_ok_def stored_ok_def)
  have go: "sound (snd (activate D now (length (objs s)) (snd (add_live (loaded ?b ?items) (s\<lparr>batchesMinted := m, bfiles := f\<rparr>)))))"
    if "files_ok f" for f m
    using sound_activate [OF add_live_ok [OF f [OF that, of m] loaded_ok [OF step]], of D now]
    by (intro sound_at_sound) simp
  have w: "files_ok f1" if "write_batch_items (bfiles s) r ?items = Inr f1" for r f1
    using files_ok_write [OF _ _ that] s step by (simp add: sound_def stored_ok_def in_step_def)
  have sv: "files_ok f2" if "write_batch_items (bfiles s) r ?items = Inr f1" "save_batch f1 b = Inr f2" for r f1 b f2
    using files_ok_save [OF w that(2)] that by blast
  have k: "files_ok f3" if "write_batch_items (bfiles s) r ?items = Inr f1" "save_batch f1 b = Inr f2"
    "save_batch_key h f2 ws ow key i = Inr f3" for r f1 b f2 h ws ow key i f3
    using files_ok_key [OF sv that(3)] that by blast
  have s0: "sound (s\<lparr>batchesMinted := m\<rparr>)" for m using s by (simp add: sound_def driver_ok_def)
  show ?thesis
    unfolding create_batch_def Let_def
    by (simp add: case_prod_beta obj_add_live(5) s0 f w sv k go split: sum.split option.split)
qed

text \<open>After a restart no item is left waiting for a run of the process before.\<close>

lemma settle_lost_item_settles:
  "settle_lost_item D stored x d = (Inr (y, lost), d') \<Longrightarrow> bi_index y = bi_index x \<and> \<not> asked_state y"
  unfolding settle_lost_item_def Let_def
  by (auto simp: asked_state_def back_to_pending_def outcome_of_def split: prod.splits sum.splits option.splits if_splits)

lemma settle_lost_items_settle:
  "settle_lost_items D stored k xs d = (Inr (ys, lost, changed), d') \<Longrightarrow>
     map bi_index ys = map bi_index xs \<and> \<not> list_ex asked_state ys"
proof (induction D stored k xs d arbitrary: ys lost changed d' rule: settle_lost_items.induct)
  case (2 D stored k x xs d)
  show ?case
  proof (cases "asked_state x")
    case False
    then show ?thesis using 2(1,3) by (auto simp: asked_state_def split: prod.splits sum.splits)
  next
    case True
    then obtain y l d1 zs ls c where
      1: "settle_lost_item D stored x d = (Inr (y, l), d1)" "settle_lost_items D stored (Suc k) xs d1 = (Inr (zs, ls, c), d')"
      and ys: "ys = y # zs"
      using 2(3) by (auto simp: asked_state_def split: prod.splits sum.splits)
    have "map bi_index zs = map bi_index xs \<and> \<not> list_ex asked_state zs"
      using 2(2) [OF _ 1(1) [symmetric] refl refl 1(2)] True unfolding asked_state_def by blast
    then show ?thesis using settle_lost_item_settles [OF 1(1)] ys by simp
  qed
qed simp

lemma charge_each_keeps:
  "map bi_index (charge_each costs lost xs) = map bi_index xs"
  "list_ex asked_state (charge_each costs lost xs) = list_ex asked_state xs"
proof -
  have a: "map bi_index (xs[k := (xs ! k)\<lparr>bi_costUsd := c\<rparr>]) = map bi_index xs"
    "list_ex asked_state (xs[k := (xs ! k)\<lparr>bi_costUsd := c\<rparr>]) = list_ex asked_state xs" for xs k c
    by (cases "k < length xs"; auto simp: list_eq_iff_nth_eq nth_list_update list_ex_length asked_state_def)+
  show "map bi_index (charge_each costs lost xs) = map bi_index xs"
    "list_ex asked_state (charge_each costs lost xs) = list_ex asked_state xs"
    by (induction costs lost xs rule: charge_each.induct) (simp_all add: Let_def a)
qed

lemma indexed_map: "map bi_index xs = map bi_index ys \<Longrightarrow> indexed xs = indexed ys"
  unfolding indexed_def by (metis length_map)

lemma reconcile_ok:
  assumes s: "sound s" and r: "reconcile D now stored s = (a, s')"
  shows "sound s' \<and> length (objs s') = length (objs s) \<and> (\<forall>lb. a = Inr lb \<longrightarrow> obj_ok lb)"
proof -
  let ?items = "read_batch_items (bfiles s) (ref_of stored)"
  have f: "files_ok (bfiles s)" using s by (simp add: sound_def stored_ok_def)
  have i: "indexed ?items" by (rule read_indexed [OF f])
  have upd: "sound (s\<lparr>bfiles := g, dstate := d\<rparr>)" if "files_ok g" for g d
    using that s by (simp add: sound_def driver_ok_def stored_ok_def)
  show ?thesis
  proof (cases "compact_batch_items (bfiles s) (ref_of stored)")
    case (Inl e)
    then show ?thesis using r s by (auto simp: reconcile_def Let_def)
  next
    case (Inr p)
    then obtain f1 where c: "compact_batch_items (bfiles s) (ref_of stored) = Inr (?items, f1)"
      "write_batch_items (bfiles s) (ref_of stored) ?items = Inr f1"
      by (auto simp: compact_batch_items_def Let_def split: sum.splits)
    have f1: "files_ok f1" by (rule files_ok_write [OF f i c(2)])
    show ?thesis
    proof (cases "settle_lost_items D stored 0 ?items (dstate s)")
      case (Pair q d)
      show ?thesis
      proof (cases q)
        case (Inl e)
        then show ?thesis using r c(1) Pair upd [OF f1] by (auto simp: reconcile_def Let_def)
      next
        case (Inr w)
        obtain ended lost changed where w: "w = (ended, lost, changed)" by (metis prod_cases3)
        note st = settle_lost_items_settle [OF Pair [unfolded Inr w]]
        define items' where "items' = charge_lost_runs D stored lost ended"
        have "map bi_index items' = map bi_index ?items" "\<not> list_ex asked_state items'"
          using st charge_each_keeps by (auto simp: items'_def charge_lost_runs_def Let_def split: option.splits)
        then have i': "indexed items'" "\<not> list_ex asked_state items'" using i indexed_map by blast+
        define b where "b = stored\<lparr>b_counts := count_items items', b_costUsd := sum_cost items',
                               b_updatedAt := (if changed then now else b_updatedAt stored)\<rparr>"
        have lb: "obj_ok (loaded b items')" using i' by (intro loaded_ok) (simp add: in_step_def b_def)
        define wr where "wr = (if changed then write_batch_items f1 (ref_of stored) items' else Inr f1)"
        have f2: "files_ok g" if "wr = Inr g" for g
          using that files_ok_write [OF f1 i'(1)] f1 by (auto simp: wr_def split: if_splits)
        have e: "reconcile D now stored s =
          (case wr of Inl e \<Rightarrow> (Inl (ReconcileWrite e), s\<lparr>bfiles := f1, dstate := d\<rparr>)
           | Inr f2 \<Rightarrow> (case save_batch f2 b of
                Inl e \<Rightarrow> (Inl (ReconcileWrite e), s\<lparr>bfiles := f2, dstate := d\<rparr>)
              | Inr f3 \<Rightarrow> (Inr (loaded b items'), s\<lparr>bfiles := f3, dstate := d\<rparr>)))"
          using c(1) Pair Inr w by (simp add: reconcile_def Let_def items'_def b_def wr_def split: sum.split)
        show ?thesis using r e lb f1 f2 files_ok_save upd by (auto split: sum.splits)
      qed
    qed
  qed
qed

lemma resume_stored_ok: "sound s \<Longrightarrow> sound (resume_stored D now stored s)"
proof -
  assume s: "sound s"
  obtain a s1 where r: "reconcile D now stored s = (a, s1)" by fastforce
  note ok = reconcile_ok [OF s r]
  have "sound_at (fst (add_live lb s1)) {} (snd (add_live lb s1))" if "a = Inr lb" for lb
    using add_live_ok [of s1 lb] ok that by (simp add: obj_add_live(5))
  then show ?thesis
    using s r ok unfolding resume_stored_def
    by (auto simp: case_prod_beta split: sum.split intro!: sound_at_sound sound_activate sound_settle_idle)
qed

lemma start_batches_ok: "sound s \<Longrightarrow> sound (start_batches D now s)"
proof -
  assume s: "sound s"
  have "sound s \<Longrightarrow> sound (fold (resume_stored D now) bs s)" for bs and s :: "'a driver"
    by (induction bs arbitrary: s) (simp_all add: resume_stored_ok)
  moreover have "sound (s\<lparr>stopping := False\<rparr>)" using s by (simp add: sound_def driver_ok_def)
  ultimately show ?thesis by (simp add: start_batches_def)
qed

lemma sound_quiet: "core_eq s s' \<Longrightarrow> stored_ok s' \<Longrightarrow> sound s \<Longrightarrow> sound s'"
  by (simp add: sound_def driver_ok_core)

lemma stop_batches_ok: "sound s \<Longrightarrow> sound (stop_batches D s)"
proof -
  assume s: "sound s"
  have "sound s \<Longrightarrow> sound (fold (\<lambda>(_, i) s. release_anchor D i (clear_retry i s)) ks s)" for ks and s :: "'a driver"
  proof (induction ks arbitrary: s)
    case (Cons k ks)
    obtain u i where k: "k = (u, i)" by fastforce
    have "sound (release_anchor D i (clear_retry i s))"
      by (rule sound_quiet [OF core_trans [OF core_clear_retry core_release_anchor]]) (use Cons.prems in \<open>simp_all add: sound_def\<close>)
    then show ?case using Cons.IH k by simp
  qed simp
  moreover have "sound (s\<lparr>stopping := True\<rparr>)" using s by (simp add: sound_def driver_ok_def)
  ultimately show ?thesis by (simp add: stop_batches_def)
qed

lemma drop_batches_ok: "sound s \<Longrightarrow> sound (snd (drop_batches D ws s))"
  by (rule sound_quiet [OF core_drop]) (simp_all add: stored_drop sound_def)

section \<open>Steps\<close>

text \<open>
  What happens to a driver. Its callbacks come from runs it has asked for; a control or a verdict may load a
  batch from disk, whose record is then in step with its items (it left memory with no run asked for); a
  batch's door answers as it likes.
\<close>

definition loadable :: "string \<Rightarrow> string \<Rightarrow> string \<Rightarrow> 'd driver \<Rightarrow> bool" where
  "loadable ws owner batch s \<longleftrightarrow>
     (case load_batch (bfiles s) ws owner batch of
        None \<Rightarrow> True
      | Some b \<Rightarrow> is_resident ws owner batch s \<or> in_step b (read_batch_items (bfiles s) (ws, owner, batch)))"

definition asked_run :: "nat \<Rightarrow> nat \<Rightarrow> string \<Rightarrow> 'd driver \<Rightarrow> bool" where
  "asked_run i k run s \<longleftrightarrow>
     i < length (objs s) \<and> k \<in> set (lb_outstanding (obj i s)) \<and> bi_runId (lb_items (obj i s) ! k) = Some run"

inductive batch_step :: "'d door \<Rightarrow> 'd driver \<Rightarrow> 'd driver \<Rightarrow> bool" for D where
  started: "batch_step D s (start_batches D now s)"
| created: "batch_step D s (snd (create_batch D now spec s))"
| controlled: "loadable ws owner batch s \<Longrightarrow> batch_step D s (snd (control D now ws owner batch action budget s))"
| synced: "r_batchId run = Some batch \<Longrightarrow> loadable ws owner batch s \<Longrightarrow> batch_step D s (sync_run D now ws owner run s)"
| run_started: "i < length (objs s) \<Longrightarrow> batch_step D s (item_started D now i k run s)"
| run_ended: "asked_run i k run s \<Longrightarrow> batch_step D s (snd (item_ended D now i k run ended s))"
| run_rejected: "asked_run i k run s \<Longrightarrow> batch_step D s (snd (item_rejected D now i k run err s))"
| retried: "i < length (objs s) \<Longrightarrow> batch_step D s (snd (retry_now D now i s))"
| door_moved: "batch_step D s (s\<lparr>dstate := d\<rparr>)"
| dropped: "batch_step D s (snd (drop_batches D ws s))"
| stopped: "batch_step D s (stop_batches D s)"

inductive batch_reachable :: "'d door \<Rightarrow> 'd driver \<Rightarrow> bool" for D where
  fresh: "files_ok f \<Longrightarrow> batch_reachable D (new_driver f d)"
| step: "batch_reachable D s \<Longrightarrow> batch_step D s s' \<Longrightarrow> batch_reachable D s'"

inductive_cases batch_stepE: "batch_step D s s'"

lemma load_live_sound:
  assumes s: "sound s" and l: "loadable ws owner batch s" and r: "load_live ws owner batch s = (a, s')"
  shows "sound s' \<and> (\<forall>i. a = Some i \<longrightarrow> sound_at i {} s')"
proof (cases a)
  case None
  then show ?thesis using r s by (auto simp: load_live_def add_live_def split: option.splits)
next
  case (Some i)
  have "sound_at i {} s'"
  proof (cases "map_of (live s) (batch_key_of ws owner batch)")
    case None
    then show ?thesis
      using l load_live_ok [OF s _ r [unfolded Some]] by (auto simp: loadable_def is_resident_def split: option.splits)
  next
    case (Some j)
    then have "j < length (objs s)" using s map_of_SomeD by (fastforce simp: sound_def stored_ok_def)
    then show ?thesis using r Some \<open>a = Some i\<close> s by (simp add: load_live_def sound_at_empty)
  qed
  then show ?thesis using Some sound_at_sound by blast
qed

lemma control_ok:
  assumes s: "sound s" and l: "loadable ws owner batch s"
  shows "sound (snd (control D now ws owner batch action budget s))"
proof -
  obtain a s1 where r: "load_live ws owner batch s = (a, s1)" by fastforce
  note ok = load_live_sound [OF s l r]
  show ?thesis
  proof (cases a)
    case None
    then show ?thesis using ok r by (simp add: control_def)
  next
    case (Some i)
    then have 1: "sound_at i {} s1" using ok by simp
    have "sound_at i {} (snd (if budget \<noteq> None \<and> action \<noteq> ActResume then (Inl BudgetGoesWithResume, s1)
        else case action of ActPause \<Rightarrow> control_pause D now i s1 | ActResume \<Rightarrow> control_resume D now i budget s1
           | ActCancel \<Rightarrow> control_cancel D now i s1 | ActRerunFailed \<Rightarrow> control_rerun D now i s1))"
      using 1 by (simp add: control_pause_ok control_resume_ok control_cancel_ok control_rerun_ok split: batch_action.split)
    from sound_at_sound [OF sound_settle_idle [OF this, of D now]] show ?thesis
      using r Some unfolding control_def by (simp add: case_prod_beta)
  qed
qed

lemma sync_run_ok:
  assumes s: "sound s" and l: "\<forall>batch. r_batchId run = Some batch \<longrightarrow> loadable ws owner batch s"
  shows "sound (sync_run D now ws owner run s)"
proof (cases "\<exists>batch k. r_batchId run = Some batch \<and> r_batchIndex run = Some k \<and> batch \<noteq> []")
  case False
  then show ?thesis using s by (auto simp: sync_run_def split: option.split)
next
  case True
  then obtain batch k where b: "r_batchId run = Some batch" "r_batchIndex run = Some k" "batch \<noteq> []" by blast
  obtain a s1 where r: "load_live ws owner batch s = (a, s1)" by fastforce
  note ok = load_live_sound [OF s l [rule_format, OF b(1)] r]
  let ?v = "if is_assessable run then item_verdict_of run else None"
  have "sound_at i {} (set_item D i ((lb_items (obj i s1) ! k)\<lparr>bi_verdict := v\<rparr>) s1)"
    if "a = Some i" "k < length (lb_items (obj i s1))" "bi_state (lb_items (obj i s1) ! k) = ItemDone" for i v
  proof -
    have 1: "sound_at i {} s1" using ok that by simp
    note d = sound_atD(1) [OF 1]
    have "k \<notin> set (lb_outstanding (obj i s1))" using ok_askedD [OF d that(2)] that(3) by (simp add: asked_state_def)
    then have "driver_ok_at i {} (set_item D i ((lb_items (obj i s1) ! k)\<lparr>bi_verdict := v\<rparr>) s1)"
      by (intro driver_ok_set_item [OF d]) (use ok_indexD [OF d that(2)] that(3) in \<open>auto simp: asked_state_def\<close>)
    then show ?thesis by (rule sound_set_item [OF 1])
  qed
  then show ?thesis
    using b r ok unfolding sync_run_def Let_def
    by (auto split: option.split intro!: sound_at_sound sound_settle_idle sound_persist)
qed

lemma batch_step_sound: "batch_step D s s' \<Longrightarrow> sound s \<Longrightarrow> sound s'"
proof (induction rule: batch_step.induct)
  case (run_ended i k run s now ended)
  then show ?case unfolding asked_run_def by (blast intro: sound_at_sound item_ended_ok sound_at_empty)
next
  case (run_rejected i k run s now err)
  then show ?case unfolding asked_run_def by (blast intro: sound_at_sound item_rejected_ok sound_at_empty)
next
  case (run_started i s now k run)
  then show ?case by (blast intro: sound_at_sound item_started_ok sound_at_empty)
next
  case (retried i s now)
  then show ?case unfolding retry_now_def by (blast intro: sound_at_sound sound_pump sound_clear_retry sound_at_empty)
next
  case (door_moved s d)
  then show ?case by (simp add: sound_def driver_ok_def)
next
  case (synced run batch ws owner s now)
  then show ?case by (intro sync_run_ok) simp_all
qed (simp_all add: start_batches_ok create_batch_ok control_ok drop_batches_ok stop_batches_ok)

lemma batch_reachable_sound: "batch_reachable D s \<Longrightarrow> sound s"
proof (induction rule: batch_reachable.induct)
  case (fresh f d)
  then show ?case by (simp add: new_driver_def sound_def driver_ok_def stored_ok_def)
qed (rule batch_step_sound)


end
