(* ===== verification/Batch_Props.thy ===== *)
theory Batch_Props
  imports Batch_Steps
begin

text \<open>
  A running batch always has something that moves it on, after each of its operations but one: the rejection
  of a run. The demonstration states of the batch theories' witnesses are here too.
\<close>

section \<open>What keeps a batch moving\<close>

definition moving :: "nat \<Rightarrow> 'd driver \<Rightarrow> bool" where
  "moving i s \<longleftrightarrow>
     b_state (lb_batch (obj i s)) \<noteq> BatchRunning \<or> lb_outstanding (obj i s) \<noteq> [] \<or> lb_retry (obj i s)"

text \<open>A door that answers: it does not throw, and refuses as stopped only when the driver stops.\<close>

definition answering :: "'d door \<Rightarrow> bool" where
  "answering D \<longleftrightarrow>
     (\<forall>ws owner task rq d. case fst (door_request D ws owner task rq d) of
        Inl _ \<Rightarrow> False
      | Inr (BatchRunRefused why _) \<Rightarrow> why \<noteq> BatchStopped
      | Inr _ \<Rightarrow> True)"

text \<open>Steps that start no batch and make none wait for a settle.\<close>

definition tame :: "'d driver \<Rightarrow> 'd driver \<Rightarrow> bool" where
  "tame s s' \<longleftrightarrow>
     length (objs s') = length (objs s) \<and>
     (\<forall>j < length (objs s).
        (b_state (lb_batch (obj j s)) \<noteq> BatchRunning \<longrightarrow> b_state (lb_batch (obj j s')) \<noteq> BatchRunning) \<and>
        (lb_waitForSettle (obj j s') \<longrightarrow> lb_waitForSettle (obj j s)))"

lemma tame_refl [simp]: "tame s s"
  by (simp add: tame_def)

lemma tame_trans: "tame s s' \<Longrightarrow> tame s' s'' \<Longrightarrow> tame s s''"
  by (simp add: tame_def)

lemma tame_set_obj:
  "(\<And>lb. (b_state (lb_batch lb) \<noteq> BatchRunning \<longrightarrow> b_state (lb_batch (g lb)) \<noteq> BatchRunning) \<and>
     (lb_waitForSettle (g lb) \<longrightarrow> lb_waitForSettle lb)) \<Longrightarrow> tame s (set_obj i g s)"
  by (cases "i < length (objs s)") (auto simp: tame_def set_obj_def nth_list_update list_update_beyond)

lemma tame_set_batch:
  "(\<And>b. b_state b \<noteq> BatchRunning \<longrightarrow> b_state (g b) \<noteq> BatchRunning) \<Longrightarrow> tame s (set_batch i g s)"
  unfolding set_batch_def by (rule tame_set_obj) simp

lemma tame_fields [simp]:
  "tame s (s\<lparr>bfiles := f\<rparr>)" "tame s (s\<lparr>dstate := d\<rparr>)" "tame s (s\<lparr>bnotices := n\<rparr>)"
  "tame s (s\<lparr>live := l\<rparr>)" "tame s (s\<lparr>runsMinted := m\<rparr>)" "tame s (s\<lparr>dstate := d, runsMinted := m\<rparr>)"
  by (simp_all add: tame_def)

lemma tame_clear_retry: "tame s (clear_retry i s)"
  unfolding clear_retry_def by (rule tame_set_obj) simp

lemma tame_release_anchor: "tame s (release_anchor D i s)"
proof -
  have "tame s (set_obj i (\<lambda>lb. lb\<lparr>lb_anchor := None\<rparr>) (s\<lparr>dstate := d\<rparr>))" for d
    by (rule tame_trans [OF tame_fields(2) tame_set_obj]) simp
  then show ?thesis by (simp add: release_anchor_def split: option.split)
qed

lemma tame_drop: "tame s (snd (drop_batches D ws s))"
proof -
  have step: "tame s ((release_anchor D i (clear_retry i s))\<lparr>live := l\<rparr>)" for s :: "'a driver" and i l
    by (rule tame_trans [OF tame_trans [OF tame_clear_retry tame_release_anchor] tame_fields(4)])
  have "tame s (fold (\<lambda>(key, i) s. (release_anchor D i (clear_retry i s))\<lparr>live := jdelete key (live s)\<rparr>) ks s)"
    for ks and s :: "'a driver"
  proof (induction ks arbitrary: s)
    case (Cons k ks)
    obtain key i where "k = (key, i)" by fastforce
    then show ?case using tame_trans [OF step Cons.IH] by simp
  qed simp
  then show ?thesis by (simp add: drop_batches_def Let_def)
qed

lemma tame_guarded: "tame s (guarded D i w s)"
proof -
  have "tame s (snd (drop_batches D ws (set_batch i (\<lambda>b. b\<lparr>b_state := BatchCancelled\<rparr>) s)))" for ws
    by (rule tame_trans [OF tame_set_batch tame_drop]) simp
  then show ?thesis by (simp add: guarded_def split: sum.split batch_write_error.split)
qed

lemma tame_set_item: "tame s (set_item D i y s)"
proof -
  have "tame s (guarded D i w (set_obj i (replaced_item y) s))" for w
    by (rule tame_trans [OF tame_set_obj tame_guarded]) (simp add: replaced_item_def Let_def)
  then show ?thesis by (simp add: set_item_def)
qed

lemma tame_persist: "tame s (persist_batch D now i s)"
  unfolding persist_batch_def Let_def
  by (rule tame_trans [OF tame_trans [OF tame_set_batch tame_guarded] tame_fields(3)]) simp

lemma tame_leave: "tame s (leave D i s)"
proof -
  have c: "tame s (release_anchor D i (clear_retry i s))"
    by (rule tame_trans [OF tame_clear_retry tame_release_anchor])
  show ?thesis by (simp add: leave_def Let_def c tame_trans [OF c tame_fields(4)])
qed

lemma tame_withdraw: "tame s (withdraw_queued D i ks s)"
proof (induction D i ks s rule: withdraw_queued.induct)
  case (2 D i k ks s)
  have "tame s (set_obj i (\<lambda>lb. lb\<lparr>lb_withdrawn := f lb\<rparr>) (s\<lparr>dstate := d\<rparr>))" for f d
    by (rule tame_trans [OF tame_fields(2) tame_set_obj]) simp
  note step = tame_trans [OF this]
  show ?case
  proof (cases "length (lb_items (obj i s)) \<le> k \<or> bi_state (lb_items (obj i s) ! k) \<noteq> ItemQueued \<or>
      \<not> truthy (bi_runId (lb_items (obj i s) ! k))")
    case True
    then show ?thesis using 2(1) [OF refl refl refl] by (auto simp: Let_def)
  next
    case False
    obtain taken d where w: "door_withdraw D (b_workspaceId (lb_batch (obj i s))) (b_ownerId (lb_batch (obj i s)))
        (nullish (bi_runId (lb_items (obj i s) ! k)) []) (dstate s) = (taken, d)" by fastforce
    show ?thesis
      using 2(2) [OF refl refl refl False refl w [symmetric] refl] False w step by (simp add: Let_def)
  qed
qed simp

text \<open>Operations after which the batch does not run.\<close>

lemma tame_not_running:
  "tame s s' \<Longrightarrow> i < length (objs s) \<Longrightarrow> b_state (lb_batch (obj i s)) \<noteq> BatchRunning \<Longrightarrow>
     b_state (lb_batch (obj i s')) \<noteq> BatchRunning"
  by (simp add: tame_def)

lemma obj_set_batch [simp]: "i < length (objs s) \<Longrightarrow> lb_batch (obj i (set_batch i g s)) = g (lb_batch (obj i s))"
  "length (objs (set_batch i g s)) = length (objs s)"
  by (simp_all add: set_batch_def)

lemma tame_complete: "tame s (complete_batch D now i s)"
  and complete_stops: "i < length (objs s) \<Longrightarrow> b_state (lb_batch (obj i (complete_batch D now i s))) \<noteq> BatchRunning"
proof -
  let ?s1 = "set_batch i (\<lambda>b. b\<lparr>b_state := BatchCompleted, b_completedAt := Some now\<rparr>) s"
  have 1: "tame s ?s1" by (rule tame_set_batch) simp
  have "tame ?s1 (persist_batch D now i (guarded D i w ?s1))" for w
    by (rule tame_trans [OF tame_guarded tame_persist])
  then have 2: "tame ?s1 (complete_batch D now i s)"
    by (auto simp: complete_batch_def Let_def intro: tame_trans [OF _ tame_leave])
  show "tame s (complete_batch D now i s)" by (rule tame_trans [OF 1 2])
  show "b_state (lb_batch (obj i (complete_batch D now i s))) \<noteq> BatchRunning" if "i < length (objs s)"
    by (rule tame_not_running [OF 2]) (use that in simp_all)
qed

lemma tame_settle_idle: "tame s (settle_idle D now i s)"
proof -
  have "tame s (leave D i (complete_batch D now i (set_batch i (\<lambda>b. b\<lparr>b_pause := None\<rparr>) s)))"
    by (rule tame_trans [OF tame_trans [OF tame_set_batch tame_complete] tame_leave]) simp
  then show ?thesis by (simp add: settle_idle_def Let_def tame_leave)
qed

lemma tame_settle_item: "tame s (settle_item D i k run bs wd s)"
proof -
  have "tame s (set_obj i (\<lambda>lb. lb\<lparr>lb_pending := k # lb_pending lb\<rparr>) (set_item D i y s))" for y
    by (rule tame_trans [OF tame_set_item tame_set_obj]) simp
  then show ?thesis by (simp add: settle_item_def Let_def tame_set_item)
qed

lemma pause_tame: "tame s (pause_batch D now i reason m s)"
  and pause_stops: "i < length (objs s) \<Longrightarrow> b_state (lb_batch (obj i (pause_batch D now i reason m s))) \<noteq> BatchRunning"
proof -
  let ?s1 = "set_batch i (\<lambda>b. b\<lparr>b_state := BatchPaused, b_pause := Some \<lparr>pause_reason = reason, pause_message = m, pause_at = now\<rparr>\<rparr>) s"
  let ?s4 = "persist_batch D now i (release_anchor D i (withdraw_queued D i (lb_outstanding (obj i (clear_retry i ?s1))) (clear_retry i ?s1)))"
  have 1: "tame s ?s1" by (rule tame_set_batch) simp
  have 4: "tame ?s1 ?s4"
    by (rule tame_trans [OF tame_trans [OF tame_trans [OF tame_clear_retry tame_withdraw] tame_release_anchor] tame_persist])
  then have p: "b_state (lb_batch (obj i s)) = BatchRunning \<Longrightarrow> tame ?s1 (pause_batch D now i reason m s)"
    by (auto simp: pause_batch_def Let_def intro: tame_trans [OF _ tame_fields(3)])
  show "tame s (pause_batch D now i reason m s)"
    using tame_trans [OF 1 p] by (cases "b_state (lb_batch (obj i s)) = BatchRunning") (auto simp: pause_batch_def)
  assume i: "i < length (objs s)"
  show "b_state (lb_batch (obj i (pause_batch D now i reason m s))) \<noteq> BatchRunning"
  proof (cases "b_state (lb_batch (obj i s)) = BatchRunning")
    case True
    show ?thesis by (rule tame_not_running [OF p [OF True]]) (use i in simp_all)
  qed (simp add: pause_batch_def)
qed

lemma tame_stop_rule: "tame s (apply_stop_rule D now i s)"
  by (simp add: apply_stop_rule_def Let_def pause_tame split: option.split)

section \<open>The pump\<close>

text \<open>Asking for an item leaves the rest of the pending list and the concurrency as they are.\<close>

lemma set_item_fields: "i < length (objs s) \<Longrightarrow>
    b_concurrency (lb_batch (obj i (set_item D i y s))) = b_concurrency (lb_batch (obj i s)) \<and>
    lb_outstanding (obj i (set_item D i y s)) = lb_outstanding (obj i s) \<and>
    lb_pending (obj i (set_item D i y s)) = lb_pending (obj i s) \<and> length (objs (set_item D i y s)) = length (objs s)"
proof -
  assume i: "i < length (objs s)"
  let ?s = "set_obj i (replaced_item y) s"
  have c: "core_eq ?s (guarded D i w ?s)" for w by (rule core_guarded)
  have "same_core (obj i ?s) (obj i (guarded D i w ?s))" for w by (rule core_objD [OF c]) (use i in simp)
  then show ?thesis using i c by (auto simp: set_item_def same_core_def replaced_item_def Let_def core_eq_def)
qed

lemma request_asked:
  assumes i: "i < length (objs s)" and r: "request_item D now i k s = (Asked, s')"
  shows "lb_pending (obj i s') = lb_pending (obj i s) \<and> length (objs s') = length (objs s) \<and>
    b_concurrency (lb_batch (obj i s')) = b_concurrency (lb_batch (obj i s))"
proof -
  let ?run = "door_runId D (runsMinted s)"
  define s2 where "s2 d = set_obj i (\<lambda>lb. lb\<lparr>lb_outstanding := set_add k (lb_outstanding lb),
      lb_settledAtRequest := jset ?run (lb_settled lb) (lb_settledAtRequest lb)\<rparr>)
      (s\<lparr>dstate := d, runsMinted := Suc (runsMinted s)\<rparr>)" for d
  obtain d y where e: "s' = persist_batch D now i (set_item D i y (s2 d))"
    using r unfolding request_item_def Let_def s2_def
    by (auto split: prod.splits sum.splits batch_run_ticket.splits)
  have "i < length (objs (s2 d))" using i by (simp add: s2_def)
  note f = set_item_fields [OF this, of D y]
  have c: "core_eq (set_item D i y (s2 d)) s'" unfolding e by (rule core_persist)
  have "same_core (obj i (set_item D i y (s2 d))) (obj i s')" by (rule core_objD [OF c]) (use f i in \<open>simp add: s2_def\<close>)
  then show ?thesis using f c i by (simp add: same_core_def core_eq_def s2_def)
qed

lemma request_refused:
  assumes i: "i < length (objs s)" and D: "answering D" and r: "request_item D now i k s = (a, s')" and a: "a \<noteq> Asked"
  shows "a = NotNow \<and> moving i s'"
proof -
  let ?b = "lb_batch (obj i s)"
  obtain answer d where q: "door_request D (b_workspaceId ?b) (b_ownerId ?b) (b_taskId ?b)
      \<lparr>rq_runId = door_runId D (runsMinted s), rq_requestedAt = now, rq_input = Some (bi_input (lb_items (obj i s) ! k)),
       rq_idempotencyKey = None, rq_retryOf = None, rq_guidance = None, rq_batch = Some (b_id ?b, k)\<rparr>
      (dstate s) = (answer, d)" by fastforce
  have ans: "case answer of Inl _ \<Rightarrow> False | Inr (BatchRunRefused why _) \<Rightarrow> why \<noteq> BatchStopped | Inr _ \<Rightarrow> True"
    using D q unfolding answering_def by (metis fst_conv)
  define put_back where "put_back = set_obj i (\<lambda>lb. lb\<lparr>lb_pending := k # lb_pending lb\<rparr>) (s\<lparr>dstate := d, runsMinted := Suc (runsMinted s)\<rparr>)"
  have ib: "i < length (objs put_back)" using i by (simp add: put_back_def)
  have p: "moving i (pause_batch D now i reason m put_back)" for reason m
    using pause_stops [OF ib] by (simp add: moving_def)
  have f: "moving i (set_obj i (\<lambda>lb. lb\<lparr>lb_retry := True\<rparr>) put_back)" using ib by (simp add: moving_def)
  show ?thesis
  proof (cases answer)
    case (Inr t)
    show ?thesis
    proof (cases t)
      case (BatchRunRefused why m)
      then show ?thesis
        using r ans Inr p f unfolding put_back_def request_item_def Let_def q
        by (cases why) auto
    qed (use r a Inr in \<open>auto simp: request_item_def Let_def q\<close>)
  qed (use ans in simp)
qed

lemma objs_pause [simp]: "length (objs (pause_batch D now i reason m s)) = length (objs s)"
  using pause_tame [of s D now i reason m] by (simp add: tame_def)

lemma refused_objs: "request_item D now i k s = (a, s') \<Longrightarrow> a \<noteq> Asked \<Longrightarrow> length (objs s') = length (objs s)"
  unfolding request_item_def Let_def
  by (auto split: prod.splits sum.splits batch_run_ticket.splits batch_refusal.splits)

lemma next_pending_shorter: "next_pending items ks = (Some k, rest) \<Longrightarrow> length rest < length ks"
  by (induction items ks rule: next_pending.induct) (auto split: if_splits)

lemma next_pending_none: "next_pending items ks = (None, rest) \<Longrightarrow> rest = []"
  by (induction items ks rule: next_pending.induct) (auto split: if_splits)

text \<open>The loop ends before its turns run out, and where it ends early the batch has something to wait for.\<close>

lemma pump_loop_progress:
  assumes "i < length (objs s)" "answering D" "length (lb_pending (obj i s)) < n"
    "pump_loop D now i n s = (ended, threw, s')"
  shows "\<not> threw \<and> (\<not> ended \<longrightarrow> moving i s') \<and> length (objs s') = length (objs s) \<and>
    (ended \<longrightarrow> b_concurrency (lb_batch (obj i s)) \<le> int (length (lb_outstanding (obj i s'))) \<or> lb_pending (obj i s') = [])"
  using assms
proof (induction n arbitrary: s)
  case (Suc n)
  note i = Suc.prems(1) and D = Suc.prems(2) and r = Suc.prems(4)
  show ?case
  proof (cases "int (length (lb_outstanding (obj i s))) < b_concurrency (lb_batch (obj i s))")
    case False
    then show ?thesis using r by (auto simp: Let_def)
  next
    case room: True
    obtain found rest where np: "next_pending (lb_items (obj i s)) (lb_pending (obj i s)) = (found, rest)" by fastforce
    let ?s1 = "set_obj i (\<lambda>lb. lb\<lparr>lb_pending := rest\<rparr>) s"
    show ?thesis
    proof (cases found)
      case None
      then show ?thesis using r room np next_pending_none i by (auto simp: Let_def)
    next
      case (Some k)
      note shorter = next_pending_shorter [OF np [unfolded Some]]
      obtain a s2 where q: "request_item D now i k ?s1 = (a, s2)" by fastforce
      have i1: "i < length (objs ?s1)" using i by simp
      show ?thesis
      proof (cases "budget_spent D (lb_batch (obj i s)) (dstate s)")
        case True
        define s4 where "s4 = pause_batch D now i PauseBudget ''The batch's budget has nothing left for another run.''
          (set_obj i (\<lambda>lb. lb\<lparr>lb_pending := k # rest\<rparr>) ?s1)"
        have "b_state (lb_batch (obj i s4)) \<noteq> BatchRunning" unfolding s4_def by (rule pause_stops) (use i in simp)
        moreover have "length (objs s4) = length (objs s)" by (simp add: s4_def)
        moreover have "ended = False" "threw = False" "s' = s4" using r room np Some True by (simp_all add: Let_def s4_def)
        ultimately show ?thesis by (simp add: moving_def)
      next
        case False
        show ?thesis
        proof (cases "a = Asked")
          case True
          note asked = request_asked [OF i1 q [unfolded True]]
          have "pump_loop D now i n s2 = (ended, threw, s')" using r room np Some False q True by (simp add: Let_def)
          from Suc.IH [OF _ D _ this] show ?thesis using asked i shorter Suc.prems(3) by simp
        next
          case notnow: False
          note ref = request_refused [OF i1 D q notnow]
          have e: "ended = False" "threw = False" "s' = s2" using r room np Some False q ref by (simp_all add: Let_def)
          have "length (objs s2) = length (objs s)"
            using refused_objs [OF q notnow] by simp
          then show ?thesis using e ref by simp
        qed
      qed
    qed
  qed
qed simp

lemma pump_progress:
  assumes i: "i < length (objs s)" and D: "answering D" and run: "\<not> stopping s"
    and conc: "1 \<le> b_concurrency (lb_batch (obj i s))"
    and wait: "lb_waitForSettle (obj i s) \<Longrightarrow> lb_outstanding (obj i s) \<noteq> []"
    and r: "pump D now i s = (threw, s')"
  shows "\<not> threw \<and> moving i s'"
proof -
  obtain ended t s1 where p: "pump_loop D now i (Suc (length (lb_pending (obj i s)))) s = (ended, t, s1)"
    by (metis prod_cases3)
  note pr = pump_loop_progress [OF i D _ p, simplified]
  show ?thesis
  proof (cases "b_state (lb_batch (obj i s)) = BatchRunning")
    case False
    then have "b_state (lb_batch (obj i (settle_idle D now i s))) \<noteq> BatchRunning"
      by (rule tame_not_running [OF tame_settle_idle i])
    then show ?thesis using r False by (simp add: pump_def moving_def)
  next
    case True
    show ?thesis
    proof (cases "lb_retry (obj i s) \<or> lb_waitForSettle (obj i s)")
      case True
      then show ?thesis using r wait run \<open>b_state (lb_batch (obj i s)) = BatchRunning\<close>
        by (auto simp: pump_def moving_def)
    next
      case False
      then have e: "threw = t"
        "s' = (if ended \<and> lb_outstanding (obj i s1) = [] \<and> lb_pending (obj i s1) = [] then complete_batch D now i s1 else s1)"
        using r run True p by (auto simp: pump_def Let_def)
      have "i < length (objs s1)" using pr i by simp
      then show ?thesis using pr e complete_stops [of i s1 D now] conc by (auto simp: moving_def)
    qed
  qed
qed

section \<open>After each operation\<close>

lemma settle_item_fields:
  assumes "i < length (objs s)"
  shows "length (objs (settle_item D i k run bs wd s)) = length (objs s) \<and> stopping (settle_item D i k run bs wd s) = stopping s \<and>
    b_concurrency (lb_batch (obj i (settle_item D i k run bs wd s))) = b_concurrency (lb_batch (obj i s))"
proof -
  have st: "stopping (set_item D i y s) = stopping s" for y using items_set_item_obj [OF assms] by blast
  have f: "length (objs (set_item D i y s)) = length (objs s)"
    "b_concurrency (lb_batch (obj i (set_item D i y s))) = b_concurrency (lb_batch (obj i s))" for y
    using set_item_fields [OF assms, of D y] by simp_all
  show ?thesis using assms f st by (simp add: settle_item_def Let_def) (simp add: set_obj_def)
qed

lemma not_waiting: "tame s s' \<Longrightarrow> i < length (objs s) \<Longrightarrow> \<not> lb_waitForSettle (obj i s) \<Longrightarrow> \<not> lb_waitForSettle (obj i s')"
  by (auto simp: tame_def)

text \<open>
  C12. A running batch is never stranded by the end of a run: after a run of it ends, however it ended, the batch
  no longer runs, or still waits for a run it asked for, or for its retry of a full queue. No request throws.
\<close>

theorem ended_run_keeps_batch_moving:
  assumes reach: "batch_reachable D s" and D: "answering D" and run: "\<not> stopping s"
    and k: "asked_run i k runId s" and conc: "1 \<le> b_concurrency (lb_batch (obj i s))"
    and r: "item_ended D now i k runId ended s = (threw, s')"
  shows "\<not> threw \<and>
    (b_state (lb_batch (obj i s')) \<noteq> BatchRunning \<or> lb_outstanding (obj i s') \<noteq> [] \<or> lb_retry (obj i s'))"
proof -
  have s: "sound_at i {} s" using batch_reachable_sound [OF reach] k by (simp add: sound_at_empty asked_run_def)
  note dok = sound_atD(1) [OF s]
  have i: "i < length (objs s)" and ko: "k \<in> set (lb_outstanding (obj i s))"
    and run_k: "bi_runId (lb_items (obj i s) ! k) = Some runId" using k by (simp_all add: asked_run_def)
  have kl: "k < length (lb_items (obj i s))" using ok_outstandingD [OF dok ko] .
  define s1 where "s1 = set_obj i (\<lambda>lb. lb\<lparr>lb_outstanding := filter (\<lambda>j. j \<noteq> k) (lb_outstanding lb)\<rparr>) s"
  define s2 where "s2 = set_obj i (\<lambda>lb. lb\<lparr>lb_waitForSettle := False,
                      lb_settledAtRequest := jdelete runId (lb_settledAtRequest lb),
                      lb_settled := (if r_inputTokens ended > 0 \<or> r_outputTokens ended > 0
                                     then Suc (lb_settled lb) else lb_settled lb)\<rparr>) s1"
  define s3 where "s3 = set_obj i (\<lambda>lb. lb\<lparr>lb_withdrawn := filter (\<lambda>r. r \<noteq> runId) (lb_withdrawn lb)\<rparr>) s2"
  define s4 where "s4 batchStop withdrawn = settle_item D i k ended batchStop withdrawn s3" for batchStop withdrawn
  have same1: "lb_items (obj i s1) = lb_items (obj i s)" using i by (simp add: s1_def)
  have i3: "i < length (objs s3)" using i by (simp add: s1_def s2_def s3_def)
  have w3: "\<not> lb_waitForSettle (obj i s3)" using i by (simp add: s1_def s2_def s3_def)
  have conc3: "b_concurrency (lb_batch (obj i s3)) = b_concurrency (lb_batch (obj i s))"
    using i by (simp add: s1_def s2_def s3_def)
  have run3: "\<not> stopping s3" using run by (simp add: s1_def s2_def s3_def set_obj_def)
  have f4: "length (objs (s4 bs wd)) = length (objs s3) \<and> stopping (s4 bs wd) = stopping s3 \<and>
      b_concurrency (lb_batch (obj i (s4 bs wd))) = b_concurrency (lb_batch (obj i s3))" for bs wd
    unfolding s4_def by (rule settle_item_fields [OF i3])
  have w4: "\<not> lb_waitForSettle (obj i (s4 bs wd))" for bs wd
    unfolding s4_def by (rule not_waiting [OF tame_settle_item i3 w3])
  text \<open>The rest of the operation, from a state that waits only where a run is out.\<close>
  have tail: "\<not> threw \<and> moving i s'"
    if e: "pump D now i (persist_batch D now i (apply_stop_rule D now i s5)) = (threw, s')"
      and c: "i < length (objs s5)" "\<not> stopping s5" "1 \<le> b_concurrency (lb_batch (obj i s5))"
      and w: "lb_waitForSettle (obj i s5) \<Longrightarrow> lb_outstanding (obj i s5) \<noteq> []" for s5
  proof -
    let ?s6 = "persist_batch D now i (apply_stop_rule D now i s5)"
    have core: "core_eq s5 ?s6" by (rule core_trans [OF core_stop_rule core_persist])
    have t: "tame s5 ?s6" by (rule tame_trans [OF tame_stop_rule tame_persist])
    have same: "same_core (obj i s5) (obj i ?s6)" by (rule core_objD [OF core c(1)])
    show ?thesis
      by (rule pump_progress [OF _ D _ _ _ e])
        (use core t same c w in \<open>auto simp: core_eq_def same_core_def tame_def\<close>)
  qed
  have pausing: "\<not> threw \<and> moving i s'"
    if "pump D now i (persist_batch D now i (apply_stop_rule D now i (pause_batch D now i reason m (s4 bs wd)))) = (threw, s')"
    for reason m bs wd
  proof (rule tail [OF that])
    have core: "core_eq (s4 bs wd) (pause_batch D now i reason m (s4 bs wd))" by (rule core_pause)
    have i4: "i < length (objs (s4 bs wd))" using f4 i3 by simp
    have "same_core (obj i (s4 bs wd)) (obj i (pause_batch D now i reason m (s4 bs wd)))" by (rule core_objD [OF core i4])
    then show "i < length (objs (pause_batch D now i reason m (s4 bs wd)))"
      "\<not> stopping (pause_batch D now i reason m (s4 bs wd))"
      "1 \<le> b_concurrency (lb_batch (obj i (pause_batch D now i reason m (s4 bs wd))))"
      using core f4 i3 run3 conc conc3 by (simp_all add: core_eq_def same_core_def)
    show "lb_outstanding (obj i (pause_batch D now i reason m (s4 bs wd))) \<noteq> []"
      if "lb_waitForSettle (obj i (pause_batch D now i reason m (s4 bs wd)))"
      using that not_waiting [OF pause_tame i4 w4] by simp
  qed
  have waiting: "\<not> threw \<and> moving i s'"
    if "pump D now i (persist_batch D now i (apply_stop_rule D now i
        (set_obj i (\<lambda>lb. lb\<lparr>lb_waitForSettle := others_running lb\<rparr>) (s4 bs wd)))) = (threw, s')" for bs wd
    by (rule tail [OF that]) (use f4 [of bs wd] i3 run3 conc conc3 in \<open>auto simp: others_running_def set_obj_def list_ex_iff\<close>)
  have going: "\<not> threw \<and> moving i s'"
    if "pump D now i (persist_batch D now i (apply_stop_rule D now i (s4 bs wd))) = (threw, s')" for bs wd
    by (rule tail [OF that]) (use f4 [of bs wd] i3 run3 conc conc3 w4 in auto)
  have "\<not> threw \<and> moving i s'"
    using r kl run_k unfolding item_ended_def Let_def s1_def [symmetric] s2_def [symmetric] s3_def [symmetric] s4_def [symmetric]
    by (simp only: same1 split: if_splits) ((elim disjE conjE)?; (erule waiting | erule pausing | erule going | simp))+
  then show ?thesis by (simp add: moving_def)
qed

section \<open>A door to try it with\<close>

text \<open>Its state counts its requests, each of which starts a run; the failing one throws at its second.\<close>

definition demo_door :: "nat door" where
  "demo_door =
     \<lparr>door_request = (\<lambda>_ _ _ _ n. (Inr (BatchRunStartedT n), Suc n)),
      door_cancel = (\<lambda>_ _ _ n. (True, n)), door_withdraw = (\<lambda>_ _ _ n. (True, n)),
      door_settle_lost = (\<lambda>_ _ t n. (Inr t, n)), door_ticket = (\<lambda>_ _ _ _. None),
      door_spend = False, door_balance = (\<lambda>_ _. None), door_open = (\<lambda>_ n. (demo_hold, n)), door_release = (\<lambda>_ n. n),
      door_ledger = None, door_runId = (\<lambda>n. ''run_'' @ show_int (int n)), door_batchId = (\<lambda>_. ''batch_0123456789ab''),
      door_digest = id\<rparr>"

definition failing_door :: "nat door" where
  "failing_door = demo_door\<lparr>door_request := \<lambda>_ _ _ _ n. (if n = 1 then Inl WorkspaceRootMissing else Inr (BatchRunStartedT n), Suc n)\<rparr>"

definition demo_new_batch :: "int \<Rightarrow> new_batch" where
  "demo_new_batch n =
     \<lparr>nb_wsId = ''w1'', nb_ownerId = ''u1'', nb_taskId = ''digest'', nb_inputs = [JNull, JNull], nb_concurrency = n,
      nb_budgetUsd = Some 10, nb_stopWhen = None, nb_idempotencyKey = None, nb_createdBy = ''u1''\<rparr>"

text \<open>Two items, both running.\<close>

definition demo_driver :: "nat driver" where
  "demo_driver = snd (create_batch demo_door 1000 (demo_new_batch 2) (new_driver demo_batch_files 1))"

text \<open>A run refused by the batch's account, with nothing produced.\<close>

definition demo_refused_run :: task_run where
  "demo_refused_run = (blank_run ''run_0'' ''digest'' 1000 RunFailure)
     \<lparr>r_stopReason := Some StopSpendLimit, r_trigger := Some TriggerManual,
      r_spendAccountId := Some (batch_account_prefix @ ''w1/u1/batch_0123456789ab'')\<rparr>"

definition demo_waiting :: "nat driver" where
  "demo_waiting = snd (item_ended demo_door 2000 0 0 ''run_0'' demo_refused_run demo_driver)"

lemma demo_files_ok: "files_ok demo_batch_files"
  by (simp add: files_ok_def demo_batch_files_def lines_ok_def indexed_def entries_def)

lemma demo_driver_reachable: "batch_reachable demo_door demo_driver"
  unfolding demo_driver_def
  by (rule batch_reachable.step [OF batch_reachable.fresh [OF demo_files_ok] batch_step.created])

lemma demo_driver_value:
  "let s = demo_driver in length (objs s) = 1 \<and> \<not> stopping s \<and> asked_run 0 0 ''run_0'' s \<and>
     cnt_running (b_counts (lb_batch (obj 0 s))) = 2 \<and> b_concurrency (lb_batch (obj 0 s)) = 2"
  by code_simp

lemma demo_waiting_value:
  "let s = demo_waiting; lb = obj 0 s in b_state (lb_batch lb) = BatchRunning \<and> \<not> lb_retry lb \<and> lb_waitForSettle lb \<and>
     asked_run 0 1 ''run_1'' s"
  by code_simp

lemmas demo_values = demo_driver_value [unfolded Let_def] demo_waiting_value [unfolded Let_def]

lemma demo_answering: "answering demo_door"
  by (simp add: answering_def demo_door_def)


theorem ended_run_keeps_batch_moving_witness:
  "lb_outstanding (obj 0 demo_waiting) \<noteq> [] \<and> lb_waitForSettle (obj 0 demo_waiting) \<and>
   b_state (lb_batch (obj 0 demo_waiting)) = BatchRunning"
proof -
  obtain threw where e: "item_ended demo_door 2000 0 0 ''run_0'' demo_refused_run demo_driver = (threw, demo_waiting)"
    unfolding demo_waiting_def by (metis prod.collapse)
  have "\<not> stopping demo_driver" "asked_run 0 0 ''run_0'' demo_driver" "1 \<le> b_concurrency (lb_batch (obj 0 demo_driver))"
    using demo_values by simp_all
  from ended_run_keeps_batch_moving [OF demo_driver_reachable demo_answering this e] demo_values
  show ?thesis by simp
qed

text \<open>
  A batch that waits for a reservation is stranded when the last run it waits for is rejected: it runs, has
  items to run and nothing in flight, and neither the rejection nor the pump asks for another.
\<close>

theorem rejected_run_strands_batch:
  "\<exists>s. batch_reachable demo_door s \<and> asked_run 0 1 ''run_1'' s \<and>
     (let s' = snd (item_rejected demo_door 3000 0 1 ''run_1'' ''lost'' s); lb = obj 0 s' in
      b_state (lb_batch lb) = BatchRunning \<and> \<not> stopping s' \<and> lb_outstanding lb = [] \<and> \<not> lb_retry lb \<and>
      lb_pending lb = [0] \<and> cnt_pending (b_counts (lb_batch lb)) = 1 \<and> pump demo_door 4000 0 s' = (False, s'))"
proof -
  have r: "batch_reachable demo_door demo_waiting"
    unfolding demo_waiting_def using demo_values
    by (intro batch_reachable.step [OF demo_driver_reachable] batch_step.run_ended) simp
  define s' where "s' = snd (item_rejected demo_door 3000 0 1 ''run_1'' ''lost'' demo_waiting)"
  have "let lb = obj 0 s' in b_state (lb_batch lb) = BatchRunning \<and> \<not> stopping s' \<and> lb_outstanding lb = [] \<and>
      \<not> lb_retry lb \<and> lb_waitForSettle lb \<and> lb_pending lb = [0] \<and> cnt_pending (b_counts (lb_batch lb)) = 1"
    unfolding s'_def by code_simp
  then have v: "b_state (lb_batch (obj 0 s')) = BatchRunning" "\<not> stopping s'" "lb_outstanding (obj 0 s') = []"
    "\<not> lb_retry (obj 0 s')" "lb_waitForSettle (obj 0 s')" "lb_pending (obj 0 s') = [0]"
    "cnt_pending (b_counts (lb_batch (obj 0 s'))) = 1"
    by (simp_all add: Let_def)
  then have "pump demo_door 4000 0 s' = (False, s')" by (simp add: pump_def)
  then show ?thesis using r v demo_values
    unfolding Let_def s'_def by (intro exI [of _ demo_waiting]) simp
qed

text \<open>The batch on the failing door: its first run is asked for, the request of the second throws.\<close>

definition failing_driver :: "nat driver" where
  "failing_driver = snd (create_batch failing_door 1000 (demo_new_batch 2) (new_driver demo_batch_files 0))"

definition demo_good_run :: task_run where
  "demo_good_run = (blank_run ''run_0'' ''digest'' 1000 RunSuccess)\<lparr>r_trigger := Some TriggerManual\<rparr>"

text \<open>
  A request that throws loses its item: of a batch's two items, the request of the second throws as the batch is
  made, and when the first one's run ends the batch completes with the second still pending.
\<close>

theorem throwing_request_loses_item:
  "\<exists>s. batch_reachable failing_door s \<and> asked_run 0 0 ''run_0'' s \<and>
     (let s' = snd (item_ended failing_door 4000 0 0 ''run_0'' demo_good_run s) in
      b_state (lb_batch (obj 0 s')) = BatchCompleted \<and> map bi_state (lb_items (obj 0 s')) = [ItemDone, ItemPending])"
proof -
  have r: "batch_reachable failing_door failing_driver"
    unfolding failing_driver_def by (rule batch_reachable.step [OF batch_reachable.fresh [OF demo_files_ok] batch_step.created])
  have "let s = failing_driver; s' = snd (item_ended failing_door 4000 0 0 ''run_0'' demo_good_run s) in
      asked_run 0 0 ''run_0'' s \<and> b_state (lb_batch (obj 0 s')) = BatchCompleted \<and>
      map bi_state (lb_items (obj 0 s')) = [ItemDone, ItemPending]"
    by code_simp
  with r show ?thesis unfolding Let_def by (intro exI [of _ failing_driver] conjI) simp_all
qed

end
