(* ===== verification/Messages.thy ===== *)
theory Messages
  imports JsValues "HOL-Library.Word"
begin

text \<open>
  A model's messages and what they cost in tokens before they are sent
  (\<open>src/engine/token-estimate.ts\<close>): text by its length, an image by its pixels, read from the first bytes of a
  PNG, GIF, WebP or JPEG, other files by what is relayed of them, tool calls and results by their JSON.

  The provider SDK's message types are the datatypes below, with the fields the source reads. Bytes are
  integers from 0 to 255. The text of a number that is no integer in JSON is the parameter \<open>fr\<close>.
\<close>

unbundle bit_operations_syntax

section \<open>Messages\<close>

datatype file_data =
    FileBytes "int list"
  | FileBase64 string
  | FileUrl string
  | FileReference json
  | FileText string

record file_part =
  fp_mediaType :: string
  fp_filename :: "string option"
  fp_data :: file_data

datatype tool_content = ContentText string | ContentFile file_part | ContentOther

datatype tool_output =
    OutText string
  | OutErrorText string
  | OutJson json
  | OutErrorJson json
  | OutDenied "string option"
  | OutContent "tool_content list"
  | OutOther

datatype msg_part =
    TextPart string
  | FilePart file_part
  | ToolCallPart string string "json option"
  | ToolResultPart string string tool_output
  | ReasoningPart string
  | ResourceLink string "string option"
  | OtherPart string

datatype msg_role = RoleSystem | RoleUser | RoleAssistant | RoleTool

datatype msg_content = PlainText string | Parts "msg_part list"

text \<open>A stored message carries the time it was stored; one in flight does not.\<close>

record message =
  m_role :: msg_role
  m_content :: msg_content
  m_timestamp :: "string option"

section \<open>Constants\<close>

definition image_tokens_per_pixel_divisor :: int where "image_tokens_per_pixel_divisor = 750"
definition image_token_min :: int where "image_token_min = 800"
definition image_token_max :: int where "image_token_max = 1600"
definition image_token_fallback :: int where "image_token_fallback = 1300"
definition file_metadata_overhead_tokens :: int where "file_metadata_overhead_tokens = 50"
definition tool_call_overhead_tokens :: int where "tool_call_overhead_tokens = 50"

text \<open>\<open>Math.ceil(a / b)\<close> of integers.\<close>

definition ceil_div :: "int \<Rightarrow> int \<Rightarrow> int" where
  "ceil_div a b = - ((- a) div b)"

definition tokens_for_chars :: "nat \<Rightarrow> int" where
  "tokens_for_chars len = ceil_div (int len) 4"

definition tokens_for_text :: "string option \<Rightarrow> int" where
  "tokens_for_text t = (case t of None \<Rightarrow> 0 | Some s \<Rightarrow> if s = [] then 0 else tokens_for_chars (length s))"

section \<open>Image dimensions\<close>

type_synonym bytes = "int list"
type_synonym dimensions = "int \<times> int"

text \<open>\<open>data[i] === b\<close>; out of range it is \<open>undefined\<close>.\<close>

definition byte_is :: "bytes \<Rightarrow> nat \<Rightarrow> int \<Rightarrow> bool" where
  "byte_is d i b \<longleftrightarrow> i < length d \<and> d ! i = b"

definition bytes_are :: "bytes \<Rightarrow> nat \<Rightarrow> int list \<Rightarrow> bool" where
  "bytes_are d i bs \<longleftrightarrow> take (length bs) (drop i d) = bs"

definition uint16_be :: "bytes \<Rightarrow> nat \<Rightarrow> int" where
  "uint16_be d i = d ! i * 256 + d ! (i + 1)"

definition uint16_le :: "bytes \<Rightarrow> nat \<Rightarrow> int" where
  "uint16_le d i = d ! i + d ! (i + 1) * 256"

definition uint32_be :: "bytes \<Rightarrow> nat \<Rightarrow> int" where
  "uint32_be d i = uint16_be d i * 65536 + uint16_be d (i + 2)"

definition decode_png_dimensions :: "bytes \<Rightarrow> dimensions option" where
  "decode_png_dimensions d =
     (if bytes_are d 0 [0x89, 0x50, 0x4e, 0x47, 0x0d, 0x0a, 0x1a, 0x0a] \<and> 24 \<le> length d
      then Some (uint32_be d 16, uint32_be d 20) else None)"

definition decode_gif_dimensions :: "bytes \<Rightarrow> dimensions option" where
  "decode_gif_dimensions d =
     (if bytes_are d 0 [0x47, 0x49, 0x46] \<and> 10 \<le> length d
      then Some (uint16_le d 6, uint16_le d 8) else None)"

definition decode_webp_dimensions :: "bytes \<Rightarrow> dimensions option" where
  "decode_webp_dimensions d =
     (if \<not> (bytes_are d 0 [0x52, 0x49, 0x46, 0x46] \<and> bytes_are d 8 [0x57, 0x45, 0x42, 0x50] \<and> 30 \<le> length d) then None
      else if bytes_are d 12 [0x56, 0x50, 0x38, 0x20]
      then Some (uint16_le d 26 AND 0x3fff, uint16_le d 28 AND 0x3fff)
      else if bytes_are d 12 [0x56, 0x50, 0x38, 0x4c]
      then Some (1 + (push_bit 8 (d ! 22 AND 0x3f) OR d ! 21),
                 1 + (push_bit 10 (d ! 24 AND 0x0f) OR push_bit 2 (d ! 23) OR drop_bit 6 (d ! 22 AND 0xc0)))
      else if bytes_are d 12 [0x56, 0x50, 0x38, 0x58]
      then Some (1 + (d ! 24 OR push_bit 8 (d ! 25) OR push_bit 16 (d ! 26)),
                 1 + (d ! 27 OR push_bit 8 (d ! 28) OR push_bit 16 (d ! 29)))
      else None)"

definition is_sof_marker :: "int \<Rightarrow> bool" where
  "is_sof_marker m \<longleftrightarrow> 0xc0 \<le> m \<and> m \<le> 0xcf \<and> m \<noteq> 0xc4 \<and> m \<noteq> 0xc8 \<and> m \<noteq> 0xcc"

text \<open>The scan of a JPEG's segments. Every segment is at least its two marker bytes long.\<close>

function jpeg_scan :: "bytes \<Rightarrow> nat \<Rightarrow> dimensions option" where
  "jpeg_scan d offset =
     (if \<not> offset + 9 < length d then None
      else if d ! offset \<noteq> 0xff then None
      else if is_sof_marker (d ! (offset + 1)) then Some (uint16_be d (offset + 7), uint16_be d (offset + 5))
      else jpeg_scan d (offset + 2 + nat (push_bit 8 (d ! (offset + 2)) OR d ! (offset + 3))))"
  by pat_completeness auto

termination
  by (relation "measure (\<lambda>(d, offset). length d - offset)") auto

declare jpeg_scan.simps [simp del]

definition decode_jpeg_dimensions :: "bytes \<Rightarrow> dimensions option" where
  "decode_jpeg_dimensions d = (if byte_is d 0 0xff \<and> byte_is d 1 0xd8 then jpeg_scan d 2 else None)"

text \<open>\<open>a ?? b\<close> of two decoders.\<close>

definition or_else :: "'a option \<Rightarrow> 'a option \<Rightarrow> 'a option" where
  "or_else a b = (case a of None \<Rightarrow> b | Some _ \<Rightarrow> a)"

definition decode_image_dimensions :: "bytes \<Rightarrow> dimensions option" where
  "decode_image_dimensions d =
     (if length d < 12 then None
      else or_else (decode_png_dimensions d) (or_else (decode_gif_dimensions d)
             (or_else (decode_webp_dimensions d) (decode_jpeg_dimensions d))))"

section \<open>Tokens\<close>

definition image_tokens_from_dimensions :: "int \<Rightarrow> int \<Rightarrow> int" where
  "image_tokens_from_dimensions w h =
     (let raw = ceil_div (w * h) image_tokens_per_pixel_divisor in
      if raw < image_token_min then image_token_min
      else if raw > image_token_max then image_token_max else raw)"

definition is_image :: "string \<Rightarrow> bool" where
  "is_image mediaType \<longleftrightarrow> take 6 mediaType = ''image/''"

definition tokens_for_image_file_part :: "file_part \<Rightarrow> int" where
  "tokens_for_image_file_part p =
     (case fp_data p of
        FileBytes d \<Rightarrow>
          (case decode_image_dimensions d of
             Some (w, h) \<Rightarrow> if w > 0 \<and> h > 0 then image_tokens_from_dimensions w h else image_token_fallback
           | None \<Rightarrow> image_token_fallback)
      | _ \<Rightarrow> image_token_fallback)"

definition tokens_for_metadata :: "file_part \<Rightarrow> int" where
  "tokens_for_metadata p =
     tokens_for_chars (length (fp_mediaType p) + length (nullish (fp_filename p) [])) + file_metadata_overhead_tokens"

definition tokens_for_file_part :: "file_part \<Rightarrow> int" where
  "tokens_for_file_part p =
     (if is_image (fp_mediaType p) then tokens_for_image_file_part p else tokens_for_metadata p)"

definition tokens_for_tool_call :: "(rat \<Rightarrow> string) \<Rightarrow> string \<Rightarrow> json option \<Rightarrow> int" where
  "tokens_for_tool_call fr name inp =
     tokens_for_chars (length (case inp of None \<Rightarrow> ''{}'' | Some j \<Rightarrow> stringify fr j) + length name) + tool_call_overhead_tokens"

definition tokens_for_content_item :: "(rat \<Rightarrow> string) \<Rightarrow> tool_content \<Rightarrow> int" where
  "tokens_for_content_item fr x =
     (case x of
        ContentText t \<Rightarrow> tokens_for_text (Some t)
      | ContentFile p \<Rightarrow>
          (case fp_data p of
             FileBytes _ \<Rightarrow> if is_image (fp_mediaType p) then image_token_fallback else tokens_for_metadata p
           | FileBase64 _ \<Rightarrow> if is_image (fp_mediaType p) then image_token_fallback else tokens_for_metadata p
           | FileText t \<Rightarrow> tokens_for_text (Some t)
           | FileUrl u \<Rightarrow> tokens_for_chars (length u) + file_metadata_overhead_tokens
           | FileReference r \<Rightarrow> tokens_for_chars (length (stringify fr r)) + file_metadata_overhead_tokens)
      | ContentOther \<Rightarrow> 0)"

definition tokens_for_tool_result :: "(rat \<Rightarrow> string) \<Rightarrow> tool_output \<Rightarrow> int" where
  "tokens_for_tool_result fr out =
     (case out of
        OutText t \<Rightarrow> tokens_for_text (Some t)
      | OutErrorText t \<Rightarrow> tokens_for_text (Some t)
      | OutJson j \<Rightarrow> tokens_for_chars (length (stringify fr j))
      | OutErrorJson j \<Rightarrow> tokens_for_chars (length (stringify fr j))
      | OutDenied reason \<Rightarrow> tokens_for_text reason + 5
      | OutContent items \<Rightarrow> foldl (\<lambda>sum x. sum + tokens_for_content_item fr x) 0 items
      | OutOther \<Rightarrow> 0)"

definition tokens_for_part :: "(rat \<Rightarrow> string) \<Rightarrow> msg_part \<Rightarrow> int" where
  "tokens_for_part fr p =
     (case p of
        TextPart t \<Rightarrow> tokens_for_text (Some t)
      | FilePart f \<Rightarrow> tokens_for_file_part f
      | ToolCallPart _ name inp \<Rightarrow> tokens_for_tool_call fr name inp
      | ToolResultPart _ _ out \<Rightarrow> tokens_for_tool_result fr out
      | ReasoningPart t \<Rightarrow> tokens_for_text (Some t)
      | _ \<Rightarrow> 0)"

text \<open>A system message is its text; of another one the parts are walked.\<close>

definition estimate_message_tokens :: "(rat \<Rightarrow> string) \<Rightarrow> message \<Rightarrow> int" where
  "estimate_message_tokens fr m =
     (case m_content m of
        PlainText t \<Rightarrow> if m_role m = RoleSystem then tokens_for_text (Some t) else 0
      | Parts ps \<Rightarrow> foldl (\<lambda>sum p. sum + tokens_for_part fr p) 0 ps)"

record estimatable_tool =
  et_name :: "string option"
  et_description :: "string option"
  et_inputSchema :: "json option"

definition estimate_tool_description_tokens :: "(rat \<Rightarrow> string) \<Rightarrow> estimatable_tool \<Rightarrow> int" where
  "estimate_tool_description_tokens fr t =
     tokens_for_chars (length (nullish (et_name t) []) + 1 + length (nullish (et_description t) []) + 1 +
       length (stringify fr (nullish (et_inputSchema t) (JObj []))))"

section \<open>Bounds\<close>

lemma ceil_div_bounds:
  assumes "0 < b"
  shows "a \<le> ceil_div a b * b" "(ceil_div a b - 1) * b < a"
proof -
  have e: "- a = (- a) div b * b + (- a) mod b" by (rule div_mult_mod_eq [symmetric])
  have m: "0 \<le> (- a) mod b" "(- a) mod b < b" using assms by simp_all
  have c: "ceil_div a b * b = - ((- a) div b * b)" by (simp add: ceil_div_def)
  show "a \<le> ceil_div a b * b" using e m c by linarith
  have "(ceil_div a b - 1) * b = ceil_div a b * b - b" by (simp add: left_diff_distrib)
  then show "(ceil_div a b - 1) * b < a" using e m c by linarith
qed

lemma ceil_div_nonneg: "0 \<le> a \<Longrightarrow> 0 < b \<Longrightarrow> 0 \<le> ceil_div a b"
  using ceil_div_bounds(1) [of b a] by (metis linorder_not_less mult_neg_pos order_le_less_trans)

lemma tokens_for_chars_nonneg [simp]: "0 \<le> tokens_for_chars n"
  by (simp add: tokens_for_chars_def ceil_div_nonneg)

lemma tokens_for_text_nonneg [simp]: "0 \<le> tokens_for_text t"
  by (simp add: tokens_for_text_def split: option.split)

lemma image_tokens_bounds: "800 \<le> image_tokens_from_dimensions w h \<and> image_tokens_from_dimensions w h \<le> 1600"
  by (simp add: image_tokens_from_dimensions_def Let_def image_token_min_def image_token_max_def)

lemma tokens_for_image_bounds: "800 \<le> tokens_for_image_file_part p \<and> tokens_for_image_file_part p \<le> 1600"
  using image_tokens_bounds
  by (simp add: tokens_for_image_file_part_def image_token_fallback_def split: file_data.split option.split)

lemma foldl_plus: "foldl (\<lambda>sum x. sum + f x) (a :: int) xs = a + (\<Sum>x\<leftarrow>xs. f x)"
  by (induction xs arbitrary: a) simp_all

lemma tokens_for_content_nonneg: "0 \<le> tokens_for_content_item fr x"
  by (simp add: tokens_for_content_item_def tokens_for_metadata_def image_token_fallback_def
      file_metadata_overhead_tokens_def add_nonneg_nonneg split: tool_content.split file_data.split)

lemma tokens_for_part_nonneg: "0 \<le> tokens_for_part fr p"
proof (cases p)
  case (FilePart f)
  then show ?thesis
    using tokens_for_image_bounds [of f]
    by (simp add: tokens_for_part_def tokens_for_file_part_def tokens_for_metadata_def file_metadata_overhead_tokens_def)
next
  case (ToolResultPart i n out)
  then show ?thesis
    by (simp add: tokens_for_part_def tokens_for_tool_result_def foldl_plus sum_list_nonneg_int
        tokens_for_content_nonneg split: tool_output.split)
qed (simp_all add: tokens_for_part_def tokens_for_tool_call_def tool_call_overhead_tokens_def)

lemma estimate_nonneg [simp]: "0 \<le> estimate_message_tokens fr m"
  by (simp add: estimate_message_tokens_def foldl_plus sum_list_nonneg_int tokens_for_part_nonneg split: msg_content.split)

end
