(* ===== verification/Context_Window.thy ===== *)
theory Context_Window
  imports Messages
begin

text \<open>
  The sliding window over a conversation's messages (\<open>src/conversation/window.ts\<close>): messages are cut between
  groups, a tool-calling assistant message with the results that follow it, and the window keeps the first
  message, the last group, and as many groups before it as the budget has room for.
\<close>

section \<open>Groups\<close>

definition has_tool_use :: "message \<Rightarrow> bool" where
  "has_tool_use m =
     (case m_content m of PlainText _ \<Rightarrow> False
      | Parts ps \<Rightarrow> list_ex (\<lambda>p. case p of ToolCallPart _ _ _ \<Rightarrow> True | _ \<Rightarrow> False) ps)"

definition has_tool_result :: "message \<Rightarrow> bool" where
  "has_tool_result m =
     (case m_content m of PlainText _ \<Rightarrow> False
      | Parts ps \<Rightarrow> list_ex (\<lambda>p. case p of ToolResultPart _ _ _ \<Rightarrow> True | _ \<Rightarrow> False) ps)"

text \<open>A message of results, and one that calls tools.\<close>

definition is_result :: "message \<Rightarrow> bool" where
  "is_result m \<longleftrightarrow> m_role m = RoleTool \<and> has_tool_result m"

definition is_call :: "message \<Rightarrow> bool" where
  "is_call m \<longleftrightarrow> m_role m = RoleAssistant \<and> has_tool_use m"

function group_messages :: "message list \<Rightarrow> message list list" where
  "group_messages [] = []"
| "group_messages (m # ms) =
     (if is_call m \<and> ms \<noteq> [] \<and> is_result (hd ms)
      then (m # takeWhile is_result ms) # group_messages (dropWhile is_result ms)
      else [m] # group_messages ms)"
  by pat_completeness auto

termination
  by (relation "measure length") (auto simp: le_imp_less_Suc length_dropWhile_le)

text \<open>Reasoning is kept on replay, whatever the provider.\<close>

definition apply_reasoning_replay_policy :: "message list \<Rightarrow> string \<Rightarrow> message list" where
  "apply_reasoning_replay_policy ms provider = ms"

section \<open>The window\<close>

definition total_tokens :: "(message \<Rightarrow> int) \<Rightarrow> message list \<Rightarrow> int" where
  "total_tokens cost ms = foldl (\<lambda>sum m. sum + cost m) 0 ms"

text \<open>The walk back over the groups, given from the last one: what is kept, in order.\<close>

fun walk_back :: "(message \<Rightarrow> int) \<Rightarrow> int \<Rightarrow> message list list \<Rightarrow> message list list" where
  "walk_back cost budget [] = []"
| "walk_back cost budget (g # gs) =
     (if budget - total_tokens cost g < 0 then [] else walk_back cost (budget - total_tokens cost g) gs @ [g])"

definition window_by :: "(message \<Rightarrow> int) \<Rightarrow> message list \<Rightarrow> int \<Rightarrow> message list" where
  "window_by cost ms maxTokens =
     (if ms = [] then []
      else if total_tokens cost ms \<le> maxTokens then ms
      else if length ms \<le> 2 then ms
      else
        let first = hd ms; groups = group_messages (tl ms); lastGroup = last groups;
            budget = maxTokens - cost first - total_tokens cost lastGroup
        in [first] @ concat (walk_back cost budget (rev (butlast groups))) @ lastGroup)"

definition window_messages :: "(rat \<Rightarrow> string) \<Rightarrow> message list \<Rightarrow> int \<Rightarrow> message list" where
  "window_messages fr = window_by (estimate_message_tokens fr)"

section \<open>Groups cut a history without loss\<close>

lemma concat_groups [simp]: "concat (group_messages ms) = ms"
  by (induction ms rule: group_messages.induct) auto

lemma groups_nonempty: "g \<in> set (group_messages ms) \<Longrightarrow> g \<noteq> []"
  by (induction ms rule: group_messages.induct) (auto split: if_splits)

lemma groups_Nil [simp]: "group_messages ms = [] \<longleftrightarrow> ms = []"
  by (metis concat_groups concat.simps(1) group_messages.simps(1))

text \<open>Where no group opens on a result (no result lost its call), any cut between groups groups as before.\<close>

definition paired :: "message list \<Rightarrow> bool" where
  "paired ms \<longleftrightarrow> (\<forall>g \<in> set (group_messages ms). \<not> is_result (hd g))"

lemma paired_Cons: "\<not> (is_call m \<and> ms \<noteq> [] \<and> is_result (hd ms)) \<Longrightarrow> paired (m # ms) = (\<not> is_result m \<and> paired ms)"
  unfolding paired_def by auto

lemma group_drop: "group_messages ms = gs @ hs \<Longrightarrow> group_messages (concat hs) = hs"
proof (induction ms arbitrary: gs rule: group_messages.induct)
  case (2 m ms)
  show ?case
  proof (cases gs)
    case Nil
    then have "concat hs = m # ms" using 2(3) concat_groups [of "m # ms"] by simp
    then show ?thesis using 2(3) Nil by simp
  next
    case (Cons g gs')
    then show ?thesis using 2 by (auto split: if_splits)
  qed
qed simp

lemma paired_drop: "group_messages ms = gs @ hs \<Longrightarrow> paired ms \<Longrightarrow> paired (concat hs)"
  by (simp add: paired_def group_drop)

section \<open>What the window keeps\<close>

lemma total_tokens_sum: "total_tokens cost ms = (\<Sum>m\<leftarrow>ms. cost m)"
  by (simp add: total_tokens_def foldl_plus)

lemma total_tokens_simps [simp]: "total_tokens cost [] = 0" "total_tokens cost (m # ms) = cost m + total_tokens cost ms"
  "total_tokens cost (ms @ ns) = total_tokens cost ms + total_tokens cost ns"
  by (simp_all add: total_tokens_sum)

text \<open>The walk keeps the longest run of groups before the last that fits.\<close>

lemma walk_back_keeps:
  "0 \<le> budget \<Longrightarrow> \<exists>gs. rev groups = gs @ walk_back cost budget groups \<and>
     total_tokens cost (concat (walk_back cost budget groups)) \<le> budget \<and>
     (gs \<noteq> [] \<longrightarrow> budget < total_tokens cost (concat (last gs # walk_back cost budget groups)))"
proof (induction cost budget groups rule: walk_back.induct)
  case (2 cost budget g gs)
  show ?case
  proof (cases "budget - total_tokens cost g < 0")
    case True
    then show ?thesis using 2(2) by (intro exI [of _ "rev gs @ [g]"]) simp
  next
    case False
    then obtain hs where "rev gs = hs @ walk_back cost (budget - total_tokens cost g) gs"
      "total_tokens cost (concat (walk_back cost (budget - total_tokens cost g) gs)) \<le> budget - total_tokens cost g"
      "hs \<noteq> [] \<longrightarrow> budget - total_tokens cost g < total_tokens cost (concat (last hs # walk_back cost (budget - total_tokens cost g) gs))"
      using 2(1) by auto
    then show ?thesis using False by (intro exI [of _ hs]) auto
  qed
qed simp

lemma total_nonneg: "(\<And>m. 0 \<le> cost m) \<Longrightarrow> 0 \<le> total_tokens cost ms"
  by (simp add: total_tokens_sum sum_list_nonneg_int)

lemma walk_back_spent: "budget < 0 \<Longrightarrow> (\<And>m. 0 \<le> cost m) \<Longrightarrow> walk_back cost budget groups = []"
  using total_nonneg [of cost] by (cases groups) (simp_all add: order_less_le_trans)

lemma window_keeps_longest:
  assumes "2 < length ms" "maxTokens < total_tokens (estimate_message_tokens fr) ms"
  shows "\<exists>gs hs. group_messages (tl ms) = gs @ hs \<and> hs \<noteq> [] \<and>
    window_messages fr ms maxTokens = hd ms # concat hs \<and>
    (total_tokens (estimate_message_tokens fr) (window_messages fr ms maxTokens) \<le> maxTokens \<or> length hs = 1) \<and>
    (gs \<noteq> [] \<longrightarrow> maxTokens < total_tokens (estimate_message_tokens fr) (hd ms # concat (last gs # hs)))"
proof -
  let ?cost = "estimate_message_tokens fr"
  let ?groups = "group_messages (tl ms)"
  define budget where "budget = maxTokens - ?cost (hd ms) - total_tokens ?cost (last ?groups)"
  define kept where "kept = walk_back ?cost budget (rev (butlast ?groups))"
  have ne: "?groups \<noteq> []" using assms(1) by (cases ms) auto
  then have split: "?groups = butlast ?groups @ [last ?groups]" by simp
  have w: "window_messages fr ms maxTokens = hd ms # concat (kept @ [last ?groups])"
    using assms by (auto simp: window_messages_def window_by_def Let_def kept_def budget_def)
  show ?thesis
  proof (cases "0 \<le> budget")
    case True
    from walk_back_keeps [OF this, of "rev (butlast ?groups)" ?cost] obtain gs where
      gs: "butlast ?groups = gs @ kept" "total_tokens ?cost (concat kept) \<le> budget"
        "gs \<noteq> [] \<longrightarrow> budget < total_tokens ?cost (concat (last gs # kept))"
      by (auto simp: kept_def)
    have "?groups = gs @ kept @ [last ?groups]" using split gs(1) by simp
    then show ?thesis using w gs(2,3) unfolding budget_def
      by (intro exI [of _ gs] exI [of _ "kept @ [last ?groups]"]) auto
  next
    case False
    have "kept = []" unfolding kept_def by (rule walk_back_spent) (use False in simp_all)
    moreover have "0 \<le> total_tokens ?cost (last (butlast ?groups))" by (rule total_nonneg) simp
    ultimately show ?thesis using w split False unfolding budget_def
      by (intro exI [of _ "butlast ?groups"] exI [of _ "[last ?groups]"]) simp
  qed
qed

text \<open>
  C17. Over its budget a conversation of more than two messages is cut to its first message and the longest run of
  whole groups at its end that fits, never less than the last group: one more group would pass the budget.
\<close>

theorem window_keeps_longest_suffix:
  assumes "2 < length ms" "maxTokens < total_tokens (estimate_message_tokens fr) ms"
  shows "\<exists>gs hs. group_messages (tl ms) = gs @ hs \<and> hs \<noteq> [] \<and>
    window_messages fr ms maxTokens = hd ms # concat hs \<and>
    (total_tokens (estimate_message_tokens fr) (window_messages fr ms maxTokens) \<le> maxTokens \<or> length hs = 1) \<and>
    (gs \<noteq> [] \<longrightarrow> maxTokens < total_tokens (estimate_message_tokens fr) (hd ms # concat (last gs # hs)))"
  by (rule window_keeps_longest [OF assms])


section \<open>A conversation to try it with\<close>

definition demo_text :: "msg_role \<Rightarrow> nat \<Rightarrow> message" where
  "demo_text r n = \<lparr>m_role = r, m_content = Parts [TextPart (replicate n (CHR ''x''))], m_timestamp = Some ''2026-01-01T00:00:00.000Z''\<rparr>"

definition demo_tool_call :: message where
  "demo_tool_call = \<lparr>m_role = RoleAssistant, m_content = Parts [ToolCallPart ''c1'' ''files__read'' None], m_timestamp = None\<rparr>"

definition demo_tool_result :: "nat \<Rightarrow> message" where
  "demo_tool_result n = \<lparr>m_role = RoleTool,
     m_content = Parts [ToolResultPart ''c1'' ''files__read'' (OutText (replicate n (CHR ''x'')))], m_timestamp = None\<rparr>"

definition demo_conversation :: "message list" where
  "demo_conversation = [demo_text RoleUser 40, demo_tool_call, demo_tool_result 400, demo_text RoleUser 40, demo_text RoleAssistant 40]"

lemma demo_window: "window_messages (\<lambda>_. []) demo_conversation 40 = [demo_text RoleUser 40, demo_text RoleUser 40, demo_text RoleAssistant 40]"
  by code_simp

theorem window_keeps_longest_suffix_witness:
  "\<exists>gs hs. group_messages (tl demo_conversation) = gs @ hs \<and> hs \<noteq> [] \<and>
     window_messages (\<lambda>_. []) demo_conversation 40 = hd demo_conversation # concat hs"
proof -
  have "2 < length demo_conversation" "40 < total_tokens (estimate_message_tokens (\<lambda>_. [])) demo_conversation" by code_simp+
  from window_keeps_longest_suffix [OF this] show ?thesis by blast
qed


end
