(* ===== verification/Compaction.thy ===== *)
theory Compaction
  imports Context_Window Containment
begin

text \<open>
  History compaction (\<open>src/conversation/compaction.ts\<close>, \<open>escape-closing-tags.ts\<close>): when and where a
  conversation is folded into a summary, the transcript its summarizer reads, the operator's own messages kept
  beside the summary, and the messages that replay it.

  The summarizer is a parameter, from its transcript to an error or the text of its first text block. So are the
  JSON texts of the SDK's values that are not plain JSON here (\<open>json_texts\<close>). The ellipsis and the dash stand as
  in \<open>JsValues\<close>.
\<close>

section \<open>Escaping\<close>

text \<open>\<open>/<\s*\//g\<close> to \<open>&lt;/\<close>: after a \<open><\<close>, white space and the \<open>/\<close>, and what follows it.\<close>

fun after_slash :: "string \<Rightarrow> string option" where
  "after_slash [] = None"
| "after_slash (c # cs) = (if is_space c then after_slash cs else if c = CHR ''/'' then Some cs else None)"

lemma after_slash_shorter: "after_slash cs = Some rest \<Longrightarrow> length rest < length cs"
  by (induction cs) (auto split: if_splits)

function escape_closing_tags :: "string \<Rightarrow> string" where
  "escape_closing_tags [] = []"
| "escape_closing_tags (c # cs) =
     (case (if c = CHR ''<'' then after_slash cs else None) of
        Some rest \<Rightarrow> ''&lt;/'' @ escape_closing_tags rest
      | None \<Rightarrow> c # escape_closing_tags cs)"
  by pat_completeness auto

termination
  by (relation "measure length") (auto split: if_splits dest: after_slash_shorter)

section \<open>Planning\<close>

record json_texts =
  jt_num :: "rat \<Rightarrow> string"
  jt_content :: "message \<Rightarrow> string"
  jt_output :: "tool_output \<Rightarrow> string"

record compaction_options =
  co_budget :: int
  co_triggerRatio :: "rat option"
  co_keepRatio :: "rat option"
  co_minSummarizedMessages :: "nat option"
  co_summarizerContextTokens :: "int option"

definition default_trigger_ratio :: rat where "default_trigger_ratio = 7 / 10"
definition default_keep_ratio :: rat where "default_keep_ratio = 35 / 100"
definition default_min_summarized :: nat where "default_min_summarized = 4"

record compaction_plan =
  cp_shouldCompact :: bool
  cp_boundaryIndex :: nat
  cp_boundaryTs :: string

definition no_plan :: compaction_plan where
  "no_plan = \<lparr>cp_shouldCompact = False, cp_boundaryIndex = 0, cp_boundaryTs = []\<rparr>"

definition estimate_stored_tokens :: "json_texts \<Rightarrow> message \<Rightarrow> int" where
  "estimate_stored_tokens jt m =
     tokens_for_chars (length (case m_content m of PlainText t \<Rightarrow> t | Parts _ \<Rightarrow> jt_content jt m))"

definition estimate_messages_tokens :: "json_texts \<Rightarrow> message list \<Rightarrow> int" where
  "estimate_messages_tokens jt = total_tokens (estimate_stored_tokens jt)"

text \<open>The walk back from the end; the messages are given last first, \<open>place\<close> is the place after the next.\<close>

fun keep_walk :: "(message \<Rightarrow> int) \<Rightarrow> rat \<Rightarrow> int \<Rightarrow> nat \<Rightarrow> message list \<Rightarrow> nat" where
  "keep_walk cost target kept place [] = place"
| "keep_walk cost target kept place (m # ms) =
     (if of_int (kept + cost m) \<ge> target then place - 1 else keep_walk cost target (kept + cost m) (place - 1) ms)"

fun snap_to_user :: "message list \<Rightarrow> nat \<Rightarrow> nat" where
  "snap_to_user ms 0 = 0"
| "snap_to_user ms (Suc n) = (if m_role (ms ! Suc n) = RoleUser then Suc n else snap_to_user ms n)"

definition plan_compaction :: "json_texts \<Rightarrow> message list \<Rightarrow> compaction_options \<Rightarrow> compaction_plan" where
  "plan_compaction jt ms opts =
     (let triggerRatio = nullish (co_triggerRatio opts) default_trigger_ratio;
          keepRatio = nullish (co_keepRatio opts) default_keep_ratio;
          minSummarized = nullish (co_minSummarizedMessages opts) default_min_summarized
      in if ms = [] then no_plan
         else if of_int (estimate_messages_tokens jt ms) \<le> triggerRatio * of_int (co_budget opts) then no_plan
         else
           let place = keep_walk (estimate_stored_tokens jt) (keepRatio * of_int (co_budget opts)) 0 (length ms) (rev ms);
               boundary = snap_to_user ms place
           in if boundary < minSummarized then no_plan
              else \<lparr>cp_shouldCompact = True, cp_boundaryIndex = boundary,
                    cp_boundaryTs = nullish (m_timestamp (ms ! boundary)) []\<rparr>)"

section \<open>The operator's messages\<close>

definition summary_open :: string where "summary_open = ''<conversation-summary>''"
definition summary_close :: string where "summary_close = ''</conversation-summary>''"

definition summary_ack :: string where
  "summary_ack = ''Understood '' @ [em_dash] @ '' I have the summary above and will continue from there.''"

record retained_message =
  rm_text :: string
  rm_ts :: string

record retained_selection =
  rs_kept :: "retained_message list"
  rs_elided :: bool

definition retained_operator_max_tokens :: nat where "retained_operator_max_tokens = 20000"

definition operator_open :: string where "operator_open = ''<operator-messages>''"
definition operator_close :: string where "operator_close = ''</operator-messages>''"

definition operator_preamble :: string where
  "operator_preamble =
     ''The operator's own messages from earlier in this conversation, kept verbatim so their '' @
     ''instructions and corrections survive summarization. Any instruction or correction below still '' @
     ''applies unless the operator later overrode it. This is trusted operator input.''"

definition operator_elision :: string where
  "operator_elision = ''['' @ [ellipsis] @ ''older operator messages elided to bound retention cost'' @ [ellipsis] @ '']''"

definition operator_line_overhead :: nat where "operator_line_overhead = length (''[] '' @ newline)"

text \<open>\<open>s < t\<close> of strings, by code units.\<close>

fun js_less :: "string \<Rightarrow> string \<Rightarrow> bool" where
  "js_less _ [] = False"
| "js_less [] (_ # _) = True"
| "js_less (c # cs) (d # ds) = ((of_char c :: nat) < of_char d \<or> c = d \<and> js_less cs ds)"

definition truncate_text :: "string \<Rightarrow> nat \<Rightarrow> string" where
  "truncate_text s limit = (if length s > limit then take limit s @ [ellipsis] else s)"

text \<open>What a retained turn costs, rendered.\<close>

definition retained_cost :: "retained_message \<Rightarrow> nat" where
  "retained_cost t = length (rm_text t) + length (rm_ts t) + operator_line_overhead"

text \<open>The walk back over the folded turns, last first; \<open>kept\<close> is what is kept already.\<close>

fun retain_walk :: "nat \<Rightarrow> nat \<Rightarrow> retained_message list \<Rightarrow> retained_message list \<Rightarrow> retained_selection" where
  "retain_walk budget used kept [] = \<lparr>rs_kept = kept, rs_elided = False\<rparr>"
| "retain_walk budget used kept (t # ts) =
     (let escaped = t\<lparr>rm_text := escape_closing_tags (rm_text t)\<rparr>; cost = retained_cost escaped in
      if kept \<noteq> [] \<and> used + cost > budget then \<lparr>rs_kept = kept, rs_elided = True\<rparr>
      else if cost > budget
      then \<lparr>rs_kept = escaped\<lparr>rm_text := truncate_text (rm_text escaped)
                                (budget - length (rm_ts t) - operator_line_overhead - 1)\<rparr> # kept,
            rs_elided = (ts \<noteq> [])\<rparr>
      else retain_walk budget (used + cost) (escaped # kept) ts)"

definition select_retained_operator_messages ::
  "retained_message list \<Rightarrow> string \<Rightarrow> nat \<Rightarrow> retained_selection" where
  "select_retained_operator_messages turns boundaryTs maxTokens =
     retain_walk (maxTokens * 4) 0 []
       (rev (filter (\<lambda>t. js_less (rm_ts t) boundaryTs \<and> trim (rm_text t) \<noteq> []) turns))"

definition render_operator_messages :: "retained_selection \<Rightarrow> string" where
  "render_operator_messages sel =
     join newline ([operator_open, operator_preamble] @ (if rs_elided sel then [operator_elision] else []) @
       map (\<lambda>m. ''['' @ rm_ts m @ ''] '' @ escape_closing_tags (rm_text m)) (rs_kept sel) @ [operator_close])"

definition summary_section :: "string \<Rightarrow> string" where
  "summary_section summary = summary_open @ newline @ escape_closing_tags summary @ newline @ summary_close"

definition compaction_summary_messages :: "string \<Rightarrow> string \<Rightarrow> retained_selection option \<Rightarrow> message list" where
  "compaction_summary_messages summary ts retained =
     (let sections = summary_section summary #
            (case retained of Some sel \<Rightarrow> if rs_kept sel \<noteq> [] then [render_operator_messages sel] else [] | None \<Rightarrow> [])
      in [\<lparr>m_role = RoleUser, m_content = Parts [TextPart (join newline sections)], m_timestamp = Some ts\<rparr>,
          \<lparr>m_role = RoleAssistant, m_content = Parts [TextPart summary_ack], m_timestamp = Some ts\<rparr>])"

section \<open>The transcript\<close>

definition tool_arg_limit :: nat where "tool_arg_limit = 200"
definition tool_result_limit :: nat where "tool_result_limit = 400"

definition safe_stringify :: "json_texts \<Rightarrow> json option \<Rightarrow> string" where
  "safe_stringify jt v = (case v of None \<Rightarrow> [] | Some (JStr s) \<Rightarrow> s | Some j \<Rightarrow> stringify (jt_num jt) j)"

definition output_value :: "json_texts \<Rightarrow> tool_output \<Rightarrow> string" where
  "output_value jt out =
     (case out of
        OutText t \<Rightarrow> t | OutErrorText t \<Rightarrow> t
      | OutJson j \<Rightarrow> safe_stringify jt (Some j) | OutErrorJson j \<Rightarrow> safe_stringify jt (Some j)
      | _ \<Rightarrow> jt_output jt out)"

definition format_part :: "json_texts \<Rightarrow> msg_part \<Rightarrow> string" where
  "format_part jt p =
     (case p of
        TextPart t \<Rightarrow> t
      | ToolCallPart _ name inp \<Rightarrow>
          (let args = safe_stringify jt inp
           in ''[tool-call '' @ name @ (if args = [] then [] else ''('' @ truncate_text args tool_arg_limit @ '')'') @ '']'')
      | ToolResultPart _ name out \<Rightarrow>
          ''[tool-result'' @ (if name = [] then [] else '' '' @ name) @ '': '' @
          truncate_text (output_value jt out) tool_result_limit @ '']''
      | ResourceLink uri name \<Rightarrow> ''[file: '' @ nullish name uri @ '']''
      | FilePart _ \<Rightarrow> ''[file]''
      | ReasoningPart _ \<Rightarrow> ''[reasoning]''
      | OtherPart t \<Rightarrow> ''['' @ t @ '']'')"

definition summarizer_ctx_fallback_tokens :: int where "summarizer_ctx_fallback_tokens = 32000"
definition summary_max_output_tokens :: int where "summary_max_output_tokens = 8192"
definition summarizer_system_reserve_tokens :: int where "summarizer_system_reserve_tokens = 512"
definition summarizer_safety_margin_tokens :: int where "summarizer_safety_margin_tokens = 8192"
definition summarizer_estimate_deflate :: rat where "summarizer_estimate_deflate = 6 / 10"

definition transcript_elision_marker :: string where
  "transcript_elision_marker =
     ''['' @ [ellipsis] @ ''older history elided to fit the summarizer's context'' @ [ellipsis] @ '']''"

definition summarizer_transcript_budget_tokens :: "int option \<Rightarrow> int" where
  "summarizer_transcript_budget_tokens contextTokens =
     (let net = nullish contextTokens summarizer_ctx_fallback_tokens - summary_max_output_tokens -
                summarizer_system_reserve_tokens - summarizer_safety_margin_tokens
      in max 4000 \<lfloor>of_int net * summarizer_estimate_deflate\<rfloor>)"

record transcript_block =
  tb_role :: string
  tb_body :: string

definition role_text :: "msg_role \<Rightarrow> string" where
  "role_text r = (case r of RoleSystem \<Rightarrow> ''system'' | RoleUser \<Rightarrow> ''user'' | RoleAssistant \<Rightarrow> ''assistant'' | RoleTool \<Rightarrow> ''tool'')"

definition block_wrap_chars :: nat where
  "block_wrap_chars = length (''<>'' @ newline @ newline @ ''</>'' @ newline)"

definition block_chars :: "transcript_block \<Rightarrow> nat" where
  "block_chars b = length (tb_role b) * 2 + length (tb_body b) + block_wrap_chars"

text \<open>The walk back over the blocks, last first.\<close>

fun bound_walk :: "nat \<Rightarrow> nat \<Rightarrow> transcript_block list \<Rightarrow> transcript_block list \<Rightarrow> transcript_block list \<times> bool" where
  "bound_walk budget used kept [] = (kept, False)"
| "bound_walk budget used kept (b # bs) =
     (if kept \<noteq> [] \<and> used + block_chars b > budget then (kept, True)
      else
        let b' = (if block_chars b > budget
                  then b\<lparr>tb_body := truncate_text (tb_body b) (budget - (length (tb_role b) * 2 + block_wrap_chars))\<rparr> else b);
            cutOff = (block_chars b > budget \<and> bs \<noteq> []);
            used' = used + block_chars b'
        in if used' \<ge> budget \<and> bs \<noteq> [] then (b' # kept, True)
           else case bound_walk budget used' (b' # kept) bs of (out, elided) \<Rightarrow> (out, cutOff \<or> elided))"

definition bound_blocks :: "transcript_block list \<Rightarrow> nat \<Rightarrow> transcript_block list \<times> bool" where
  "bound_blocks blocks budgetTokens = bound_walk (budgetTokens * 4) 0 [] (rev blocks)"

definition block_of :: "json_texts \<Rightarrow> message \<Rightarrow> transcript_block" where
  "block_of jt m =
     \<lparr>tb_role = role_text (m_role m),
      tb_body = escape_closing_tags
        (case m_content m of PlainText t \<Rightarrow> t | Parts ps \<Rightarrow> join '' '' (map (format_part jt) ps))\<rparr>"

definition format_transcript :: "json_texts \<Rightarrow> message list \<Rightarrow> nat option \<Rightarrow> string" where
  "format_transcript jt ms budgetTokens =
     (let blocks = map (block_of jt) ms;
          (kept, elided) = (case budgetTokens of None \<Rightarrow> (blocks, False) | Some n \<Rightarrow> bound_blocks blocks n)
      in join newline ([''<conversation-transcript>''] @ (if elided then [transcript_elision_marker] else []) @
           concat (map (\<lambda>b. [''<'' @ tb_role b @ ''>'', tb_body b, ''</'' @ tb_role b @ ''>'']) kept) @
           [''</conversation-transcript>'']))"

section \<open>Folding\<close>

text \<open>What a fold fails with, and its outcome.\<close>

datatype summary_error = SummarizerFailed string | SummaryEmpty

type_synonym summarizer = "string \<Rightarrow> string + string option"

definition summarize_messages ::
  "json_texts \<Rightarrow> summarizer \<Rightarrow> int option \<Rightarrow> message list \<Rightarrow> summary_error + string" where
  "summarize_messages jt generate contextTokens ms =
     (case generate (format_transcript jt ms (Some (nat (summarizer_transcript_budget_tokens contextTokens)))) of
        Inl e \<Rightarrow> Inl (SummarizerFailed e)
      | Inr text \<Rightarrow> (let summary = trim (nullish text []) in if summary = [] then Inl SummaryEmpty else Inr summary))"

record compaction_outcome =
  oc_summary :: string
  oc_compactedThroughTs :: string
  oc_summarizedMessageCount :: nat

definition run_compaction ::
  "json_texts \<Rightarrow> summarizer \<Rightarrow> message list \<Rightarrow> compaction_options \<Rightarrow> summary_error + compaction_outcome option" where
  "run_compaction jt generate ms opts =
     (let plan = plan_compaction jt ms opts in
      if \<not> cp_shouldCompact plan then Inr None
      else case summarize_messages jt generate (co_summarizerContextTokens opts) (take (cp_boundaryIndex plan) ms) of
             Inl e \<Rightarrow> Inl e
           | Inr summary \<Rightarrow>
               Inr (Some \<lparr>oc_summary = summary, oc_compactedThroughTs = cp_boundaryTs plan,
                          oc_summarizedMessageCount = cp_boundaryIndex plan\<rparr>))"

text \<open>The messages to go on with, the event recorded, and the failure observed.\<close>

definition compact_conversation_messages ::
  "json_texts \<Rightarrow> summarizer \<Rightarrow> retained_message list \<Rightarrow> message list \<Rightarrow> compaction_options
    \<Rightarrow> message list \<times> compaction_outcome option \<times> summary_error option" where
  "compact_conversation_messages jt generate turns ms opts =
     (case run_compaction jt generate ms opts of
        Inl e \<Rightarrow> (ms, None, Some e)
      | Inr None \<Rightarrow> (ms, None, None)
      | Inr (Some outcome) \<Rightarrow>
          (let retained = select_retained_operator_messages turns (oc_compactedThroughTs outcome) retained_operator_max_tokens
           in (compaction_summary_messages (oc_summary outcome) (oc_compactedThroughTs outcome) (Some retained) @
                 drop (oc_summarizedMessageCount outcome) ms, Some outcome, None)))"

section \<open>Escaped text closes nothing\<close>

fun has_closing :: "string \<Rightarrow> bool" where
  "has_closing [] = False"
| "has_closing (c # cs) = (c = CHR ''<'' \<and> after_slash cs \<noteq> None \<or> has_closing cs)"

lemma space_marks [simp]: "\<not> is_space (CHR ''<'')" "\<not> is_space (CHR ''/'')" "\<not> is_space (CHR ''&'')" "is_space (CHR 0x0A)"
  by (simp_all add: is_space_def)

lemma escape_keeps_front: "after_slash cs = None \<Longrightarrow> after_slash (escape_closing_tags cs) = None"
  by (induction cs) (auto split: option.splits if_splits)

lemma escape_no_closing: "\<not> has_closing (escape_closing_tags s)"
proof (induction s rule: escape_closing_tags.induct)
  case (2 c cs)
  then show ?case using escape_keeps_front [of cs] by (auto split: option.split if_splits)
qed simp

lemma escape_id: "\<not> has_closing s \<Longrightarrow> escape_closing_tags s = s"
  by (induction s) auto

lemma escape_idem [simp]: "escape_closing_tags (escape_closing_tags s) = escape_closing_tags s"
  by (rule escape_id [OF escape_no_closing])

lemma after_slash_append: "after_slash xs \<noteq> None \<Longrightarrow> after_slash (xs @ ys) \<noteq> None"
  by (induction xs) (auto split: if_splits)

lemma after_slash_appendD: "after_slash (xs @ ys) \<noteq> None \<Longrightarrow> after_slash xs \<noteq> None \<or> after_slash ys \<noteq> None"
  by (induction xs) (auto split: if_splits)

text \<open>What is appended can only complete a closing form if it opens on white space and a slash.\<close>

lemma has_closing_prefix: "has_closing xs \<Longrightarrow> has_closing (xs @ ys)"
  using after_slash_append by (induction xs) fastforce+

lemma has_closing_append:
  "\<not> has_closing xs \<Longrightarrow> \<not> has_closing ys \<Longrightarrow> after_slash ys = None \<Longrightarrow> \<not> has_closing (xs @ ys)"
  using after_slash_appendD by (induction xs) fastforce+

lemma has_closing_truncate: "\<not> has_closing s \<Longrightarrow> \<not> has_closing (truncate_text s n)"
proof -
  assume s: "\<not> has_closing s"
  then have "\<not> has_closing (take n s)" using has_closing_prefix [of "take n s" "drop n s"] by auto
  moreover have "\<not> is_space ellipsis" "ellipsis \<noteq> CHR ''<''" "ellipsis \<noteq> CHR ''/''" by code_simp+
  ultimately have "\<not> has_closing (take n s @ [ellipsis])" by (intro has_closing_append) simp_all
  then show ?thesis using s by (simp add: truncate_text_def)
qed

text \<open>
  C0. A summary cannot close its fence: whatever the summarizer wrote, the first closing form in the section of the
  replay seed that carries the summary is the fence's own, at its end.
\<close>

theorem summary_fence_holds:
  "\<exists>body. summary_section summary = body @ summary_close \<and> \<not> has_closing body \<and>
     (\<exists>rest. body = summary_open @ newline @ rest)"
proof -
  let ?body = "summary_open @ newline @ escape_closing_tags summary @ newline"
  have "\<not> has_closing (escape_closing_tags summary @ newline)"
    by (rule has_closing_append [OF escape_no_closing]) (simp_all add: newline_eq)
  then have "\<not> has_closing ?body" by (simp add: summary_open_def newline_eq is_space_def)
  then show ?thesis by (auto simp: summary_section_def)
qed

section \<open>Where a conversation is folded\<close>

lemma snap_to_user_spec: "snap_to_user ms n \<le> n \<and> (snap_to_user ms n = 0 \<or> m_role (ms ! snap_to_user ms n) = RoleUser)"
  by (induction n) auto

lemma keep_walk_le: "keep_walk cost target kept n ms \<le> n"
  by (induction cost target kept n ms rule: keep_walk.induct) auto

lemma keep_walk_less: "ms \<noteq> [] \<Longrightarrow> 0 < n \<Longrightarrow> keep_walk cost target kept n ms < n"
  by (cases ms) (auto intro: le_less_trans [OF keep_walk_le])

lemma plan_boundary:
  assumes "cp_shouldCompact (plan_compaction jt ms opts)"
  defines "b \<equiv> cp_boundaryIndex (plan_compaction jt ms opts)"
  shows "b < length ms" "nullish (co_minSummarizedMessages opts) default_min_summarized \<le> b"
    "b = 0 \<or> m_role (ms ! b) = RoleUser" "cp_boundaryTs (plan_compaction jt ms opts) = nullish (m_timestamp (ms ! b)) []"
    "nullish (co_triggerRatio opts) default_trigger_ratio * of_int (co_budget opts) < of_int (estimate_messages_tokens jt ms)"
proof -
  let ?cut = "keep_walk (estimate_stored_tokens jt) (nullish (co_keepRatio opts) default_keep_ratio * of_int (co_budget opts))
      0 (length ms) (rev ms)"
  have ms: "ms \<noteq> []" using assms(1) by (auto simp: plan_compaction_def no_plan_def)
  have p: "plan_compaction jt ms opts = \<lparr>cp_shouldCompact = True, cp_boundaryIndex = snap_to_user ms ?cut,
      cp_boundaryTs = nullish (m_timestamp (ms ! snap_to_user ms ?cut)) []\<rparr> \<and>
    nullish (co_minSummarizedMessages opts) default_min_summarized \<le> snap_to_user ms ?cut \<and>
    nullish (co_triggerRatio opts) default_trigger_ratio * of_int (co_budget opts) < of_int (estimate_messages_tokens jt ms)"
    using assms(1) unfolding plan_compaction_def Let_def by (auto simp: no_plan_def split: if_splits)
  then have b: "b = snap_to_user ms ?cut" by (simp add: b_def)
  have "?cut < length ms" using ms by (intro keep_walk_less) simp_all
  then show "b < length ms" using snap_to_user_spec [of ms ?cut] b by simp
  show "nullish (co_minSummarizedMessages opts) default_min_summarized \<le> b"
    "b = 0 \<or> m_role (ms ! b) = RoleUser" "cp_boundaryTs (plan_compaction jt ms opts) = nullish (m_timestamp (ms ! b)) []"
    "nullish (co_triggerRatio opts) default_trigger_ratio * of_int (co_budget opts) < of_int (estimate_messages_tokens jt ms)"
    using p b snap_to_user_spec [of ms ?cut] by simp_all
qed

text \<open>
  C23. A fold is all or nothing. Either the conversation goes on unchanged, with no event recorded, or its oldest
  messages up to a user's turn are replaced by the summary seed, a user and an assistant message, and everything
  from that turn on is kept as it was; then at least the minimum of messages was folded, the history was over its
  trigger, and the event's boundary is that turn's timestamp.
\<close>

theorem fold_all_or_nothing:
  assumes "compact_conversation_messages jt generate turns ms opts = (out, event, failure)"
    and "0 < nullish (co_minSummarizedMessages opts) default_min_summarized"
  shows "(out = ms \<and> event = None) \<or>
    (\<exists>oc seed. event = Some oc \<and> failure = None \<and> out = seed @ drop (oc_summarizedMessageCount oc) ms \<and>
       map m_role seed = [RoleUser, RoleAssistant] \<and> oc_summary oc \<noteq> [] \<and>
       oc_summarizedMessageCount oc < length ms \<and> m_role (ms ! oc_summarizedMessageCount oc) = RoleUser \<and>
       nullish (co_minSummarizedMessages opts) default_min_summarized \<le> oc_summarizedMessageCount oc \<and>
       oc_compactedThroughTs oc = nullish (m_timestamp (ms ! oc_summarizedMessageCount oc)) [] \<and>
       nullish (co_triggerRatio opts) default_trigger_ratio * of_int (co_budget opts) < of_int (estimate_messages_tokens jt ms))"
proof (cases "run_compaction jt generate ms opts")
  case (Inl e)
  then show ?thesis using assms(1) by (simp add: compact_conversation_messages_def)
next
  case (Inr r)
  show ?thesis
  proof (cases r)
    case None
    then show ?thesis using assms(1) Inr by (simp add: compact_conversation_messages_def)
  next
    case (Some oc)
    let ?plan = "plan_compaction jt ms opts"
    have plan: "cp_shouldCompact ?plan" and oc: "oc_summarizedMessageCount oc = cp_boundaryIndex ?plan"
        "oc_compactedThroughTs oc = cp_boundaryTs ?plan" "oc_summary oc \<noteq> []"
      using Inr Some unfolding run_compaction_def summarize_messages_def Let_def
      by (auto split: if_splits sum.splits)
    note b = plan_boundary [OF plan]
    show ?thesis
      using assms Inr Some oc b
      by (auto simp: compact_conversation_messages_def compaction_summary_messages_def Let_def)
  qed
qed

section \<open>What is kept of the operator's messages\<close>

definition retained_chars :: "retained_message list \<Rightarrow> nat" where
  "retained_chars ts = (\<Sum>t\<leftarrow>ts. retained_cost t)"

lemma length_truncate: "length (truncate_text s n) \<le> max n (n + 1)"
  by (simp add: truncate_text_def)

text \<open>The invariant of the walk: what is kept so far is within the cap and closes nothing.\<close>

lemma retain_walk_spec:
  assumes "retained_chars kept = used" "used \<le> budget" "\<forall>m \<in> set kept. \<not> has_closing (rm_text m)"
    "\<forall>t \<in> set ts. length (rm_ts t) + operator_line_overhead < budget"
  defines "sel \<equiv> retain_walk budget used kept ts"
  shows "retained_chars (rs_kept sel) \<le> budget \<and> (\<forall>m \<in> set (rs_kept sel). \<not> has_closing (rm_text m)) \<and>
    (\<exists>old new. rev ts = old @ new \<and> map rm_ts (rs_kept sel) = map rm_ts new @ map rm_ts kept \<and> (rs_elided sel \<longleftrightarrow> old \<noteq> []) \<and>
      (kept = [] \<longrightarrow> ts \<noteq> [] \<longrightarrow> new \<noteq> []))"
  using assms(1-4) unfolding sel_def
proof (induction budget used kept ts rule: retain_walk.induct)
  case (1 budget used kept)
  then show ?case by simp
next
  case (2 budget used kept t ts)
  let ?e = "t\<lparr>rm_text := escape_closing_tags (rm_text t)\<rparr>"
  show ?case
  proof (cases "kept \<noteq> [] \<and> used + retained_cost ?e > budget")
    case True
    then show ?thesis using 2 by (simp add: Let_def)
  next
    case fits: False
    show ?thesis
    proof (cases "retained_cost ?e > budget")
      case True
      then have k: "kept = []" using fits by auto
      let ?n = "budget - length (rm_ts t) - operator_line_overhead - 1"
      let ?m = "?e\<lparr>rm_text := truncate_text (rm_text ?e) ?n\<rparr>"
      have m: "retained_cost ?m \<le> budget"
        using 2(5) by (auto simp: retained_cost_def truncate_text_def)
      have h: "\<not> has_closing (rm_text ?m)" by (simp add: has_closing_truncate escape_no_closing)
      have e: "retain_walk budget used kept (t # ts) = \<lparr>rs_kept = [?m], rs_elided = (ts \<noteq> [])\<rparr>"
        using True k by (simp add: Let_def)
      show ?thesis unfolding e using m h k
        by (intro conjI exI [of _ "rev ts"] exI [of _ "[t]"]) (simp_all add: retained_chars_def)
    next
      case False
      have e: "retain_walk budget used kept (t # ts) = retain_walk budget (used + retained_cost ?e) (?e # kept) ts"
        using fits False by (auto simp: Let_def)
      have "used + retained_cost ?e \<le> budget" using fits False 2(2) by (cases "kept = []") (auto simp: retained_chars_def)
      then obtain old new where
        "retained_chars (rs_kept (retain_walk budget used kept (t # ts))) \<le> budget"
        "\<forall>m \<in> set (rs_kept (retain_walk budget used kept (t # ts))). \<not> has_closing (rm_text m)"
        "rev ts = old @ new" "map rm_ts (rs_kept (retain_walk budget used kept (t # ts))) = map rm_ts new @ rm_ts t # map rm_ts kept"
        "rs_elided (retain_walk budget used kept (t # ts)) \<longleftrightarrow> old \<noteq> []"
        using 2(1) [OF refl refl fits False] 2(2-5) e by (auto simp: retained_chars_def escape_no_closing)
      then show ?thesis by (intro conjI exI [of _ old] exI [of _ "new @ [t]"]) auto
    qed
  qed
qed

text \<open>
  The operator's folded messages are kept newest first within their cap: those kept are the latest of the
  non-blank ones before the boundary, at least the last of them, together they cost no more than the cap, none of
  them closes a fence, and the selection says it elided exactly when an older one was left out.
\<close>

theorem retained_within_cap:
  fixes boundaryTs :: string
  assumes "\<forall>t \<in> set turns. length (rm_ts t) + 4 < maxTokens * 4"
  defines "sel \<equiv> select_retained_operator_messages turns boundaryTs maxTokens"
    and "folded \<equiv> filter (\<lambda>t. js_less (rm_ts t) boundaryTs \<and> trim (rm_text t) \<noteq> []) turns"
  shows "(\<Sum>t\<leftarrow>rs_kept sel. length (rm_text t) + length (rm_ts t) + 4) \<le> maxTokens * 4 \<and>
    (\<forall>m \<in> set (rs_kept sel). \<not> has_closing (rm_text m)) \<and>
    (\<exists>old new. folded = old @ new \<and> map rm_ts (rs_kept sel) = map rm_ts new \<and> (rs_elided sel \<longleftrightarrow> old \<noteq> []) \<and>
      (folded \<noteq> [] \<longrightarrow> new \<noteq> []))"
proof -
  have o: "operator_line_overhead = 4" by (simp add: operator_line_overhead_def newline_def)
  have "\<forall>t \<in> set (rev folded). length (rm_ts t) + operator_line_overhead < maxTokens * 4"
    using assms(1) by (auto simp: o folded_def)
  from retain_walk_spec [OF _ _ _ this, of "[]" 0]
  have "retained_chars (rs_kept sel) \<le> maxTokens * 4 \<and> (\<forall>m \<in> set (rs_kept sel). \<not> has_closing (rm_text m)) \<and>
    (\<exists>old new. folded = old @ new \<and> map rm_ts (rs_kept sel) = map rm_ts new \<and> (rs_elided sel \<longleftrightarrow> old \<noteq> []) \<and>
      (folded \<noteq> [] \<longrightarrow> new \<noteq> []))"
    by (simp add: sel_def select_retained_operator_messages_def folded_def [symmetric] retained_chars_def)
  moreover have "retained_chars (rs_kept sel) = (\<Sum>t\<leftarrow>rs_kept sel. length (rm_text t) + length (rm_ts t) + 4)"
    by (simp add: retained_chars_def retained_cost_def o)
  ultimately show ?thesis by (simp only:) simp
qed

section \<open>How long the transcript is\<close>

definition blocks_chars :: "transcript_block list \<Rightarrow> nat" where
  "blocks_chars bs = (\<Sum>b\<leftarrow>bs. block_chars b)"

lemma bound_walk_chars:
  assumes "blocks_chars kept = used" "used \<le> budget + 1" "\<forall>b \<in> set bs. length (tb_role b) * 2 + block_wrap_chars \<le> budget"
  shows "blocks_chars (fst (bound_walk budget used kept bs)) \<le> budget + 1"
  using assms
proof (induction budget used kept bs rule: bound_walk.induct)
  case (1 budget used kept)
  then show ?case by simp
next
  case (2 budget used kept b bs)
  let ?b = "if block_chars b > budget
      then b\<lparr>tb_body := truncate_text (tb_body b) (budget - (length (tb_role b) * 2 + block_wrap_chars))\<rparr> else b"
  show ?case
  proof (cases "kept \<noteq> [] \<and> used + block_chars b > budget")
    case True
    then show ?thesis using 2 by simp
  next
    case False
    have "block_chars ?b \<le> budget + 1"
      using 2(4) by (auto simp: block_chars_def truncate_text_def)
    moreover have "block_chars ?b \<le> budget \<or> kept = []" using False by auto
    ultimately have u: "used + block_chars ?b \<le> budget + 1"
      using False 2(2) by (cases "kept = []") (auto simp: blocks_chars_def split: if_splits)
    have c: "blocks_chars (?b # kept) = used + block_chars ?b" using 2(2) by (simp add: blocks_chars_def)
    show ?thesis
    proof (cases "used + block_chars ?b \<ge> budget \<and> bs \<noteq> []")
      case True
      then show ?thesis using u c unfolding bound_walk.simps if_not_P [OF False] Let_def by simp
    next
      case more: False
      have "blocks_chars (fst (bound_walk budget (used + block_chars ?b) (?b # kept) bs)) \<le> budget + 1"
        by (rule 2(1) [OF False refl refl refl more c u]) (use 2(4) in simp)
      then show ?thesis unfolding bound_walk.simps if_not_P [OF False] Let_def if_not_P [OF more] by (simp add: case_prod_beta)
    qed
  qed
qed

text \<open>
  C0. The transcript's blocks pass the summarizer's budget by one character at most, whatever the fold: a message
  larger than the whole budget is cut, not left out.
\<close>

theorem transcript_within_budget:
  assumes "\<forall>b \<in> set blocks. length (tb_role b) * 2 + 8 \<le> budgetTokens * 4"
  shows "(\<Sum>b\<leftarrow>fst (bound_blocks blocks budgetTokens). length (tb_role b) * 2 + length (tb_body b) + 8) \<le> budgetTokens * 4 + 1"
proof -
  have w: "block_wrap_chars = 8" by (simp add: block_wrap_chars_def newline_def)
  have "blocks_chars (fst (bound_blocks blocks budgetTokens)) \<le> budgetTokens * 4 + 1"
    unfolding bound_blocks_def by (rule bound_walk_chars) (use assms in \<open>auto simp: w blocks_chars_def\<close>)
  then show ?thesis by (simp add: blocks_chars_def block_chars_def w)
qed

text \<open>The character over the budget is the ellipsis of a message cut to what the budget leaves.\<close>

lemma transcript_passes_budget:
  "let b = \<lparr>tb_role = ''user'', tb_body = replicate 40 (CHR ''x'')\<rparr> in
     blocks_chars (fst (bound_blocks [b] 10)) = 10 * 4 + 1"
  by code_simp

section \<open>A fold to try it with\<close>

definition demo_texts :: json_texts where
  "demo_texts = \<lparr>jt_num = (\<lambda>_. []), jt_content = (\<lambda>m. case m_content m of PlainText t \<Rightarrow> t | Parts ps \<Rightarrow> join [] (map (format_part \<lparr>jt_num = (\<lambda>_. []), jt_content = (\<lambda>_. []), jt_output = (\<lambda>_. [])\<rparr>) ps)), jt_output = (\<lambda>_. [])\<rparr>"

definition demo_chat :: "message list" where
  "demo_chat = [demo_text RoleUser 8, demo_text RoleAssistant 8, demo_text RoleUser 8, demo_text RoleAssistant 8]"

definition demo_options :: compaction_options where
  "demo_options = \<lparr>co_budget = 4, co_triggerRatio = None, co_keepRatio = None, co_minSummarizedMessages = Some 1,
     co_summarizerContextTokens = None\<rparr>"

definition demo_turns :: "retained_message list" where
  "demo_turns = [\<lparr>rm_text = ''use </b> instead'', rm_ts = ''2025-01-01T00:00:00.000Z''\<rparr>]"


lemma demo_fold:
  "compact_conversation_messages demo_texts (\<lambda>_. Inr (Some ''a summary'')) demo_turns demo_chat demo_options =
     (compaction_summary_messages ''a summary'' ''2026-01-01T00:00:00.000Z''
        (Some (select_retained_operator_messages demo_turns ''2026-01-01T00:00:00.000Z'' retained_operator_max_tokens)) @ drop 2 demo_chat,
      Some \<lparr>oc_summary = ''a summary'', oc_compactedThroughTs = ''2026-01-01T00:00:00.000Z'', oc_summarizedMessageCount = 2\<rparr>, None)"
proof -
  have p: "plan_compaction demo_texts demo_chat demo_options =
      \<lparr>cp_shouldCompact = True, cp_boundaryIndex = 2, cp_boundaryTs = ''2026-01-01T00:00:00.000Z''\<rparr>" by code_simp
  have t: "trim ''a summary'' = ''a summary''" by code_simp
  show ?thesis
    by (simp add: compact_conversation_messages_def run_compaction_def summarize_messages_def p t Let_def)
qed

theorem fold_all_or_nothing_witness:
  "map m_role (fst (compact_conversation_messages demo_texts (\<lambda>_. Inr (Some ''a summary'')) demo_turns demo_chat demo_options)) =
     [RoleUser, RoleAssistant, RoleUser, RoleAssistant]"
proof -
  have d: "map m_role (drop 2 demo_chat) = [RoleUser, RoleAssistant]" by code_simp
  have "0 < nullish (co_minSummarizedMessages demo_options) default_min_summarized" by (simp add: demo_options_def)
  from fold_all_or_nothing [OF demo_fold this] d show ?thesis unfolding demo_fold by auto
qed

theorem retained_within_cap_witness:
  "let sel = select_retained_operator_messages demo_turns ''2026-01-01T00:00:00.000Z'' 20 in
     (\<Sum>t\<leftarrow>rs_kept sel. length (rm_text t) + length (rm_ts t) + 4) \<le> 80 \<and> map rm_text (rs_kept sel) = [''use &lt;/b> instead'']"
proof -
  have "\<forall>t \<in> set demo_turns. length (rm_ts t) + 4 < 20 * 4" by (simp add: demo_turns_def)
  from retained_within_cap [OF this, of "''2026-01-01T00:00:00.000Z''"]
  have "(\<Sum>t\<leftarrow>rs_kept (select_retained_operator_messages demo_turns ''2026-01-01T00:00:00.000Z'' 20).
      length (rm_text t) + length (rm_ts t) + 4) \<le> 80" by simp
  moreover have "map rm_text (rs_kept (select_retained_operator_messages demo_turns ''2026-01-01T00:00:00.000Z'' 20)) = [''use &lt;/b> instead'']"
    by code_simp
  ultimately show ?thesis by (simp add: Let_def)
qed

theorem transcript_within_budget_witness:
  "let bs = [\<lparr>tb_role = ''user'', tb_body = replicate 100 (CHR ''x'')\<rparr>, \<lparr>tb_role = ''tool'', tb_body = replicate 20 (CHR ''y'')\<rparr>] in
     (\<Sum>b\<leftarrow>fst (bound_blocks bs 10). length (tb_role b) * 2 + length (tb_body b) + 8) \<le> 41 \<and> length (fst (bound_blocks bs 10)) = 1"
proof -
  let ?bs = "[\<lparr>tb_role = ''user'', tb_body = replicate 100 (CHR ''x'')\<rparr>, \<lparr>tb_role = ''tool'', tb_body = replicate 20 (CHR ''y'')\<rparr>]"
  have "\<forall>b \<in> set ?bs. length (tb_role b) * 2 + 8 \<le> 10 * 4" by simp
  from transcript_within_budget [OF this] have "(\<Sum>b\<leftarrow>fst (bound_blocks ?bs 10). length (tb_role b) * 2 + length (tb_body b) + 8) \<le> 41" by simp
  moreover have "length (fst (bound_blocks ?bs 10)) = 1" by code_simp
  ultimately show ?thesis by (simp add: Let_def)
qed

end
