(* ===== verification/Context_Budget.thy ===== *)
theory Context_Budget
  imports Compaction
begin

text \<open>
  How much of a conversation a call may carry: the message budget of a call
  (\<open>src/runtime/resolve-message-budget.ts\<close>) and the fold of a history that outgrows it within one turn
  (\<open>src/runtime/mid-turn-compaction.ts\<close>). The model catalog is a parameter, from a model's id to its context
  window; the closure of a turn's fold policy is its one flag, passed along.
\<close>

section \<open>The budget of a call\<close>

definition min_budget_safety_margin_tokens :: int where "min_budget_safety_margin_tokens = 8192"
definition budget_safety_margin_ratio :: rat where "budget_safety_margin_ratio = 5 / 100"

definition budget_safety_margin_tokens :: "int \<Rightarrow> int" where
  "budget_safety_margin_tokens contextWindow =
     max min_budget_safety_margin_tokens \<lceil>of_int contextWindow * budget_safety_margin_ratio\<rceil>"

record message_budget_input =
  mb_model :: string
  mb_configMaxInputTokens :: int
  mb_systemPrompt :: string
  mb_tools :: "estimatable_tool list"
  mb_maxOutputTokens :: int
  mb_safetyMarginTokens :: "int option"

record budget_breakdown =
  bb_modelContextWindow :: "int option"
  bb_systemPromptTokens :: int
  bb_toolTokens :: int
  bb_maxOutputTokens :: int
  bb_safetyMarginTokens :: int
  bb_configMaxInputTokens :: int
  bb_boundedByModel :: bool

definition resolve_message_budget ::
  "(rat \<Rightarrow> string) \<Rightarrow> (string \<Rightarrow> int option) \<Rightarrow> message_budget_input \<Rightarrow> int \<times> budget_breakdown" where
  "resolve_message_budget fr context_of inp =
     (let ctx = context_of (mb_model inp);
          safety = nullish (mb_safetyMarginTokens inp) (budget_safety_margin_tokens (nullish ctx 0));
          systemTokens = ceil_div (int (length (mb_systemPrompt inp))) 4;
          toolTokens = foldl (\<lambda>sum t. sum + estimate_tool_description_tokens fr t) 0 (mb_tools inp);
          breakdown = (\<lambda>bounded. \<lparr>bb_modelContextWindow = ctx, bb_systemPromptTokens = systemTokens,
            bb_toolTokens = toolTokens, bb_maxOutputTokens = mb_maxOutputTokens inp, bb_safetyMarginTokens = safety,
            bb_configMaxInputTokens = mb_configMaxInputTokens inp, bb_boundedByModel = bounded\<rparr>)
      in case ctx of
           None \<Rightarrow> (mb_configMaxInputTokens inp, breakdown False)
         | Some window \<Rightarrow>
             (let headroom = window - systemTokens - toolTokens - mb_maxOutputTokens inp - safety in
              if headroom \<le> 0 then (0, breakdown True)
              else if headroom \<le> mb_configMaxInputTokens inp then (headroom, breakdown True)
              else (mb_configMaxInputTokens inp, breakdown False)))"

section \<open>The fold within a turn\<close>

definition mid_turn_trigger_ratio :: int where "mid_turn_trigger_ratio = 1"

text \<open>The walk back over the groups, last first.\<close>

fun group_walk :: "(message \<Rightarrow> int) \<Rightarrow> rat \<Rightarrow> int \<Rightarrow> nat \<Rightarrow> message list list \<Rightarrow> nat" where
  "group_walk cost target kept place [] = place"
| "group_walk cost target kept place (g # gs) =
     (if of_int (kept + total_tokens cost g) \<ge> target then place - length g
      else group_walk cost target (kept + total_tokens cost g) (place - length g) gs)"

definition is_tool :: "message \<Rightarrow> bool" where
  "is_tool m \<longleftrightarrow> m_role m = RoleTool"

definition plan_mid_turn_fold :: "(rat \<Rightarrow> string) \<Rightarrow> message list \<Rightarrow> int \<Rightarrow> nat option" where
  "plan_mid_turn_fold fr ms budget =
     (if total_tokens (estimate_message_tokens fr) ms \<le> mid_turn_trigger_ratio * budget then None
      else
        let place = group_walk (estimate_message_tokens fr) (default_keep_ratio * of_int budget) 0 (length ms)
                      (rev (group_messages ms));
            place' = place + length (takeWhile is_tool (drop place ms))
        in if place' < default_min_summarized then None else Some place')"

definition folded_history :: "string \<Rightarrow> message list \<Rightarrow> message list" where
  "folded_history summary tail =
     (let seed = compaction_summary_messages summary [] None;
          head = (if tail \<noteq> [] \<and> m_role (hd tail) = RoleUser then seed else take 1 seed)
      in map (\<lambda>m. m\<lparr>m_timestamp := None\<rparr>) head @ tail)"

text \<open>One asking of the policy: the new history if it folds, whether it has stopped, and whether it called the summarizer.\<close>

definition mid_turn_compaction ::
  "(rat \<Rightarrow> string) \<Rightarrow> int \<Rightarrow> (message list \<Rightarrow> string + string) \<Rightarrow> bool \<Rightarrow> message list
    \<Rightarrow> message list option \<times> bool" where
  "mid_turn_compaction fr budget summarize stopped ms =
     (if stopped then (None, True)
      else case plan_mid_turn_fold fr ms budget of
             None \<Rightarrow> (None, False)
           | Some place \<Rightarrow>
               (case summarize (take place ms) of
                  Inl _ \<Rightarrow> (None, True)
                | Inr summary \<Rightarrow>
                    (let folded = folded_history summary (drop place ms)
                     in (Some folded,
                         total_tokens (estimate_message_tokens fr) folded > mid_turn_trigger_ratio * budget))))"

section \<open>What the budget leaves room for\<close>

text \<open>
  With a known model the budget and everything else the call carries fit the model's window together, unless the
  rest alone passes it, when the budget is 0; and the budget never passes the configured cap.
\<close>

theorem budget_fits_window:
  assumes "resolve_message_budget fr context_of inp = (budget, b)" "0 \<le> mb_configMaxInputTokens inp"
  shows "0 \<le> budget \<and> budget \<le> mb_configMaxInputTokens inp \<and>
    (\<forall>window. context_of (mb_model inp) = Some window \<longrightarrow>
       (let rest = bb_systemPromptTokens b + bb_toolTokens b + bb_maxOutputTokens b + bb_safetyMarginTokens b in
        if window \<le> rest then budget = 0 else budget + rest \<le> window \<and>
          (bb_boundedByModel b \<longleftrightarrow> budget + rest = window)))"
  using assms unfolding resolve_message_budget_def Let_def by (auto split: option.splits if_splits)

section \<open>A fold keeps calls with their results\<close>

lemma group_walk_boundary:
  "group_messages ms = rev gs @ hs \<Longrightarrow> place + length (concat hs) = length ms \<Longrightarrow>
     \<exists>as bs. group_messages ms = as @ bs \<and> drop (group_walk cost target kept place gs) ms = concat bs"
proof (induction cost target kept place gs arbitrary: hs rule: group_walk.induct)
  case (1 cost target kept place)
  have "ms = concat hs" using 1(1) concat_groups [of ms] by simp
  then show ?case using 1 by auto
next
  case (2 cost target kept place g gs)
  have g: "group_messages ms = rev gs @ (g # hs)" using 2(2) by simp
  have l: "length ms = length (concat (rev gs)) + length g + length (concat hs)"
    using concat_groups [of ms] g by (metis concat.simps(2) concat_append length_append add.assoc)
  then have p: "place - length g + length (concat (g # hs)) = length ms" using 2(3) by simp
  show ?case
  proof (cases "of_int (kept + total_tokens cost g) \<ge> target")
    case True
    have "ms = concat (rev gs) @ concat (g # hs)" using concat_groups [of ms] g by (metis concat_append)
    moreover have "place - length g = length (concat (rev gs))" using p l by simp
    ultimately have "drop (place - length g) ms = concat (g # hs)" by (metis append_eq_conv_conj)
    then show ?thesis using True g by (intro exI [of _ "rev gs"] exI [of _ "g # hs"]) simp
  next
    case False
    then show ?thesis using 2(1) [OF False g p] by simp
  qed
qed

lemma skip_tools:
  "paired ms \<Longrightarrow> \<exists>as bs. group_messages ms = as @ bs \<and> dropWhile is_tool ms = concat bs"
proof (induction ms)
  case (Cons m ms)
  show ?case
  proof (cases "is_tool m")
    case True
    then have c: "\<not> is_call m" by (simp add: is_tool_def is_call_def)
    then have "paired ms" using Cons.prems paired_Cons [of m ms] by simp
    then obtain as bs where "group_messages ms = as @ bs" "dropWhile is_tool ms = concat bs" using Cons.IH by blast
    then show ?thesis using True c by (intro exI [of _ "[m] # as"] exI [of _ bs]) simp
  next
    case False
    then show ?thesis by (intro exI [of _ "[]"] exI [of _ "group_messages (m # ms)"]) (simp del: group_messages.simps)
  qed
qed simp

lemma paired_seed: "paired tail \<Longrightarrow> paired (folded_history summary tail)"
  by (auto simp: folded_history_def compaction_summary_messages_def Let_def paired_Cons is_call_def is_result_def has_tool_use_def)

lemma plan_boundary_group:
  assumes "plan_mid_turn_fold fr ms budget = Some place" "paired ms"
  shows "paired (drop place ms) \<and> default_min_summarized \<le> place \<and> (drop place ms = [] \<or> m_role (hd (drop place ms)) \<noteq> RoleTool)"
proof -
  let ?p = "group_walk (estimate_message_tokens fr) (default_keep_ratio * of_int budget) 0 (length ms) (rev (group_messages ms))"
  have place: "place = ?p + length (takeWhile is_tool (drop ?p ms))" "default_min_summarized \<le> place"
    using assms(1) by (auto simp: plan_mid_turn_fold_def Let_def split: if_splits)
  have d: "drop place ms = dropWhile is_tool (drop ?p ms)"
    by (simp add: place(1) dropWhile_eq_drop add.commute)
  obtain as bs where "group_messages ms = as @ bs" "drop ?p ms = concat bs"
    using group_walk_boundary [of ms "rev (group_messages ms)" "[]" "length ms"
        "estimate_message_tokens fr" "default_keep_ratio * of_int budget" 0] by fastforce
  then have "paired (drop ?p ms)" using paired_drop assms(2) by metis
  moreover obtain cs ds where "group_messages (drop ?p ms) = cs @ ds" "dropWhile is_tool (drop ?p ms) = concat ds"
    using skip_tools [OF calculation] by blast
  ultimately have "paired (drop place ms)" unfolding d using paired_drop by metis
  moreover have "drop place ms = [] \<or> \<not> is_tool (hd (drop place ms))" unfolding d using hd_dropWhile by blast
  ultimately show ?thesis using place(2) by (simp add: is_tool_def)
qed

text \<open>
  C20. A fold within a turn keeps every tool result with its call and replaces at least the minimum of messages; and
  where the policy goes on after it, the window sends the folded history whole, dropping nothing.
\<close>

theorem mid_turn_fold_spares_window:
  assumes "mid_turn_compaction fr budget summarize False ms = (Some folded, stopped)" "paired ms"
  shows "paired folded \<and> (\<exists>place seed. 4 \<le> place \<and> folded = seed @ drop place ms \<and> length seed \<le> 2) \<and>
    (\<not> stopped \<longrightarrow> window_messages fr folded budget = folded)"
proof -
  obtain place summary where p: "plan_mid_turn_fold fr ms budget = Some place"
    and f: "folded = folded_history summary (drop place ms)"
    and st: "stopped = (total_tokens (estimate_message_tokens fr) folded > mid_turn_trigger_ratio * budget)"
    using assms(1) by (auto simp: mid_turn_compaction_def Let_def split: option.splits sum.splits)
  note b = plan_boundary_group [OF p assms(2)]
  have "\<exists>seed. folded = seed @ drop place ms \<and> length seed \<le> 2"
    unfolding f folded_history_def Let_def by (auto simp: compaction_summary_messages_def Let_def)
  moreover have "\<not> stopped \<Longrightarrow> window_messages fr folded budget = folded"
    using st by (auto simp: window_messages_def window_by_def mid_turn_trigger_ratio_def)
  ultimately show ?thesis using b paired_seed f by (auto simp: default_min_summarized_def)
qed

section \<open>A turn to try it with\<close>

definition demo_turn :: "message list" where
  "demo_turn = [demo_text RoleUser 40, demo_text RoleAssistant 80, demo_tool_call, demo_tool_result 80, demo_tool_call, demo_tool_result 40]"

theorem budget_fits_window_witness:
  "fst (resolve_message_budget (\<lambda>_. []) (\<lambda>_. Some 200000)
     \<lparr>mb_model = ''m'', mb_configMaxInputTokens = 500000, mb_systemPrompt = replicate 40 (CHR ''x''), mb_tools = [],
      mb_maxOutputTokens = 8000, mb_safetyMarginTokens = None\<rparr>) = 181990"
proof -
  let ?i = "\<lparr>mb_model = ''m'', mb_configMaxInputTokens = 500000, mb_systemPrompt = replicate 40 (CHR ''x''), mb_tools = [],
      mb_maxOutputTokens = 8000, mb_safetyMarginTokens = None\<rparr>"
  obtain budget b where r: "resolve_message_budget (\<lambda>_. []) (\<lambda>_. Some 200000) ?i = (budget, b)" by fastforce
  have m: "budget_safety_margin_tokens 200000 = 10000" by code_simp
  have c: "ceil_div 40 4 = 10" by (simp add: ceil_div_def)
  have b: "bb_systemPromptTokens b = 10" "bb_toolTokens b = 0" "bb_maxOutputTokens b = 8000" "bb_safetyMarginTokens b = 10000" "bb_boundedByModel b"
    using r by (auto simp: resolve_message_budget_def Let_def m c)
  from budget_fits_window [OF r] b have "budget = 181990" by (simp add: Let_def)
  then show ?thesis using r by simp
qed

theorem mid_turn_fold_spares_window_witness:
  "\<exists>folded. mid_turn_compaction (\<lambda>_. []) 155 (\<lambda>_. Inr ''s'') False demo_turn = (Some folded, False) \<and>
     window_messages (\<lambda>_. []) folded 155 = folded \<and> paired folded"
proof -
  have e: "map_option length (fst (mid_turn_compaction (\<lambda>_. []) 155 (\<lambda>_. Inr ''s'') False demo_turn)) = Some 3"
    "snd (mid_turn_compaction (\<lambda>_. []) 155 (\<lambda>_. Inr ''s'') False demo_turn) = False" "paired demo_turn"
    by code_simp+
  obtain r st where r: "mid_turn_compaction (\<lambda>_. []) 155 (\<lambda>_. Inr ''s'') False demo_turn = (r, st)" by fastforce
  have "r \<noteq> None" "\<not> st" using e(1,2) unfolding r by auto
  then obtain folded where f: "mid_turn_compaction (\<lambda>_. []) 155 (\<lambda>_. Inr ''s'') False demo_turn = (Some folded, False)"
    using r by (cases r) simp_all
  from mid_turn_fold_spares_window [OF f e(3)] f show ?thesis by (intro exI [of _ folded]) simp
qed

end
