(* ===== verification/Tool_Results.thy ===== *)
theory Tool_Results
  imports JsValues "HOL-Library.Char_ord" "HOL-Library.List_Lexorder"
begin

text \<open>
  What a tool returns and what of it the model reads (\<open>src/engine/types.ts\<close>, \<open>src/engine/content-helpers.ts\<close>):
  the text of the blocks meant for the model, the links of the blocks that name resources, and the bound a
  result's text is held to before it enters a prompt.

  A content block is an object read field by field, as the source reads it. Lengths are code units.
\<close>

section \<open>Blocks and results\<close>

type_synonym content_block = "(string \<times> json) list"

record tool_call =
  tc_id :: string
  tc_name :: string
  tc_input :: json

record tool_result =
  tr_content :: "content_block list"
  tr_structured :: "json option"
  tr_isError :: bool
  tr_meta :: "(string \<times> json) list option"

definition non_advancing_meta_key :: string where
  "non_advancing_meta_key = ''ai.nimblebrain/non-advancing''"

definition infra_error_meta_key :: string where
  "infra_error_meta_key = ''ai.nimblebrain/infra-error''"

text \<open>\<open>result._meta?.[key] === true\<close>.\<close>

definition meta_true :: "tool_result \<Rightarrow> string \<Rightarrow> bool" where
  "meta_true r k = (case tr_meta r of None \<Rightarrow> False | Some m \<Rightarrow> jprop m k = Some (JBool True))"

fun str_of :: "json option \<Rightarrow> string option" where
  "str_of (Some (JStr s)) = Some s"
| "str_of _ = None"

record resource_link_info =
  rl_uri :: string
  rl_name :: "string option"
  rl_mimeType :: "string option"
  rl_description :: "string option"

definition link_of_block :: "content_block \<Rightarrow> resource_link_info option" where
  "link_of_block b =
     (if jprop b ''type'' \<noteq> Some (JStr ''resource_link'') then None
      else case str_of (jprop b ''uri'') of
        None \<Rightarrow> None
      | Some uri \<Rightarrow>
          if uri = [] then None
          else Some \<lparr> rl_uri = uri, rl_name = str_of (jprop b ''name''),
                      rl_mimeType = str_of (jprop b ''mimeType''), rl_description = str_of (jprop b ''description'') \<rparr>)"

definition extract_resource_links :: "content_block list \<Rightarrow> resource_link_info list" where
  "extract_resource_links bs = List.map_filter link_of_block bs"

definition text_content :: "string \<Rightarrow> content_block list" where
  "text_content t = [[(''type'', JStr ''text''), (''text'', JStr t)]]"

definition text_of_block :: "content_block \<Rightarrow> string option" where
  "text_of_block b = (if jprop b ''type'' = Some (JStr ''text'') then str_of (jprop b ''text'') else None)"

definition extract_text :: "content_block list \<Rightarrow> string" where
  "extract_text bs = join newline (List.map_filter text_of_block bs)"

text \<open>Whether a block is meant for the user alone: an audience that names the user and not the assistant.\<close>

definition is_user_only :: "content_block \<Rightarrow> bool" where
  "is_user_only b =
     (case jprop b ''annotations'' of
        Some (JObj fs) \<Rightarrow>
          (case jprop fs ''audience'' of
             Some (JArr js) \<Rightarrow> JStr ''user'' \<in> set js \<and> JStr ''assistant'' \<notin> set js
           | _ \<Rightarrow> False)
      | _ \<Rightarrow> False)"

definition extract_text_for_model :: "content_block list \<Rightarrow> string" where
  "extract_text_for_model bs = join newline (List.map_filter text_of_block (filter (\<lambda>b. \<not> is_user_only b) bs))"

section \<open>The bound on a result's text\<close>

definition max_tool_result_chars :: int where
  "max_tool_result_chars = 50000"

text \<open>The last index of a newline, or -1.\<close>

fun last_newline :: "string \<Rightarrow> int" where
  "last_newline [] = -1"
| "last_newline (c # cs) =
     (let r = last_newline cs in if 0 \<le> r then r + 1 else if [c] = newline then 0 else -1)"

definition slice_on_line_boundary :: "string \<Rightarrow> int \<Rightarrow> string" where
  "slice_on_line_boundary t limit =
     (if int (length t) \<le> limit then t
      else let s = take (nat limit) t; n = last_newline s
           in if limit < 2 * n then take (nat n) s else s)"

text \<open>\<open>toLocaleString("en-US")\<close> of a count: groups of three digits.\<close>

definition pad3 :: "nat \<Rightarrow> string" where
  "pad3 n = [digit_char (n div 100), digit_char (n div 10 mod 10), digit_char (n mod 10)]"

fun en_us :: "nat \<Rightarrow> string" where
  "en_us n = (if n < 1000 then show_nat n else en_us (n div 1000) @ '','' @ pad3 (n mod 1000))"

declare en_us.simps [simp del]

definition ui_pointer :: "nat \<Rightarrow> string" where
  "ui_pointer len =
     ''[Tool completed successfully. Result ('' @ en_us len @ '' chars) is '' @
     ''displayed in the inline UI. Do not ask the user to view it separately '' @ [em_dash] @ '' it is '' @
     ''already visible.]''"

definition bound_marker :: "nat \<Rightarrow> nat \<Rightarrow> nat \<Rightarrow> string" where
  "bound_marker len shown omitted =
     newline @ newline @ ''[Result bounded for model context: showing '' @ en_us shown @ '' of '' @
     en_us len @ '' chars ('' @ en_us omitted @ '' omitted). The full '' @
     ''result is on the user'' @ [CHR 39] @ ''s screen. Re-query with a filter, a narrower scope, or a '' @
     ''pagination cursor to bring specific items into context.]''"

definition bound_tool_result_for_model :: "string \<Rightarrow> bool \<Rightarrow> int option \<Rightarrow> string" where
  "bound_tool_result_for_model t has_ui_resource limit_opt =
     (let limit = nullish limit_opt max_tool_result_chars; len = length t in
      if limit \<le> 0 \<or> int len \<le> limit then t
      else if has_ui_resource then take (nat limit) (ui_pointer len)
      else let budget = limit - int (length (bound_marker len (nat limit) len)) in
           if budget \<le> 0 then take (nat limit) t
           else let head = slice_on_line_boundary t budget
                in head @ bound_marker len (length head) (len - length head))"

section \<open>What the bound guarantees\<close>

lemma length_show_nat_mono: "m \<le> n \<Longrightarrow> length (show_nat m) \<le> length (show_nat n)"
proof (induction n arbitrary: m rule: show_nat.induct)
  case (1 n)
  then show ?case
    by (subst show_nat.simps, subst (2) show_nat.simps) (auto intro: div_le_mono)
qed

lemma length_show_nat_less: "n < 1000 \<Longrightarrow> length (show_nat n) \<le> 3"
  by (subst show_nat.simps, subst show_nat.simps, subst show_nat.simps) auto

lemma length_en_us_mono: "m \<le> n \<Longrightarrow> length (en_us m) \<le> length (en_us n)"
proof (induction n arbitrary: m rule: en_us.induct)
  case (1 n)
  show ?case
  proof (cases "n < 1000")
    case True
    then show ?thesis using 1 by (simp add: en_us.simps length_show_nat_mono)
  next
    case n: False
    show ?thesis
    proof (cases "m < 1000")
      case True
      then show ?thesis using n length_show_nat_less [of m] by (subst (2) en_us.simps) (simp add: en_us.simps pad3_def)
    next
      case False
      have "length (en_us (m div 1000)) \<le> length (en_us (n div 1000))"
        using 1 n by (simp add: div_le_mono)
      then show ?thesis using n False by (subst en_us.simps, subst (2) en_us.simps) (simp add: pad3_def)
    qed
  qed
qed

lemma bound_marker_widest:
  "shown \<le> s \<Longrightarrow> omitted \<le> k \<Longrightarrow> length (bound_marker len shown omitted) \<le> length (bound_marker len s k)"
  using length_en_us_mono [of shown s] length_en_us_mono [of omitted k] by (simp add: bound_marker_def)

lemma slice_prefix: "prefix (slice_on_line_boundary t k) t"
  by (auto simp: slice_on_line_boundary_def Let_def take_is_prefix intro: prefix_order.trans)

lemma length_slice: "0 \<le> k \<Longrightarrow> int (length (slice_on_line_boundary t k)) \<le> k"
  by (auto simp: slice_on_line_boundary_def Let_def)

lemma bound_result_length:
  assumes "0 < nullish limit max_tool_result_chars"
  shows "int (length (bound_tool_result_for_model t ui limit)) \<le> nullish limit max_tool_result_chars"
proof -
  define l where "l = nullish limit max_tool_result_chars"
  define b where "b = l - int (length (bound_marker (length t) (nat l) (length t)))"
  define h where "h = slice_on_line_boundary t b"
  have l: "0 < l" using assms by (simp add: l_def)
  consider "int (length t) \<le> l" | "l < int (length t)" "ui" | "l < int (length t)" "\<not> ui" "b \<le> 0"
    | "l < int (length t)" "\<not> ui" "0 < b" by linarith
  then have "int (length (bound_tool_result_for_model t ui limit)) \<le> l"
  proof cases
    case 4
    have "int (length h) \<le> b" using 4 length_slice [of b t] by (simp add: h_def)
    moreover have "length (bound_marker (length t) (length h) (length t - length h))
        \<le> length (bound_marker (length t) (nat l) (length t))"
      using calculation by (intro bound_marker_widest) (simp_all add: b_def)
    moreover have "bound_tool_result_for_model t ui limit
        = h @ bound_marker (length t) (length h) (length t - length h)"
      using 4 l by (simp add: bound_tool_result_for_model_def Let_def l_def [symmetric] b_def [symmetric] h_def)
    ultimately show ?thesis by (simp add: b_def)
  qed (use l in \<open>simp_all add: bound_tool_result_for_model_def Let_def l_def [symmetric] b_def [symmetric]\<close>)
  then show ?thesis by (simp add: l_def)
qed

text \<open>
  A result's text that has been bounded passes every later bound that is no smaller, whatever its options,
  unchanged: the tool projection and an agent's own engine show the model the same text.
\<close>

theorem bounded_result_is_stable:
  assumes "nullish l1 max_tool_result_chars \<le> nullish l2 max_tool_result_chars"
    and "0 < nullish l1 max_tool_result_chars"
  shows "bound_tool_result_for_model (bound_tool_result_for_model t u1 l1) u2 l2 = bound_tool_result_for_model t u1 l1"
  using bound_result_length [of l1 t u1] assms by (simp add: bound_tool_result_for_model_def [of _ u2 l2] Let_def)

text \<open>
  With a limit above 0 a bounded result's text is never longer than the limit; it is the text itself, or the
  pointer to the panel that shows it, or the text's beginning followed by at most the marker that says how much
  was left out.
\<close>

theorem bounded_result_within_limit:
  fixes t :: string and ui :: bool
  assumes "0 < nullish limit max_tool_result_chars"
  defines "out \<equiv> bound_tool_result_for_model t ui limit"
  shows "int (length out) \<le> nullish limit max_tool_result_chars \<and>
    (prefix out (ui_pointer (length t)) \<or>
     (\<exists>h. prefix h t \<and> (out = h \<or> out = h @ bound_marker (length t) (length h) (length t - length h))))"
proof -
  define l where "l = nullish limit max_tool_result_chars"
  consider "out = t" | "out = take (nat l) (ui_pointer (length t))" | "out = take (nat l) t"
    | h where "prefix h t" "out = h @ bound_marker (length t) (length h) (length t - length h)"
    unfolding out_def bound_tool_result_for_model_def Let_def l_def by (metis slice_prefix)
  then have "prefix out (ui_pointer (length t)) \<or>
     (\<exists>h. prefix h t \<and> (out = h \<or> out = h @ bound_marker (length t) (length h) (length t - length h)))"
    using take_is_prefix [of "nat l" t] take_is_prefix [of "nat l" "ui_pointer (length t)"] by cases auto
  then show ?thesis using bound_result_length [OF assms(1)] by (simp add: out_def)
qed

text \<open>What the user alone may read is not in the model's text.\<close>

lemma extract_text_for_model_drop: "is_user_only b \<Longrightarrow> extract_text_for_model (xs @ b # ys) = extract_text_for_model (xs @ ys)"
  by (simp add: extract_text_for_model_def)

lemma extract_text_content [simp]: "extract_text_for_model (text_content t) = t"
  by (simp add: extract_text_for_model_def text_content_def is_user_only_def text_of_block_def jprop_def map_filter_simps)

theorem bounded_result_within_limit_witness:
  "int (length (bound_tool_result_for_model (replicate 400 (CHR ''a'')) False (Some 300))) \<le> 300"
  using bounded_result_within_limit [of "Some 300" "replicate 400 (CHR ''a'')" False] by simp

end
