(* ===== verification/Supervisor.thy ===== *)
theory Supervisor
  imports Tool_Results
begin

text \<open>
  The supervisor of a run's tool calls (\<open>src/engine/supervisor.ts\<close>): it watches a fingerprint of every result, trips a
  tool that makes no progress, lets a tripped tool recover through an advancing success, and refuses the one call a
  success trip was made of.

  The digest (SHA-1 in the source) is the parameter \<open>digest\<close>; \<open>fr\<close> writes a number that is no integer. The map from tool
  names to their state is an association list in insertion order.
\<close>

section \<open>Configuration and state\<close>

record supervisor_config =
  sc_maxConsecutiveRepeats :: "int option"
  sc_fingerprintTextCap :: "int option"
  sc_maxNonAdvancingCalls :: "int option"

definition default_max_repeats :: int where "default_max_repeats = 3"
definition default_fingerprint_cap :: int where "default_fingerprint_cap = 512"
definition default_max_non_advancing :: int where "default_max_non_advancing = 6"

record tool_state =
  ts_lastFingerprint :: "string option"
  ts_consecutiveRepeats :: int
  ts_totalCalls :: int
  ts_nonAdvancingCalls :: int
  ts_tripped :: bool
  ts_trippedContent :: "string option"
  ts_trippedRepeats :: "int option"
  ts_trippedInput :: "string option"

datatype verdict =
    VPass
  | VSynth (v_replacement: tool_result) (v_trippedTool: string) (v_repeats: int)

type_synonym supervisor = "(string \<times> tool_state) list"

text \<open>What the closure of \<open>createRunSupervisor\<close> holds besides the states, and the functions it calls.\<close>

record watcher =
  w_digest :: "string \<Rightarrow> string"
  w_fr :: "rat \<Rightarrow> string"
  w_maxRepeats :: int
  w_textCap :: int
  w_maxNonAdvancing :: int

definition create_run_supervisor :: "(string \<Rightarrow> string) \<Rightarrow> (rat \<Rightarrow> string) \<Rightarrow> supervisor_config \<Rightarrow> watcher" where
  "create_run_supervisor digest fr c =
     \<lparr> w_digest = digest, w_fr = fr,
       w_maxRepeats = nullish (sc_maxConsecutiveRepeats c) default_max_repeats,
       w_textCap = nullish (sc_fingerprintTextCap c) default_fingerprint_cap,
       w_maxNonAdvancing = nullish (sc_maxNonAdvancingCalls c) default_max_non_advancing \<rparr>"

section \<open>Inputs compared\<close>

text \<open>\<open>value.toLowerCase().replace(/\s+/g, " ").trim()\<close>.\<close>

fun squeeze :: "bool \<Rightarrow> string \<Rightarrow> string" where
  "squeeze in_run [] = []"
| "squeeze in_run (c # cs) =
     (if is_space c then (if in_run then squeeze True cs else CHR '' '' # squeeze True cs)
      else c # squeeze False cs)"

fun normalize_for_repeat :: "json \<Rightarrow> json" where
  "normalize_for_repeat (JStr s) = JStr (trim (squeeze False (to_lower s)))"
| "normalize_for_repeat (JArr js) = JArr (map normalize_for_repeat js)"
| "normalize_for_repeat (JObj fs) = JObj (map (\<lambda>(k, v). (k, normalize_for_repeat v)) fs)"
| "normalize_for_repeat v = v"

lemma size_entry: "(k, v) \<in> set fs \<Longrightarrow> size (v :: json) < Suc (size_list (size_prod (\<lambda>x. 0) size) fs)"
  by (induction fs) auto

text \<open>JSON with the keys of every object in order. Tool inputs are JSON values: nothing in them is \<open>undefined\<close>.\<close>

function canonical_json :: "(rat \<Rightarrow> string) \<Rightarrow> json \<Rightarrow> string" where
  "canonical_json fr JNull = stringify fr JNull"
| "canonical_json fr (JBool b) = stringify fr (JBool b)"
| "canonical_json fr (JNum r) = stringify fr (JNum r)"
| "canonical_json fr (JStr s) = stringify fr (JStr s)"
| "canonical_json fr (JArr js) = ''['' @ join '','' (map (canonical_json fr) js) @ '']''"
| "canonical_json fr (JObj fs) =
     ''{'' @ join '','' (map (\<lambda>(k, v). quote k @ '':'' @ canonical_json fr v) (sort_key fst fs)) @ ''}''"
  by pat_completeness auto

termination
  by (relation "measure (size \<circ> snd)") (auto dest: size_entry simp: less_Suc_eq_le size_list_estimation')

section \<open>Fingerprints\<close>

definition is_advancing_success :: "tool_result \<Rightarrow> bool" where
  "is_advancing_success r \<longleftrightarrow>
     \<not> tr_isError r \<and> \<not> meta_true r infra_error_meta_key \<and> \<not> meta_true r non_advancing_meta_key"

definition model_text :: "watcher \<Rightarrow> tool_result \<Rightarrow> string" where
  "model_text w r = take (nat (w_textCap w)) (trim (extract_text_for_model (tr_content r)))"

definition content_hash :: "watcher \<Rightarrow> tool_result \<Rightarrow> string" where
  "content_hash w r = w_digest w (model_text w r)"

definition nul :: string where "nul = [CHR 0x00]"

definition fingerprint_text :: "watcher \<Rightarrow> tool_call \<Rightarrow> tool_result \<Rightarrow> string" where
  "fingerprint_text w c r =
     (if meta_true r non_advancing_meta_key
      then tc_name c @ nul @ ''NONADVANCING'' @ nul @ canonical_json (w_fr w) (normalize_for_repeat (tc_input c))
      else tc_name c @ nul @ (if tr_isError r then ''E'' else ''S'') @ nul @ model_text w r @ nul @
           (if tr_isError r then '''' else canonical_json (w_fr w) (tc_input c)))"

definition fingerprint :: "watcher \<Rightarrow> tool_call \<Rightarrow> tool_result \<Rightarrow> string" where
  "fingerprint w c r = w_digest w (fingerprint_text w c r)"

section \<open>What the model reads in place of a result\<close>

definition tick :: string where "tick = [CHR 0x60]"

definition others_remain :: string where
  "others_remain = ''Other tools remain available. Consider an alternative approach or summarize current findings '' @
     ''if no path forward exists.''"

definition synth_replacement :: "string \<Rightarrow> string \<Rightarrow> int \<Rightarrow> tool_result" where
  "synth_replacement tool original repeats =
     \<lparr> tr_content = text_content
         (''[NB supervisor] Tool '' @ tick @ tool @ tick @ '' made no progress '' @ show_int repeats @ '' times in a row '' @
          ''and has been disabled.'' @ newline @ newline @
          ''Underlying output (last call):'' @ newline @ original @ newline @ newline @ others_remain),
       tr_structured = None, tr_isError = True, tr_meta = None \<rparr>"

definition probation_replacement :: "string \<Rightarrow> tool_result \<Rightarrow> string \<Rightarrow> int \<Rightarrow> tool_result" where
  "probation_replacement tool r original repeats =
     \<lparr> tr_content = text_content
         (''[NB supervisor] This call to '' @ tick @ tool @ tick @ '' made no progress, so the tool was still withheld '' @
          ''after it (it had made no progress '' @ show_int repeats @ '' times in a row earlier in this run).'' @ newline @ newline @
          ''Underlying output (this call):'' @ newline @ original @ newline @ newline @ others_remain),
       tr_structured = None, tr_isError = tr_isError r, tr_meta = None \<rparr>"

definition refusal_result :: "string \<Rightarrow> int option \<Rightarrow> tool_result" where
  "refusal_result tool repeats =
     \<lparr> tr_content = text_content
         (''[NB supervisor] This call to '' @ tick @ tool @ tick @ '' was not run. The identical call (same tool, '' @
          ''same input) already ran and returned the same result '' @
          (case repeats of None \<Rightarrow> ''null'' | Some n \<Rightarrow> show_int n) @ '' times in a '' @
          ''row in this run, so it is not run again in this run, even if its answer could have '' @
          ''changed since. A call with different input is not refused.'' @ newline @ newline @ others_remain),
       tr_structured = None, tr_isError = True, tr_meta = None \<rparr>"

section \<open>Operations\<close>

definition fresh_state :: tool_state where
  "fresh_state = \<lparr> ts_lastFingerprint = None, ts_consecutiveRepeats = 0, ts_totalCalls = 0, ts_nonAdvancingCalls = 0,
     ts_tripped = False, ts_trippedContent = None, ts_trippedRepeats = None, ts_trippedInput = None \<rparr>"

definition get_state :: "supervisor \<Rightarrow> string \<Rightarrow> tool_state" where
  "get_state s t = nullish (map_of s t) fresh_state"

definition tripped_at :: "watcher \<Rightarrow> tool_state \<Rightarrow> int option" where
  "tripped_at w st =
     (if w_maxRepeats w \<le> ts_consecutiveRepeats st then Some (ts_consecutiveRepeats st)
      else if w_maxNonAdvancing w \<le> ts_nonAdvancingCalls st then Some (ts_nonAdvancingCalls st)
      else None)"

definition record_observation :: "watcher \<Rightarrow> tool_call \<Rightarrow> tool_result \<Rightarrow> tool_state \<Rightarrow> tool_state" where
  "record_observation w c r st =
     (let st1 = (if meta_true r non_advancing_meta_key
                 then st\<lparr> ts_nonAdvancingCalls := ts_nonAdvancingCalls st + 1 \<rparr>
                 else if is_advancing_success r then st\<lparr> ts_nonAdvancingCalls := 0 \<rparr> else st);
          fp = fingerprint w c r
      in if ts_lastFingerprint st1 = Some fp
         then st1\<lparr> ts_consecutiveRepeats := ts_consecutiveRepeats st1 + 1 \<rparr>
         else st1\<lparr> ts_consecutiveRepeats := 1, ts_lastFingerprint := Some fp \<rparr>)"

text \<open>\<open>observe\<close> on the state of the call's tool.\<close>

definition observe_state :: "watcher \<Rightarrow> tool_call \<Rightarrow> tool_result \<Rightarrow> tool_state \<Rightarrow> verdict \<times> tool_state" where
  "observe_state w c r st0 =
     (let st = st0\<lparr> ts_totalCalls := ts_totalCalls st0 + 1 \<rparr>;
          original = trim (extract_text_for_model (tr_content r))
      in if ts_tripped st then
           (if is_advancing_success r \<and> Some (content_hash w r) \<noteq> ts_trippedContent st
            then (VPass, st\<lparr> ts_tripped := False, ts_trippedContent := None, ts_trippedRepeats := None,
                            ts_trippedInput := None, ts_consecutiveRepeats := 1, ts_nonAdvancingCalls := 0,
                            ts_lastFingerprint := Some (fingerprint w c r) \<rparr>)
            else let repeats = nullish (ts_trippedRepeats st) (ts_consecutiveRepeats st)
                 in (VSynth (probation_replacement (tc_name c) r original repeats) (tc_name c) repeats, st))
         else if meta_true r infra_error_meta_key then (VPass, st)
         else let st1 = record_observation w c r st
              in case tripped_at w st1 of
                   None \<Rightarrow> (VPass, st1)
                 | Some repeats \<Rightarrow>
                     (VSynth (synth_replacement (tc_name c) original repeats) (tc_name c) repeats,
                      st1\<lparr> ts_tripped := True, ts_trippedContent := Some (content_hash w r),
                           ts_trippedRepeats := Some repeats,
                           ts_trippedInput := (if is_advancing_success r
                                               then Some (canonical_json (w_fr w) (tc_input c)) else None) \<rparr>))"

definition observe :: "watcher \<Rightarrow> tool_call \<Rightarrow> tool_result \<Rightarrow> supervisor \<Rightarrow> verdict \<times> supervisor" where
  "observe w c r s =
     (let (v, st) = observe_state w c r (get_state s (tc_name c)) in (v, jset (tc_name c) st s))"

definition repeat_refusal :: "watcher \<Rightarrow> tool_call \<Rightarrow> supervisor \<Rightarrow> tool_result option" where
  "repeat_refusal w c s =
     (case map_of s (tc_name c) of
        None \<Rightarrow> None
      | Some st \<Rightarrow>
          if \<not> ts_tripped st \<or> ts_trippedInput st = None then None
          else if Some (canonical_json (w_fr w) (tc_input c)) \<noteq> ts_trippedInput st then None
          else Some (refusal_result (tc_name c) (ts_trippedRepeats st)))"

record supervisor_snapshot =
  ss_trippedTools :: "string list"
  ss_callCounts :: "(string \<times> int) list"

definition snapshot :: "supervisor \<Rightarrow> supervisor_snapshot" where
  "snapshot s = \<lparr> ss_trippedTools = map fst (filter (\<lambda>(t, st). ts_tripped st) s),
                  ss_callCounts = map (\<lambda>(t, st). (t, ts_totalCalls st)) s \<rparr>"

section \<open>Runs\<close>

type_synonym observation = "tool_call \<times> tool_result"

definition observe_all :: "watcher \<Rightarrow> supervisor \<Rightarrow> observation list \<Rightarrow> supervisor" where
  "observe_all w s evs = foldl (\<lambda>s (c, r). snd (observe w c r s)) s evs"

definition of_tool :: "string \<Rightarrow> observation list \<Rightarrow> observation list" where
  "of_tool t evs = filter (\<lambda>(c, r). tc_name c = t) evs"

definition state_after :: "watcher \<Rightarrow> tool_state \<Rightarrow> observation list \<Rightarrow> tool_state" where
  "state_after w st evs = foldl (\<lambda>st (c, r). snd (observe_state w c r st)) st evs"

lemma observe_all_simps [simp]:
  "observe_all w s [] = s"
  "observe_all w s (evs @ [(c, r)]) = snd (observe w c r (observe_all w s evs))"
  by (simp_all add: observe_all_def)

lemma state_after_simps [simp]:
  "state_after w st [] = st"
  "state_after w st (evs @ [(c, r)]) = snd (observe_state w c r (state_after w st evs))"
  by (simp_all add: state_after_def)

lemma of_tool_simps [simp]:
  "of_tool t [] = []"
  "of_tool t (evs @ [(c, r)]) = (if tc_name c = t then of_tool t evs @ [(c, r)] else of_tool t evs)"
  by (simp_all add: of_tool_def)

lemma get_state_Nil [simp]: "get_state [] t = fresh_state"
  by (simp add: get_state_def)

lemma get_state_observe:
  "get_state (snd (observe w c r s)) t = (if t = tc_name c then snd (observe_state w c r (get_state s t)) else get_state s t)"
  by (simp add: observe_def get_state_def case_prod_beta Let_def)

lemma tripped_known: "ts_tripped (get_state s t) \<Longrightarrow> map_of s t = Some (get_state s t)"
  by (cases "map_of s t") (simp_all add: get_state_def fresh_state_def)

lemma fst_observe: "fst (observe w c r s) = fst (observe_state w c r (get_state s (tc_name c)))"
  by (simp add: observe_def case_prod_beta Let_def)

lemma get_state_observe_all: "get_state (observe_all w s evs) t = state_after w (get_state s t) (of_tool t evs)"
proof (induction evs rule: rev_induct)
  case (snoc x evs)
  then show ?case by (cases x) (auto simp: get_state_observe)
qed simp

section \<open>The histories the counters stand for\<close>

text \<open>How many of the last elements are the same.\<close>

definition streak :: "'a list \<Rightarrow> int" where
  "streak xs = int (length (takeWhile (\<lambda>x. x = last xs) (rev xs)))"

text \<open>The results flagged non-advancing since the last advancing success.\<close>

definition misses :: "tool_result list \<Rightarrow> int" where
  "misses rs = int (length (filter (\<lambda>r. meta_true r non_advancing_meta_key) (takeWhile (\<lambda>r. \<not> is_advancing_success r) (rev rs))))"

lemma streak_simps [simp]:
  "streak [] = 0"
  "streak (xs @ [x]) = (if xs \<noteq> [] \<and> last xs = x then streak xs + 1 else 1)"
proof -
  show "streak (xs @ [x]) = (if xs \<noteq> [] \<and> last xs = x then streak xs + 1 else 1)"
    by (cases xs rule: rev_cases) (auto simp: streak_def)
qed (simp add: streak_def)

lemma streak_tail: "\<exists>us vs. xs = us @ vs \<and> int (length vs) = streak xs \<and> (\<forall>v\<in>set vs. v = last xs)"
proof -
  let ?vs = "rev (takeWhile (\<lambda>x. x = last xs) (rev xs))" and ?us = "rev (dropWhile (\<lambda>x. x = last xs) (rev xs))"
  have "xs = ?us @ ?vs" by (metis rev_append rev_rev_ident takeWhile_dropWhile_id)
  moreover have "\<forall>v\<in>set ?vs. v = last xs" by (auto dest: set_takeWhileD)
  ultimately show ?thesis by (metis length_rev streak_def)
qed

lemma misses_simps [simp]:
  "misses [] = 0"
  "misses (rs @ [r]) =
     (if is_advancing_success r then 0
      else if meta_true r non_advancing_meta_key then misses rs + 1 else misses rs)"
  by (simp_all add: misses_def)

lemma streak_pos: "xs \<noteq> [] \<Longrightarrow> 1 \<le> streak xs"
  by (cases xs rule: rev_cases) (auto simp: streak_def)

text \<open>
  A tool as its history tells it: watched, with the results that count since it last began afresh, or withheld,
  with the history it tripped on.
\<close>

datatype phase = Watched "observation list" | Withheld "observation list"

definition prints :: "watcher \<Rightarrow> observation list \<Rightarrow> string list" where
  "prints w hs = map (\<lambda>(c, r). fingerprint w c r) hs"

lemma prints_simps [simp]: "prints w [] = []" "prints w (hs @ [(c, r)]) = prints w hs @ [fingerprint w c r]"
    "prints w hs = [] \<longleftrightarrow> hs = []"
  by (simp_all add: prints_def)

definition stuck :: "watcher \<Rightarrow> observation list \<Rightarrow> int option" where
  "stuck w hs =
     (if w_maxRepeats w \<le> streak (prints w hs) then Some (streak (prints w hs))
      else if w_maxNonAdvancing w \<le> misses (map snd hs) then Some (misses (map snd hs)) else None)"

fun phase_step :: "watcher \<Rightarrow> observation \<Rightarrow> phase \<Rightarrow> phase" where
  "phase_step w (c, r) (Watched hs) =
     (if meta_true r infra_error_meta_key then Watched hs
      else if stuck w (hs @ [(c, r)]) = None then Watched (hs @ [(c, r)]) else Withheld (hs @ [(c, r)]))"
| "phase_step w (c, r) (Withheld hs) =
     (if is_advancing_success r \<and> content_hash w r \<noteq> content_hash w (snd (last hs))
      then Watched [(c, r)] else Withheld hs)"

fun phase_repeats :: "watcher \<Rightarrow> phase \<Rightarrow> int option" where
  "phase_repeats w (Watched hs) = None"
| "phase_repeats w (Withheld hs) = stuck w hs"

definition phase_after :: "watcher \<Rightarrow> observation list \<Rightarrow> phase" where
  "phase_after w evs = foldl (\<lambda>p e. phase_step w e p) (Watched []) evs"

lemma phase_after_simps [simp]:
  "phase_after w [] = Watched []"
  "phase_after w (evs @ [e]) = phase_step w e (phase_after w evs)"
  by (simp_all add: phase_after_def)

text \<open>How the fields of a tool's state stand for its phase.\<close>

fun stands_for :: "watcher \<Rightarrow> tool_state \<Rightarrow> phase \<Rightarrow> bool" where
  "stands_for w st (Watched hs) \<longleftrightarrow>
     \<not> ts_tripped st \<and> ts_trippedContent st = None \<and> ts_trippedRepeats st = None \<and> ts_trippedInput st = None \<and>
     ts_consecutiveRepeats st = streak (prints w hs) \<and>
     ts_lastFingerprint st = (if hs = [] then None else Some (last (prints w hs))) \<and>
     ts_nonAdvancingCalls st = misses (map snd hs) \<and> stuck w hs = None"
| "stands_for w st (Withheld hs) \<longleftrightarrow>
     hs \<noteq> [] \<and> ts_tripped st \<and> ts_trippedContent st = Some (content_hash w (snd (last hs))) \<and>
     ts_trippedRepeats st = stuck w hs \<and> stuck w hs \<noteq> None \<and>
     ts_trippedInput st = (if is_advancing_success (snd (last hs))
        then Some (canonical_json (w_fr w) (tc_input (fst (last hs)))) else None)"

definition guard_on :: "watcher \<Rightarrow> bool" where
  "guard_on w \<longleftrightarrow> 2 \<le> w_maxRepeats w \<and> 1 \<le> w_maxNonAdvancing w"

lemma record_observation_stands_for:
  assumes "stands_for w st (Watched hs)"
  shows "ts_consecutiveRepeats (record_observation w c r st) = streak (prints w (hs @ [(c, r)])) \<and>
    ts_lastFingerprint (record_observation w c r st) = Some (fingerprint w c r) \<and>
    ts_nonAdvancingCalls (record_observation w c r st) = misses (map snd (hs @ [(c, r)])) \<and>
    ts_tripped (record_observation w c r st) = ts_tripped st \<and>
    ts_trippedContent (record_observation w c r st) = ts_trippedContent st \<and>
    ts_trippedRepeats (record_observation w c r st) = ts_trippedRepeats st \<and>
    ts_trippedInput (record_observation w c r st) = ts_trippedInput st \<and>
    ts_totalCalls (record_observation w c r st) = ts_totalCalls st"
  using assms by (auto simp: record_observation_def Let_def is_advancing_success_def)

lemma streak_single [simp]: "streak [x] = 1" and misses_advancing: "is_advancing_success r \<Longrightarrow> misses [r] = 0"
  using streak_simps(2) [of "[]" x] misses_simps(2) [of "[]" r] by simp_all

lemma stuck_advancing: "guard_on w \<Longrightarrow> is_advancing_success r \<Longrightarrow> stuck w [(c, r)] = None"
  by (simp add: stuck_def guard_on_def prints_def misses_advancing)

lemma observe_state_simulates:
  assumes "guard_on w" and "stands_for w st p"
  shows "stands_for w (snd (observe_state w c r st)) (phase_step w (c, r) p)"
proof (cases p)
  case (Watched hs)
  define st1 where "st1 = st\<lparr> ts_totalCalls := ts_totalCalls st + 1 \<rparr>"
  have s1: "stands_for w st1 (Watched hs)" using assms(2) Watched by (simp add: st1_def)
  note R = record_observation_stands_for [OF s1, of c r]
  have "tripped_at w (record_observation w c r st1) = stuck w (hs @ [(c, r)])"
    using R by (simp add: tripped_at_def stuck_def)
  then show ?thesis using R s1 assms(2) Watched
    by (auto simp: observe_state_def Let_def st1_def [symmetric] split: option.splits)
next
  case (Withheld hs)
  then show ?thesis using assms
    using stuck_advancing [OF assms(1), of r c] misses_advancing [of r]
    by (auto simp: observe_state_def Let_def is_advancing_success_def prints_def)
qed

lemma stands_for_fresh: "guard_on w \<Longrightarrow> stands_for w fresh_state (Watched [])"
  by (simp add: fresh_state_def stuck_def guard_on_def)

lemma state_after_stands_for:
  assumes "guard_on w"
  shows "stands_for w (state_after w fresh_state evs) (phase_after w evs)"
proof (induction evs rule: rev_induct)
  case (snoc e evs)
  then show ?case using observe_state_simulates [OF assms] by (cases e) simp
qed (use stands_for_fresh [OF assms] in simp)

lemma get_state_stands_for:
  assumes "guard_on w"
  shows "stands_for w (get_state (observe_all w [] evs) t) (phase_after w (of_tool t evs))"
  using state_after_stands_for [OF assms] by (simp add: get_state_observe_all)

section \<open>What separates fingerprints\<close>

lemma nul_char_of: "CHR 0x00 = char_of (n::nat) \<longleftrightarrow> n mod 256 = 0"
proof -
  have "(of_char (char_of n :: char) :: nat) = n mod 256" by (rule of_char_of [THEN trans]) simp
  moreover have "(of_char (CHR 0x00) :: nat) = 0" by simp
  ultimately show ?thesis by (metis char_of_char)
qed

lemma nul_hex: "d < 16 \<Longrightarrow> CHR 0x00 \<noteq> hex_digit d"
  by (auto simp: hex_digit_def nul_char_of)

lemma nul_escape: "CHR 0x00 \<notin> set (escape_char c)"
  using nul_hex [of "of_char c div 16"] nul_hex [of "of_char c mod 16"] by (auto simp: escape_char_def Let_def nul_char_of)

lemma nul_quote: "CHR 0x00 \<notin> set (quote s)"
  using nul_escape by (auto simp: quote_def)

lemma nul_join: "CHR 0x00 \<notin> set sep \<Longrightarrow> (\<And>s. s \<in> set ss \<Longrightarrow> CHR 0x00 \<notin> set s) \<Longrightarrow> CHR 0x00 \<notin> set (join sep ss)"
  by (induction sep ss rule: join.induct) auto

lemma nul_digits: "is_digit (CHR 0x00) = False"
  by code_simp

lemma nul_canonical_json:
  assumes "\<And>q. CHR 0x00 \<notin> set (fr q)"
  shows "CHR 0x00 \<notin> set (canonical_json fr v)"
  using assms
proof (induction fr v rule: canonical_json.induct)
  case (3 fr r)
  then show ?case using digits_show_nat [of "CHR 0x00"] by (auto simp: show_num_def show_int_def nul_digits)
next
  case (5 fr js)
  have "CHR 0x00 \<notin> set (join '','' (map (canonical_json fr) js))"
    by (rule nul_join) (use 5 in auto)
  then show ?case by simp
next
  case (6 fr fs)
  have "CHR 0x00 \<notin> set (join '','' (map (\<lambda>(k, v). quote k @ '':'' @ canonical_json fr v) (sort_key fst fs)))"
    by (rule nul_join) (use 6 in \<open>auto simp: nul_quote\<close>)
  then show ?case by simp
qed (simp_all add: nul_quote)

lemma last_nul:
  assumes "a @ nul @ x = b @ nul @ y" and "CHR 0x00 \<notin> set x" and "CHR 0x00 \<notin> set y"
  shows "a = b \<and> x = y"
proof -
  have tail: "takeWhile (\<lambda>c. c \<noteq> CHR 0x00) (rev (p @ nul @ z)) = rev z" if "CHR 0x00 \<notin> set z" for p z
    using that by (simp add: nul_def, subst takeWhile_append2) auto
  have "rev x = rev y" using tail [OF assms(2), of a] tail [OF assms(3), of b] assms(1) by simp
  then show ?thesis using assms(1) by simp
qed

text \<open>Results with the fingerprint of an advancing success are successes of the same call with the same text.\<close>

lemma fingerprint_of_success:
  assumes eq: "fingerprint_text w c' r' = fingerprint_text w c r" and name: "tc_name c' = tc_name c"
    and r: "is_advancing_success r" and r': "\<not> meta_true r' infra_error_meta_key"
    and fr: "\<And>q. CHR 0x00 \<notin> set (w_fr w q)"
  shows "is_advancing_success r' \<and> model_text w r' = model_text w r \<and>
    canonical_json (w_fr w) (tc_input c') = canonical_json (w_fr w) (tc_input c)"
proof -
  have r_text: "fingerprint_text w c r = tc_name c @ nul @ ''S'' @ nul @ model_text w r @ nul @ canonical_json (w_fr w) (tc_input c)"
    using r by (simp add: fingerprint_text_def is_advancing_success_def)
  have n: "\<not> meta_true r' non_advancing_meta_key"
  proof
    assume "meta_true r' non_advancing_meta_key"
    then show False using eq name unfolding r_text by (simp add: fingerprint_text_def nul_def)
  qed
  have e: "\<not> tr_isError r'"
  proof
    assume "tr_isError r'"
    then show False using eq name n unfolding r_text by (simp add: fingerprint_text_def nul_def)
  qed
  note flags = n e
  then have "model_text w r' @ nul @ canonical_json (w_fr w) (tc_input c')
      = model_text w r @ nul @ canonical_json (w_fr w) (tc_input c)"
    using eq name r by (simp add: fingerprint_text_def is_advancing_success_def)
  from last_nul [OF this nul_canonical_json [OF fr] nul_canonical_json [OF fr]]
  show ?thesis using flags r' by (simp add: is_advancing_success_def)
qed

text \<open>What a tool's phase is made of.\<close>

fun evidence :: "phase \<Rightarrow> observation list" where
  "evidence (Watched hs) = hs"
| "evidence (Withheld hs) = hs"

lemma evidence_of_history:
  "subseq (evidence (phase_after w evs)) evs \<and> (\<forall>(c, r) \<in> set (evidence (phase_after w evs)). \<not> meta_true r infra_error_meta_key)"
proof (induction evs rule: rev_induct)
  case (snoc e evs)
  obtain c r where e: "e = (c, r)" by (cases e)
  have one: "subseq [(c, r)] (evs @ [(c, r)])" by (metis append_Nil list_emb_append2 subseq_order.order_refl)
  show ?case using snoc one
    by (cases "phase_after w evs")
      (auto simp: e is_advancing_success_def intro: list_emb_append_mono subseq_rev_drop_many)
qed simp

section \<open>What the guard promises\<close>

text \<open>
  C7. A call's verdict is told by the history of its own tool: it passes unless that history leaves the tool withheld
  after it, and a directive names the streak or the count of misses that withheld it. Calls of other tools make
  no difference.
\<close>

theorem verdict_follows_history:
  assumes "guard_on w"
  defines "before \<equiv> \<lambda>c evs. phase_after w (of_tool (tc_name c) evs)"
  shows "(case phase_repeats w (phase_step w (c, r) (before c evs)) of
      None \<Rightarrow> fst (observe w c r (observe_all w [] evs)) = VPass
    | Some n \<Rightarrow> \<exists>out. fst (observe w c r (observe_all w [] evs)) = VSynth out (tc_name c) n)"
proof -
  define st where "st = get_state (observe_all w [] evs) (tc_name c)"
  have st: "stands_for w st (before c evs)"
    using get_state_stands_for [OF assms(1)] by (simp add: st_def before_def)
  define st1 where "st1 = st\<lparr> ts_totalCalls := ts_totalCalls st + 1 \<rparr>"
  show ?thesis
  proof (cases "before c evs")
    case (Watched hs)
    have s1: "stands_for w st1 (Watched hs)" using st Watched by (simp add: st1_def)
    have "tripped_at w (record_observation w c r st1) = stuck w (hs @ [(c, r)])"
      using record_observation_stands_for [OF s1, of c r] by (simp add: tripped_at_def stuck_def)
    then show ?thesis using st s1 Watched
      by (auto simp: fst_observe st_def [symmetric] observe_state_def Let_def st1_def [symmetric] split: option.splits)
  next
    case (Withheld hs)
    then show ?thesis using st
      by (auto simp: fst_observe st_def [symmetric] observe_state_def Let_def split: option.splits)
  qed
qed

text \<open>
  C8. Where the digest does not collide on the run's own calls, a call is refused unrun only when it has already run:
  the run holds that many results of the same tool, each an advancing success of a call with the same input,
  all with the same text for the model, and they are at least as many as a trip takes.
\<close>

theorem refused_call_already_ran:
  assumes w: "guard_on w" and fr: "\<And>q. CHR 0x00 \<notin> set (w_fr w q)"
    and inj: "inj_on (w_digest w) ((\<lambda>(c, r). fingerprint_text w c r) ` set evs)"
    and ref: "repeat_refusal w c (observe_all w [] evs) = Some out"
  shows "\<exists>ks txt. subseq ks (of_tool (tc_name c) evs) \<and> w_maxRepeats w \<le> int (length ks) \<and>
    out = refusal_result (tc_name c) (Some (int (length ks))) \<and>
    (\<forall>(c', r') \<in> set ks. is_advancing_success r' \<and> model_text w r' = txt \<and>
       canonical_json (w_fr w) (tc_input c') = canonical_json (w_fr w) (tc_input c))"
proof -
  let ?mine = "of_tool (tc_name c) evs"
  let ?st = "get_state (observe_all w [] evs) (tc_name c)"
  have st: "stands_for w ?st (phase_after w ?mine)" by (rule get_state_stands_for [OF w])
  have trip: "ts_tripped ?st" "ts_trippedInput ?st = Some (canonical_json (w_fr w) (tc_input c))"
    and out: "out = refusal_result (tc_name c) (ts_trippedRepeats ?st)"
    using ref by (auto simp: repeat_refusal_def get_state_def split: option.splits if_splits)
  then obtain hs where hs: "phase_after w ?mine = Withheld hs" using st by (cases "phase_after w ?mine") auto
  obtain c0 r0 where l: "last hs = (c0, r0)" by (cases "last hs")
  have r0: "is_advancing_success r0" "canonical_json (w_fr w) (tc_input c0) = canonical_json (w_fr w) (tc_input c)" "hs \<noteq> []"
    using st hs trip l by (auto split: if_splits)
  have split_hs: "hs = butlast hs @ [(c0, r0)]" using append_butlast_last_id [OF r0(3)] l by simp
  have "misses (map snd hs) = 0" by (subst split_hs) (simp add: r0(1))
  then have N: "w_maxRepeats w \<le> streak (prints w hs)" "ts_trippedRepeats ?st = Some (streak (prints w hs))"
    using st w unfolding hs by (simp_all add: stuck_def guard_on_def split: if_splits)
  obtain us vs where uv: "prints w hs = us @ vs" "int (length vs) = streak (prints w hs)" "\<forall>v\<in>set vs. v = last (prints w hs)"
    using streak_tail [of "prints w hs"] by blast
  define ks where "ks = drop (length us) hs"
  have ks: "prints w ks = vs" using uv(1) by (simp add: ks_def prints_def drop_map [symmetric])
  have sub: "subseq hs ?mine" "\<forall>(c', r') \<in> set hs. \<not> meta_true r' infra_error_meta_key"
    using evidence_of_history [of w ?mine] hs by auto
  have "subseq ks hs" unfolding ks_def by (metis append_take_drop_id list_emb_append2 subseq_order.order_refl)
  then have sk: "subseq ks ?mine" using sub(1) by (rule subseq_order.order_trans)
  have mine: "tc_name c' = tc_name c \<and> (c', r') \<in> set evs" if "(c', r') \<in> set hs" for c' r'
    using list_emb_set [OF sub(1) that] by (auto simp: of_tool_def)
  have "is_advancing_success r' \<and> model_text w r' = model_text w r0 \<and>
      canonical_json (w_fr w) (tc_input c') = canonical_json (w_fr w) (tc_input c)" if k: "(c', r') \<in> set ks" for c' r'
  proof -
    have h: "(c', r') \<in> set hs" "(c0, r0) \<in> set hs" using k l r0(3) by (auto simp: ks_def dest: in_set_dropD) (metis last_in_set)
    have "fingerprint w c' r' \<in> set (prints w ks)" using k by (force simp: prints_def)
    then have "fingerprint w c' r' = last (prints w hs)" using ks uv(3) by simp
    also have "\<dots> = fingerprint w c0 r0" using r0(3) l by (simp add: prints_def last_map)
    finally have "fingerprint_text w c' r' = fingerprint_text w c0 r0"
      using inj_onD [OF inj, of "fingerprint_text w c' r'" "fingerprint_text w c0 r0"] mine [OF h(1)] mine [OF h(2)]
      by (force simp: fingerprint_def)
    from fingerprint_of_success [OF this _ r0(1) _ fr] show ?thesis
      using mine [OF h(1)] mine [OF h(2)] sub(2) h(1) r0(2) by auto
  qed
  moreover have "int (length ks) = streak (prints w hs)" using uv(2) ks by (metis length_map prints_def)
  ultimately show ?thesis using sk N out by (intro exI [of _ ks] exI [of _ "model_text w r0"]) auto
qed

definition counted :: "observation list \<Rightarrow> observation list" where
  "counted evs = filter (\<lambda>(c, r). \<not> meta_true r infra_error_meta_key) evs"

lemma watched_misses:
  "phase_after w evs = Watched hs \<Longrightarrow> misses (map snd (counted evs)) = misses (map snd hs)"
proof (induction evs arbitrary: hs rule: rev_induct)
  case (snoc e evs)
  obtain c r where e: "e = (c, r)" by (cases e)
  show ?case
  proof (cases "phase_after w evs")
    case (Watched gs)
    then show ?thesis using snoc e by (auto simp: counted_def split: if_splits)
  next
    case (Withheld gs)
    then show ?thesis using snoc.prems e
      by (auto simp: counted_def is_advancing_success_def misses_advancing split: if_splits)
  qed
qed (simp add: counted_def)

text \<open>
  A tool that is still offered has answered with nothing fewer times than the budget since it last found something,
  however its calls varied, whatever errors came between and however often it was withheld and recovered.
\<close>

theorem offered_tool_within_miss_budget:
  assumes "guard_on w" and "t \<notin> set (ss_trippedTools (snapshot (observe_all w [] evs)))"
  shows "misses (map snd (counted (of_tool t evs))) < w_maxNonAdvancing w"
proof -
  have "\<not> ts_tripped (get_state (observe_all w [] evs) t)"
    using assms(2) tripped_known [of "observe_all w [] evs" t] by (force simp: snapshot_def dest: map_of_SomeD)
  then obtain hs where "phase_after w (of_tool t evs) = Watched hs" "stuck w hs = None"
    using get_state_stands_for [OF assms(1), of evs t] by (cases "phase_after w (of_tool t evs)") auto
  then show ?thesis using watched_misses by (force simp: stuck_def split: if_splits)
qed

text \<open>
  A withheld tool comes back exactly on an advancing success whose text for the model differs from the text it was
  withheld on: that result reaches the model untouched and no call of it is refused afterwards. Any other result
  leaves the evidence as it is, and the model reads that the call failed only if it did.
\<close>

theorem withheld_tool_recovers:
  fixes r :: tool_result
  assumes "ts_tripped (get_state s (tc_name c))"
    and "ts_trippedContent (get_state s (tc_name c)) = Some (w_digest w txt)"
  defines "back_again \<equiv> is_advancing_success r \<and> content_hash w r \<noteq> w_digest w txt"
  shows "(fst (observe w c r s) = VPass \<longleftrightarrow> back_again) \<and>
    (ts_tripped (get_state (snd (observe w c r s)) (tc_name c)) \<longleftrightarrow> \<not> back_again) \<and>
    (back_again \<longrightarrow> (\<forall>input. repeat_refusal w (c\<lparr>tc_input := input\<rparr>) (snd (observe w c r s)) = None)) \<and>
    (\<not> back_again \<longrightarrow>
       (\<forall>c'. repeat_refusal w c' (snd (observe w c r s)) = repeat_refusal w c' s) \<and>
       tr_isError (v_replacement (fst (observe w c r s))) = tr_isError r)"
proof -
  have m: "map_of s (tc_name c) = Some (get_state s (tc_name c))"
    by (rule tripped_known) (rule assms(1))
  define st where "st = get_state s (tc_name c)"
  define st1 where "st1 = st\<lparr> ts_totalCalls := ts_totalCalls st + 1 \<rparr>"
  have st: "ts_tripped st" "ts_trippedContent st = Some (w_digest w txt)" "map_of s (tc_name c) = Some st"
    using assms(1,2) m by (simp_all add: st_def)
  have after: "get_state (snd (observe w c r s)) (tc_name c) = snd (observe_state w c r st)"
    "map_of (snd (observe w c r s)) = (map_of s)(tc_name c \<mapsto> snd (observe_state w c r st))"
    by (simp_all add: get_state_observe st_def) (simp add: observe_def case_prod_beta Let_def)
  have verdict: "fst (observe w c r s) = fst (observe_state w c r st)" by (simp add: fst_observe st_def)
  show ?thesis
  proof (cases back_again)
    case True
    then show ?thesis using st unfolding verdict after(1)
      by (simp add: observe_state_def Let_def back_again_def repeat_refusal_def after(2))
  next
    case False
    have o: "observe_state w c r st = (VSynth (probation_replacement (tc_name c) r (trim (extract_text_for_model (tr_content r)))
        (nullish (ts_trippedRepeats st) (ts_consecutiveRepeats st))) (tc_name c)
        (nullish (ts_trippedRepeats st) (ts_consecutiveRepeats st)), st1)"
      using False st by (simp add: observe_state_def Let_def back_again_def st1_def)
    have "repeat_refusal w c' (snd (observe w c r s)) = repeat_refusal w c' s" for c'
      using st by (cases "tc_name c' = tc_name c") (simp_all add: repeat_refusal_def after(2) o st1_def)
    then show ?thesis using False st(1) unfolding verdict after(1) o by (simp add: probation_replacement_def st1_def)
  qed
qed

lemma canonical_json_key_order:
  assumes "distinct (map fst fs)" and "mset fs = mset gs"
  shows "canonical_json fr (JObj fs) = canonical_json fr (JObj gs)"
proof -
  have "sort_key fst fs = sort_key fst gs"
    using assms by (intro sort_key_inj_key_eq) (simp_all add: distinct_map)
  then show ?thesis by simp
qed

section \<open>Instances\<close>

definition demo_watcher :: watcher where
  "demo_watcher = create_run_supervisor id (\<lambda>q. ''?'') \<lparr> sc_maxConsecutiveRepeats = None, sc_fingerprintTextCap = None,
     sc_maxNonAdvancingCalls = None \<rparr>"

definition demo_call :: tool_call where
  "demo_call = \<lparr> tc_id = ''1'', tc_name = ''t'', tc_input = JObj [(''q'', JStr ''a'')] \<rparr>"

definition demo_result :: "string \<Rightarrow> (string \<times> json) list option \<Rightarrow> tool_result" where
  "demo_result t m = \<lparr> tr_content = text_content t, tr_structured = None, tr_isError = False, tr_meta = m \<rparr>"

definition demo_page :: observation where
  "demo_page = (demo_call, demo_result ''x'' None)"

definition demo_miss :: observation where
  "demo_miss = (demo_call, demo_result ''n'' (Some [(non_advancing_meta_key, JBool True)]))"

lemma guard_on_demo: "guard_on demo_watcher"
  by code_simp

theorem verdict_follows_history_witness:
  "guard_on demo_watcher \<and>
   (\<exists>out. fst (observe demo_watcher demo_call (demo_result ''x'' None) (observe_all demo_watcher [] [demo_page, demo_page]))
     = VSynth out ''t'' 3)"
proof -
  have "phase_repeats demo_watcher (phase_step demo_watcher (demo_call, demo_result ''x'' None)
      (phase_after demo_watcher (of_tool (tc_name demo_call) [demo_page, demo_page]))) = Some 3"
    by code_simp
  then show ?thesis
    using verdict_follows_history [OF guard_on_demo, of demo_call "demo_result ''x'' None" "[demo_page, demo_page]"] guard_on_demo
    by (simp add: demo_call_def)
qed

theorem refused_call_already_ran_witness:
  "\<exists>out (ks :: observation list) txt. repeat_refusal demo_watcher demo_call (observe_all demo_watcher [] [demo_page, demo_miss, demo_page, demo_page, demo_page]) = Some out \<and>
     3 \<le> int (length ks) \<and> out = refusal_result ''t'' (Some (int (length ks))) \<and>
     (\<forall>(c', r') \<in> set ks. is_advancing_success r' \<and> model_text demo_watcher r' = txt)"
proof -
  define evs where "evs = [demo_page, demo_miss, demo_page, demo_page, demo_page]"
  have "repeat_refusal demo_watcher demo_call (observe_all demo_watcher [] evs) \<noteq> None"
    unfolding evs_def by code_simp
  then obtain out where out: "repeat_refusal demo_watcher demo_call (observe_all demo_watcher [] evs) = Some out" by auto
  have fr: "CHR 0x00 \<notin> set (w_fr demo_watcher q)" for q by (simp add: demo_watcher_def create_run_supervisor_def)
  have inj: "inj_on (w_digest demo_watcher) X" for X by (simp add: demo_watcher_def create_run_supervisor_def)
  have m: "w_maxRepeats demo_watcher = 3" "tc_name demo_call = ''t''" by code_simp+
  obtain ks :: "observation list" and txx where k: "w_maxRepeats demo_watcher \<le> int (length ks)"
    "out = refusal_result (tc_name demo_call) (Some (int (length ks)))"
    "\<forall>(c', r') \<in> set ks. is_advancing_success r' \<and> model_text demo_watcher r' = txx \<and>
       canonical_json (w_fr demo_watcher) (tc_input c') = canonical_json (w_fr demo_watcher) (tc_input demo_call)"
    using refused_call_already_ran [OF guard_on_demo fr inj out] by blast
  show ?thesis
    by (rule exI [of _ out], rule exI [of _ ks], rule exI [of _ txx]) (use k m out in \<open>auto simp: evs_def\<close>)
qed

theorem offered_tool_within_miss_budget_witness:
  "misses (map snd (counted (of_tool ''t'' [demo_miss, demo_page, demo_miss, demo_miss]))) < 6"
proof -
  have "''t'' \<notin> set (ss_trippedTools (snapshot (observe_all demo_watcher [] [demo_miss, demo_page, demo_miss, demo_miss])))"
    by code_simp
  moreover have "w_maxNonAdvancing demo_watcher = 6" by code_simp
  ultimately show ?thesis using offered_tool_within_miss_budget [OF guard_on_demo] by metis
qed

theorem withheld_tool_recovers_witness:
  "fst (observe demo_watcher demo_call (demo_result ''y'' None) (observe_all demo_watcher [] [demo_page, demo_page, demo_page])) = VPass"
proof -
  let ?s = "observe_all demo_watcher [] [demo_page, demo_page, demo_page]"
  have "ts_tripped (get_state ?s (tc_name demo_call))"
    "ts_trippedContent (get_state ?s (tc_name demo_call)) = Some (w_digest demo_watcher ''x'')"
    "is_advancing_success (demo_result ''y'' None) \<and> content_hash demo_watcher (demo_result ''y'' None) \<noteq> w_digest demo_watcher ''x''"
    by code_simp+
  then show ?thesis using withheld_tool_recovers by blast
qed

end
