(* ===== verification/Event_Props.thy ===== *)
theory Event_Props
  imports Event_Trigger Task_Schedule "HOL-Library.Sublist"
begin

text \<open>
  What holds of the event trigger (\<open>src/platform/tasks/event-trigger.ts\<close>) whatever comes in which order: each accepted item is
  told its outcome once, a batch stays under its cap and armed, and a task's fires in any hour stay within its
  ceiling, runs still going included.
\<close>

section \<open>Sums over maps\<close>

lemma sum_jset:
  fixes f :: "'v \<Rightarrow> 'a::comm_monoid_add"
  shows "sum_list (map (\<lambda>(k, v). f v) (jset k v m)) + (case map_of m k of None \<Rightarrow> 0 | Some w \<Rightarrow> f w)
    = sum_list (map (\<lambda>(k, v). f v) m) + f v"
  by (induction m) (auto simp: ac_simps split: option.splits)

lemma sum_jdelete:
  fixes f :: "'v \<Rightarrow> 'a::comm_monoid_add"
  assumes "jmap_ok m" and "map_of m k = Some w"
  shows "sum_list (map (\<lambda>(k, v). f v) (jdelete k m)) + f w = sum_list (map (\<lambda>(k, v). f v) m)"
  using assms
proof (induction m)
  case (Cons e m)
  obtain k' v' where e: "e = (k', v')" by (cases e)
  show ?case
  proof (cases "k' = k")
    case True
    then have "k \<notin> fst ` set m" using Cons.prems e by (auto simp: jmap_ok_def)
    then have "jdelete k m = m" by (force simp: jdelete_def filter_id_conv)
    then show ?thesis using True Cons.prems e by (simp add: jdelete_def ac_simps)
  next
    case False
    then show ?thesis using Cons e by (auto simp: jdelete_def jmap_ok_def ac_simps)
  qed
qed simp

section \<open>Where accepted items are\<close>

definition waiting :: "pending_batch \<Rightarrow> nat multiset" where
  "waiting b = mset (map snd (pb_settlers b))"

definition in_batches :: "trigger \<Rightarrow> nat multiset" where
  "in_batches s = sum_list (map (\<lambda>(k, b). waiting b) (et_batches s))"

definition in_runs :: "trigger \<Rightarrow> nat multiset" where
  "in_runs s = sum_list (map (\<lambda>f. waiting (rf_batch f)) (et_running s))"

definition told :: "trigger \<Rightarrow> nat multiset" where
  "told s = mset (map fst (et_settled s))"

definition account :: "trigger \<Rightarrow> nat multiset" where
  "account s = told s + in_batches s + in_runs s"

text \<open>The callback an offer puts out of use: the one of an earlier delivery of its item, still in the batch.\<close>

definition replaced_by :: "wake_request \<Rightarrow> trigger \<Rightarrow> nat list" where
  "replaced_by r s = (case map_of (pb_settlers (open_batch r s)) (item_id (wr_item r)) of None \<Rightarrow> [] | Some t \<Rightarrow> [t])"

lemma told_settle_all: "told (settle_all b r s) = told s + waiting b"
  by (simp add: told_def settle_all_def waiting_def comp_def case_prod_beta)

lemma settle_all_fields [simp]:
  "et_batches (settle_all b r s) = et_batches s" "et_running (settle_all b r s) = et_running s"
  "et_inFlight (settle_all b r s) = et_inFlight s" "et_runs (settle_all b r s) = et_runs s"
  "et_stopped (settle_all b r s) = et_stopped s" "et_disabled (settle_all b r s) = et_disabled s"
  by (simp_all add: settle_all_def)

lemma clear_in_flight_fields [simp]:
  "et_batches (clear_in_flight k t s) = et_batches s" "et_running (clear_in_flight k t s) = et_running s"
  "et_settled (clear_in_flight k t s) = et_settled s" "et_runs (clear_in_flight k t s) = et_runs s"
  "et_stopped (clear_in_flight k t s) = et_stopped s"
  by (simp_all add: clear_in_flight_def Let_def split: option.split)

lemma mark_in_flight_fields [simp]:
  "et_batches (mark_in_flight k t s) = et_batches s" "et_running (mark_in_flight k t s) = et_running s"
  "et_settled (mark_in_flight k t s) = et_settled s" "et_runs (mark_in_flight k t s) = et_runs s"
  "et_stopped (mark_in_flight k t s) = et_stopped s"
  by (simp_all add: mark_in_flight_def)

lemma account_fields:
  "told s = told s' \<Longrightarrow> et_batches s = et_batches s' \<Longrightarrow> et_running s = et_running s' \<Longrightarrow> account s = account s'"
  by (simp add: account_def in_batches_def in_runs_def)

lemma account_same [simp]:
  "account (s\<lparr>et_disabled := x\<rparr>) = account s" "account (s\<lparr>et_stopped := c\<rparr>) = account s"
  "account (mark_in_flight k t s) = account s" "account (clear_in_flight k t s) = account s"
  by (rule account_fields; simp add: told_def)+

lemma account_settle_all [simp]: "account (settle_all b r s) = waiting b + account s"
  by (simp add: account_def told_settle_all in_batches_def in_runs_def ac_simps)

lemma account_start [simp]:
  "account (mark_in_flight k t s\<lparr>et_running := et_running s @ [f], et_runs := x\<rparr>) = waiting (rf_batch f) + account s"
  by (simp add: mark_in_flight_def account_def told_def in_batches_def in_runs_def ac_simps)

lemma account_delete:
  assumes "jmap_ok (et_batches s)" and "map_of (et_batches s) key = Some b"
  shows "waiting b + account (s\<lparr>et_batches := jdelete key (et_batches s)\<rparr>) = account s"
  using sum_jdelete [OF assms, of waiting] by (simp add: account_def told_def in_batches_def in_runs_def ac_simps)

lemma account_put:
  "account (s\<lparr>et_batches := jset key c (et_batches s)\<rparr>)
      + (case map_of (et_batches s) key of None \<Rightarrow> {#} | Some b \<Rightarrow> waiting b) = account s + waiting c"
  using sum_jset [of waiting key c "et_batches s"] by (simp add: account_def told_def in_batches_def in_runs_def ac_simps)

lemma account_fire:
  assumes "jmap_ok (et_batches s)"
  shows "account (fire d fr now key s) = account s"
proof (cases "map_of (et_batches s) key")
  case (Some b)
  note del = account_delete [OF assms Some]
  define s1 where "s1 = s\<lparr>et_batches := jdelete key (et_batches s)\<rparr>"
  show ?thesis
    using del Some unfolding fire_def s1_def [symmetric]
    by (auto simp: Let_def split: option.split)
qed (simp add: fire_def)

text \<open>An accepted item waits from then on; an earlier delivery of it no longer does.\<close>

lemma waiting_put:
  fixes b0 :: pending_batch
  shows "waiting (b0\<lparr>pb_items := x, pb_settlers := jset i t (pb_settlers b0)\<rparr>)
      + mset (case map_of (pb_settlers b0) i of None \<Rightarrow> [] | Some t \<Rightarrow> [t]) = waiting b0 + {#t#}"
proof -
  have w: "sum_list (map (\<lambda>(k, v). {#v#}) m) = mset (map snd m)" for m :: "(string \<times> nat) list"
    by (induction m) auto
  show ?thesis
    using sum_jset [of "\<lambda>t. {#t#}" i t "pb_settlers b0"] unfolding w by (auto simp: waiting_def split: option.splits)
qed

definition wr_key :: "wake_request \<Rightarrow> string" where
  "wr_key r = batch_key (wr_wsId r) (wr_ownerId r) (wr_taskId r)"

definition joined :: "wake_request \<Rightarrow> trigger \<Rightarrow> pending_batch" where
  "joined r s = (open_batch r s)\<lparr> pb_items := jset (item_id (wr_item r)) (wr_item r) (pb_items (open_batch r s)),
     pb_settlers := jset (item_id (wr_item r)) (wr_settle r) (pb_settlers (open_batch r s)) \<rparr>"

definition put_batch :: "wake_request \<Rightarrow> ms option \<Rightarrow> trigger \<Rightarrow> trigger" where
  "put_batch r x s = s\<lparr> et_batches := jset (wr_key r) (joined r s\<lparr>pb_timer := x\<rparr>) (et_batches s) \<rparr>"

definition armed :: "event_deps \<Rightarrow> wake_request \<Rightarrow> trigger \<Rightarrow> ms option" where
  "armed d r s = (case pb_timer (open_batch r s) of Some x \<Rightarrow> Some x
     | None \<Rightarrow> map_option debounce_ms (ed_task d (wr_wsId r) (wr_ownerId r) (wr_taskId r)))"

lemma offer_eq:
  assumes "refusal_of d r s = None"
  shows "snd (offer d fr now r s) =
    (if max_event_batch_items \<le> length (pb_items (joined r s)) then fire d fr now (wr_key r) (put_batch r None s)
     else put_batch r (armed d r s) s)"
proof -
  have "(case pb_timer (joined r s) of Some _ \<Rightarrow> joined r s
      | None \<Rightarrow> joined r s\<lparr> pb_timer := map_option debounce_ms (ed_task d (wr_wsId r) (wr_ownerId r) (wr_taskId r)) \<rparr>)
      = joined r s\<lparr>pb_timer := armed d r s\<rparr>"
    by (cases "pb_timer (open_batch r s)") (simp_all add: armed_def joined_def)
  then show ?thesis
    by (simp only: offer_def Let_def assms option.case joined_def [symmetric] wr_key_def [symmetric] put_batch_def
        if_distrib [of snd] snd_conv)
qed

lemma account_offer:
  assumes "jmap_ok (et_batches s)" and "refusal_of d r s = None"
  shows "account (snd (offer d fr now r s)) + mset (replaced_by r s) = account s + {#wr_settle r#}"
proof -
  have old: "(case map_of (et_batches s) (wr_key r) of None \<Rightarrow> {#} | Some w \<Rightarrow> waiting w) = waiting (open_batch r s)"
    by (simp add: open_batch_def wr_key_def [symmetric] waiting_def split: option.split)
  have new: "waiting (joined r s) + mset (replaced_by r s) = waiting (open_batch r s) + {#wr_settle r#}"
    unfolding joined_def replaced_by_def by (rule waiting_put)
  have put: "account (put_batch r x s) + mset (replaced_by r s) = account s + {#wr_settle r#}" for x
  proof -
    have "waiting (joined r s\<lparr>pb_timer := x\<rparr>) = waiting (joined r s)" by (simp add: waiting_def)
    then have "account (put_batch r x s) + waiting (open_batch r s) = account s + waiting (joined r s)"
      using account_put [of "wr_key r" "joined r s\<lparr>pb_timer := x\<rparr>" s] unfolding old put_batch_def by simp
    then have "account (put_batch r x s) + mset (replaced_by r s) + waiting (open_batch r s)
        = account s + (waiting (joined r s) + mset (replaced_by r s))"
      by (simp add: ac_simps)
    then show ?thesis unfolding new by (simp add: ac_simps)
  qed
  have "jmap_ok (et_batches (put_batch r None s))" using assms(1) by (simp add: put_batch_def)
  then show ?thesis using put by (simp add: offer_eq [OF assms(2)] account_fire)
qed

lemma in_runs_splice:
  "i < length fs \<Longrightarrow> waiting (rf_batch (fs ! i)) + sum_list (map (\<lambda>f. waiting (rf_batch f)) (splice_out i fs))
    = sum_list (map (\<lambda>f. waiting (rf_batch f)) fs)"
  by (subst (3) id_take_nth_drop [of i fs]) (simp_all add: splice_out_def ac_simps)

lemma account_answered: "account (fire_answered i r s) = account s"
proof (cases "i < length (et_running s)")
  case True
  then show ?thesis using in_runs_splice [OF True]
    by (simp add: fire_answered_def Let_def) (simp add: account_def told_def in_batches_def in_runs_def ac_simps)
qed (simp add: fire_answered_def)

lemma settle_each:
  "account (foldl (\<lambda>s (k, b). settle_all b x s) s0 bs) = sum_list (map (\<lambda>(k, b). waiting b) bs) + account s0"
  "et_running (foldl (\<lambda>s (k, b). settle_all b x s) s0 bs) = et_running s0"
  "et_runs (foldl (\<lambda>s (k, b). settle_all b x s) s0 bs) = et_runs s0"
  "et_inFlight (foldl (\<lambda>s (k, b). settle_all b x s) s0 bs) = et_inFlight s0"
  "et_stopped (foldl (\<lambda>s (k, b). settle_all b x s) s0 bs) = et_stopped s0"
  "et_batches (foldl (\<lambda>s (k, b). settle_all b x s) s0 bs) = et_batches s0"
  by (induction bs arbitrary: s0) (auto simp: ac_simps)

lemma stop_fields [simp]:
  "et_batches (stop_trigger s) = []" "et_running (stop_trigger s) = et_running s" "et_runs (stop_trigger s) = et_runs s"
  "et_inFlight (stop_trigger s) = et_inFlight s" "et_stopped (stop_trigger s)"
  by (simp_all add: stop_trigger_def settle_each)

lemma account_stop: "account (stop_trigger s) = account s"
proof -
  define s1 where "s1 = foldl (\<lambda>s (k, b). settle_all b (not_delivered WakeFailed ''batch_not_dispatched''
    (''the runtime stopped before this batch'' @ [CHR 39] @ ''s debounce window closed'')) s) (s\<lparr>et_stopped := True\<rparr>) (et_batches s)"
  have "account (s1\<lparr>et_batches := []\<rparr>) + in_batches s1 = account s1"
    by (simp add: account_def told_def in_batches_def in_runs_def ac_simps)
  moreover have "in_batches s1 = in_batches s" by (simp add: s1_def in_batches_def settle_each)
  moreover have "account s1 = in_batches s + account s" by (simp add: s1_def settle_each in_batches_def)
  ultimately have "account (s1\<lparr>et_batches := []\<rparr>) + in_batches s = account s + in_batches s" by (simp add: ac_simps)
  then show ?thesis by (simp add: stop_trigger_def s1_def)
qed

section \<open>Runs of the trigger\<close>

record history =
  h_accepted :: "nat list"
  h_replaced :: "nat list"
  h_finished :: "(string \<times> ms) list"
  h_now :: ms

definition finished_since :: "history \<Rightarrow> string \<Rightarrow> ms \<Rightarrow> int" where
  "finished_since h k since = int (length (filter (\<lambda>(k', a). k' = k \<and> since \<le> a) (h_finished h)))"

text \<open>
  What the trigger relies on: a run it started has a record, of a start no earlier than the fire, by the time the run is
  answered; and no task declares a ceiling above \<open>M\<close>.
\<close>

definition deps_ok :: "int \<Rightarrow> history \<Rightarrow> event_deps \<Rightarrow> bool" where
  "deps_ok M h d \<longleftrightarrow>
     (\<forall>w u i since n. ed_eventRunsSince d w u i since = Inr n \<longrightarrow> finished_since h (batch_key w u i) since \<le> n) \<and>
     (\<forall>w u i t. ed_task d w u i = Some t \<longrightarrow> max_fires_per_hour t \<le> M)"

inductive trigger_runs :: "int \<Rightarrow> trigger \<Rightarrow> history \<Rightarrow> bool" for M where
  begun: "0 \<le> M \<Longrightarrow> trigger_runs M new_trigger \<lparr>h_accepted = [], h_replaced = [], h_finished = [], h_now = t\<rparr>"
| accepted: "trigger_runs M s h \<Longrightarrow> h_now h \<le> now \<Longrightarrow> deps_ok M h d \<Longrightarrow> refusal_of d r s = None \<Longrightarrow>
    trigger_runs M (snd (offer d fr now r s))
      (h\<lparr>h_accepted := h_accepted h @ [wr_settle r], h_replaced := h_replaced h @ replaced_by r s, h_now := now\<rparr>)"
| refused: "trigger_runs M s h \<Longrightarrow> refusal_of d r s \<noteq> None \<Longrightarrow> trigger_runs M (snd (offer d fr now r s)) h"
| closed: "trigger_runs M s h \<Longrightarrow> h_now h \<le> now \<Longrightarrow> deps_ok M h d \<Longrightarrow>
    trigger_runs M (window_closes d fr now key s) (h\<lparr>h_now := now\<rparr>)"
| answered: "trigger_runs M s h \<Longrightarrow> i < length (et_running s) \<Longrightarrow>
    trigger_runs M (fire_answered i reply s)
      (h\<lparr>h_finished := h_finished h @ [(rf_key (et_running s ! i), rf_startedAt (et_running s ! i))]\<rparr>)"
| stopped: "trigger_runs M s h \<Longrightarrow> trigger_runs M (stop_trigger s) h"

inductive_cases trigger_runs_cases: "trigger_runs M s h"

section \<open>The invariant\<close>

definition batch_ok :: "string \<Rightarrow> pending_batch \<Rightarrow> bool" where
  "batch_ok k b \<longleftrightarrow> k = batch_key (pb_wsId b) (pb_ownerId b) (pb_taskId b) \<and> pb_items b \<noteq> [] \<and>
     jmap_ok (pb_items b) \<and> map fst (pb_settlers b) = map fst (pb_items b) \<and> length (pb_items b) \<le> max_event_batch_items"

definition open_ok :: "pending_batch \<Rightarrow> bool" where
  "open_ok b \<longleftrightarrow> pb_timer b \<noteq> None \<and> length (pb_items b) < max_event_batch_items"

definition flights_ok :: "trigger \<Rightarrow> bool" where
  "flights_ok s \<longleftrightarrow> (\<forall>k. mset (nullish (map_of (et_inFlight s) k) []) =
     mset (map rf_startedAt (filter (\<lambda>f. rf_key f = k) (et_running s))))"

definition starts :: "trigger \<Rightarrow> (string \<times> ms) list" where
  "starts s = map (\<lambda>c. (rc_key c, rc_at c)) (et_runs s)"

definition in_flight_starts :: "trigger \<Rightarrow> (string \<times> ms) list" where
  "in_flight_starts s = map (\<lambda>f. (rf_key f, rf_startedAt f)) (et_running s)"

definition starts_within :: "(string \<times> ms) list \<Rightarrow> string \<Rightarrow> ms \<Rightarrow> ms \<Rightarrow> int" where
  "starts_within xs k from to = int (length (filter (\<lambda>(k', a). k' = k \<and> from \<le> a \<and> a \<le> to) xs))"

definition shape_ok :: "trigger \<Rightarrow> bool" where
  "shape_ok s \<longleftrightarrow> jmap_ok (et_batches s) \<and> (\<forall>(k, b) \<in> set (et_batches s). batch_ok k b \<and> open_ok b) \<and>
     (\<forall>f \<in> set (et_running s). batch_ok (rf_key f) (rf_batch f)) \<and> (et_stopped s \<longrightarrow> et_batches s = [])"

definition starts_ok :: "int \<Rightarrow> trigger \<Rightarrow> history \<Rightarrow> bool" where
  "starts_ok M s h \<longleftrightarrow> flights_ok s \<and> mset (starts s) = mset (in_flight_starts s) + mset (h_finished h) \<and>
     (\<forall>(k, a) \<in> set (starts s). a \<le> h_now h) \<and>
     (\<forall>k t. starts_within (starts s) k (t - fire_window_ms) t \<le> M)"

definition trigger_ok :: "int \<Rightarrow> trigger \<Rightarrow> history \<Rightarrow> bool" where
  "trigger_ok M s h \<longleftrightarrow> shape_ok s \<and> starts_ok M s h \<and> mset (h_accepted h) = account s + mset (h_replaced h)"

text \<open>What a fire leaves: the batch gone, and at most one run started under the ceiling.\<close>

lemma jdelete_absent: "map_of m k = None \<Longrightarrow> jdelete k m = m"
  by (force simp: jdelete_def filter_id_conv map_of_eq_None_iff)

lemma fire_batches: "et_batches (fire d fr now key s) = jdelete key (et_batches s)"
  by (auto simp: fire_def Let_def jdelete_absent split: option.split)

lemma fire_stopped: "et_stopped (fire d fr now key s) = et_stopped s"
  by (auto simp: fire_def Let_def split: option.split)

lemma fire_outcome:
  obtains (idle) "et_running (fire d fr now key s) = et_running s" "et_runs (fire d fr now key s) = et_runs s"
      "et_inFlight (fire d fr now key s) = et_inFlight s"
  | (fired) b t f where "map_of (et_batches s) key = Some b" "ed_task d (pb_wsId b) (pb_ownerId b) (pb_taskId b) = Some t"
      "\<not> ceiling_spent d now b t s" "f = \<lparr>rf_key = key, rf_batch = b, rf_startedAt = now\<rparr>"
      "et_running (fire d fr now key s) = et_running s @ [f]"
      "starts (fire d fr now key s) = starts s @ [(key, now)]"
      "et_inFlight (fire d fr now key s) = jset key (nullish (map_of (et_inFlight s) key) [] @ [now]) (et_inFlight s)"
proof -
  have c: "ceiling_spent d now b t (s\<lparr>et_batches := x\<rparr>) = ceiling_spent d now b t s" for b t x
    by (simp add: ceiling_spent_def Let_def split: sum.split)
  show thesis
  proof (cases "\<exists>b t. map_of (et_batches s) key = Some b \<and> ed_task d (pb_wsId b) (pb_ownerId b) (pb_taskId b) = Some t \<and>
      \<not> ceiling_spent d now b t s \<and> is_event_schedule (t_schedule t) \<and> t_enabled t")
    case True
    then obtain b t where b: "map_of (et_batches s) key = Some b" "ed_task d (pb_wsId b) (pb_ownerId b) (pb_taskId b) = Some t"
      "\<not> ceiling_spent d now b t s" "is_event_schedule (t_schedule t)" "t_enabled t" by blast
    show thesis
      by (rule fired [OF b(1-3) refl]) (use b in \<open>simp_all add: fire_def Let_def c starts_def mark_in_flight_def\<close>)
  next
    case False
    show thesis
    proof (cases "map_of (et_batches s) key")
      case None
      then show thesis by (intro idle) (simp_all add: fire_def)
    next
      case (Some b)
      show thesis
      proof (cases "ed_task d (pb_wsId b) (pb_ownerId b) (pb_taskId b)")
        case None
        then show thesis using Some by (intro idle) (simp_all add: fire_def Let_def)
      next
        case t: (Some t)
        then show thesis using Some False by (intro idle) (auto simp: fire_def Let_def c)
      qed
    qed
  qed
qed

lemma flights_count:
  assumes "flights_ok s" and "mset (starts s) = mset (in_flight_starts s) + mset (h_finished h)"
  shows "int (length (filter (\<lambda>(k', a). k' = k \<and> since \<le> a) (starts s)))
    = int (length (filter (\<lambda>x. since \<le> x) (nullish (map_of (et_inFlight s) k) []))) + finished_since h k since"
proof -
  have "filter_mset (\<lambda>(k', a). k' = k \<and> since \<le> a) (mset (starts s))
      = filter_mset (\<lambda>(k', a). k' = k \<and> since \<le> a) (mset (in_flight_starts s))
        + filter_mset (\<lambda>(k', a). k' = k \<and> since \<le> a) (mset (h_finished h))"
    unfolding assms(2) by simp
  then have n: "length (filter (\<lambda>(k', a). k' = k \<and> since \<le> a) (starts s))
      = length (filter (\<lambda>(k', a). k' = k \<and> since \<le> a) (in_flight_starts s))
        + length (filter (\<lambda>(k', a). k' = k \<and> since \<le> a) (h_finished h))"
    unfolding mset_filter [symmetric] mset_append [symmetric] by (metis length_append mset_eq_length)
  have "filter_mset (\<lambda>x. since \<le> x) (mset (nullish (map_of (et_inFlight s) k) []))
      = filter_mset (\<lambda>x. since \<le> x) (mset (map rf_startedAt (filter (\<lambda>f. rf_key f = k) (et_running s))))"
    using assms(1) by (simp add: flights_ok_def)
  then have "length (filter (\<lambda>x. since \<le> x) (nullish (map_of (et_inFlight s) k) []))
      = length (filter (\<lambda>x. since \<le> x) (map rf_startedAt (filter (\<lambda>f. rf_key f = k) (et_running s))))"
    unfolding mset_filter [symmetric] by (metis mset_eq_length)
  also have "\<dots> = length (filter (\<lambda>(k', a). k' = k \<and> since \<le> a) (in_flight_starts s))"
    by (simp add: in_flight_starts_def filter_map comp_def)
  finally show ?thesis using n by (simp add: finished_since_def)
qed

lemma flights_fire: "flights_ok s \<Longrightarrow> flights_ok (fire d fr now key s)"
  by (rule fire_outcome [of d fr now key s]) (auto simp: flights_ok_def)

lemma flights_answered:
  assumes "flights_ok s" and i: "i < length (et_running s)"
  shows "flights_ok (fire_answered i reply s)"
proof -
  define f where "f = et_running s ! i"
  have run: "et_running s = take i (et_running s) @ f # drop (Suc i) (et_running s)"
    using i by (simp add: f_def id_take_nth_drop)
  have out: "et_running (fire_answered i reply s) = take i (et_running s) @ drop (Suc i) (et_running s)"
    using i by (simp add: fire_answered_def Let_def splice_out_def)
  have fl: "et_inFlight (fire_answered i reply s) = et_inFlight (clear_in_flight (rf_key f) (rf_startedAt f) s)"
    using i by (simp add: fire_answered_def Let_def f_def clear_in_flight_def split: option.split)
  have now: "mset (nullish (map_of (et_inFlight s) k) []) = mset (map rf_startedAt (filter (\<lambda>g. rf_key g = k) (et_running s)))" for k
    using assms(1) by (simp add: flights_ok_def)
  have clear: "mset (nullish (map_of (et_inFlight (clear_in_flight (rf_key f) (rf_startedAt f) s)) k) [])
      = mset (nullish (map_of (et_inFlight s) k) []) - (if rf_key f = k then {#rf_startedAt f#} else {#})" for k
    by (auto simp: clear_in_flight_def Let_def split: option.split) (metis mset_remove1 mset.simps(1))
  have "mset (map rf_startedAt (filter (\<lambda>g. rf_key g = k) (et_running s))) - (if rf_key f = k then {#rf_startedAt f#} else {#})
      = mset (map rf_startedAt (filter (\<lambda>g. rf_key g = k) (take i (et_running s) @ drop (Suc i) (et_running s))))" for k
    by (subst run) simp
  then show ?thesis by (simp add: flights_ok_def fl out clear now del: filter_append)
qed

section \<open>The invariant is kept\<close>

lemma refusal_none:
  "refusal_of d r s = None \<Longrightarrow> \<not> et_stopped s \<and> (\<exists>t. ed_task d (wr_wsId r) (wr_ownerId r) (wr_taskId r) = Some t)"
  by (cases "ed_task d (wr_wsId r) (wr_ownerId r) (wr_taskId r)") (simp_all add: refusal_of_def Let_def split: if_splits)

lemma keys_joined: "map fst m = map fst m' \<Longrightarrow> map fst (jset k v m) = map fst (jset k w m')"
proof (induction m arbitrary: m')
  case (Cons e m)
  then show ?case by (cases e; cases m') auto
qed simp

lemma length_jset: "length (jset k v m) \<le> Suc (length m)"
  by (induction m) auto

lemma jset_ne [simp]: "jset k v m \<noteq> []"
  by (cases m) (auto split: if_splits)

lemma joined_ok:
  assumes "shape_ok s"
  shows "batch_ok (wr_key r) (joined r s)"
proof -
  let ?b = "open_batch r s"
  have "map_of (et_batches s) (wr_key r) = Some b \<Longrightarrow> batch_ok (wr_key r) b \<and> open_ok b" for b
    using assms by (auto simp: shape_ok_def dest!: map_of_SomeD)
  then have b: "wr_key r = batch_key (pb_wsId ?b) (pb_ownerId ?b) (pb_taskId ?b)" "jmap_ok (pb_items ?b)"
    "map fst (pb_settlers ?b) = map fst (pb_items ?b)" "length (pb_items ?b) < max_event_batch_items"
    by (cases "map_of (et_batches s) (wr_key r)"; force simp: open_batch_def wr_key_def batch_ok_def open_ok_def max_event_batch_items_def)+
  moreover have "length (pb_items (joined r s)) \<le> max_event_batch_items"
    using b(4) length_jset [of "item_id (wr_item r)" "wr_item r" "pb_items ?b"] by (simp add: joined_def)
  ultimately show ?thesis using keys_joined [OF b(3)] by (simp add: batch_ok_def joined_def)
qed

lemma shape_fire:
  assumes "jmap_ok (et_batches s)" and "\<And>k b. (k, b) \<in> set (et_batches s) \<Longrightarrow> batch_ok k b \<and> (k \<noteq> key \<longrightarrow> open_ok b)"
    and "\<And>f. f \<in> set (et_running s) \<Longrightarrow> batch_ok (rf_key f) (rf_batch f)" and "et_stopped s \<longrightarrow> et_batches s = []"
  shows "shape_ok (fire d fr now key s)"
proof (rule fire_outcome [of d fr now key s])
  assume "et_running (fire d fr now key s) = et_running s"
  then show ?thesis using assms by (auto simp: shape_ok_def fire_batches fire_stopped jdelete_def jmap_ok_def distinct_map intro: inj_on_subset)
next
  fix b t f
  assume "map_of (et_batches s) key = Some b" "f = \<lparr>rf_key = key, rf_batch = b, rf_startedAt = now\<rparr>"
    "et_running (fire d fr now key s) = et_running s @ [f]"
  moreover have "batch_ok key b" using assms(2) calculation(1) map_of_SomeD by fastforce
  ultimately show ?thesis using assms
    by (auto simp: shape_ok_def fire_batches fire_stopped jdelete_def jmap_ok_def distinct_map intro: inj_on_subset)
qed

lemma shape_offer:
  assumes "shape_ok s" and r: "refusal_of d r s = None"
  shows "shape_ok (snd (offer d fr now r s))"
proof -
  have live: "\<not> et_stopped s" using refusal_none [OF r] by simp
  have j: "batch_ok (wr_key r) (joined r s\<lparr>pb_timer := x\<rparr>)" for x
    using joined_ok [OF assms(1), of r] by (simp add: batch_ok_def)
  have old: "jmap_ok (et_batches s)" "\<And>k b. (k, b) \<in> set (et_batches s) \<Longrightarrow> batch_ok k b \<and> open_ok b"
    "\<And>f. f \<in> set (et_running s) \<Longrightarrow> batch_ok (rf_key f) (rf_batch f)"
    using assms(1) by (auto simp: shape_ok_def)
  show ?thesis
  proof (cases "max_event_batch_items \<le> length (pb_items (joined r s))")
    case True
    have "shape_ok (fire d fr now (wr_key r) (put_batch r None s))"
      by (rule shape_fire) (use old j live in \<open>auto simp: put_batch_def in_set_jset split: if_splits\<close>)
    then show ?thesis using True by (simp add: offer_eq [OF r])
  next
    case False
    have "open_ok (joined r s\<lparr>pb_timer := armed d r s\<rparr>)"
      using False refusal_none [OF r] by (auto simp: open_ok_def armed_def split: option.splits)
    then show ?thesis using False old j live
      by (auto simp: offer_eq [OF r] shape_ok_def put_batch_def in_set_jset split: if_splits)
  qed
qed

lemma shape_answered: "shape_ok s \<Longrightarrow> shape_ok (fire_answered i reply s)"
  using set_splice_out_subset [of i "et_running s"] by (auto simp: fire_answered_def Let_def shape_ok_def)

lemma shape_stop: "shape_ok s \<Longrightarrow> shape_ok (stop_trigger s)"
  by (auto simp: shape_ok_def)

lemma starts_within_snoc:
  "starts_within (xs @ [(k', a)]) k from to = starts_within xs k from to + (if k' = k \<and> from \<le> a \<and> a \<le> to then 1 else 0)"
  by (simp add: starts_within_def)

lemma starts_within_le:
  "since \<le> from \<Longrightarrow> starts_within xs k from to \<le> int (length (filter (\<lambda>(k', a). k' = k \<and> since \<le> a) xs))"
  by (induction xs) (auto simp: starts_within_def)

lemma mset_map_splice_out:
  "i < length xs \<Longrightarrow> mset (map f xs) = add_mset (f (xs ! i)) (mset (map f (splice_out i xs)))"
  using mset_splice_out [of i xs] by simp

lemma starts_fire:
  assumes s: "starts_ok M s h" and d: "deps_ok M h d" and now: "h_now h \<le> now"
    and keys: "\<And>b. map_of (et_batches s) key = Some b \<Longrightarrow> key = batch_key (pb_wsId b) (pb_ownerId b) (pb_taskId b)"
  shows "starts_ok M (fire d fr now key s) (h\<lparr>h_now := now\<rparr>)"
proof (rule fire_outcome [of d fr now key s])
  assume "et_running (fire d fr now key s) = et_running s" "et_runs (fire d fr now key s) = et_runs s"
    "et_inFlight (fire d fr now key s) = et_inFlight s"
  then show ?thesis using s now
    by (force simp: starts_ok_def flights_ok_def starts_def in_flight_starts_def)
next
  fix b t f
  assume b: "map_of (et_batches s) key = Some b" and t: "ed_task d (pb_wsId b) (pb_ownerId b) (pb_taskId b) = Some t"
    and room: "\<not> ceiling_spent d now b t s" and f: "f = \<lparr>rf_key = key, rf_batch = b, rf_startedAt = now\<rparr>"
    and out: "et_running (fire d fr now key s) = et_running s @ [f]" "starts (fire d fr now key s) = starts s @ [(key, now)]"
  have past: "a \<le> now" if "(k, a) \<in> set (starts s)" for k a using s now that by (force simp: starts_ok_def)
  define since where "since = now - fire_window_ms"
  have "int (length (filter (\<lambda>(k', a). k' = key \<and> since \<le> a) (starts s))) < M"
  proof -
    obtain n where n: "ed_eventRunsSince d (pb_wsId b) (pb_ownerId b) (pb_taskId b) since = Inr n"
      "int (length (filter (\<lambda>x. since \<le> x) (nullish (map_of (et_inFlight s) key) []))) + n < max_fires_per_hour t"
      using room keys [OF b] by (auto simp: ceiling_spent_def Let_def since_def split: sum.splits)
    have "finished_since h key since \<le> n" "max_fires_per_hour t \<le> M"
      using d n(1) t keys [OF b] by (auto simp: deps_ok_def)
    then show ?thesis using n(2) flights_count [of s h key since] s by (simp add: starts_ok_def)
  qed
  moreover have "since \<le> t' - fire_window_ms" if "now \<le> t'" for t' using that by (simp add: since_def)
  ultimately have room_left: "starts_within (starts s) key (t' - fire_window_ms) t' + 1 \<le> M" if "now \<le> t'" for t'
    using that starts_within_le [of since "t' - fire_window_ms" "starts s" key t'] by fastforce
  have "starts_within (starts s @ [(key, now)]) k (t' - fire_window_ms) t' \<le> M" for k t'
    using s room_left by (auto simp: starts_within_snoc starts_ok_def)
  moreover have "flights_ok (fire d fr now key s)" using s by (intro flights_fire) (simp add: starts_ok_def)
  ultimately show ?thesis using s past now
    by (auto simp: starts_ok_def out in_flight_starts_def f)
qed

lemma starts_later: "starts_ok M s h \<Longrightarrow> h_now h \<le> now \<Longrightarrow> starts_ok M s (h\<lparr>h_now := now\<rparr>)"
  by (auto simp: starts_ok_def intro: order_trans)

lemma starts_answered:
  assumes s: "starts_ok M s h" and i: "i < length (et_running s)"
  shows "starts_ok M (fire_answered i reply s)
    (h\<lparr>h_finished := h_finished h @ [(rf_key (et_running s ! i), rf_startedAt (et_running s ! i))]\<rparr>)"
proof -
  have "starts (fire_answered i reply s) = starts s"
    using i by (simp add: starts_def fire_answered_def Let_def)
  moreover have "mset (in_flight_starts s) = add_mset (rf_key (et_running s ! i), rf_startedAt (et_running s ! i))
      (mset (in_flight_starts (fire_answered i reply s)))"
    using mset_map_splice_out [OF i, of "\<lambda>f. (rf_key f, rf_startedAt f)"] i
    by (simp add: fire_answered_def Let_def in_flight_starts_def del: mset_map)
  moreover have "flights_ok (fire_answered i reply s)"
    using s i by (intro flights_answered) (simp_all add: starts_ok_def)
  ultimately show ?thesis using s by (auto simp: starts_ok_def)
qed

theorem trigger_runs_ok: "trigger_runs M s h \<Longrightarrow> trigger_ok M s h"
proof (induction rule: trigger_runs.induct)
  case (begun t)
  then show ?case
    by (simp add: trigger_ok_def shape_ok_def starts_ok_def new_trigger_def flights_ok_def starts_def in_flight_starts_def
        starts_within_def account_def told_def in_batches_def in_runs_def)
next
  case (accepted s h now d r fr)
  then have j: "jmap_ok (et_batches s)" "shape_ok s" "starts_ok M s h" by (simp_all add: trigger_ok_def shape_ok_def)
  have st: "starts_ok M (put_batch r x s) h" for x
    using j(3) by (simp add: starts_ok_def flights_ok_def put_batch_def starts_def in_flight_starts_def)
  have own: "wr_key r = batch_key (pb_wsId b) (pb_ownerId b) (pb_taskId b)"
    if "map_of (et_batches (put_batch r x s)) (wr_key r) = Some b" for b x
    using that joined_ok [OF j(2), of r] by (auto simp: put_batch_def batch_ok_def)
  have "starts_ok M (fire d fr now (wr_key r) (put_batch r None s)) (h\<lparr>h_now := now\<rparr>)"
    by (rule starts_fire [OF st accepted(3,2) own])
  moreover have "starts_ok M (put_batch r x s) (h\<lparr>h_now := now\<rparr>)" for x
    by (rule starts_later [OF st accepted(2)])
  ultimately have "starts_ok M (snd (offer d fr now r s)) (h\<lparr>h_now := now\<rparr>)"
    by (simp add: offer_eq [OF accepted(4)])
  then have "starts_ok M (snd (offer d fr now r s))
      (h\<lparr>h_accepted := h_accepted h @ [wr_settle r], h_replaced := h_replaced h @ replaced_by r s, h_now := now\<rparr>)"
    by (simp add: starts_ok_def)
  moreover have "shape_ok (snd (offer d fr now r s))" using accepted j by (intro shape_offer) simp_all
  ultimately show ?case
    using account_offer [OF j(1) accepted(4), of fr now] accepted.IH by (simp add: trigger_ok_def ac_simps)
next
  case (refused s h d r fr now)
  then show ?case by (auto simp: offer_def)
next
  case (closed s h now d fr key)
  then have j: "shape_ok s" "starts_ok M s h" "mset (h_accepted h) = account s + mset (h_replaced h)"
    by (simp_all add: trigger_ok_def)
  have k: "key = batch_key (pb_wsId b) (pb_ownerId b) (pb_taskId b)" if "map_of (et_batches s) key = Some b" for b
    using j(1) that by (auto simp: shape_ok_def batch_ok_def dest!: map_of_SomeD)
  have "shape_ok (fire d fr now key s)" using j(1) by (intro shape_fire) (auto simp: shape_ok_def)
  moreover have "starts_ok M (fire d fr now key s) (h\<lparr>h_now := now\<rparr>)"
    by (rule starts_fire [OF j(2) closed(3,2) k])
  moreover have "starts_ok M s (h\<lparr>h_now := now\<rparr>)" by (rule starts_later [OF j(2) closed(2)])
  moreover have "account (fire d fr now key s) = account s" using j(1) by (intro account_fire) (simp add: shape_ok_def)
  ultimately show ?case using j by (simp add: trigger_ok_def window_closes_def split: option.split)
next
  case (answered s h i reply)
  then show ?case by (simp add: trigger_ok_def shape_answered starts_answered account_answered)
next
  case (stopped s h)
  then show ?case
    by (simp add: trigger_ok_def shape_stop account_stop) (simp add: starts_ok_def flights_ok_def starts_def in_flight_starts_def)
qed

section \<open>What the trigger promises\<close>

text \<open>
  C19. Whatever comes in which order, every accepted item has exactly one of four places: told its outcome, in an open batch,
  in a run under way, or replaced by a later delivery of the same item in the same batch. A batch left open is armed
  and below the cap, so when nothing is open or under way every item not replaced has been told once.
\<close>

theorem every_item_told_once:
  assumes "trigger_runs M s h"
  shows "mset (h_accepted h) = mset (map fst (et_settled s)) + in_batches s + in_runs s + mset (h_replaced h) \<and>
    (\<forall>(k, b) \<in> set (et_batches s). pb_timer b \<noteq> None \<and> length (pb_items b) < max_event_batch_items \<and>
       map fst (pb_settlers b) = map fst (pb_items b)) \<and>
    (et_batches s = [] \<and> et_running s = [] \<longrightarrow> mset (h_accepted h) = mset (map fst (et_settled s) @ h_replaced h))"
  using trigger_runs_ok [OF assms]
  by (auto simp: trigger_ok_def shape_ok_def batch_ok_def open_ok_def account_def told_def in_batches_def in_runs_def)


text \<open>After a stop nothing is accepted and nothing waits for a window.\<close>

lemma stopped_accepts_nothing:
  assumes "trigger_runs M s h" and "et_stopped s"
  shows "et_batches s = [] \<and> fst (offer d fr now r s) =
    Refused (not_delivered WakeFailed ''batch_not_dispatched'' ''the runtime is shutting down'')"
  using trigger_runs_ok [OF assms(1)] assms(2)
  by (simp add: trigger_ok_def shape_ok_def offer_def refusal_of_def Let_def)

section \<open>The block a run opens with\<close>

lemma sublist_join: "x \<in> set xs \<Longrightarrow> sublist x (join sep xs)"
proof (induction sep xs rule: join.induct)
  case (3 sep s t ts)
  show ?case
  proof (cases "x = s")
    case False
    then have "sublist x (join sep (t # ts))" using 3 by auto
    then show ?thesis by (simp add: sublist_append)
  qed simp
qed simp_all

lemma quote_mark: "sublist ''</event>'' (quote (a @ ''</event>'' @ b))"
proof -
  have "concat (map escape_char ''</event>'') = ''</event>''" by code_simp
  then have "quote (a @ ''</event>'' @ b) = ([CHR 34] @ concat (map escape_char a)) @ ''</event>'' @ concat (map escape_char b) @ [CHR 34]"
    by (simp only: quote_def map_append concat_append append_assoc)
  then show ?thesis by (metis sublist_appendI)
qed

text \<open>A title may close the block it is quoted in: its marks are written as they are.\<close>

theorem title_closes_event_block:
  assumes "item \<in> set items" and "p_title (read_presentation (n_envelope item)) = a @ ''</event>'' @ b"
  shows "\<exists>u v. render_event_block fr items = u @ ''</event>'' @ v @ newline @ ''</event>''"
proof -
  have "sublist (quote (a @ ''</event>'' @ b)) (pretty fr 2 (event_row item))"
  proof -
    define entry where "entry = (\<lambda>(k, v). indent 4 @ quote k @ '': '' @ pretty fr 4 v)"
    obtain fs where fs: "event_row item = JObj fs" "(''title'', JStr (a @ ''</event>'' @ b)) \<in> set fs"
      using assms(2) by (simp add: event_row_def Let_def)
    have "sublist (entry (''title'', JStr (a @ ''</event>'' @ b))) (join ('','' @ newline) (map entry fs))"
      using fs(2) by (intro sublist_join) (auto simp: image_iff)
    moreover have "sublist (quote (a @ ''</event>'' @ b)) (entry (''title'', JStr (a @ ''</event>'' @ b)))"
    proof -
      have "entry (''title'', JStr (a @ ''</event>'' @ b)) = (indent 4 @ quote ''title'' @ '': '') @ quote (a @ ''</event>'' @ b)"
        by (simp add: entry_def)
      then show ?thesis by (metis sublist_append_leftI)
    qed
    ultimately have "sublist (quote (a @ ''</event>'' @ b)) (join ('','' @ newline) (map entry fs))"
      by (meson sublist_order.order_trans)
    moreover have "pretty fr 2 (event_row item) =
        ([CHR 0x7B] @ newline) @ join ('','' @ newline) (map entry fs) @ newline @ indent 2 @ [CHR 0x7D]"
      using fs by (auto simp: entry_def)
    ultimately show ?thesis by (metis sublist_append)
  qed
  moreover have "sublist (pretty fr 2 (event_row item)) (pretty fr 0 (JArr (map event_row items)))"
  proof -
    define entry where "entry = (\<lambda>j. indent 2 @ pretty fr 2 j)"
    have "sublist (entry (event_row item)) (join ('','' @ newline) (map entry (map event_row items)))"
      using assms(1) by (intro sublist_join) auto
    moreover have "sublist (pretty fr 2 (event_row item)) (entry (event_row item))" by (simp add: entry_def)
    ultimately have "sublist (pretty fr 2 (event_row item)) (join ('','' @ newline) (map entry (map event_row items)))"
      by (meson sublist_order.order_trans)
    moreover have "pretty fr 0 (JArr (map event_row items)) =
        (''['' @ newline) @ join ('','' @ newline) (map entry (map event_row items)) @ newline @ indent 0 @ '']''"
      using assms(1) by (auto simp: entry_def comp_def numeral_2_eq_2)
    ultimately show ?thesis by (metis sublist_append)
  qed
  ultimately have "sublist ''</event>'' (pretty fr 0 (JArr (map event_row items)))"
    using quote_mark by (meson sublist_order.order_trans)
  then obtain u v where uv: "pretty fr 0 (JArr (map event_row items)) = u @ ''</event>'' @ v" by (auto simp: sublist_def)
  have "\<exists>w. render_event_block fr items = w @ pretty fr 0 (JArr (map event_row items)) @ newline @ ''</event>''"
    unfolding render_event_block_def Let_def by (simp only: join.simps append_assoc [symmetric]) blast
  then show ?thesis unfolding uv by (metis append_assoc)
qed

section \<open>An instance\<close>

definition demo_event_task :: task where
  "demo_event_task = demo_task\<lparr>t_enabled := True, t_schedule := Some \<lparr>sched_type = EventSchedule, sched_expression = None,
     sched_timezone = None, sched_at = None, sched_intervalMs = None, sched_match = None, sched_debounceMs = None,
     sched_maxFiresPerHour = None\<rparr>\<rparr>"

definition demo_event_deps :: event_deps where
  "demo_event_deps = \<lparr>ed_task = \<lambda>w u i. if i = ''t'' then Some demo_event_task else None, ed_eventRunsSince = \<lambda>w u i since. Inr 0\<rparr>"

definition demo_item :: notification where
  "demo_item = \<lparr>n_envelope = \<lparr>env_eventId = ''1'', env_name = ''n'', env_timestamp = ''z'', env_data = [], env_cursor = None,
     env_meta = []\<rparr>, n_source = ''s'', n_workspaceId = ''w'', n_receivedAt = ''z'', n_seq = 1, n_effectiveLevel = None,
     n_readAt = None, n_readBy = None, n_deliveries = []\<rparr>"

definition demo_request :: "nat \<Rightarrow> wake_request" where
  "demo_request k = \<lparr>wr_wsId = ''w'', wr_taskId = ''t'', wr_ownerId = ''u'', wr_item = demo_item, wr_settle = k\<rparr>"

definition demo_joined :: trigger where
  "demo_joined = snd (offer demo_event_deps (\<lambda>_. []) 5 (demo_request 8) (snd (offer demo_event_deps (\<lambda>_. []) 0 (demo_request 7) new_trigger)))"

definition demo_answered :: trigger where
  "demo_answered = fire_answered 0 (ReplyRun \<lparr>ro_id = ''r'', ro_status = ''success'', ro_error = None\<rparr>)
     (window_closes demo_event_deps (\<lambda>_. []) 30000 ''w/u/t'' demo_joined)"

lemma demo_deps_ok: "h_finished h = [] \<Longrightarrow> deps_ok 12 h demo_event_deps"
proof -
  have "max_fires_per_hour demo_event_task = 12" by code_simp
  then show "h_finished h = [] \<Longrightarrow> deps_ok 12 h demo_event_deps"
    by (simp add: deps_ok_def demo_event_deps_def finished_since_def)
qed

lemma demo_steps:
  "refusal_of demo_event_deps (demo_request 7) new_trigger = None"
  "refusal_of demo_event_deps (demo_request 8) (snd (offer demo_event_deps (\<lambda>_. []) 0 (demo_request 7) new_trigger)) = None"
  "replaced_by (demo_request 7) new_trigger = []"
  "replaced_by (demo_request 8) (snd (offer demo_event_deps (\<lambda>_. []) 0 (demo_request 7) new_trigger)) = [7]"
  "length (et_running (window_closes demo_event_deps (\<lambda>_. []) 30000 ''w/u/t'' demo_joined)) = 1"
  by code_simp+

lemma demo_end:
  "et_settled demo_answered = [(8, \<lparr>es_outcome = WakeDelivered, es_classification = None, es_reason = None, es_runId = Some ''r''\<rparr>)]"
  "et_batches demo_answered = []" "et_running demo_answered = []" "length (et_runs demo_answered) = 1"
  by code_simp+

lemma demo_runs: "\<exists>h. trigger_runs 12 demo_answered h \<and> h_accepted h = [7, 8] \<and> h_replaced h = [7]"
proof -
  let ?fr = "\<lambda>_. [] :: string"
  define h0 where "h0 = \<lparr>h_accepted = [], h_replaced = [], h_finished = [], h_now = 0\<rparr>"
  define h2 where "h2 = \<lparr>h_accepted = [7::nat, 8], h_replaced = [7::nat], h_finished = [], h_now = 5\<rparr>"
  have "trigger_runs 12 new_trigger h0" unfolding h0_def by (rule begun) simp
  from accepted [OF this _ demo_deps_ok demo_steps(1), of 0 ?fr]
  have "trigger_runs 12 (snd (offer demo_event_deps ?fr 0 (demo_request 7) new_trigger)) (h0\<lparr>h_accepted := [7]\<rparr>)"
    by (simp add: h0_def demo_steps(3)) (simp add: demo_request_def)
  from accepted [OF this _ demo_deps_ok demo_steps(2), of 5 ?fr]
  have "trigger_runs 12 demo_joined h2"
    by (simp add: h0_def h2_def demo_steps(4) demo_joined_def) (simp add: demo_request_def)
  from closed [OF this _ demo_deps_ok, of 30000 ?fr "''w/u/t''"]
  have "trigger_runs 12 (window_closes demo_event_deps ?fr 30000 ''w/u/t'' demo_joined) (h2\<lparr>h_now := 30000\<rparr>)"
    by (simp add: h2_def)
  from answered [OF this, of 0]
  obtain fs where "trigger_runs 12 demo_answered (h2\<lparr>h_now := 30000, h_finished := fs\<rparr>)"
    unfolding demo_answered_def demo_steps(5) using zero_less_one by blast
  then show ?thesis by (intro exI [of _ "h2\<lparr>h_now := 30000, h_finished := fs\<rparr>"]) (simp add: h2_def)
qed

theorem every_item_told_once_witness:
  "mset [7::nat, 8] = mset (map fst (et_settled demo_answered) @ [7])"
proof -
  obtain h where h: "trigger_runs 12 demo_answered h" "h_accepted h = [7, 8]" "h_replaced h = [7]" using demo_runs by blast
  show ?thesis using every_item_told_once [OF h(1)] h(2,3) demo_end(2,3) by (simp add: in_batches_def in_runs_def)
qed


theorem title_closes_event_block_witness:
  "\<exists>u v. render_event_block (\<lambda>_. []) [demo_item\<lparr>n_envelope := (n_envelope demo_item)\<lparr>env_name := ''</event>''\<rparr>\<rparr>]
     = u @ ''</event>'' @ v @ newline @ ''</event>''"
proof -
  have "p_title (read_presentation (n_envelope (demo_item\<lparr>n_envelope := (n_envelope demo_item)\<lparr>env_name := ''</event>''\<rparr>\<rparr>)))
      = [] @ ''</event>'' @ []"
    by (simp add: read_presentation_def demo_item_def jprop_def str_prop_def Let_def)
  from title_closes_event_block [OF _ this] show ?thesis by simp
qed

end
