(* ===== verification/Health_Monitor.thy ===== *)
theory Health_Monitor
  imports Complex_Main Prelude
begin

text \<open>
  The health monitor of the live sources (\<open>src/tools/health-monitor.ts\<close>): a periodic check restarts a source that is down,
  with a growing delay, backs off to a slow probe when a burst of restarts has failed, and leaves alone a source that was
  torn down or waits for its user.

  A source object is a number; what the monitor reads of it at a step is a \<open>source_view\<close>. Records are mutable objects that an
  attempt under way still holds after the map has dropped them, so they live in a heap and the map holds their
  addresses. An attempt's sleep, its call of \<open>restart\<close> and that call's answer are steps of their own. Events and calls of
  \<open>restart\<close> are logs in the state.
\<close>

section \<open>Data\<close>

datatype liveness = Healthy | Restarting | Cooldown | AwaitingReconnect | Dead

record source_view =
  sv_name :: string
  sv_alive :: bool
  sv_stopped :: bool
  sv_uptime :: "ms option"
  sv_remote :: bool
  sv_awaiting :: bool

record hm_world =
  hw_sources :: "nat list"
  hw_view :: "nat \<Rightarrow> source_view"
  hw_now :: ms

record connector_health =
  ch_name :: string
  ch_state :: liveness
  ch_uptime :: "ms option"
  ch_restartCount :: nat

record connector_record =
  cn_source :: nat
  cn_state :: liveness
  cn_restartCount :: nat
  cn_cooldownUntil :: "ms option"

record hm_options =
  ho_checkIntervalMs :: "ms option"
  ho_baseDelayMs :: "ms option"
  ho_cooldownMs :: "ms option"

definition max_restarts :: nat where "max_restarts = 5"
definition default_base_delay_ms :: ms where "default_base_delay_ms = 1000"
definition default_check_interval_ms :: ms where "default_check_interval_ms = 30000"
definition default_cooldown_ms :: ms where "default_cooldown_ms = 300000"

record hm_config =
  hc_checkInterval :: ms
  hc_baseDelay :: ms
  hc_cooldown :: ms

definition hm_config_of :: "hm_options \<Rightarrow> hm_config" where
  "hm_config_of o' = \<lparr> hc_checkInterval = nullish (ho_checkIntervalMs o') default_check_interval_ms,
     hc_baseDelay = nullish (ho_baseDelayMs o') default_base_delay_ms,
     hc_cooldown = nullish (ho_cooldownMs o') default_cooldown_ms \<rparr>"

datatype health_event =
    EvCrashed
  | EvCooldown ms
  | EvRestarting nat ms
  | EvRecovered

record health_entry =
  he_source :: string
  he_event :: health_event
  he_remote :: bool

text \<open>An attempt: asleep for its delay, or waiting for the answer of \<open>restart\<close>.\<close>

record restart_attempt =
  ra_record :: nat
  ra_source :: nat
  ra_remote :: bool
  ra_delay :: ms
  ra_asleep :: bool

record monitor =
  hm_records :: "(nat \<times> nat) list"
  hm_heap :: "connector_record list"
  hm_timer :: bool
  hm_attempts :: "restart_attempt list"
  hm_events :: "health_entry list"
  hm_restarted :: "nat list"

section \<open>One record\<close>

definition seed_record :: "source_view \<Rightarrow> nat \<Rightarrow> connector_record" where
  "seed_record v src = \<lparr> cn_source = src,
     cn_state = (if sv_awaiting v then AwaitingReconnect else if sv_alive v then Healthy else Restarting),
     cn_restartCount = 0, cn_cooldownUntil = None \<rparr>"

definition reset_backoff_if_recovered :: "hm_config \<Rightarrow> source_view \<Rightarrow> connector_record \<Rightarrow> connector_record" where
  "reset_backoff_if_recovered c v r =
     (if cn_restartCount r = 0 then r
      else case sv_uptime v of
        None \<Rightarrow> r
      | Some up \<Rightarrow> if hc_checkInterval c \<le> up then r\<lparr> cn_restartCount := 0 \<rparr> else r)"

text \<open>
  \<open>checkOne\<close> up to the sleep of \<open>attemptRestart\<close>: the record, the events, and the delay of the attempt it began.
\<close>

definition check_record :: "hm_config \<Rightarrow> source_view \<Rightarrow> ms \<Rightarrow> connector_record \<Rightarrow> connector_record \<times> health_event list \<times> ms option" where
  "check_record c v now r =
     (if cn_state r = Dead then (r, [], None)
      else if sv_awaiting v then (r\<lparr> cn_state := AwaitingReconnect \<rparr>, [], None)
      else if sv_alive v then (reset_backoff_if_recovered c v (r\<lparr> cn_state := Healthy, cn_cooldownUntil := None \<rparr>), [], None)
      else if sv_stopped v then (r\<lparr> cn_state := Dead \<rparr>, [], None)
      else if (case cn_cooldownUntil r of None \<Rightarrow> False | Some u \<Rightarrow> now < u) then (r, [], None)
      else let r1 = r\<lparr> cn_cooldownUntil := None \<rparr>
           in if max_restarts \<le> cn_restartCount r1
              then (r1\<lparr> cn_state := Cooldown, cn_cooldownUntil := Some (now + hc_cooldown c), cn_restartCount := 0 \<rparr>,
                    [EvCrashed, EvCooldown (hc_cooldown c)], None)
              else let delay = hc_baseDelay c * 2 ^ cn_restartCount r1
                   in (r1\<lparr> cn_state := Restarting, cn_restartCount := cn_restartCount r1 + 1 \<rparr>,
                       [EvCrashed, EvRestarting (cn_restartCount r1 + 1) delay], Some delay))"

section \<open>The monitor\<close>

definition entry :: "source_view \<Rightarrow> health_event \<Rightarrow> health_entry" where
  "entry v e = \<lparr> he_source = sv_name v, he_event = e, he_remote = sv_remote v \<rparr>"

text \<open>The rebuilt map reads the old one; a source it does not hold gets a record of its own.\<close>

definition sync_one :: "hm_world \<Rightarrow> (nat \<times> nat) list \<Rightarrow> nat \<Rightarrow> (nat \<times> nat) list \<times> connector_record list \<Rightarrow> (nat \<times> nat) list \<times> connector_record list" where
  "sync_one w old src acc =
     (case map_of old src of
        Some rid \<Rightarrow> (jset src rid (fst acc), snd acc)
      | None \<Rightarrow> (jset src (length (snd acc)) (fst acc), snd acc @ [seed_record (hw_view w src) src]))"

definition sync_records :: "hm_world \<Rightarrow> monitor \<Rightarrow> monitor" where
  "sync_records w m =
     (let (recs, heap) = fold (sync_one w (hm_records m)) (hw_sources w) ([], hm_heap m)
      in m\<lparr> hm_records := recs, hm_heap := heap \<rparr>)"

definition new_monitor :: "hm_world \<Rightarrow> monitor" where
  "new_monitor w = sync_records w \<lparr> hm_records = [], hm_heap = [], hm_timer = False, hm_attempts = [], hm_events = [], hm_restarted = [] \<rparr>"

definition start_monitor :: "monitor \<Rightarrow> monitor" where
  "start_monitor m = (if hm_timer m then m else m\<lparr> hm_timer := True \<rparr>)"

definition stop_monitor :: "monitor \<Rightarrow> monitor" where
  "stop_monitor m = (if hm_timer m then m\<lparr> hm_timer := False \<rparr> else m)"

definition check_one :: "hm_config \<Rightarrow> hm_world \<Rightarrow> nat \<Rightarrow> monitor \<Rightarrow> monitor" where
  "check_one c w rid m =
     (let r = hm_heap m ! rid; v = hw_view w (cn_source r); out = check_record c v (hw_now w) r
      in m\<lparr> hm_heap := (hm_heap m)[rid := fst out],
            hm_events := hm_events m @ map (entry v) (fst (snd out)),
            hm_attempts := hm_attempts m @
              (case snd (snd out) of
                 None \<Rightarrow> []
               | Some d \<Rightarrow> [\<lparr> ra_record = rid, ra_source = cn_source r, ra_remote = sv_remote v, ra_delay = d, ra_asleep = True \<rparr>]) \<rparr>)"

definition check :: "hm_config \<Rightarrow> hm_world \<Rightarrow> monitor \<Rightarrow> monitor" where
  "check c w m = (let m1 = sync_records w m in fold (check_one c w) (map snd (hm_records m1)) m1)"

definition get_status :: "hm_world \<Rightarrow> monitor \<Rightarrow> connector_health list \<times> monitor" where
  "get_status w m =
     (let m1 = sync_records w m
      in (map (\<lambda>(src, rid). let r = hm_heap m1 ! rid; v = hw_view w (cn_source r) in
                \<lparr> ch_name = sv_name v,
                   ch_state = (if cn_state r \<noteq> Dead \<and> sv_awaiting v then AwaitingReconnect else cn_state r),
                   ch_uptime = sv_uptime v, ch_restartCount = cn_restartCount r \<rparr>) (hm_records m1), m1))"

text \<open>The delay of an attempt is over: it calls the source's \<open>restart\<close>, whatever became of the source meanwhile.\<close>

definition attempt_wakes :: "nat \<Rightarrow> monitor \<Rightarrow> monitor" where
  "attempt_wakes i m =
     (if i < length (hm_attempts m) \<and> ra_asleep (hm_attempts m ! i)
      then m\<lparr> hm_attempts := (hm_attempts m)[i := (hm_attempts m ! i)\<lparr> ra_asleep := False \<rparr>],
              hm_restarted := hm_restarted m @ [ra_source (hm_attempts m ! i)] \<rparr>
      else m)"

text \<open>The call of \<open>restart\<close> has answered.\<close>

definition attempt_answered :: "hm_world \<Rightarrow> nat \<Rightarrow> bool \<Rightarrow> monitor \<Rightarrow> monitor" where
  "attempt_answered w i ok m =
     (if i < length (hm_attempts m) \<and> \<not> ra_asleep (hm_attempts m ! i)
      then let a = hm_attempts m ! i; r = hm_heap m ! ra_record a
           in m\<lparr> hm_attempts := splice_out i (hm_attempts m),
                 hm_heap := (hm_heap m)[ra_record a := r\<lparr> cn_state := (if ok then Healthy else Restarting) \<rparr>],
                 hm_events := hm_events m @
                   (if ok then [\<lparr> he_source = sv_name (hw_view w (ra_source a)), he_event = EvRecovered, he_remote = ra_remote a \<rparr>]
                    else []) \<rparr>
      else m)"

section \<open>Bursts of restarts\<close>

text \<open>The times at which checks of a source that stays down, not torn down and not waiting, begin an attempt.\<close>

fun attempt_times :: "hm_config \<Rightarrow> source_view \<Rightarrow> connector_record \<Rightarrow> ms list \<Rightarrow> ms list" where
  "attempt_times c v r [] = []"
| "attempt_times c v r (t # ts) =
     (case check_record c v t r of (r', _, None) \<Rightarrow> attempt_times c v r' ts | (r', _, Some _) \<Rightarrow> t # attempt_times c v r' ts)"

definition record_ok :: "connector_record \<Rightarrow> bool" where
  "record_ok r \<longleftrightarrow> cn_restartCount r \<le> max_restarts \<and> (cn_cooldownUntil r \<noteq> None \<longrightarrow> cn_restartCount r = 0)"

definition down :: "source_view \<Rightarrow> bool" where
  "down v \<longleftrightarrow> \<not> sv_alive v \<and> \<not> sv_stopped v \<and> \<not> sv_awaiting v"

lemma record_ok_seed [simp]: "record_ok (seed_record v src)"
  by (simp add: record_ok_def seed_record_def)

lemma record_ok_check: "record_ok r \<Longrightarrow> record_ok (fst (check_record c v now r))"
  by (auto simp: record_ok_def check_record_def reset_backoff_if_recovered_def Let_def max_restarts_def
      split: option.split)

text \<open>What a check does with a source that is down.\<close>

lemma check_record_down:
  assumes "down v" "cn_state r \<noteq> Dead"
  shows "check_record c v now r =
    (case cn_cooldownUntil r of
       Some u \<Rightarrow> if now < u then (r, [], None) else
         (if max_restarts \<le> cn_restartCount r
          then (r\<lparr> cn_state := Cooldown, cn_cooldownUntil := Some (now + hc_cooldown c), cn_restartCount := 0 \<rparr>,
                [EvCrashed, EvCooldown (hc_cooldown c)], None)
          else (r\<lparr> cn_state := Restarting, cn_restartCount := cn_restartCount r + 1, cn_cooldownUntil := None \<rparr>,
                [EvCrashed, EvRestarting (cn_restartCount r + 1) (hc_baseDelay c * 2 ^ cn_restartCount r)],
                Some (hc_baseDelay c * 2 ^ cn_restartCount r)))
     | None \<Rightarrow>
         (if max_restarts \<le> cn_restartCount r
          then (r\<lparr> cn_state := Cooldown, cn_cooldownUntil := Some (now + hc_cooldown c), cn_restartCount := 0 \<rparr>,
                [EvCrashed, EvCooldown (hc_cooldown c)], None)
          else (r\<lparr> cn_state := Restarting, cn_restartCount := cn_restartCount r + 1, cn_cooldownUntil := None \<rparr>,
                [EvCrashed, EvRestarting (cn_restartCount r + 1) (hc_baseDelay c * 2 ^ cn_restartCount r)],
                Some (hc_baseDelay c * 2 ^ cn_restartCount r))))"
  using assms by (auto simp: check_record_def down_def Let_def split: option.split)

definition in_window :: "ms \<Rightarrow> ms \<Rightarrow> ms list \<Rightarrow> nat" where
  "in_window a len ts = length (filter (\<lambda>t. a \<le> t \<and> t < a + len) ts)"

lemma in_window_simps [simp]:
  "in_window a len [] = 0"
  "in_window a len (t # ts) = (if a \<le> t \<and> t < a + len then Suc (in_window a len ts) else in_window a len ts)"
  by (simp_all add: in_window_def)

lemma attempt_times_after:
  "sorted (t # ts) \<Longrightarrow> \<forall>x \<in> set (attempt_times c v r ts). t \<le> x"
proof (induction ts arbitrary: r)
  case (Cons u us)
  have "sorted (t # us)" using Cons.prems by auto
  then show ?case using Cons by (auto split: prod.split option.split)
qed simp

lemma in_window_past: "\<forall>x \<in> set ts. a + len \<le> x \<Longrightarrow> in_window a len ts = 0"
  by (auto simp: in_window_def filter_empty_conv)

lemma burst_from_start:
  assumes "down v" "record_ok r" "cn_state r \<noteq> Dead" "sorted (a # ts)"
  shows "(cn_cooldownUntil r = None \<longrightarrow> in_window a (hc_cooldown c) (attempt_times c v r ts) \<le> max_restarts - cn_restartCount r) \<and>
    (\<forall>u. cn_cooldownUntil r = Some u \<longrightarrow> a + hc_cooldown c \<le> u \<longrightarrow> in_window a (hc_cooldown c) (attempt_times c v r ts) = 0)"
  using assms(2-)
proof (induction ts arbitrary: r)
  case (Cons t ts)
  have t: "sorted (a # ts)" "a \<le> t" "sorted (t # ts)" using Cons.prems(3) by auto
  note ok = record_ok_check [OF Cons.prems(1), of c v t]
  note step = check_record_down [OF assms(1) Cons.prems(2), of c t]
  let ?r1 = "r\<lparr> cn_state := Restarting, cn_restartCount := cn_restartCount r + 1, cn_cooldownUntil := None \<rparr>"
  let ?r2 = "r\<lparr> cn_state := Cooldown, cn_cooldownUntil := Some (t + hc_cooldown c), cn_restartCount := 0 \<rparr>"
  have "in_window a (hc_cooldown c) (attempt_times c v r (t # ts)) \<le> max_restarts - cn_restartCount r"
    if n: "cn_cooldownUntil r = None"
  proof (cases "max_restarts \<le> cn_restartCount r")
    case True
    have "in_window a (hc_cooldown c) (attempt_times c v ?r2 ts) = 0"
      using Cons.IH [of ?r2] t ok step n True by simp
    then show ?thesis using step n True by simp
  next
    case False
    have "in_window a (hc_cooldown c) (attempt_times c v ?r1 ts) \<le> max_restarts - Suc (cn_restartCount r)"
      using Cons.IH [of ?r1] t ok step n False by simp
    then show ?thesis using step n False by auto
  qed
  moreover have "in_window a (hc_cooldown c) (attempt_times c v r (t # ts)) = 0"
    if u: "cn_cooldownUntil r = Some u" "a + hc_cooldown c \<le> u" for u
  proof (cases "t < u")
    case True
    then show ?thesis using Cons.IH [of r] Cons.prems t step u by simp
  next
    case False
    have "\<forall>x \<in> set (attempt_times c v r (t # ts)). a + hc_cooldown c \<le> x"
      using attempt_times_after [of t "t # ts" c v r] t(3) False u(2) by fastforce
    then show ?thesis by (rule in_window_past)
  qed
  ultimately show ?case by blast
qed simp

text \<open>
  C25. A source that stays down is restarted at most five times within any span of one cooldown, whenever the checks come: a
  burst is followed by a cooldown.
\<close>

theorem restarts_bounded_in_cooldown:
  assumes "down v" and "record_ok r" and "cn_state r \<noteq> Dead" and "sorted ts"
  shows "length (filter (\<lambda>t. a \<le> t \<and> t < a + hc_cooldown c) (attempt_times c v r ts)) \<le> max_restarts"
  using assms(2-)
proof (induction ts arbitrary: r)
  case (Cons t ts)
  note step = check_record_down [OF assms(1) Cons.prems(2), of c t]
  note ok = record_ok_check [OF Cons.prems(1), of c v t]
  show ?case
  proof (cases "a \<le> t")
    case True
    then have s: "sorted (a # t # ts)" using Cons.prems(3) by auto
    show ?thesis
    proof (cases "cn_cooldownUntil r")
      case None
      then show ?thesis using burst_from_start [OF assms(1) Cons.prems(1,2) s, of c] by (simp add: in_window_def)
    next
      case (Some u)
      then have z: "cn_restartCount r = 0" using Cons.prems(1) by (auto simp: record_ok_def)
      let ?r1 = "r\<lparr> cn_state := Restarting, cn_restartCount := cn_restartCount r + 1, cn_cooldownUntil := None \<rparr>"
      show ?thesis
      proof (cases "t < u")
        case True
        then show ?thesis using Cons.IH [of r] Cons.prems step Some by simp
      next
        case False
        have "in_window a (hc_cooldown c) (attempt_times c v ?r1 ts) \<le> max_restarts - 1"
          using burst_from_start [OF assms(1), of ?r1 a ts c] ok step Some False s z by (simp add: max_restarts_def)
        then show ?thesis using step Some False z by (simp add: in_window_def max_restarts_def)
      qed
    qed
  next
    case False
    have "record_ok (fst (check_record c v t r)) \<and> cn_state (fst (check_record c v t r)) \<noteq> Dead"
      using ok step Cons.prems(2) by (auto split: option.splits if_splits)
    moreover have "attempt_times c v r (t # ts) = attempt_times c v (fst (check_record c v t r)) ts \<or>
        attempt_times c v r (t # ts) = t # attempt_times c v (fst (check_record c v t r)) ts"
      by (auto split: prod.split option.split)
    ultimately show ?thesis using Cons.IH [of "fst (check_record c v t r)"] Cons.prems(3) False by auto
  qed
qed simp

section \<open>Runs of the monitor\<close>

inductive hm_runs :: "hm_config \<Rightarrow> monitor \<Rightarrow> bool" for c where
  begun: "hm_runs c (new_monitor w)"
| checked: "hm_runs c m \<Longrightarrow> hm_runs c (check c w m)"
| asked: "hm_runs c m \<Longrightarrow> hm_runs c (snd (get_status w m))"
| woke: "hm_runs c m \<Longrightarrow> hm_runs c (attempt_wakes i m)"
| answered: "hm_runs c m \<Longrightarrow> hm_runs c (attempt_answered w i ok m)"
| started: "hm_runs c m \<Longrightarrow> hm_runs c (start_monitor m)"
| stopped: "hm_runs c m \<Longrightarrow> hm_runs c (stop_monitor m)"

definition records_ok :: "(nat \<times> nat) list \<Rightarrow> connector_record list \<Rightarrow> bool" where
  "records_ok recs heap \<longleftrightarrow> jmap_ok recs \<and> (\<forall>(src, rid) \<in> set recs. rid < length heap \<and> cn_source (heap ! rid) = src) \<and>
     (\<forall>r \<in> set heap. record_ok r)"

definition attempt_ok :: "hm_config \<Rightarrow> connector_record list \<Rightarrow> restart_attempt \<Rightarrow> bool" where
  "attempt_ok c heap a \<longleftrightarrow> ra_record a < length heap \<and> cn_source (heap ! ra_record a) = ra_source a \<and>
     (0 \<le> hc_baseDelay c \<longrightarrow> ra_delay a \<le> hc_baseDelay c * 16)"

definition monitor_ok :: "hm_config \<Rightarrow> monitor \<Rightarrow> bool" where
  "monitor_ok c m \<longleftrightarrow> records_ok (hm_records m) (hm_heap m) \<and> (\<forall>a \<in> set (hm_attempts m). attempt_ok c (hm_heap m) a)"

text \<open>A sync only adds records to the heap.\<close>

lemma sync_one_ok:
  assumes "records_ok old heap0" and "records_ok (fst acc) (snd acc)" and "snd acc = heap0 @ extra"
  shows "records_ok (fst (sync_one w old src acc)) (snd (sync_one w old src acc)) \<and>
    (\<exists>extra. snd (sync_one w old src acc) = heap0 @ extra)"
proof (cases "map_of old src")
  case None
  have "record_ok (seed_record (hw_view w src) src)" "cn_source (seed_record (hw_view w src) src) = src"
    by (simp_all add: seed_record_def record_ok_def)
  then show ?thesis using assms(2,3) None
    by (auto simp: sync_one_def records_ok_def nth_append dest!: in_set_jset_sub)
next
  case (Some rid)
  then have "rid < length heap0 \<and> cn_source (heap0 ! rid) = src" using assms(1) by (auto simp: records_ok_def dest!: map_of_SomeD)
  then show ?thesis using assms(2,3) Some
    by (auto simp: sync_one_def records_ok_def nth_append dest!: in_set_jset_sub)
qed

lemma sync_fold_ok:
  assumes "records_ok old heap0" and "records_ok (fst acc) (snd acc)" and "\<exists>extra. snd acc = heap0 @ extra"
  shows "records_ok (fst (fold (sync_one w old) srcs acc)) (snd (fold (sync_one w old) srcs acc)) \<and>
    (\<exists>extra. snd (fold (sync_one w old) srcs acc) = heap0 @ extra)"
  using assms(2,3)
proof (induction srcs arbitrary: acc)
  case (Cons src srcs)
  obtain extra where "snd acc = heap0 @ extra" using Cons.prems by blast
  from sync_one_ok [OF assms(1) Cons.prems(1) this] Cons.IH show ?case by simp
qed simp

lemma sync_records_ok:
  assumes "records_ok (hm_records m) (hm_heap m)"
  shows "records_ok (hm_records (sync_records w m)) (hm_heap (sync_records w m)) \<and>
    (\<exists>extra. hm_heap (sync_records w m) = hm_heap m @ extra) \<and> hm_attempts (sync_records w m) = hm_attempts m"
proof -
  have "records_ok [] (hm_heap m)" using assms by (auto simp: records_ok_def)
  then show ?thesis
    using sync_fold_ok [OF assms, of "([], hm_heap m)" w "hw_sources w"] by (simp add: sync_records_def case_prod_beta Let_def)
qed

lemma check_record_source [simp]: "cn_source (fst (check_record c v now r)) = cn_source r"
  by (auto simp: check_record_def reset_backoff_if_recovered_def Let_def split: option.split)

lemma check_record_delay:
  assumes "snd (snd (check_record c v now r)) = Some d" "0 \<le> hc_baseDelay c"
  shows "d \<le> hc_baseDelay c * 16"
proof -
  have d: "d = hc_baseDelay c * 2 ^ cn_restartCount r" "cn_restartCount r < max_restarts"
    using assms(1) by (auto simp: check_record_def Let_def split: if_splits option.splits)
  then have "(2::int) ^ cn_restartCount r \<le> 2 ^ 4" by (intro power_increasing) (simp_all add: max_restarts_def)
  then show ?thesis using d(1) assms(2) by (simp add: mult_left_mono)
qed

lemma check_one_ok:
  assumes "monitor_ok c m" and "rid < length (hm_heap m)"
  shows "monitor_ok c (check_one c w rid m)"
proof -
  let ?r = "hm_heap m ! rid"
  let ?o = "check_record c (hw_view w (cn_source ?r)) (hw_now w) ?r"
  have ok: "record_ok ?r" using assms by (auto simp: monitor_ok_def records_ok_def)
  have "attempt_ok c ((hm_heap m)[rid := fst ?o]) a" if "attempt_ok c (hm_heap m) a" for a
    using that assms(2) by (cases "ra_record a = rid") (auto simp: attempt_ok_def)
  moreover have "attempt_ok c ((hm_heap m)[rid := fst ?o]) \<lparr>ra_record = rid, ra_source = cn_source ?r,
      ra_remote = b, ra_delay = d, ra_asleep = True\<rparr>" if "snd (snd ?o) = Some d" for d b
    using check_record_delay [OF that] assms(2) by (simp add: attempt_ok_def)
  moreover have "records_ok (hm_records m) ((hm_heap m)[rid := fst ?o])"
    using assms record_ok_check [OF ok, of c "hw_view w (cn_source ?r)" "hw_now w"]
    by (auto simp: monitor_ok_def records_ok_def nth_list_update [OF assms(2)] dest!: set_update_subset_insert [THEN subsetD])
  ultimately show ?thesis using assms(1)
    by (auto simp: monitor_ok_def check_one_def Let_def split: option.splits)
qed

lemma check_one_fields [simp]:
  "hm_records (check_one c w rid m) = hm_records m" "length (hm_heap (check_one c w rid m)) = length (hm_heap m)"
  by (simp_all add: check_one_def Let_def)

lemma check_fold_fields:
  "hm_records (fold (check_one c w) rids m) = hm_records m" "length (hm_heap (fold (check_one c w) rids m)) = length (hm_heap m)"
  by (induction rids arbitrary: m) simp_all

lemma check_fold_ok:
  "monitor_ok c m \<Longrightarrow> \<forall>rid \<in> set rids. rid < length (hm_heap m) \<Longrightarrow> monitor_ok c (fold (check_one c w) rids m)"
  by (induction rids arbitrary: m) (simp_all add: check_one_ok)

lemma sync_ok: "monitor_ok c m \<Longrightarrow> monitor_ok c (sync_records w m)"
proof -
  assume m: "monitor_ok c m"
  then have "records_ok (hm_records m) (hm_heap m)" by (simp add: monitor_ok_def)
  from sync_records_ok [OF this, of w] show ?thesis using m by (auto simp: monitor_ok_def attempt_ok_def nth_append)
qed

lemma monitor_always_ok: "hm_runs c m \<Longrightarrow> monitor_ok c m"
proof (induction rule: hm_runs.induct)
  case (begun w)
  have "monitor_ok c \<lparr> hm_records = [], hm_heap = [], hm_timer = False, hm_attempts = [], hm_events = [], hm_restarted = [] \<rparr>"
    by (simp add: monitor_ok_def records_ok_def)
  then show ?case unfolding new_monitor_def by (rule sync_ok)
next
  case (checked m w)
  then have s: "monitor_ok c (sync_records w m)" by (intro sync_ok)
  then have "\<forall>rid \<in> set (map snd (hm_records (sync_records w m))). rid < length (hm_heap (sync_records w m))"
    by (auto simp: monitor_ok_def records_ok_def)
  then show ?case using check_fold_ok [OF s] by (simp add: check_def Let_def)
next
  case (asked m w)
  then show ?case by (simp add: get_status_def Let_def sync_ok)
next
  case (woke m i)
  then show ?case
    by (auto simp: attempt_wakes_def monitor_ok_def attempt_ok_def dest!: set_update_subset_insert [THEN subsetD])
next
  case (answered m w i ok)
  then show ?case
    using set_splice_out_subset [of i "hm_attempts m"]
    by (auto simp: attempt_answered_def monitor_ok_def attempt_ok_def records_ok_def nth_list_update Let_def record_ok_def
        dest!: set_update_subset_insert [THEN subsetD])
next
  case (started m)
  then show ?case by (simp add: start_monitor_def monitor_ok_def)
next
  case (stopped m)
  then show ?case by (simp add: stop_monitor_def monitor_ok_def)
qed

section \<open>What a check does for every source\<close>

lemma sync_keys: "fst ` set (fst (fold (sync_one w old) srcs acc)) = fst ` set (fst acc) \<union> set srcs"
  by (induction srcs arbitrary: acc) (auto simp: sync_one_def keys_jset split: option.split)

lemma check_fold_at:
  fixes c :: hm_config and w :: hm_world
  assumes "distinct rids" "rid \<in> set rids" "\<forall>x \<in> set rids. x < length (hm_heap m)"
  defines "out \<equiv> check_record c (hw_view w (cn_source (hm_heap m ! rid))) (hw_now w) (hm_heap m ! rid)"
  shows "hm_heap (fold (check_one c w) rids m) ! rid = fst out \<and>
    (\<forall>d. snd (snd out) = Some d \<longrightarrow>
       (\<exists>a \<in> set (hm_attempts (fold (check_one c w) rids m)). ra_record a = rid \<and> ra_source a = cn_source (hm_heap m ! rid) \<and>
          ra_delay a = d \<and> ra_asleep a))"
proof -
  have later: "set (hm_attempts m) \<subseteq> set (hm_attempts (fold (check_one c w) rids m))" for rids m
  proof (induction rids arbitrary: m)
    case (Cons x xs)
    have "set (hm_attempts m) \<subseteq> set (hm_attempts (check_one c w x m))" by (auto simp: check_one_def Let_def)
    then show ?case using Cons [of "check_one c w x m"] by auto
  qed simp
  have other: "rid' \<notin> set rids \<Longrightarrow> hm_heap (fold (check_one c w) rids m) ! rid' = hm_heap m ! rid'" for rids m rid'
  proof (induction rids arbitrary: m)
    case (Cons x xs)
    then show ?case by (simp add: check_one_def Let_def)
  qed simp
  show ?thesis using assms(1-3) unfolding out_def
  proof (induction rids arbitrary: m)
    case (Cons x xs)
    show ?case
    proof (cases "rid = x")
      case True
      have "rid \<notin> set xs" using Cons.prems True by simp
      note o = other [OF this, of "check_one c w x m"]
      have h1: "hm_heap (check_one c w x m) ! rid
          = fst (check_record c (hw_view w (cn_source (hm_heap m ! rid))) (hw_now w) (hm_heap m ! rid))"
        using True Cons.prems(3) by (simp add: check_one_def Let_def)
      have a1: "\<exists>a \<in> set (hm_attempts (check_one c w x m)). ra_record a = rid \<and> ra_source a = cn_source (hm_heap m ! rid) \<and> ra_delay a = d \<and> ra_asleep a"
        if "snd (snd (check_record c (hw_view w (cn_source (hm_heap m ! rid))) (hw_now w) (hm_heap m ! rid))) = Some d" for d
        using that True by (auto simp: check_one_def Let_def)
      have f: "fold (check_one c w) (x # xs) m = fold (check_one c w) xs (check_one c w x m)" by simp
      show ?thesis unfolding f o h1 using a1 later [of "check_one c w x m" xs] by blast
    next
      case False
      have h: "hm_heap (check_one c w x m) ! rid = hm_heap m ! rid" using False by (simp add: check_one_def Let_def)
      show ?thesis using Cons.IH [of "check_one c w x m"] Cons.prems False h by simp
    qed
  qed simp
qed

text \<open>
  C24. After a check every listed source has one record, and no crash is final: a source that is alive reads healthy, one that
  waits for its user reads so, only one that was torn down is dead, and one that is down has a restart under way, or
  begins a cooldown, or is within one that ends.
\<close>

theorem check_serves_every_source:
  assumes "hm_runs c m" and "src \<in> set (hw_sources w)"
  shows "\<exists>rid before after. (src, rid) \<in> set (hm_records (check c w m)) \<and>
    before = hm_heap (sync_records w m) ! rid \<and> after = hm_heap (check c w m) ! rid \<and> cn_source after = src \<and>
    (cn_state before \<noteq> Dead \<longrightarrow>
      (sv_awaiting (hw_view w src) \<longrightarrow> cn_state after = AwaitingReconnect) \<and>
      (\<not> sv_awaiting (hw_view w src) \<longrightarrow> sv_alive (hw_view w src) \<longrightarrow> cn_state after = Healthy \<and> cn_cooldownUntil after = None) \<and>
      (cn_state after = Dead \<longrightarrow> sv_stopped (hw_view w src)) \<and>
      (down (hw_view w src) \<longrightarrow>
         (\<exists>u. cn_cooldownUntil after = Some u \<and> hw_now w < u \<and> after = before) \<or>
         cn_state after = Cooldown \<and> cn_cooldownUntil after = Some (hw_now w + hc_cooldown c) \<or>
         (\<exists>a \<in> set (hm_attempts (check c w m)). ra_record a = rid \<and> ra_source a = src \<and> ra_asleep a)))"
proof -
  let ?s = "sync_records w m" and ?v = "hw_view w src"
  have ok: "records_ok (hm_records ?s) (hm_heap ?s)" using monitor_always_ok [OF assms(1)] sync_ok by (auto simp: monitor_ok_def)
  have "src \<in> fst ` set (hm_records ?s)" using assms(2) sync_keys [of w "hm_records m" "hw_sources w" "([], hm_heap m)"]
    by (simp add: sync_records_def case_prod_beta Let_def)
  then obtain rid where rid: "(src, rid) \<in> set (hm_records ?s)" by auto
  have src: "cn_source (hm_heap ?s ! rid) = src" using ok rid by (auto simp: records_ok_def)
  have "distinct (map snd (hm_records ?s))"
  proof -
    have e: "cn_source (hm_heap ?s ! snd e) = fst e" if "e \<in> set (hm_records ?s)" for e
      using ok that by (auto simp: records_ok_def)
    have "inj_on snd (set (hm_records ?s))" by (rule inj_onI) (metis e prod_eqI)
    then show ?thesis using ok by (auto simp: records_ok_def jmap_ok_def distinct_map)
  qed
  note at = check_fold_at [OF this, of rid ?s c w]
  have "rid \<in> set (map snd (hm_records ?s))" using rid by force
  moreover have "\<forall>x \<in> set (map snd (hm_records ?s)). x < length (hm_heap ?s)" using ok by (auto simp: records_ok_def)
  ultimately have after: "hm_heap (check c w m) ! rid = fst (check_record c ?v (hw_now w) (hm_heap ?s ! rid))"
    and att: "\<And>d. snd (snd (check_record c ?v (hw_now w) (hm_heap ?s ! rid))) = Some d \<Longrightarrow>
      \<exists>a \<in> set (hm_attempts (check c w m)). ra_record a = rid \<and> ra_source a = src \<and> ra_asleep a"
    using at src by (auto simp: check_def Let_def)
  have recs: "(src, rid) \<in> set (hm_records (check c w m))" using rid by (simp add: check_def Let_def check_fold_fields)
  define r0 where "r0 = hm_heap ?s ! rid"
  define r1 where "r1 = fst (check_record c ?v (hw_now w) r0)"
  have alive: "cn_state r0 \<noteq> Dead \<Longrightarrow>
      (sv_awaiting ?v \<longrightarrow> cn_state r1 = AwaitingReconnect) \<and>
      (\<not> sv_awaiting ?v \<longrightarrow> sv_alive ?v \<longrightarrow> cn_state r1 = Healthy \<and> cn_cooldownUntil r1 = None) \<and>
      (cn_state r1 = Dead \<longrightarrow> sv_stopped ?v)"
    unfolding r1_def by (auto simp: check_record_def reset_backoff_if_recovered_def Let_def split: option.split)
  have dn: "(\<exists>u. cn_cooldownUntil r1 = Some u \<and> hw_now w < u \<and> r1 = r0) \<or>
      cn_state r1 = Cooldown \<and> cn_cooldownUntil r1 = Some (hw_now w + hc_cooldown c) \<or>
      (\<exists>a \<in> set (hm_attempts (check c w m)). ra_record a = rid \<and> ra_source a = src \<and> ra_asleep a)"
    if d: "down ?v" "cn_state r0 \<noteq> Dead"
  proof (cases "snd (snd (check_record c ?v (hw_now w) r0))")
    case None
    then show ?thesis using check_record_down [OF d, of c "hw_now w"] unfolding r1_def by (auto split: option.splits if_splits)
  next
    case (Some x)
    then show ?thesis using att unfolding r0_def by blast
  qed
  have "cn_source r1 = src" using src by (simp add: r1_def r0_def)
  moreover have "r1 = hm_heap (check c w m) ! rid" using after by (simp add: r1_def r0_def)
  ultimately show ?thesis using recs alive dn
    by - (rule exI [of _ rid], rule exI [of _ r0], rule exI [of _ r1], simp add: r0_def)
qed

text \<open>
  C0. No attempt waits longer than sixteen base delays, and a burst is at most five restarts long, for every source the monitor
  has ever held a record of.
\<close>

theorem monitor_backs_off:
  assumes "hm_runs c m"
  shows "(\<forall>a \<in> set (hm_attempts m). 0 \<le> hc_baseDelay c \<longrightarrow> ra_delay a \<le> hc_baseDelay c * 16) \<and>
    (\<forall>r \<in> set (hm_heap m). cn_restartCount r \<le> 5) \<and> distinct (map fst (hm_records m))"
  using monitor_always_ok [OF assms]
  by (auto simp: monitor_ok_def attempt_ok_def records_ok_def record_ok_def jmap_ok_def max_restarts_def)

section \<open>A source torn down while an attempt sleeps\<close>

definition demo_view :: "bool \<Rightarrow> source_view" where
  "demo_view stopped = \<lparr> sv_name = ''s'', sv_alive = False, sv_stopped = stopped, sv_uptime = None, sv_remote = True, sv_awaiting = False \<rparr>"

definition demo_world :: "bool \<Rightarrow> ms \<Rightarrow> hm_world" where
  "demo_world stopped now = \<lparr> hw_sources = [0], hw_view = (\<lambda>_. demo_view stopped), hw_now = now \<rparr>"

definition demo_hm_config :: hm_config where
  "demo_hm_config = hm_config_of \<lparr> ho_checkIntervalMs = None, ho_baseDelayMs = None, ho_cooldownMs = None \<rparr>"

definition demo_torn_down :: monitor where
  "demo_torn_down = check demo_hm_config (demo_world True 500) (check demo_hm_config (demo_world False 0) (new_monitor (demo_world False 0)))"


theorem check_serves_every_source_witness:
  "\<exists>rid. (0, rid) \<in> set (hm_records (check demo_hm_config (demo_world False 0) (new_monitor (demo_world False 0))))"
  using check_serves_every_source [OF begun, of 0 "demo_world False 0" demo_hm_config "demo_world False 0"]
  by (auto simp: demo_world_def)

theorem monitor_backs_off_witness:
  "\<forall>r \<in> set (hm_heap (check demo_hm_config (demo_world False 0) (new_monitor (demo_world False 0)))). cn_restartCount r \<le> 5"
  using monitor_backs_off [OF checked [OF begun]] by blast

theorem restarts_bounded_in_cooldown_witness:
  "length (filter (\<lambda>t. 0 \<le> t \<and> t < 0 + hc_cooldown demo_hm_config)
     (attempt_times demo_hm_config (demo_view False) (seed_record (demo_view False) 0) (map (\<lambda>i. 30000 * int i) [0..<20]))) \<le> max_restarts"
proof -
  have "sorted (map (\<lambda>i. 30000 * int i) [0..<20])" by code_simp
  then show ?thesis
    by (intro restarts_bounded_in_cooldown) (simp_all add: demo_view_def down_def seed_record_def record_ok_def)
qed

end
