(* ===== verification/Notify_Config.thy ===== *)
theory Notify_Config
  imports Notify_Template
begin

text \<open>
  The notifications block of a workspace record (\<open>src/notifications/config.ts\<close>): the operator's source ceilings and routes and the
  poller's cursors (\<open>cursors.ts\<close>), one reader and one writer for the three.

  A stored block is JSON; what is read of it is the record \<open>notifications_config\<close>. The workspace store is the map from ids to
  stored blocks; writes of one workspace run one at a time (\<open>workspace/serialize.ts\<close>), so an update is one step.
  Ids the runtime mints are an argument. The count of contended cursor writes is kept apart (\<open>count_attempt\<close>): nothing branches
  on it. Connector names that are names of \<open>Object.prototype\<close> are left out.
\<close>

section \<open>The block\<close>

record source_setting =
  ns_maxLevel :: notification_level

record route_disabled =
  rd_reason :: string
  rd_at :: string

record notification_route =
  nr_id :: string
  nr_createdBy :: string
  nr_match :: json
  nr_deliver :: "json list"
  nr_disabled :: "route_disabled option"

record notifications_config =
  nc_sources :: "(string \<times> source_setting) list option"
  nc_routes :: "notification_route list option"
  nc_cursors :: "(string \<times> string) list option"

definition default_source_max_level :: notification_level where
  "default_source_max_level = Info"

definition deliver_input_max_bytes :: int where
  "deliver_input_max_bytes = 8192"

definition level_of :: "string \<Rightarrow> notification_level option" where
  "level_of s = find (\<lambda>l. level_text l = s) notification_levels"

section \<open>Reading it back\<close>

text \<open>A list read as absent when nothing of it was usable.\<close>

definition some_if_any :: "'a list \<Rightarrow> 'a list option" where
  "some_if_any xs = (if xs = [] then None else Some xs)"

definition read_source :: "json \<Rightarrow> source_setting option" where
  "read_source e =
     (case e of
        JObj fs \<Rightarrow> (case jprop fs ''maxLevel'' of
                      Some (JStr s) \<Rightarrow> map_option (\<lambda>l. \<lparr> ns_maxLevel = l \<rparr>) (level_of s)
                    | _ \<Rightarrow> None)
      | _ \<Rightarrow> None)"

definition read_sources :: "json option \<Rightarrow> (string \<times> source_setting) list option" where
  "read_sources raw =
     (case plain_object raw of
        None \<Rightarrow> None
      | Some fs \<Rightarrow> some_if_any (fold (\<lambda>(k, e) out. case read_source e of None \<Rightarrow> out | Some s \<Rightarrow> jset k s out) fs []))"

definition read_cursor_value :: "json \<Rightarrow> string option" where
  "read_cursor_value e = (case e of JStr s \<Rightarrow> if s = [] then None else Some s | _ \<Rightarrow> None)"

definition read_cursors :: "json option \<Rightarrow> (string \<times> string) list option" where
  "read_cursors raw =
     (case plain_object raw of
        None \<Rightarrow> None
      | Some fs \<Rightarrow> some_if_any (fold (\<lambda>(k, e) out. case read_cursor_value e of None \<Rightarrow> out | Some s \<Rightarrow> jset k s out) fs []))"

definition read_disabled :: "json option \<Rightarrow> route_disabled option" where
  "read_disabled raw =
     (case raw of
        Some (JObj fs) \<Rightarrow>
          (case (jprop fs ''reason'', jprop fs ''at'') of
             (Some (JStr r), Some (JStr a)) \<Rightarrow> Some \<lparr> rd_reason = r, rd_at = a \<rparr>
           | _ \<Rightarrow> None)
      | _ \<Rightarrow> None)"

text \<open>\<open>typeof match !== "object" || match === null\<close> of a match that is there.\<close>

fun is_object :: "json \<Rightarrow> bool" where
  "is_object (JObj fs) \<longleftrightarrow> True"
| "is_object (JArr js) \<longleftrightarrow> True"
| "is_object _ \<longleftrightarrow> False"

definition read_route :: "json \<Rightarrow> notification_route option" where
  "read_route e =
     (case e of
        JObj fs \<Rightarrow>
          (case (jprop fs ''id'', jprop fs ''createdBy'', jprop fs ''deliver'') of
             (Some (JStr i), Some (JStr by'), Some (JArr ds)) \<Rightarrow>
               if ds = [] then None
               else if (case jprop fs ''match'' of None \<Rightarrow> False | Some m \<Rightarrow> \<not> is_object m) then None
               else Some \<lparr> nr_id = i, nr_createdBy = by', nr_match = nullish (jprop fs ''match'') (JObj []),
                           nr_deliver = ds, nr_disabled = read_disabled (jprop fs ''disabled'') \<rparr>
           | _ \<Rightarrow> None)
      | _ \<Rightarrow> None)"

definition read_routes :: "json option \<Rightarrow> notification_route list option" where
  "read_routes raw =
     (case raw of Some (JArr js) \<Rightarrow> some_if_any (List.map_filter read_route js) | _ \<Rightarrow> None)"

definition read_notifications_config :: "json option \<Rightarrow> notifications_config" where
  "read_notifications_config raw =
     (case plain_object raw of
        None \<Rightarrow> \<lparr> nc_sources = None, nc_routes = None, nc_cursors = None \<rparr>
      | Some b \<Rightarrow> \<lparr> nc_sources = read_sources (jprop b ''sources''), nc_routes = read_routes (jprop b ''routes''),
                    nc_cursors = read_cursors (jprop b ''cursors'') \<rparr>)"

definition source_max_level :: "notifications_config \<Rightarrow> string \<Rightarrow> notification_level" where
  "source_max_level c src =
     (case Option.bind (nc_sources c) (\<lambda>m. map_of m src) of None \<Rightarrow> default_source_max_level | Some s \<Rightarrow> ns_maxLevel s)"

section \<open>The block as it is stored\<close>

definition field :: "string \<Rightarrow> json option \<Rightarrow> (string \<times> json) list" where
  "field k v = (case v of None \<Rightarrow> [] | Some j \<Rightarrow> [(k, j)])"

definition disabled_json :: "route_disabled \<Rightarrow> json" where
  "disabled_json d = JObj [(''reason'', JStr (rd_reason d)), (''at'', JStr (rd_at d))]"

definition route_json :: "notification_route \<Rightarrow> json" where
  "route_json r = JObj ([(''id'', JStr (nr_id r)), (''createdBy'', JStr (nr_createdBy r)), (''match'', nr_match r),
      (''deliver'', JArr (nr_deliver r))] @ field ''disabled'' (map_option disabled_json (nr_disabled r)))"

definition source_json :: "source_setting \<Rightarrow> json" where
  "source_json s = JObj [(''maxLevel'', JStr (level_text (ns_maxLevel s)))]"

definition config_json :: "notifications_config \<Rightarrow> json" where
  "config_json c = JObj
     (field ''sources'' (map_option (\<lambda>m. JObj (map (\<lambda>(k, s). (k, source_json s)) m)) (nc_sources c)) @
      field ''routes'' (map_option (\<lambda>rs. JArr (map route_json rs)) (nc_routes c)) @
      field ''cursors'' (map_option (\<lambda>m. JObj (map (\<lambda>(k, s). (k, JStr s)) m)) (nc_cursors c)))"

section \<open>Routes as an admin writes them\<close>

record route_input =
  ri_id :: "string option"
  ri_match :: json
  ri_deliver :: "(string \<times> json) list list"

record route_context =
  rc_toolNames :: "string list"
  rc_taskIds :: "string list"
  rc_createdBy :: string

definition add_new :: "string \<Rightarrow> string list \<Rightarrow> string list" where
  "add_new x xs = (if x \<in> set xs then xs else xs @ [x])"

text \<open>The tokens of \<open>matchAll(PLACEHOLDER_RE)\<close>.\<close>

function tokens_of :: "string \<Rightarrow> string list" where
  "tokens_of s =
     (case placeholder_at s of
        Some (name, rest) \<Rightarrow> name # tokens_of rest
      | None \<Rightarrow> (case s of [] \<Rightarrow> [] | c # cs \<Rightarrow> tokens_of cs))"
  by pat_completeness auto

termination
  by (relation "measure length") (auto dest: placeholder_at_shorter)

declare tokens_of.simps [simp del]

definition unknown_in :: "string \<Rightarrow> string list \<Rightarrow> string list" where
  "unknown_in s found = fold (\<lambda>t f. if t \<in> set notification_placeholders then f else add_new t f) (tokens_of s) found"

fun unknown_placeholders :: "json \<Rightarrow> string list \<Rightarrow> string list"
  and unknown_items :: "json list \<Rightarrow> string list \<Rightarrow> string list"
  and unknown_fields :: "(string \<times> json) list \<Rightarrow> string list \<Rightarrow> string list" where
  "unknown_placeholders (JStr s) found = unknown_in s found"
| "unknown_placeholders (JArr js) found = unknown_items js found"
| "unknown_placeholders (JObj fs) found = unknown_fields fs found"
| "unknown_placeholders v found = found"
| "unknown_items [] found = found"
| "unknown_items (j # js) found = unknown_items js (unknown_placeholders j found)"
| "unknown_fields [] found = found"
| "unknown_fields ((k, j) # fs) found = unknown_fields fs (unknown_placeholders j (unknown_in k found))"

definition braced :: "string \<Rightarrow> string" where
  "braced t = ''{{'' @ t @ ''}}''"

definition named :: "string list \<Rightarrow> json option \<Rightarrow> bool" where
  "named names v = (case v of Some (JStr s) \<Rightarrow> s \<in> set names | _ \<Rightarrow> False)"

definition text_or_undefined :: "json option \<Rightarrow> string" where
  "text_or_undefined v = (case v of Some (JStr s) \<Rightarrow> s | _ \<Rightarrow> ''undefined'')"

definition in_quotes :: "string \<Rightarrow> string" where
  "in_quotes s = [CHR 34] @ s @ [CHR 34]"

definition check_target :: "(rat \<Rightarrow> string) \<Rightarrow> route_context \<Rightarrow> (string \<times> json) list \<Rightarrow> string option" where
  "check_target fr ctx t =
     (if jprop t ''kind'' = Some (JStr ''agent'') then
        (if named (rc_taskIds ctx) (jprop t ''task'') then None
         else Some (''no task '' @ in_quotes (text_or_undefined (jprop t ''task'')) @
           '' in this workspace. A route wakes one of your own tasks, and it has to exist when the route is written.''))
      else let tool = in_quotes (text_or_undefined (jprop t ''tool'')) in
        if \<not> named (rc_toolNames ctx) (jprop t ''tool'') then
          Some (tool @ '' is not a tool installed in this workspace. A route may only deliver '' @
            ''through a connector the workspace already has.'')
        else case jprop t ''input'' of
          None \<Rightarrow> None
        | Some input \<Rightarrow>
            if deliver_input_max_bytes < utf8_length (stringify fr input) then
              Some (''the input for '' @ tool @ '' is larger than '' @ show_int deliver_input_max_bytes @ '' bytes.'')
            else let unknown = unknown_placeholders input [] in
              if unknown \<noteq> [] then
                Some (''the input for '' @ tool @ '' uses '' @ join '', '' (map braced unknown) @ ''. Only '' @
                  join '', '' (map braced notification_placeholders) @ '' are resolved '' @ [em_dash] @
                  '' anything else would be delivered as literal text.'')
              else None)"

fun first_refusal :: "(rat \<Rightarrow> string) \<Rightarrow> route_context \<Rightarrow> (string \<times> json) list list \<Rightarrow> string option" where
  "first_refusal fr ctx [] = None"
| "first_refusal fr ctx (t # ts) = (case check_target fr ctx t of Some why \<Rightarrow> Some why | None \<Rightarrow> first_refusal fr ctx ts)"

text \<open>\<open>mints\<close> are the ids \<open>mintRouteId\<close> returns, in order.\<close>

fun validate_from :: "(rat \<Rightarrow> string) \<Rightarrow> route_context \<Rightarrow> string list \<Rightarrow> string list \<Rightarrow> route_input list \<Rightarrow> string + notification_route list" where
  "validate_from fr ctx mints seen [] = Inr []"
| "validate_from fr ctx mints seen (raw # rest) =
     (let i = (case ri_id raw of Some i \<Rightarrow> i | None \<Rightarrow> (case mints of [] \<Rightarrow> [] | m # _ \<Rightarrow> m));
          mints' = (case ri_id raw of Some _ \<Rightarrow> mints | None \<Rightarrow> tl mints)
      in if i \<in> set seen then Inl (''Two routes share the id '' @ in_quotes i @ ''.'')
         else case first_refusal fr ctx (ri_deliver raw) of
           Some why \<Rightarrow> Inl (''Route '' @ in_quotes i @ '': '' @ why)
         | None \<Rightarrow>
             (case validate_from fr ctx mints' (seen @ [i]) rest of
                Inl e \<Rightarrow> Inl e
              | Inr rs \<Rightarrow> Inr (\<lparr> nr_id = i, nr_createdBy = rc_createdBy ctx, nr_match = ri_match raw,
                                 nr_deliver = map JObj (ri_deliver raw), nr_disabled = None \<rparr> # rs)))"

definition validate_routes :: "(rat \<Rightarrow> string) \<Rightarrow> route_context \<Rightarrow> string list \<Rightarrow> route_input list \<Rightarrow> string + notification_route list" where
  "validate_routes fr ctx mints input = validate_from fr ctx mints [] input"

section \<open>Writing\<close>

type_synonym block_store = "(string \<times> json option) list"

definition update_notifications_config ::
  "string \<Rightarrow> (notifications_config \<Rightarrow> notifications_config option) \<Rightarrow> block_store \<Rightarrow> notifications_config option \<times> block_store" where
  "update_notifications_config ws mutate st =
     (case map_of st ws of
        None \<Rightarrow> (None, st)
      | Some raw \<Rightarrow>
          (case mutate (read_notifications_config raw) of
             None \<Rightarrow> (None, st)
           | Some c \<Rightarrow> (Some c, jset ws (Some (config_json c)) st)))"

definition set_disabled_in :: "string \<Rightarrow> route_disabled option \<Rightarrow> notifications_config \<Rightarrow> notifications_config option" where
  "set_disabled_in i d c =
     (case Option.bind (nc_routes c) (find (\<lambda>r. nr_id r = i)) of
        None \<Rightarrow> None
      | Some r \<Rightarrow>
          if (case d of None \<Rightarrow> nr_disabled r = None
              | Some n \<Rightarrow> map_option rd_reason (nr_disabled r) = Some (rd_reason n)) then None
          else Some (c\<lparr> nc_routes := map_option (map (\<lambda>r. if nr_id r \<noteq> i then r else r\<lparr> nr_disabled := d \<rparr>)) (nc_routes c) \<rparr>))"

definition set_route_disabled :: "string \<Rightarrow> string \<Rightarrow> route_disabled option \<Rightarrow> block_store \<Rightarrow> bool \<times> block_store" where
  "set_route_disabled ws i d st =
     (let (c, st') = update_notifications_config ws (set_disabled_in i d) st in (c \<noteq> None, st'))"

section \<open>Cursors\<close>

record cursor_counts =
  cc_attempted :: nat
  cc_contended :: nat

definition read_cursor :: "json option \<Rightarrow> string \<Rightarrow> string option" where
  "read_cursor raw connector = Option.bind (nc_cursors (read_notifications_config raw)) (\<lambda>m. map_of m connector)"

definition mutate_in :: "((string \<times> string) list \<Rightarrow> (string \<times> string) list option) \<Rightarrow> notifications_config \<Rightarrow> notifications_config option" where
  "mutate_in f c = map_option (\<lambda>m. c\<lparr> nc_cursors := Some m \<rparr>) (f (nullish (nc_cursors c) []))"

definition count_attempt :: "bool \<Rightarrow> cursor_counts \<Rightarrow> cursor_counts" where
  "count_attempt queued n = n\<lparr> cc_attempted := cc_attempted n + 1,
     cc_contended := (if queued then cc_contended n + 1 else cc_contended n) \<rparr>"

definition mutate_cursors ::
  "string \<Rightarrow> ((string \<times> string) list \<Rightarrow> (string \<times> string) list option) \<Rightarrow> block_store \<Rightarrow> bool \<times> block_store" where
  "mutate_cursors ws f st = (let (c, st') = update_notifications_config ws (mutate_in f) st in (c \<noteq> None, st'))"

text \<open>\<open>from\<close> is \<open>opts\<close>: absent, or the position the read started from.\<close>

definition advance_cursor :: "string \<Rightarrow> string \<Rightarrow> string option option \<Rightarrow> (string \<times> string) list \<Rightarrow> (string \<times> string) list option" where
  "advance_cursor connector cursor from_opt m =
     (if (case from_opt of None \<Rightarrow> False | Some p \<Rightarrow> map_of m connector \<noteq> p) then None
      else if map_of m connector = Some cursor then None
      else Some (jset connector cursor m))"

definition write_cursor :: "string \<Rightarrow> string \<Rightarrow> string \<Rightarrow> string option option \<Rightarrow> block_store \<Rightarrow> bool \<times> block_store" where
  "write_cursor ws connector cursor from_opt st = mutate_cursors ws (advance_cursor connector cursor from_opt) st"

definition drop_cursor :: "string \<Rightarrow> (string \<times> string) list \<Rightarrow> (string \<times> string) list option" where
  "drop_cursor connector m = (if map_of m connector = None then None else Some (jdelete connector m))"

definition clear_cursor :: "string \<Rightarrow> string \<Rightarrow> block_store \<Rightarrow> bool \<times> block_store" where
  "clear_cursor ws connector st = mutate_cursors ws (drop_cursor connector) st"

text \<open>
  \<open>positionOutbox\<close>: whether the install reads the outbox first, and the write of the cursor that read answered, if any. The
  store may have changed in between.
\<close>

definition outbox_needs_position :: "string \<Rightarrow> string \<Rightarrow> block_store \<Rightarrow> bool" where
  "outbox_needs_position ws connector st \<longleftrightarrow> Option.bind (map_of st ws) (\<lambda>raw. read_cursor raw connector) = None"

definition position_outbox :: "string \<Rightarrow> string \<Rightarrow> string option \<Rightarrow> block_store \<Rightarrow> bool \<times> block_store" where
  "position_outbox ws connector bootstrap st =
     (case bootstrap of None \<Rightarrow> (False, st) | Some c \<Rightarrow> write_cursor ws connector c (Some None) st)"

section \<open>A block reads back\<close>

lemma jset_not_nil: "jset k v m \<noteq> []"
  by (cases m) (auto split: if_splits)

lemma jset_absent: "k \<notin> fst ` set m \<Longrightarrow> jset k v m = m @ [(k, v)]"
  by (induction m) auto

lemma fold_entries:
  assumes "\<And>x. x \<in> set m \<Longrightarrow> f (enc (snd x)) = Some (snd x)" and "distinct (map fst (out @ m))"
  shows "fold (\<lambda>(k, e) out. case f e of None \<Rightarrow> out | Some s \<Rightarrow> jset k s out) (map (\<lambda>(k, s). (k, enc s)) m) out = out @ m"
  using assms
proof (induction m arbitrary: out)
  case (Cons x m)
  obtain k v where x: "x = (k, v)" by (cases x)
  have "f (enc v) = Some v" using Cons.prems(1) [of x] x by simp
  moreover have "jset k v out = out @ [(k, v)]" using Cons.prems(2) x by (intro jset_absent) auto
  moreover have "fold (\<lambda>(k, e) out. case f e of None \<Rightarrow> out | Some s \<Rightarrow> jset k s out) (map (\<lambda>(k, s). (k, enc s)) m) (out @ [(k, v)])
      = (out @ [(k, v)]) @ m"
    using Cons.prems x by (intro Cons.IH) auto
  ultimately show ?case using x by simp
qed simp

lemma fold_entries_ok:
  assumes "jmap_ok out" and "\<And>e s. f e = Some s \<Longrightarrow> P s" and "\<forall>(k, s) \<in> set out. P s"
  shows "jmap_ok (fold (\<lambda>(k, e) out. case f e of None \<Rightarrow> out | Some s \<Rightarrow> jset k s out) fs out) \<and>
    (\<forall>(k, s) \<in> set (fold (\<lambda>(k, e) out. case f e of None \<Rightarrow> out | Some s \<Rightarrow> jset k s out) fs out). P s)"
  using assms(1,3)
proof (induction fs arbitrary: out)
  case (Cons x fs)
  obtain k e where x: "x = (k, e)" by (cases x)
  show ?case
  proof (cases "f e")
    case None
    then show ?thesis using Cons x by simp
  next
    case (Some v)
    have "\<forall>(k', s) \<in> set (jset k v out). P s" using Cons.prems(2) assms(2) [OF Some] by (fastforce dest!: in_set_jset_sub)
    then show ?thesis using Cons.IH [of "jset k v out"] Cons.prems(1) x Some by simp
  qed
qed simp

definition config_ok :: "notifications_config \<Rightarrow> bool" where
  "config_ok c \<longleftrightarrow> (\<forall>m. nc_sources c = Some m \<longrightarrow> jmap_ok m) \<and>
     (\<forall>rs. nc_routes c = Some rs \<longrightarrow> (\<forall>r \<in> set rs. nr_deliver r \<noteq> [] \<and> is_object (nr_match r))) \<and>
     (\<forall>m. nc_cursors c = Some m \<longrightarrow> jmap_ok m \<and> (\<forall>(k, s) \<in> set m. s \<noteq> []))"

definition drop_empty :: "'a list option \<Rightarrow> 'a list option" where
  "drop_empty x = Option.bind x some_if_any"

definition tidy :: "notifications_config \<Rightarrow> notifications_config" where
  "tidy c = \<lparr> nc_sources = drop_empty (nc_sources c), nc_routes = drop_empty (nc_routes c), nc_cursors = drop_empty (nc_cursors c) \<rparr>"

lemma read_route_ok: "read_route e = Some r \<Longrightarrow> nr_deliver r \<noteq> [] \<and> is_object (nr_match r)"
  by (auto simp: read_route_def split: json.splits option.splits if_splits)

lemma some_if_any_simps [simp]: "some_if_any xs = Some ys \<longleftrightarrow> xs = ys \<and> ys \<noteq> []" "some_if_any xs = None \<longleftrightarrow> xs = []"
  by (auto simp: some_if_any_def)

lemma some_if_any_bind [simp]: "Option.bind (some_if_any xs) some_if_any = some_if_any xs"
  by (simp add: some_if_any_def)

lemma read_config_ok: "config_ok (read_notifications_config raw)"
proof -
  have src: "jmap_ok m" if "read_sources x = Some m" for x m
    using that fold_entries_ok [of "[]" read_source "\<lambda>_. True"] by (auto simp: read_sources_def split: option.splits)
  have rts: "\<forall>r \<in> set rs. nr_deliver r \<noteq> [] \<and> is_object (nr_match r)" if "read_routes x = Some rs" for x rs
    using that read_route_ok by (auto simp: read_routes_def List.map_filter_def split: option.splits json.splits)
  have "read_cursor_value e = Some s \<Longrightarrow> s \<noteq> []" for e s by (auto simp: read_cursor_value_def split: json.splits if_splits)
  then have crs: "jmap_ok m \<and> (\<forall>(k, s) \<in> set m. s \<noteq> [])" if "read_cursors x = Some m" for x m
    using that fold_entries_ok [of "[]" read_cursor_value "\<lambda>s. s \<noteq> []"] by (auto simp: read_cursors_def split: option.splits)
  show ?thesis
    by (cases "plain_object raw") (auto simp: read_notifications_config_def config_ok_def dest: src rts crs)
qed

lemma tidy_read: "tidy (read_notifications_config raw) = read_notifications_config raw"
  by (cases "plain_object raw")
    (auto simp: tidy_def read_notifications_config_def drop_empty_def read_sources_def read_routes_def read_cursors_def
      split: option.split json.split)

lemma level_of_text [simp]: "level_of (level_text l) = Some l"
  by (cases l) (simp_all add: level_of_def notification_levels_def)

lemma read_source_json [simp]: "read_source (source_json s) = Some s"
  by (cases s) (simp add: read_source_def source_json_def jprop_def)

lemma read_route_json:
  assumes "nr_deliver r \<noteq> []" "is_object (nr_match r)"
  shows "read_route (route_json r) = Some r"
proof (cases "nr_disabled r")
  case None
  then show ?thesis using assms
    by (cases r) (simp add: read_route_def route_json_def jprop_def field_def read_disabled_def)
next
  case (Some d)
  then show ?thesis using assms
    by (cases r; cases d) (simp add: read_route_def route_json_def jprop_def field_def read_disabled_def disabled_json_def)
qed

lemma read_config_json: "config_ok c \<Longrightarrow> read_notifications_config (Some (config_json c)) = tidy c"
proof -
  assume c: "config_ok c"
  have src: "read_sources (Some (JObj (map (\<lambda>(k, s). (k, source_json s)) m))) = some_if_any m" if "nc_sources c = Some m" for m
    using fold_entries [of m read_source source_json "[]"] c that by (simp add: read_sources_def config_ok_def jmap_ok_def)
  have crs: "read_cursors (Some (JObj (map (\<lambda>(k, s). (k, JStr s)) m))) = some_if_any m" if "nc_cursors c = Some m" for m
  proof -
    have "read_cursor_value (JStr (snd x)) = Some (snd x)" if "x \<in> set m" for x
      using c \<open>nc_cursors c = Some m\<close> that by (force simp: read_cursor_value_def config_ok_def)
    then show ?thesis using fold_entries [of m read_cursor_value JStr "[]"] c that
      by (simp add: read_cursors_def config_ok_def jmap_ok_def)
  qed
  have rts: "read_routes (Some (JArr (map route_json rs))) = some_if_any rs" if "nc_routes c = Some rs" for rs
  proof -
    have "\<forall>r \<in> set rs. read_route (route_json r) = Some r" using c that read_route_json by (auto simp: config_ok_def)
    then have "List.map_filter read_route (map route_json rs) = rs" by (induction rs) (simp_all add: map_filter_simps)
    then show ?thesis by (simp add: read_routes_def)
  qed
  define b where "b = field ''sources'' (map_option (\<lambda>m. JObj (map (\<lambda>(k, s). (k, source_json s)) m)) (nc_sources c)) @
      field ''routes'' (map_option (\<lambda>rs. JArr (map route_json rs)) (nc_routes c)) @
      field ''cursors'' (map_option (\<lambda>m. JObj (map (\<lambda>(k, s). (k, JStr s)) m)) (nc_cursors c))"
  have p: "jprop b ''sources'' = map_option (\<lambda>m. JObj (map (\<lambda>(k, s). (k, source_json s)) m)) (nc_sources c)"
    "jprop b ''routes'' = map_option (\<lambda>rs. JArr (map route_json rs)) (nc_routes c)"
    "jprop b ''cursors'' = map_option (\<lambda>m. JObj (map (\<lambda>(k, s). (k, JStr s)) m)) (nc_cursors c)"
    unfolding b_def by (cases "nc_sources c"; cases "nc_routes c"; cases "nc_cursors c"; simp add: jprop_def field_def)+
  have "read_sources (jprop b ''sources'') = drop_empty (nc_sources c)"
    using src unfolding p by (cases "nc_sources c") (simp_all add: drop_empty_def read_sources_def)
  moreover have "read_routes (jprop b ''routes'') = drop_empty (nc_routes c)"
    using rts unfolding p by (cases "nc_routes c") (simp_all add: drop_empty_def read_routes_def)
  moreover have "read_cursors (jprop b ''cursors'') = drop_empty (nc_cursors c)"
    using crs unfolding p by (cases "nc_cursors c") (simp_all add: drop_empty_def read_cursors_def)
  ultimately show ?thesis by (simp add: read_notifications_config_def config_json_def b_def [symmetric] tidy_def)
qed

text \<open>
  C35. Whatever stands on disk, the block written back from what was read of it reads the same: a write by either author loses
  nothing the reader had accepted.
\<close>

theorem stored_block_reads_back:
  "read_notifications_config (Some (config_json (read_notifications_config raw))) = read_notifications_config raw"
  by (simp add: read_config_json read_config_ok tidy_read)

section \<open>What a write of a cursor changes\<close>

definition block_of :: "block_store \<Rightarrow> string \<Rightarrow> notifications_config" where
  "block_of st ws = read_notifications_config (Option.bind (map_of st ws) id)"

lemma read_cursor_block: "map_of st ws = Some raw \<Longrightarrow> read_cursor raw k = Option.bind (nc_cursors (block_of st ws)) (\<lambda>m. map_of m k)"
  by (simp add: read_cursor_def block_of_def)

definition cursors_ok :: "(string \<times> string) list \<Rightarrow> bool" where
  "cursors_ok m \<longleftrightarrow> jmap_ok m \<and> (\<forall>(k, v) \<in> set m. v \<noteq> [])"

text \<open>An update of the cursors alone reads back with the operator's half as it was.\<close>

lemma mutate_cursors_cases:
  assumes ws: "map_of st ws = Some raw" and out: "mutate_cursors ws f st = (ok, st')"
    and f: "\<forall>m m'. cursors_ok m \<longrightarrow> f m = Some m' \<longrightarrow> cursors_ok m'"
  shows "(\<not> ok \<and> st' = st \<and> f (nullish (nc_cursors (block_of st ws)) []) = None) \<or>
    (\<exists>m. ok \<and> f (nullish (nc_cursors (block_of st ws)) []) = Some m \<and>
       block_of st' ws = (block_of st ws)\<lparr> nc_cursors := some_if_any m \<rparr> \<and>
       (\<forall>ws'. ws' \<noteq> ws \<longrightarrow> map_of st' ws' = map_of st ws'))"
proof -
  let ?c = "read_notifications_config raw"
  have c: "block_of st ws = ?c" using ws by (simp add: block_of_def)
  have ok_c: "config_ok ?c" by (rule read_config_ok)
  show ?thesis
  proof (cases "f (nullish (nc_cursors ?c) [])")
    case None
    then have "mutate_cursors ws f st = (False, st)"
      using ws by (simp add: mutate_cursors_def update_notifications_config_def mutate_in_def)
    then have "\<not> ok" "st' = st" using out by simp_all
    then show ?thesis using None c by simp
  next
    case (Some m)
    have "cursors_ok (nullish (nc_cursors ?c) [])"
      using ok_c by (cases "nc_cursors ?c") (auto simp: config_ok_def cursors_ok_def)
    then have m: "cursors_ok m" using f Some by blast
    let ?c' = "?c\<lparr> nc_cursors := Some m \<rparr>"
    have "config_ok ?c'" using ok_c m by (simp add: config_ok_def cursors_ok_def)
    from read_config_json [OF this] have "read_notifications_config (Some (config_json ?c')) = tidy ?c'" .
    moreover have "tidy ?c' = ?c\<lparr> nc_cursors := some_if_any m \<rparr>"
    proof -
      have "tidy ?c = ?c" by (rule tidy_read)
      then show ?thesis by (cases ?c) (simp add: tidy_def drop_empty_def)
    qed
    ultimately show ?thesis using ws out Some
      by (auto simp: mutate_cursors_def update_notifications_config_def mutate_in_def c block_of_def)
  qed
qed

lemma advance_keeps_ok:
  assumes "cursor \<noteq> []"
  shows "\<forall>m m'. cursors_ok m \<longrightarrow> advance_cursor connector cursor from_opt m = Some m' \<longrightarrow> cursors_ok m'"
proof (intro allI impI)
  fix m m' assume m: "cursors_ok m" and a: "advance_cursor connector cursor from_opt m = Some m'"
  have "m' = jset connector cursor m" using a unfolding advance_cursor_def by (simp split: if_splits)
  then show "cursors_ok m'" using m assms by (auto simp: cursors_ok_def dest!: in_set_jset_sub)
qed

lemma advance_iff:
  "advance_cursor connector cursor from_opt m \<noteq> None \<longleftrightarrow>
    (\<forall>p. from_opt = Some p \<longrightarrow> map_of m connector = p) \<and> map_of m connector \<noteq> Some cursor"
  by (cases from_opt) (auto simp: advance_cursor_def)

lemma cursor_write_cases:
  assumes ws: "map_of st ws = Some raw" and c: "cursor \<noteq> []" and w: "write_cursor ws connector cursor from_opt st = (ok, st')"
  shows "(ok \<longleftrightarrow> (\<forall>p. from_opt = Some p \<longrightarrow> read_cursor raw connector = p) \<and> read_cursor raw connector \<noteq> Some cursor) \<and>
    (ok \<longrightarrow> (\<exists>raw'. map_of st' ws = Some raw' \<and>
       (\<forall>k. read_cursor raw' k = (if k = connector then Some cursor else read_cursor raw k))) \<and>
       nc_sources (block_of st' ws) = nc_sources (block_of st ws) \<and> nc_routes (block_of st' ws) = nc_routes (block_of st ws) \<and>
       (\<forall>ws'. ws' \<noteq> ws \<longrightarrow> map_of st' ws' = map_of st ws')) \<and>
    (\<not> ok \<longrightarrow> st' = st)"
proof -
  define m where "m = nullish (nc_cursors (block_of st ws)) []"
  have rd: "read_cursor raw k = map_of m k" for k
    using ws by (cases "nc_cursors (block_of st ws)") (simp_all add: read_cursor_block m_def)
  note iff = advance_iff [of connector cursor from_opt m, folded rd]
  have "(\<not> ok \<and> st' = st \<and> advance_cursor connector cursor from_opt m = None) \<or>
    (\<exists>m'. ok \<and> advance_cursor connector cursor from_opt m = Some m' \<and>
       block_of st' ws = (block_of st ws)\<lparr> nc_cursors := some_if_any m' \<rparr> \<and>
       (\<forall>ws'. ws' \<noteq> ws \<longrightarrow> map_of st' ws' = map_of st ws'))"
    unfolding m_def by (rule mutate_cursors_cases [OF ws _ advance_keeps_ok [OF c]]) (use w in \<open>simp add: write_cursor_def\<close>)
  then show ?thesis
  proof (elim disjE exE conjE)
    assume "\<not> ok" "st' = st" "advance_cursor connector cursor from_opt m = None"
    then show ?thesis using iff by simp
  next
    fix m'
    assume a: "ok" "advance_cursor connector cursor from_opt m = Some m'"
      and b: "block_of st' ws = (block_of st ws)\<lparr> nc_cursors := some_if_any m' \<rparr>"
      and o: "\<forall>ws'. ws' \<noteq> ws \<longrightarrow> map_of st' ws' = map_of st ws'"
    have m': "m' = jset connector cursor m" using a(2) unfolding advance_cursor_def by (simp split: if_splits)
    have ne: "m' \<noteq> []" unfolding m' by (rule jset_not_nil)
    obtain raw' where raw': "map_of st' ws = Some raw'"
      using ws w a(1)
      by (auto simp: write_cursor_def mutate_cursors_def update_notifications_config_def split: option.splits prod.splits)
    have "read_cursor raw' k = (if k = connector then Some cursor else read_cursor raw k)" for k
      using read_cursor_block [OF raw', of k] ne unfolding rd b by (simp add: m' some_if_any_def)
    then show ?thesis using iff a raw' b o by auto
  qed
qed

text \<open>
  C28. A cursor write lands exactly when the stored cursor is the one its read started from and is not already the new one. When
  it lands the connector reads the new cursor, and the operator's ceilings and routes, every other connector's cursor and
  every other workspace read as before; when it does not, nothing is written.
\<close>

theorem cursor_write_is_compare_and_set:
  assumes "map_of st ws = Some raw" and "cursor \<noteq> []" and "write_cursor ws connector cursor from_opt st = (ok, st')"
  shows "(ok \<longleftrightarrow> (\<forall>p. from_opt = Some p \<longrightarrow> read_cursor raw connector = p) \<and> read_cursor raw connector \<noteq> Some cursor) \<and>
    (ok \<longrightarrow> (\<exists>raw'. map_of st' ws = Some raw' \<and>
       (\<forall>k. read_cursor raw' k = (if k = connector then Some cursor else read_cursor raw k))) \<and>
       nc_sources (block_of st' ws) = nc_sources (block_of st ws) \<and> nc_routes (block_of st' ws) = nc_routes (block_of st ws) \<and>
       (\<forall>ws'. ws' \<noteq> ws \<longrightarrow> map_of st' ws' = map_of st ws')) \<and>
    (\<not> ok \<longrightarrow> st' = st)"
  using assms by (rule cursor_write_cases)

text \<open>Two readers that both found no cursor: the first to write sets the position, the second is refused.\<close>

lemma first_position_stays:
  assumes "map_of st ws = Some raw" and "c1 \<noteq> []" and "c2 \<noteq> []" and "write_cursor ws k c1 (Some None) st = (True, st')"
  shows "write_cursor ws k c2 (Some None) st' = (False, st')"
proof -
  obtain raw' where r: "map_of st' ws = Some raw'" "read_cursor raw' k = Some c1"
    using cursor_write_cases [OF assms(1,2,4)] by auto
  obtain ok st'' where w: "write_cursor ws k c2 (Some None) st' = (ok, st'')" by (cases "write_cursor ws k c2 (Some None) st'")
  show ?thesis using cursor_write_cases [OF r(1) assms(3) w] r(2) w by auto
qed

section \<open>What a saved route may name\<close>

lemma first_refusal_none: "first_refusal fr ctx ts = None \<Longrightarrow> t \<in> set ts \<Longrightarrow> check_target fr ctx t = None"
  by (induction ts) (auto split: option.splits)

lemma validate_from_sound:
  assumes "validate_from fr ctx mints seen input = Inr rs"
  shows "(\<forall>r \<in> set rs. nr_createdBy r = rc_createdBy ctx \<and> nr_disabled r = None \<and> nr_id r \<notin> set seen \<and>
      (\<exists>ts. nr_deliver r = map JObj ts \<and> (\<forall>t \<in> set ts. check_target fr ctx t = None))) \<and>
    distinct (map nr_id rs) \<and> map nr_match rs = map ri_match input \<and> map nr_deliver rs = map (map JObj \<circ> ri_deliver) input"
  using assms
proof (induction input arbitrary: mints seen rs)
  case (Cons raw rest)
  define i where "i = (case ri_id raw of Some i \<Rightarrow> i | None \<Rightarrow> (case mints of [] \<Rightarrow> [] | m # _ \<Rightarrow> m))"
  define mints' where "mints' = (case ri_id raw of Some _ \<Rightarrow> mints | None \<Rightarrow> tl mints)"
  obtain rs' where r: "validate_from fr ctx mints' (seen @ [i]) rest = Inr rs'" "i \<notin> set seen"
    "first_refusal fr ctx (ri_deliver raw) = None"
    "rs = \<lparr> nr_id = i, nr_createdBy = rc_createdBy ctx, nr_match = ri_match raw, nr_deliver = map JObj (ri_deliver raw), nr_disabled = None \<rparr> # rs'"
    using Cons.prems by (auto simp: Let_def i_def [symmetric] mints'_def [symmetric] split: if_splits option.splits sum.splits)
  note IH = Cons.IH [OF r(1)]
  show ?case using IH r first_refusal_none [OF r(3)] by (auto simp: comp_def)
qed simp

lemma unknown_in_mono: "set found \<subseteq> set (unknown_in s found)"
proof -
  have "set found \<subseteq> set (fold (\<lambda>t f. if t \<in> set notification_placeholders then f else add_new t f) ts found)" for ts
  proof (induction ts arbitrary: found)
    case (Cons t ts)
    show ?case
    proof (cases "t \<in> set notification_placeholders")
      case True
      then show ?thesis using Cons.IH by simp
    next
      case False
      then show ?thesis using Cons.IH [of "add_new t found"] by (auto simp: add_new_def split: if_splits)
    qed
  qed simp
  then show ?thesis by (simp add: unknown_in_def)
qed

lemma unknown_mono:
  "set found \<subseteq> set (unknown_placeholders j found)"
  "set found \<subseteq> set (unknown_items js found)"
  "set found \<subseteq> set (unknown_fields fs found)"
proof (induction j found and js found and fs found rule: unknown_placeholders_unknown_items_unknown_fields.induct)
  case (6 j js found)
  note 6(1)
  also note 6(2)
  finally show ?case by simp
next
  case (8 k j fs found)
  have "set found \<subseteq> set (unknown_in k found)" by (rule unknown_in_mono)
  also note 8(1)
  also note 8(2)
  finally show ?case by simp
qed (simp_all add: unknown_in_mono)

lemma unknown_in_nil: "unknown_in s [] = [] \<Longrightarrow> set (tokens_of s) \<subseteq> set notification_placeholders"
proof -
  have "fold (\<lambda>t f. if t \<in> set notification_placeholders then f else add_new t f) ts found = [] \<Longrightarrow>
      found = [] \<and> set ts \<subseteq> set notification_placeholders" for ts found
  proof (induction ts arbitrary: found)
    case (Cons t ts)
    show ?case
    proof (cases "t \<in> set notification_placeholders")
      case True
      then show ?thesis using Cons.IH [of found] Cons.prems by simp
    next
      case False
      then have "add_new t found = []" using Cons.IH [of "add_new t found"] Cons.prems by simp
      then show ?thesis by (auto simp: add_new_def split: if_splits)
    qed
  qed simp
  then show "unknown_in s [] = [] \<Longrightarrow> set (tokens_of s) \<subseteq> set notification_placeholders" by (simp add: unknown_in_def)
qed

lemma render_known: "set (tokens_of s) \<subseteq> set notification_placeholders \<Longrightarrow> snd (render_string (placeholder_values p host) s m) = m"
proof (induction "length s" arbitrary: s rule: less_induct)
  case less
  show ?case
  proof (cases "placeholder_at s")
    case None
    show ?thesis
    proof (cases s)
      case (Cons c cs)
      then have "snd (render_string (placeholder_values p host) cs m) = m"
        using less None tokens_of.simps [of s] by simp
      then show ?thesis using Cons None by (subst render_string.simps) (simp add: case_prod_beta Let_def)
    qed (use None in \<open>subst render_string.simps, simp\<close>)
  next
    case (Some x)
    obtain name rest where x: "x = (name, rest)" by (cases x)
    have known: "name \<in> set notification_placeholders" "set (tokens_of rest) \<subseteq> set notification_placeholders"
      using less.prems Some x tokens_of.simps [of s] by simp_all
    have "snd (render_string (placeholder_values p host) rest m) = m"
      using less.hyps known(2) placeholder_at_shorter [of s name rest] Some x by simp
    moreover obtain v where "placeholder_values p host name = Some v"
      using known(1) by (auto simp: notification_placeholders_def placeholder_values_def)
    ultimately show ?thesis using Some x by (subst render_string.simps) (simp add: case_prod_beta Let_def)
  qed
qed

lemma known_value:
  "unknown_placeholders j found = [] \<Longrightarrow> found = [] \<and> snd (render_value (placeholder_values p host) j m) = m"
  "unknown_items js found = [] \<Longrightarrow> found = [] \<and> snd (render_items (placeholder_values p host) js m) = m"
  "unknown_fields fs found = [] \<Longrightarrow> found = [] \<and> (\<forall>out. snd (render_fields (placeholder_values p host) fs out m) = m)"
proof (induction j found and js found and fs found rule: unknown_placeholders_unknown_items_unknown_fields.induct)
  case (1 s found)
  have "found = []" using 1 unknown_in_mono [of found s] by simp
  then show ?case using 1 render_known [OF unknown_in_nil] by (simp add: case_prod_beta Let_def)
next
  case (6 j js found)
  then have "unknown_placeholders j found = []" by simp
  then show ?case using 6 by (simp add: case_prod_beta Let_def)
next
  case (8 k j fs found)
  then have "unknown_placeholders j (unknown_in k found) = []" by simp
  then have "unknown_in k found = []" "found = []" using 8(1) unknown_in_mono [of found k] by auto
  then show ?case using 8 render_known [OF unknown_in_nil, of k] by (simp add: case_prod_beta Let_def)
qed (simp_all add: case_prod_beta Let_def)

text \<open>
  C27. What an admin was allowed to save is delivered in full: in every route a write accepts, the input of every tool target
  renders without an unresolved placeholder, for whatever notification arrives; the event stays connector-written data in it.
\<close>

theorem saved_route_renders_fully:
  assumes "validate_routes fr ctx mints input = Inr rs" and "r \<in> set rs" and "JObj t \<in> set (nr_deliver r)"
    and "jprop t ''kind'' \<noteq> Some (JStr ''agent'')" and "jprop t ''input'' = Some (JObj fs)"
  shows "misses (render_deliver_input (Some fs) p host) = 0"
proof -
  have "check_target fr ctx t = None"
    using validate_from_sound [OF assms(1) [unfolded validate_routes_def]] assms(2,3) by fastforce
  then have "unknown_placeholders (JObj fs) [] = []"
    using assms(4,5) by (simp add: check_target_def Let_def split: if_splits)
  then have "snd (render_fields (placeholder_values p host) fs [] 0) = 0" using known_value(3) [of fs "[]" p host 0] by simp
  then show ?thesis by (simp add: render_deliver_input_def case_prod_beta Let_def)
qed

definition target_admitted :: "(rat \<Rightarrow> string) \<Rightarrow> route_context \<Rightarrow> (string \<times> json) list \<Rightarrow> bool" where
  "target_admitted fr ctx t \<longleftrightarrow>
     (if jprop t ''kind'' = Some (JStr ''agent'') then \<exists>s \<in> set (rc_taskIds ctx). jprop t ''task'' = Some (JStr s)
      else (\<exists>s \<in> set (rc_toolNames ctx). jprop t ''tool'' = Some (JStr s)) \<and>
        (\<forall>v \<in> set_option (jprop t ''input''). utf8_length (stringify fr v) \<le> deliver_input_max_bytes))"

lemma named_is: "named names v \<Longrightarrow> \<exists>s \<in> set names. v = Some (JStr s)"
  by (auto simp: named_def split: option.splits json.splits)

lemma admitted: "check_target fr ctx t = None \<Longrightarrow> target_admitted fr ctx t"
proof (cases "jprop t ''kind'' = Some (JStr ''agent'')")
  case True
  assume "check_target fr ctx t = None"
  then have "named (rc_taskIds ctx) (jprop t ''task'')" using True by (simp add: check_target_def split: if_splits)
  then show ?thesis using True named_is by (simp add: target_admitted_def)
next
  case False
  assume c: "check_target fr ctx t = None"
  then have n: "named (rc_toolNames ctx) (jprop t ''tool'')"
    using False by (simp add: check_target_def Let_def split: if_splits)
  show ?thesis
  proof (cases "jprop t ''input''")
    case None
    then show ?thesis using False named_is [OF n] by (simp add: target_admitted_def)
  next
    case (Some v)
    then have "\<not> deliver_input_max_bytes < utf8_length (stringify fr v)"
      using c n False by (simp add: check_target_def Let_def split: if_splits)
    then show ?thesis using Some False named_is [OF n] by (simp add: target_admitted_def)
  qed
qed

text \<open>
  A saved set of routes has distinct ids, carries the author's stamp and starts enabled, keeps the matches and targets as
  written, and every target names one of the author's own tasks or a tool the workspace has, with an input within the limit.
\<close>

theorem saved_routes_admissible:
  assumes "validate_routes fr ctx mints input = Inr rs"
  shows "distinct (map nr_id rs) \<and> map nr_match rs = map ri_match input \<and>
    map nr_deliver rs = map (\<lambda>i. map JObj (ri_deliver i)) input \<and>
    (\<forall>r \<in> set rs. nr_createdBy r = rc_createdBy ctx \<and> nr_disabled r = None \<and>
       (\<forall>t. JObj t \<in> set (nr_deliver r) \<longrightarrow> target_admitted fr ctx t))"
proof -
  note sound = validate_from_sound [OF assms [unfolded validate_routes_def]]
  have "target_admitted fr ctx t" if "r \<in> set rs" "JObj t \<in> set (nr_deliver r)" for r t
    using sound that admitted by fastforce
  then show ?thesis using sound by (simp add: comp_def)
qed

text \<open>The placeholder an editor is warned about would not be delivered as literal text: it renders as nothing.\<close>

lemma unknown_token_renders_empty:
  "render_string (placeholder_values p host) ''{{nope}}'' m = ([], m + 1)"
proof -
  have p: "placeholder_at ''{{nope}}'' = Some (''nope'', [])" by code_simp
  have v: "placeholder_values p host ''nope'' = None" by (simp add: placeholder_values_def)
  have "render_string (placeholder_values p host) [] (m + 1) = ([], m + 1)"
    by (subst render_string.simps) (simp add: placeholder_at_nil)
  then show ?thesis by (subst render_string.simps) (simp only: p v option.case prod.case)
qed

section \<open>Instances\<close>

definition demo_context :: route_context where
  "demo_context = \<lparr> rc_toolNames = [''slack__post''], rc_taskIds = [''tsk_1''], rc_createdBy = ''u1'' \<rparr>"

definition demo_target :: "(string \<times> json) list" where
  "demo_target = [(''kind'', JStr ''tool''), (''tool'', JStr ''slack__post''), (''input'', JObj [(''text'', JStr ''New: {{title}}'')])]"

definition demo_input :: route_input where
  "demo_input = \<lparr> ri_id = None, ri_match = JObj [], ri_deliver = [demo_target] \<rparr>"

definition demo_saved :: notification_route where
  "demo_saved = \<lparr> nr_id = ''rt_1'', nr_createdBy = ''u1'', nr_match = JObj [], nr_deliver = [JObj demo_target], nr_disabled = None \<rparr>"

lemma demo_validates: "validate_routes (\<lambda>_. []) demo_context [''rt_1''] [demo_input] = Inr [demo_saved]"
  by code_simp

lemma demo_refuses:
  "validate_routes (\<lambda>_. []) demo_context [''rt_1''] [demo_input\<lparr> ri_deliver := [[(''kind'', JStr ''tool''), (''tool'', JStr ''slack__post''),
     (''input'', JObj [(''text'', JStr ''{{nope}}'')])]] \<rparr>] \<noteq> Inr []"
  by code_simp

theorem saved_route_renders_fully_witness:
  "misses (render_deliver_input (Some [(''text'', JStr ''New: {{title}}'')])
    \<lparr>p_level = Info, p_title = ''A lead'', p_subject = None, p_body = None, p_link = None\<rparr> \<lparr>inboxUrl = ''https://inbox''\<rparr>) = 0"
  by (rule saved_route_renders_fully [OF demo_validates, of demo_saved demo_target])
    (simp_all add: demo_saved_def demo_target_def jprop_def)

theorem saved_routes_admissible_witness: "target_admitted (\<lambda>_. []) demo_context demo_target"
  using saved_routes_admissible [OF demo_validates] by (simp add: demo_saved_def)

definition demo_block :: block_store where
  "demo_block = [(''ws1'', Some (JObj [(''sources'', JObj [(''crm'', JObj [(''maxLevel'', JStr ''info'')])]),
     (''cursors'', JObj [(''crm'', JStr ''c1'')])])), (''ws2'', None)]"

lemma demo_read: "read_cursor (the (map_of demo_block ''ws1'')) ''crm'' = Some ''c1''"
  by code_simp

theorem cursor_write_is_compare_and_set_witness:
  "fst (write_cursor ''ws1'' ''crm'' ''c2'' (Some (Some ''c1'')) demo_block) \<and>
   \<not> fst (write_cursor ''ws1'' ''crm'' ''c2'' (Some None) demo_block)"
proof -
  have m: "map_of demo_block ''ws1'' = Some (the (map_of demo_block ''ws1''))" by (simp add: demo_block_def)
  show ?thesis
    using cursor_write_is_compare_and_set [OF m, where cursor = "''c2''" and connector = "''crm''"
        and from_opt = "Some (Some ''c1'')", OF _ prod.collapse [symmetric]]
      cursor_write_is_compare_and_set [OF m, where cursor = "''c2''" and connector = "''crm''" and from_opt = "Some None",
        OF _ prod.collapse [symmetric]] demo_read
    by simp
qed

end
