(* ===== verification/Notify_Store.thy ===== *)
theory Notify_Store
  imports Notify_Envelope Calendar "HOL-Library.Sublist"
begin

text \<open>
  The inbox of a workspace, \<open>src/notifications/store.ts\<close>: one append-only file per day, each read a scan of the retained files.

  The directory is a map from days to items; a day (\<open>YYYY-MM-DD\<close>) is its number since the epoch. Lines that do not parse,
  which the reader skips, are not in the model. Every call is synchronous in the code, so each is one step. What a call meets
  outside (the clock, the process's zone, whether the disk takes a write) is \<open>inbox_env\<close>.
\<close>

section \<open>State\<close>

record inbox =
  ib_workspaceId :: string
  ib_retentionDays :: int
  ib_days :: "(int \<times> notification list) list"

definition notification_retention_days :: int where
  "notification_retention_days = 90"

definition new_inbox :: "string \<Rightarrow> int option \<Rightarrow> inbox" where
  "new_inbox ws retention = \<lparr>ib_workspaceId = ws, ib_retentionDays = nullish retention notification_retention_days, ib_days = []\<rparr>"

text \<open>\<open>ie_back t n\<close> is \<open>setDate(getDate() - n)\<close> of the instant \<open>t\<close>; \<open>ie_stuck\<close> are the files that cannot be removed.\<close>

record inbox_env =
  ie_now :: ms
  ie_back :: "ms \<Rightarrow> int \<Rightarrow> ms"
  ie_root :: bool
  ie_appends :: bool
  ie_stuck :: "int \<Rightarrow> bool"

datatype inbox_error = WorkspaceGone | AppendFailed

record created_frame =
  cf_workspaceId :: string
  cf_id :: string
  cf_seq :: int
  cf_source :: string
  cf_name :: string
  cf_level :: notification_level
  cf_title :: string
  cf_subject :: "string option"
  cf_receivedAt :: string
  cf_unread :: nat

datatype inbox_event = NotificationCreated created_frame | NotificationRead string "string list" nat

section \<open>Reading\<close>

definition day_files :: "(int \<times> notification list) list \<Rightarrow> int list" where
  "day_files ds = sort (map fst ds)"

definition read_day_file :: "(int \<times> notification list) list \<Rightarrow> int \<Rightarrow> notification list" where
  "read_day_file ds d = nullish (map_of ds d) []"

definition stored_items :: "(int \<times> notification list) list \<Rightarrow> notification list" where
  "stored_items ds = concat (map (read_day_file ds) (day_files ds))"

definition load_all :: "(int \<times> notification list) list \<Rightarrow> notification list" where
  "load_all ds = sort_key n_seq (stored_items ds)"

definition is_item :: "string \<Rightarrow> string \<Rightarrow> notification \<Rightarrow> bool" where
  "is_item source eventId i \<longleftrightarrow> n_source i = source \<and> env_eventId (n_envelope i) = eventId"

definition find_item :: "(int \<times> notification list) list \<Rightarrow> string \<Rightarrow> string \<Rightarrow> notification option" where
  "find_item ds source eventId = find (is_item source eventId) (stored_items ds)"

fun newest_max :: "notification list list \<Rightarrow> int" where
  "newest_max [] = 1"
| "newest_max (items # rest) = (if items = [] then newest_max rest else fold (\<lambda>i m. if m < n_seq i then n_seq i else m) items 0 + 1)"

definition next_seq :: "(int \<times> notification list) list \<Rightarrow> int" where
  "next_seq ds = newest_max (map (read_day_file ds) (rev (day_files ds)))"

definition unread :: "notification \<Rightarrow> bool" where
  "unread i \<longleftrightarrow> \<not> truthy (n_readAt i)"

definition unread_count :: "(int \<times> notification list) list \<Rightarrow> nat" where
  "unread_count ds = length (filter unread (load_all ds))"

section \<open>Writing one envelope\<close>

definition cutoff_day :: "inbox_env \<Rightarrow> int \<Rightarrow> int" where
  "cutoff_day env days = ie_back env (ie_now env) days div ms_per_day"

definition kept_day :: "inbox_env \<Rightarrow> int \<Rightarrow> int \<Rightarrow> bool" where
  "kept_day env days d \<longleftrightarrow> cutoff_day env days \<le> d \<or> ie_stuck env d"

definition prune_days :: "inbox_env \<Rightarrow> int \<Rightarrow> (int \<times> notification list) list \<Rightarrow> (int \<times> notification list) list" where
  "prune_days env days ds = filter (\<lambda>(d, _). kept_day env days d) ds"

definition prune :: "inbox_env \<Rightarrow> inbox \<Rightarrow> inbox" where
  "prune env st = st\<lparr>ib_days := prune_days env (ib_retentionDays st) (ib_days st)\<rparr>"

definition stamp_item :: "inbox_env \<Rightarrow> inbox \<Rightarrow> string \<Rightarrow> notification_envelope \<Rightarrow> notification_level option \<Rightarrow> notification" where
  "stamp_item env st source e effective =
     \<lparr>n_envelope = e, n_source = source, n_workspaceId = ib_workspaceId st, n_receivedAt = to_iso (ie_now env),
      n_seq = next_seq (ib_days st),
      n_effectiveLevel = (if effective = Some (p_level (read_presentation e)) then None else effective),
      n_readAt = None, n_readBy = None, n_deliveries = []\<rparr>"

definition created_event :: "inbox \<Rightarrow> notification \<Rightarrow> inbox_event" where
  "created_event st i =
     (let p = read_presentation (n_envelope i) in
      NotificationCreated \<lparr>cf_workspaceId = n_workspaceId i, cf_id = notification_id (n_source i) (env_eventId (n_envelope i)),
        cf_seq = n_seq i, cf_source = n_source i, cf_name = env_name (n_envelope i), cf_level = p_level p, cf_title = p_title p,
        cf_subject = (if truthy (p_subject p) then p_subject p else None), cf_receivedAt = n_receivedAt i,
        cf_unread = unread_count (ib_days st)\<rparr>)"

record append_result =
  ap_item :: notification
  ap_created :: bool
  ap_event :: "inbox_event option"
  ap_inbox :: inbox

definition append_item ::
  "inbox_env \<Rightarrow> inbox \<Rightarrow> string \<Rightarrow> notification_envelope \<Rightarrow> notification_level option \<Rightarrow> inbox_error + append_result" where
  "append_item env st source e effective =
     (case find_item (ib_days st) source (env_eventId e) of
        Some old \<Rightarrow> Inr \<lparr>ap_item = old, ap_created = False, ap_event = None, ap_inbox = st\<rparr>
      | None \<Rightarrow>
          if \<not> ie_root env then Inl WorkspaceGone
          else if \<not> ie_appends env then Inl AppendFailed
          else let i = stamp_item env st source e effective;
                   d = ie_now env div ms_per_day;
                   st' = prune env (st\<lparr>ib_days := jset d (read_day_file (ib_days st) d @ [i]) (ib_days st)\<rparr>)
               in Inr \<lparr>ap_item = i, ap_created = True, ap_event = Some (created_event st' i), ap_inbox = st'\<rparr>)"

section \<open>Lists\<close>

record list_options =
  lo_unreadOnly :: bool
  lo_level :: "notification_level option"
  lo_source :: "string option"
  lo_after :: "int option"
  lo_before :: "int option"
  lo_ids :: "string list option"
  lo_since :: "string option"
  lo_query :: "string option"
  lo_limit :: "rat option"
  lo_ascending :: bool

definition list_default_limit :: int where
  "list_default_limit = 20"

definition list_max_limit :: int where
  "list_max_limit = 100"

text \<open>A limit that is not a finite number is one that is absent.\<close>

definition clamp_limit :: "rat option \<Rightarrow> nat" where
  "clamp_limit l = nat (case l of None \<Rightarrow> list_default_limit | Some r \<Rightarrow> max 1 (min list_max_limit \<lfloor>r\<rfloor>))"

definition in_position :: "notification \<Rightarrow> list_options \<Rightarrow> bool" where
  "in_position i o' \<longleftrightarrow>
     (case lo_after o' of None \<Rightarrow> True | Some a \<Rightarrow> \<not> n_seq i \<le> a) \<and>
     (case lo_before o' of None \<Rightarrow> True | Some b \<Rightarrow> \<not> b \<le> n_seq i) \<and>
     (case lo_ids o' of None \<Rightarrow> True | Some ids \<Rightarrow> notification_id (n_source i) (env_eventId (n_envelope i)) \<in> set ids)"

fun has_text :: "string \<Rightarrow> string \<Rightarrow> bool" where
  "has_text needle [] \<longleftrightarrow> needle = []"
| "has_text needle (c # cs) \<longleftrightarrow> take (length needle) (c # cs) = needle \<or> has_text needle cs"

definition matches_query :: "notification \<Rightarrow> string option \<Rightarrow> bool" where
  "matches_query i q \<longleftrightarrow>
     (\<not> truthy q \<or>
      (let needle = to_lower (nullish q []) in
       has_text needle (to_lower (p_title (read_presentation (n_envelope i)))) \<or>
       has_text needle (to_lower (env_name (n_envelope i)))))"

definition at_level :: "notification \<Rightarrow> notification_level option \<Rightarrow> bool" where
  "at_level i l \<longleftrightarrow> (case l of None \<Rightarrow> True | Some l \<Rightarrow> l \<le> p_level (read_presentation (n_envelope i)))"

text \<open>A comparison with a text that is no date is false.\<close>

definition earlier :: "(string \<Rightarrow> ms option) \<Rightarrow> string \<Rightarrow> string \<Rightarrow> bool" where
  "earlier date_parse a b \<longleftrightarrow> (case (date_parse a, date_parse b) of (Some x, Some y) \<Rightarrow> x < y | _ \<Rightarrow> False)"

definition matches_filters :: "(string \<Rightarrow> ms option) \<Rightarrow> notification \<Rightarrow> list_options \<Rightarrow> bool" where
  "matches_filters date_parse i o' \<longleftrightarrow>
     \<not> (lo_unreadOnly o' \<and> \<not> unread i) \<and>
     \<not> (truthy (lo_source o') \<and> Some (n_source i) \<noteq> lo_source o') \<and>
     (case lo_since o' of None \<Rightarrow> True | Some s \<Rightarrow> \<not> earlier date_parse (env_timestamp (n_envelope i)) s) \<and>
     in_position i o' \<and> matches_query i (lo_query o') \<and> at_level i (lo_level o')"

record list_page =
  lp_items :: "notification list"
  lp_unread :: nat
  lp_hasMore :: bool

definition list_step :: "(string \<Rightarrow> ms option) \<Rightarrow> list_options \<Rightarrow> notification \<Rightarrow> list_page \<Rightarrow> list_page" where
  "list_step date_parse o' i p =
     (let p = (if unread i then p\<lparr>lp_unread := lp_unread p + 1\<rparr> else p) in
      if \<not> matches_filters date_parse i o' then p
      else if length (lp_items p) < clamp_limit (lo_limit o') then p\<lparr>lp_items := lp_items p @ [i]\<rparr>
      else p\<lparr>lp_hasMore := True\<rparr>)"

definition list_with_unread :: "(string \<Rightarrow> ms option) \<Rightarrow> list_options \<Rightarrow> inbox \<Rightarrow> list_page" where
  "list_with_unread date_parse o' st =
     fold (list_step date_parse o') (if lo_ascending o' then load_all (ib_days st) else rev (load_all (ib_days st)))
       \<lparr>lp_items = [], lp_unread = 0, lp_hasMore = False\<rparr>"

section \<open>Marking read\<close>

definition ref_key :: "string \<Rightarrow> string \<Rightarrow> string" where
  "ref_key source eventId = stringify (\<lambda>_. []) (JArr [JStr source, JStr eventId])"

definition item_key :: "notification \<Rightarrow> string" where
  "item_key i = ref_key (n_source i) (env_eventId (n_envelope i))"

definition mark_item :: "string \<Rightarrow> string option \<Rightarrow> notification \<Rightarrow> notification" where
  "mark_item readAt readBy i =
     (let i = i\<lparr>n_readAt := Some readAt\<rparr> in if truthy readBy then i\<lparr>n_readBy := readBy\<rparr> else i)"

record marking =
  mk_days :: "(int \<times> notification list) list"
  mk_changed :: "notification list"
  mk_unread :: nat

definition mark_day :: "string list \<Rightarrow> string \<Rightarrow> string option \<Rightarrow> int \<Rightarrow> marking \<Rightarrow> marking" where
  "mark_day wanted readAt readBy d m =
     (let items = read_day_file (mk_days m) d;
          hit = (\<lambda>i. unread i \<and> item_key i \<in> set wanted);
          items' = map (\<lambda>i. if hit i then mark_item readAt readBy i else i) items
      in \<lparr>mk_days = (if list_ex hit items then jset d items' (mk_days m) else mk_days m),
          mk_changed = mk_changed m @ map (mark_item readAt readBy) (filter hit items),
          mk_unread = mk_unread m + length (filter (\<lambda>i. unread i \<and> item_key i \<notin> set wanted) items)\<rparr>)"

definition mark_read :: "ms \<Rightarrow> (string \<times> string) list \<Rightarrow> string option \<Rightarrow> inbox \<Rightarrow> notification list \<times> inbox_event option \<times> inbox" where
  "mark_read now refs readBy st =
     (if refs = [] then ([], None, st)
      else let m = fold (mark_day (map (\<lambda>(s, e). ref_key s e) refs) (to_iso now) readBy) (day_files (ib_days st))
                 \<lparr>mk_days = ib_days st, mk_changed = [], mk_unread = 0\<rparr>
           in (mk_changed m,
               if mk_changed m = [] then None
               else Some (NotificationRead (ib_workspaceId st)
                 (map (\<lambda>i. notification_id (n_source i) (env_eventId (n_envelope i))) (mk_changed m)) (mk_unread m)),
               st\<lparr>ib_days := mk_days m\<rparr>))"

section \<open>The delivery ledger\<close>

definition same_slot :: "delivery_record \<Rightarrow> delivery_record \<Rightarrow> bool" where
  "same_slot a b \<longleftrightarrow> d_routeId a = d_routeId b \<and> d_target a = d_target b \<and> d_index a = d_index b"

fun merge_row :: "delivery_record \<Rightarrow> delivery_record list \<Rightarrow> delivery_record list" where
  "merge_row row [] = [row]"
| "merge_row row (old # rest) = (if same_slot old row then row # rest else old # merge_row row rest)"

fun replace_first :: "('a \<Rightarrow> bool) \<Rightarrow> ('a \<Rightarrow> 'a) \<Rightarrow> 'a list \<Rightarrow> 'a list" where
  "replace_first p f [] = []"
| "replace_first p f (x # xs) = (if p x then f x # xs else x # replace_first p f xs)"

fun record_in_days ::
  "string \<Rightarrow> string \<Rightarrow> delivery_record list \<Rightarrow> int list \<Rightarrow> (int \<times> notification list) list
    \<Rightarrow> notification option \<times> (int \<times> notification list) list" where
  "record_in_days source eventId rows [] ds = (None, ds)"
| "record_in_days source eventId rows (d # rest) ds =
     (let items = read_day_file ds d;
          merge = (\<lambda>i. i\<lparr>n_deliveries := fold merge_row rows (n_deliveries i)\<rparr>)
      in case find (is_item source eventId) items of
           None \<Rightarrow> record_in_days source eventId rows rest ds
         | Some i \<Rightarrow> (Some (merge i), jset d (replace_first (is_item source eventId) merge items) ds))"

definition record_deliveries :: "string \<Rightarrow> string \<Rightarrow> delivery_record list \<Rightarrow> inbox \<Rightarrow> notification option \<times> inbox" where
  "record_deliveries source eventId rows st =
     (if rows = [] then (find_item (ib_days st) source eventId, st)
      else let (i, ds) = record_in_days source eventId rows (day_files (ib_days st)) (ib_days st) in (i, st\<lparr>ib_days := ds\<rparr>))"

definition pending_deliveries :: "inbox \<Rightarrow> (notification \<times> delivery_record) list" where
  "pending_deliveries st =
     concat (map (\<lambda>i. map (Pair i) (filter (\<lambda>r. d_outcome r = DeliveryPending \<or> d_outcome r = DeliveryDeferred) (n_deliveries i)))
       (load_all (ib_days st)))"

section \<open>The days in order\<close>

lemma day_files_set: "jmap_ok ds \<Longrightarrow> day_files ds = sorted_list_of_set (fst ` set ds)"
  using sorted_list_of_set_sort_remdups [of "map fst ds"] by (simp add: day_files_def jmap_ok_def distinct_remdups_id)

lemma set_day_files [simp]: "set (day_files ds) = fst ` set ds"
  by (simp add: day_files_def)

lemma read_jset [simp]: "read_day_file (jset d v ds) d' = (if d' = d then v else read_day_file ds d')"
  by (simp add: read_day_file_def)

lemma read_absent: "d \<notin> fst ` set ds \<Longrightarrow> read_day_file ds d = []"
  by (cases "map_of ds d") (auto simp: read_day_file_def dest: map_of_SomeD intro: rev_image_eqI)

lemma slos_insert_last:
  assumes "finite K" "\<forall>k \<in> K. k \<le> (d::int)"
  shows "sorted_list_of_set (insert d K) = sorted_list_of_set (K - {d}) @ [d]"
proof -
  have "insort d (sorted_list_of_set (K - {d})) = sorted_list_of_set (K - {d}) @ [d]"
    using assms by (intro sorted_insort_is_snoc) auto
  then show ?thesis using assms(1) by (simp add: sorted_list_of_set_insert_remove)
qed

lemma stored_split_last:
  assumes "jmap_ok ds" "\<forall>k \<in> fst ` set ds. k \<le> d"
  shows "stored_items ds = concat (map (read_day_file ds) (sorted_list_of_set (fst ` set ds - {d}))) @ read_day_file ds d"
proof (cases "d \<in> fst ` set ds")
  case True
  then have "fst ` set ds = insert d (fst ` set ds)" by auto
  then show ?thesis using assms slos_insert_last [of "fst ` set ds" d] by (simp add: stored_items_def day_files_set)
next
  case False
  then show ?thesis using assms(1) by (simp add: stored_items_def day_files_set read_absent)
qed

lemma stored_append:
  assumes "jmap_ok ds" "\<forall>k \<in> fst ` set ds. k \<le> d"
  shows "stored_items (jset d (read_day_file ds d @ [i]) ds) = stored_items ds @ [i]"
proof -
  let ?K = "fst ` set ds"
  have rest: "map (read_day_file (jset d (read_day_file ds d @ [i]) ds)) (sorted_list_of_set (?K - {d})) =
      map (read_day_file ds) (sorted_list_of_set (?K - {d}))" by simp
  have "stored_items (jset d (read_day_file ds d @ [i]) ds) =
      concat (map (read_day_file ds) (sorted_list_of_set (?K - {d}))) @ read_day_file ds d @ [i]"
    using assms stored_split_last [of "jset d (read_day_file ds d @ [i]) ds" d] rest
    by (simp add: keys_jset insert_Diff_if)
  then show ?thesis using stored_split_last [OF assms] by simp
qed

lemma jmap_ok_filter: "jmap_ok ds \<Longrightarrow> jmap_ok (filter P ds)"
  by (auto simp: jmap_ok_def distinct_map intro: inj_on_subset)

lemma map_of_filter_key: "map_of (filter (\<lambda>(d, _). P d) ds) d = (if P d then map_of ds d else None)"
  by (induction ds) auto

lemma day_files_filter: "day_files (filter (\<lambda>(d, _). P d) ds) = filter P (day_files ds)"
proof -
  have "map fst (filter (\<lambda>(d, _). P d) ds) = filter P (map fst ds)" by (induction ds) auto
  then show ?thesis by (simp add: day_files_def filter_sort)
qed

lemma stored_filter: "stored_items (filter (\<lambda>(d, _). P d) ds) = concat (map (read_day_file ds) (filter P (day_files ds)))"
proof -
  have "map (read_day_file (filter (\<lambda>(d, _). P d) ds)) (filter P (day_files ds)) = map (read_day_file ds) (filter P (day_files ds))"
    by (simp add: read_day_file_def map_of_filter_key)
  then show ?thesis by (simp only: stored_items_def day_files_filter)
qed

lemma subseq_concat_filter: "subseq (concat (map f (filter P xs))) (concat (map f xs))"
  by (induction xs) (simp_all add: list_emb_append_mono subseq_append' list_emb_append2)

lemma subseq_set: "subseq xs ys \<Longrightarrow> set xs \<subseteq> set ys"
  by (induction rule: list_emb.induct) auto

lemma sorted_wrt_subseq: "subseq xs ys \<Longrightarrow> sorted_wrt P ys \<Longrightarrow> sorted_wrt P xs"
proof (induction rule: list_emb.induct)
  case (list_emb_Cons2 x y xs ys)
  then show ?case using subseq_set [of xs ys] by auto
qed auto

lemma distinct_subseq: "subseq xs ys \<Longrightarrow> distinct ys \<Longrightarrow> distinct xs"
proof (induction rule: list_emb.induct)
  case (list_emb_Cons2 x y xs ys)
  then show ?case using subseq_set [of xs ys] by auto
qed auto

section \<open>Numbers and identities\<close>

definition item_ref :: "notification \<Rightarrow> string \<times> string" where
  "item_ref i = (n_source i, env_eventId (n_envelope i))"

definition inbox_ok :: "(int \<times> notification list) list \<Rightarrow> bool" where
  "inbox_ok ds \<longleftrightarrow> jmap_ok ds \<and> sorted_wrt (<) (map n_seq (stored_items ds)) \<and> (\<forall>i \<in> set (stored_items ds). 1 \<le> n_seq i) \<and>
     distinct (map item_ref (stored_items ds))"

lemma fold_max_seq:
  "fold (\<lambda>i m. if m < n_seq i then n_seq i else m) items a = fold max (map n_seq items) (a::int)"
  by (induction items arbitrary: a) (auto simp: max_def)

lemma newest_max_above:
  assumes "sorted_wrt (<) (map n_seq (concat (map f days)))" "\<forall>i \<in> set (concat (map f days)). 1 \<le> n_seq i"
  shows "1 \<le> newest_max (map f (rev days)) \<and> (\<forall>i \<in> set (concat (map f days)). n_seq i < newest_max (map f (rev days)))"
  using assms
proof (induction days rule: rev_induct)
  case (snoc d days)
  show ?case
  proof (cases "f d = []")
    case True
    then show ?thesis using snoc by simp
  next
    case False
    define top where "top = fold (\<lambda>i m. if m < n_seq i then n_seq i else m) (f d) 0"
    have top: "n_seq i \<le> top" if "i \<in> set (f d)" for i
      using that by (simp add: top_def fold_max_seq Max.set_eq_fold [symmetric])
    obtain j where j: "j \<in> set (f d)" using False by (cases "f d") auto
    have "n_seq i < n_seq j" if "i \<in> set (concat (map f days))" for i
      using snoc.prems(1) that j by (auto simp: sorted_wrt_append)
    then have "n_seq i \<le> top" if "i \<in> set (concat (map f (days @ [d])))" for i
      using that top j by fastforce
    moreover have "1 \<le> n_seq j" using snoc.prems(2) j by simp
    then have "1 \<le> top" using top [OF j] by simp
    moreover have "newest_max (map f (rev (days @ [d]))) = top + 1" using False by (simp add: top_def)
    ultimately show ?thesis by fastforce
  qed
qed simp

lemma next_seq_fresh: "inbox_ok ds \<Longrightarrow> 1 \<le> next_seq ds \<and> (\<forall>i \<in> set (stored_items ds). n_seq i < next_seq ds)"
  using newest_max_above [of "read_day_file ds" "day_files ds"] by (simp add: inbox_ok_def stored_items_def next_seq_def)

lemma inbox_ok_empty: "inbox_ok []"
  by (simp add: inbox_ok_def stored_items_def day_files_def jmap_ok_def)

lemma inbox_ok_filter:
  assumes "inbox_ok ds"
  shows "inbox_ok (filter (\<lambda>(d, _). P d) ds)"
proof -
  have sub: "subseq (stored_items (filter (\<lambda>(d, _). P d) ds)) (stored_items ds)"
    unfolding stored_filter by (simp add: stored_items_def subseq_concat_filter)
  show ?thesis unfolding inbox_ok_def
  proof (intro conjI)
    show "jmap_ok (filter (\<lambda>(d, _). P d) ds)" using assms by (simp add: inbox_ok_def jmap_ok_filter)
    show "sorted_wrt (<) (map n_seq (stored_items (filter (\<lambda>(d, _). P d) ds)))"
      using assms by (intro sorted_wrt_subseq [OF subseq_map [OF sub]]) (simp add: inbox_ok_def)
    show "\<forall>i \<in> set (stored_items (filter (\<lambda>(d, _). P d) ds)). 1 \<le> n_seq i"
      using assms subseq_set [OF sub] by (auto simp: inbox_ok_def)
    show "distinct (map item_ref (stored_items (filter (\<lambda>(d, _). P d) ds)))"
      using assms by (intro distinct_subseq [OF subseq_map [OF sub]]) (simp add: inbox_ok_def)
  qed
qed

section \<open>What an append does\<close>

lemma in_stored: "i \<in> set (stored_items ds) \<longleftrightarrow> (\<exists>d. i \<in> set (read_day_file ds d))"
proof
  assume "\<exists>d. i \<in> set (read_day_file ds d)"
  then obtain d where d: "i \<in> set (read_day_file ds d)" by blast
  then have "d \<in> fst ` set ds" using read_absent [of d ds] by (metis empty_iff empty_set)
  then show "i \<in> set (stored_items ds)" using d by (auto simp: stored_items_def)
qed (auto simp: stored_items_def)

lemma is_item_ref: "is_item source eventId i \<longleftrightarrow> item_ref i = (source, eventId)"
  by (auto simp: is_item_def item_ref_def)

lemma find_unique:
  assumes "distinct (map f xs)" "x \<in> set xs"
  shows "find (\<lambda>y. f y = f x) xs = Some x"
  using assms by (induction xs) (auto simp: rev_image_eqI)

lemma find_item_Some:
  assumes "inbox_ok ds"
  shows "find_item ds source eventId = Some i \<longleftrightarrow> i \<in> set (stored_items ds) \<and> item_ref i = (source, eventId)"
proof
  assume "find_item ds source eventId = Some i"
  then show "i \<in> set (stored_items ds) \<and> item_ref i = (source, eventId)"
    by (auto simp: find_item_def find_Some_iff is_item_ref)
next
  assume i: "i \<in> set (stored_items ds) \<and> item_ref i = (source, eventId)"
  then have "find (\<lambda>y. item_ref y = item_ref i) (stored_items ds) = Some i"
    using assms by (intro find_unique) (auto simp: inbox_ok_def)
  moreover have "is_item source eventId = (\<lambda>y. item_ref y = item_ref i)" using i by (auto simp: is_item_ref)
  ultimately show "find_item ds source eventId = Some i" by (simp add: find_item_def)
qed

lemma find_item_None: "find_item ds source eventId = None \<longleftrightarrow> (source, eventId) \<notin> item_ref ` set (stored_items ds)"
  unfolding find_item_def find_None_iff is_item_ref by (metis image_iff)

definition newest :: "inbox_env \<Rightarrow> (int \<times> notification list) list \<Rightarrow> bool" where
  "newest env ds \<longleftrightarrow> (\<forall>k \<in> fst ` set ds. k \<le> ie_now env div ms_per_day)"

lemma inbox_ok_append:
  assumes "inbox_ok ds" "newest env ds" "item_ref i \<notin> item_ref ` set (stored_items ds)" "n_seq i = next_seq ds"
  shows "inbox_ok (jset (ie_now env div ms_per_day) (read_day_file ds (ie_now env div ms_per_day) @ [i]) ds)"
proof -
  have "stored_items (jset (ie_now env div ms_per_day) (read_day_file ds (ie_now env div ms_per_day) @ [i]) ds) = stored_items ds @ [i]"
    using assms(1,2) by (intro stored_append) (auto simp: inbox_ok_def newest_def)
  then show ?thesis using assms next_seq_fresh [OF assms(1)] by (simp add: inbox_ok_def sorted_wrt_append)
qed

lemma ref_stamp: "item_ref (stamp_item env st source e effective) = (source, env_eventId e)"
  "n_seq (stamp_item env st source e effective) = next_seq (ib_days st)"
  by (simp_all add: item_ref_def stamp_item_def)

lemma append_new:
  assumes "append_item env st source e effective = Inr r" "find_item (ib_days st) source (env_eventId e) = None"
  shows "ap_created r \<and> ap_item r = stamp_item env st source e effective \<and>
    ib_days (ap_inbox r) = prune_days env (ib_retentionDays st)
      (jset (ie_now env div ms_per_day) (read_day_file (ib_days st) (ie_now env div ms_per_day) @ [ap_item r]) (ib_days st))"
  using assms by (auto simp: append_item_def Let_def prune_def split: if_splits)

lemma append_old:
  assumes "find_item (ib_days st) source (env_eventId e) = Some old"
  shows "append_item env st source e effective = Inr \<lparr>ap_item = old, ap_created = False, ap_event = None, ap_inbox = st\<rparr>"
  using assms by (simp add: append_item_def)

lemma in_pruned:
  "i \<in> set (stored_items (prune_days env n ds)) \<longleftrightarrow> (\<exists>d. kept_day env n d \<and> i \<in> set (read_day_file ds d))"
  by (auto simp: in_stored prune_days_def read_day_file_def map_of_filter_key split: if_splits)

lemma in_read_append:
  assumes "P d\<^sub>0"
  shows "(\<exists>d. P d \<and> i \<in> set (read_day_file (jset d\<^sub>0 (read_day_file ds d\<^sub>0 @ [j]) ds) d)) \<longleftrightarrow>
    i = j \<or> (\<exists>d. P d \<and> i \<in> set (read_day_file ds d))"
proof
  assume "i = j \<or> (\<exists>d. P d \<and> i \<in> set (read_day_file ds d))"
  then show "\<exists>d. P d \<and> i \<in> set (read_day_file (jset d\<^sub>0 (read_day_file ds d\<^sub>0 @ [j]) ds) d)"
  proof (elim disjE exE conjE)
    assume "i = j"
    then show ?thesis using assms by (intro exI [of _ d\<^sub>0]) simp
  next
    fix d assume "P d" "i \<in> set (read_day_file ds d)"
    then show ?thesis by (intro exI [of _ d]) auto
  qed
qed (auto split: if_splits)

lemma append_stored:
  assumes "append_item env st source e effective = Inr r" "find_item (ib_days st) source (env_eventId e) = None"
    and "ie_back env (ie_now env) (ib_retentionDays st) \<le> ie_now env"
  shows "i \<in> set (stored_items (ib_days (ap_inbox r))) \<longleftrightarrow> i = ap_item r \<or>
    (\<exists>d. kept_day env (ib_retentionDays st) d \<and> i \<in> set (read_day_file (ib_days st) d))"
proof -
  have "kept_day env (ib_retentionDays st) (ie_now env div ms_per_day)"
    using assms(3) by (simp add: kept_day_def cutoff_day_def ms_per_day_def zdiv_mono1)
  from in_read_append [of "kept_day env (ib_retentionDays st)", OF this] show ?thesis
    using append_new [OF assms(1,2)] by (simp only: in_pruned)
qed

lemma append_keeps_ok:
  assumes "inbox_ok (ib_days st)" "newest env (ib_days st)" "append_item env st source e effective = Inr r"
  shows "inbox_ok (ib_days (ap_inbox r))"
proof (cases "find_item (ib_days st) source (env_eventId e)")
  case None
  have "inbox_ok (jset (ie_now env div ms_per_day) (read_day_file (ib_days st) (ie_now env div ms_per_day) @ [ap_item r]) (ib_days st))"
    using append_new [OF assms(3) None] None by (intro inbox_ok_append assms) (simp_all add: ref_stamp find_item_None)
  then show ?thesis using append_new [OF assms(3) None] inbox_ok_filter by (simp add: prune_days_def)
next
  case (Some old)
  then have "ap_inbox r = st" using append_old [OF Some] assms(3) by auto
  then show ?thesis using assms(1) by simp
qed

lemma append_there:
  assumes "inbox_ok (ib_days st)" and "newest env (ib_days st)" and "ie_back env (ie_now env) (ib_retentionDays st) \<le> ie_now env"
    and "append_item env st source e effective = Inr r"
  shows "find_item (ib_days (ap_inbox r)) source (env_eventId e) = Some (ap_item r)"
proof (cases "find_item (ib_days st) source (env_eventId e)")
  case None
  have "ap_item r \<in> set (stored_items (ib_days (ap_inbox r)))" using append_stored [OF assms(4) None assms(3)] by simp
  moreover have "item_ref (ap_item r) = (source, env_eventId e)" using append_new [OF assms(4) None] ref_stamp(1) by simp
  ultimately show ?thesis using find_item_Some [OF append_keeps_ok [OF assms(1,2,4)]] by blast
next
  case (Some old)
  then show ?thesis using append_old [OF Some] assms(4) by auto
qed

text \<open>
  C26. An event is stored once, however often it arrives: an append finds it or adds it with a number above every other, after
  which it is there; what is older is kept but for days past the retention, and the same event again changes nothing and
  announces nothing.
\<close>

theorem append_stores_once:
  assumes "inbox_ok (ib_days st)" and "newest env (ib_days st)" and "ie_back env (ie_now env) (ib_retentionDays st) \<le> ie_now env"
    and "append_item env st source e effective = Inr r"
  shows "inbox_ok (ib_days (ap_inbox r)) \<and> find_item (ib_days (ap_inbox r)) source (env_eventId e) = Some (ap_item r) \<and>
    (ap_created r \<longleftrightarrow> find_item (ib_days st) source (env_eventId e) = None) \<and>
    (if ap_created r
     then (\<forall>i \<in> set (stored_items (ib_days st)). n_seq i < n_seq (ap_item r)) \<and>
       set (stored_items (ib_days (ap_inbox r))) = insert (ap_item r)
         (\<Union>d \<in> {d. kept_day env (ib_retentionDays st) d}. set (read_day_file (ib_days st) d))
     else ap_inbox r = st \<and> ap_event r = None) \<and>
    append_item env' (ap_inbox r) source (e\<lparr>env_cursor := c\<rparr>) effective' =
      Inr \<lparr>ap_item = ap_item r, ap_created = False, ap_event = None, ap_inbox = ap_inbox r\<rparr>"
proof -
  have ok: "inbox_ok (ib_days (ap_inbox r))" by (rule append_keeps_ok [OF assms(1,2,4)])
  have there: "find_item (ib_days (ap_inbox r)) source (env_eventId e) = Some (ap_item r)"
    by (rule append_there [OF assms])
  have again: "append_item env' (ap_inbox r) source (e\<lparr>env_cursor := c\<rparr>) effective' =
      Inr \<lparr>ap_item = ap_item r, ap_created = False, ap_event = None, ap_inbox = ap_inbox r\<rparr>"
    by (rule append_old) (simp add: there)
  show ?thesis
  proof (cases "find_item (ib_days st) source (env_eventId e)")
    case None
    note new = append_new [OF assms(4) None]
    have "set (stored_items (ib_days (ap_inbox r))) = insert (ap_item r)
        (\<Union>d \<in> {d. kept_day env (ib_retentionDays st) d}. set (read_day_file (ib_days st) d))"
      using append_stored [OF assms(4) None assms(3)] by blast
    moreover have "\<forall>i \<in> set (stored_items (ib_days st)). n_seq i < n_seq (ap_item r)"
      using next_seq_fresh [OF assms(1)] new ref_stamp(2) by simp
    ultimately show ?thesis using ok there again new None by simp
  next
    case (Some old)
    then show ?thesis using ok there again append_old [OF Some] assms(4) by auto
  qed
qed

section \<open>Pages\<close>

lemma load_all_inbox_ok: "inbox_ok ds \<Longrightarrow> load_all ds = stored_items ds"
  unfolding load_all_def by (rule sort_key_id_if_sorted) (simp add: inbox_ok_def strict_sorted_imp_sorted)

lemma clamp_limit_bounds: "1 \<le> clamp_limit l \<and> clamp_limit l \<le> 100"
  by (cases l) (auto simp: clamp_limit_def list_default_limit_def list_max_limit_def)

lemma fold_list_step:
  assumes "length (lp_items p) \<le> clamp_limit (lo_limit o')"
  shows "fold (list_step date_parse o') xs p =
    (let hits = filter (\<lambda>i. matches_filters date_parse i o') xs; l = clamp_limit (lo_limit o') in
     \<lparr>lp_items = lp_items p @ take (l - length (lp_items p)) hits, lp_unread = lp_unread p + length (filter unread xs),
      lp_hasMore = (lp_hasMore p \<or> l < length (lp_items p) + length hits)\<rparr>)"
  using assms
proof (induction xs arbitrary: p)
  case (Cons i xs)
  let ?p = "list_step date_parse o' i p"
  have "length (lp_items ?p) \<le> clamp_limit (lo_limit o')" using Cons.prems by (simp add: list_step_def Let_def)
  note IH = Cons.IH [OF this]
  show ?case using Cons.prems unfolding fold_simps comp_def IH
    by (auto simp: list_step_def Let_def take_Cons' not_less Suc_diff_le)
qed simp

lemma list_with_unread_eq:
  assumes "inbox_ok (ib_days st)" "lo_ascending o'"
  shows "list_with_unread date_parse o' st =
    (let hits = filter (\<lambda>i. matches_filters date_parse i o') (stored_items (ib_days st)); l = clamp_limit (lo_limit o') in
     \<lparr>lp_items = take l hits, lp_unread = unread_count (ib_days st), lp_hasMore = l < length hits\<rparr>)"
  using assms by (simp add: list_with_unread_def load_all_inbox_ok fold_list_step unread_count_def Let_def)

text \<open>Reading a backlog page by page: each call starts after the highest number the last one returned.\<close>

fun replay :: "nat \<Rightarrow> (string \<Rightarrow> ms option) \<Rightarrow> list_options \<Rightarrow> inbox \<Rightarrow> notification list" where
  "replay 0 date_parse o' st = []"
| "replay (Suc n) date_parse o' st =
     (let p = list_with_unread date_parse o' st in
      lp_items p @ (if lp_hasMore p then replay n date_parse (o'\<lparr>lo_after := Some (n_seq (List.last (lp_items p)))\<rparr>) st else []))"

lemma filter_above:
  assumes "sorted_wrt (<) (map f xs)" "0 < l" "l \<le> length xs"
  shows "filter (\<lambda>x. f (xs ! (l - 1)) < (f x :: int)) xs = drop l xs"
proof -
  have less: "f (xs ! i) < f (xs ! j)" if "i < j" "j < length xs" for i j
    using assms(1) that by (simp add: sorted_wrt_map sorted_wrt_iff_nth_less)
  have "\<not> f (xs ! (l - 1)) < f x" if x: "x \<in> set (take l xs)" for x
  proof -
    obtain k where k: "k < l" "k < length xs" "x = xs ! k" using x assms(3) by (auto simp: in_set_conv_nth)
    show ?thesis
    proof (cases "k = l - 1")
      case False
      then have "k < l - 1" using k(1) by simp
      then show ?thesis using less [of k "l - 1"] k assms(2,3) by fastforce
    qed (use k in simp)
  qed
  then have "filter (\<lambda>x. f (xs ! (l - 1)) < f x) (take l xs) = []" by (simp add: filter_empty_conv)
  moreover have "f (xs ! (l - 1)) < f x" if x: "x \<in> set (drop l xs)" for x
  proof -
    obtain k where "k < length xs - l" "x = xs ! (l + k)" using x assms(3) by (auto simp: in_set_conv_nth)
    then show ?thesis using less [of "l - 1" "l + k"] assms(2) by simp
  qed
  then have "filter (\<lambda>x. f (xs ! (l - 1)) < f x) (drop l xs) = drop l xs" by (simp add: filter_id_conv)
  ultimately show ?thesis by (metis append_take_drop_id filter_append self_append_conv2)
qed

lemma matches_after:
  assumes "\<And>b. lo_after o' = Some b \<Longrightarrow> b < a"
  shows "matches_filters date_parse i (o'\<lparr>lo_after := Some a\<rparr>) \<longleftrightarrow> matches_filters date_parse i o' \<and> a < n_seq i"
  using assms by (cases "lo_after o'") (force simp: matches_filters_def in_position_def)+

lemma replay_hits:
  assumes "inbox_ok (ib_days st)" "lo_ascending o'"
    and "length (filter (\<lambda>i. matches_filters date_parse i o') (stored_items (ib_days st))) < n"
  shows "replay n date_parse o' st = filter (\<lambda>i. matches_filters date_parse i o') (stored_items (ib_days st))"
  using assms(2,3)
proof (induction n arbitrary: o')
  case (Suc n)
  define hits where "hits = filter (\<lambda>i. matches_filters date_parse i o') (stored_items (ib_days st))"
  define l where "l = clamp_limit (lo_limit o')"
  have l: "0 < l" using clamp_limit_bounds [of "lo_limit o'"] by (simp add: l_def)
  have page: "list_with_unread date_parse o' st = \<lparr>lp_items = take l hits, lp_unread = unread_count (ib_days st), lp_hasMore = l < length hits\<rparr>"
    using list_with_unread_eq [OF assms(1) Suc.prems(1)] by (simp add: hits_def l_def Let_def)
  show ?case
  proof (cases "l < length hits")
    case False
    then show ?thesis by (simp add: page hits_def [symmetric])
  next
    case True
    define a where "a = n_seq (hits ! (l - 1))"
    have last: "List.last (take l hits) = hits ! (l - 1)" using l True take_Suc_conv_app_nth [of "l - 1" hits] by simp
    have "hits ! (l - 1) \<in> set hits" using l True by simp
    then have "matches_filters date_parse (hits ! (l - 1)) o'" by (simp add: hits_def)
    then have after: "b < a" if "lo_after o' = Some b" for b using that by (simp add: matches_filters_def in_position_def a_def)
    have "sorted_wrt (<) (map n_seq hits)"
      using assms(1) by (auto simp: hits_def inbox_ok_def sorted_wrt_map intro: sorted_wrt_filter)
    moreover have M: "matches_filters date_parse i (o'\<lparr>lo_after := Some a\<rparr>) \<longleftrightarrow> matches_filters date_parse i o' \<and> a < n_seq i" for i
      by (rule matches_after) (rule after)
    ultimately have rest: "filter (\<lambda>i. matches_filters date_parse i (o'\<lparr>lo_after := Some a\<rparr>)) (stored_items (ib_days st)) = drop l hits"
      using filter_above [of n_seq hits l] l True unfolding M by (simp add: a_def hits_def)
    have "replay n date_parse (o'\<lparr>lo_after := Some a\<rparr>) st = drop l hits"
      using Suc.IH [of "o'\<lparr>lo_after := Some a\<rparr>"] Suc.prems l True unfolding rest hits_def [symmetric] by simp
    moreover have "n_seq (List.last (take l hits)) = a" using last by (simp only: a_def)
    ultimately show ?thesis using True by (simp add: page hits_def [symmetric])
  qed
qed simp

text \<open>
  C34. A reader that asks oldest first and goes on after the last number it got sees every matching item of the inbox, once and
  in order, whatever the page size.
\<close>

theorem replay_sees_everything:
  assumes "inbox_ok (ib_days st)" and "lo_ascending o'"
  shows "replay (Suc (length (stored_items (ib_days st)))) date_parse o' st =
      filter (\<lambda>i. matches_filters date_parse i o') (load_all (ib_days st)) \<and>
    distinct (map n_seq (replay (Suc (length (stored_items (ib_days st)))) date_parse o' st))"
proof -
  have "length (filter (\<lambda>i. matches_filters date_parse i o') (stored_items (ib_days st))) < Suc (length (stored_items (ib_days st)))"
    by (simp add: le_imp_less_Suc)
  note r = replay_hits [OF assms this]
  have "distinct (map n_seq (stored_items (ib_days st)))" using assms(1) by (simp add: inbox_ok_def strict_sorted_iff)
  then show ?thesis unfolding r load_all_inbox_ok [OF assms(1)] by (simp add: distinct_map_filter)
qed

section \<open>Keys of marks\<close>

text \<open>The text of a pair of strings tells the pair.\<close>

definition hex_value :: "char \<Rightarrow> nat" where
  "hex_value c = (if of_char c < (58::nat) then of_char c - 48 else of_char c - 87)"

definition short_escapes :: "(char \<times> nat) list" where
  "short_escapes = [(CHR ''b'', 8), (CHR ''t'', 9), (CHR ''n'', 10), (CHR ''f'', 12), (CHR ''r'', 13)]"

definition decode_char :: "string \<Rightarrow> (char \<times> string) option" where
  "decode_char s =
     (case s of
        [] \<Rightarrow> None
      | c # cs \<Rightarrow>
          if c = CHR 34 then None
          else if c \<noteq> CHR 92 then Some (c, cs)
          else case cs of
            [] \<Rightarrow> None
          | x # r \<Rightarrow>
              if x = CHR ''u'' then Some (char_of (16 * hex_value (r ! 2) + hex_value (r ! 3)), drop 4 r)
              else Some (case map_of short_escapes x of None \<Rightarrow> x | Some n \<Rightarrow> char_of n, r))"

lemma hex_value_digit: "d < 16 \<Longrightarrow> hex_value (hex_digit d) = d"
  by (auto simp: hex_value_def hex_digit_def of_char_of)

lemma decode_escape: "decode_char (escape_char c @ u) = Some (c, u)"
proof -
  define n where "n = (of_char c :: nat)"
  have c: "c = char_of n" by (simp add: n_def)
  consider "n \<in> {34, 92, 8, 9, 10, 12, 13}" | "n \<notin> {34, 92, 8, 9, 10, 12, 13}" "n < 32" | "n \<notin> {34, 92}" "\<not> n < 32" by force
  then show ?thesis
  proof cases
    case 1
    then consider "c = CHR 34" | "c = CHR 92" | "c = CHR 8" | "c = CHR 9" | "c = CHR 10" | "c = CHR 12" | "c = CHR 13"
      unfolding c by (auto simp: char_of_def bit_0)
    then show ?thesis
      by cases (simp_all add: escape_char_def decode_char_def short_escapes_def char_of_def bit_0)
  next
    case 2
    have "hex_value (hex_digit (n div 16)) = n div 16" "hex_value (hex_digit (n mod 16)) = n mod 16"
      using 2(2) by (simp_all add: hex_value_digit)
    then have "char_of (16 * hex_value (hex_digit (n div 16)) + hex_value (hex_digit (n mod 16))) = c" by (simp add: c)
    moreover have "escape_char c = CHR 92 # ''u00'' @ [hex_digit (n div 16), hex_digit (n mod 16)]"
      using 2 by (simp add: escape_char_def Let_def n_def [symmetric]) (simp add: char_of_def bit_0)
    ultimately show ?thesis by (simp add: decode_char_def)
  next
    case 3
    then have "escape_char c = [c]" by (simp add: escape_char_def Let_def n_def [symmetric])
    moreover have "c \<noteq> CHR 34" "c \<noteq> CHR 92" using 3(1) by (auto simp: n_def)
    ultimately show ?thesis by (simp add: decode_char_def)
  qed
qed

lemma decode_end: "decode_char (CHR 34 # u) = None"
  by (simp add: decode_char_def)

lemma escaped_inj:
  "concat (map escape_char s) @ CHR 34 # u = concat (map escape_char t) @ CHR 34 # v \<Longrightarrow> s = t \<and> u = v"
proof (induction s arbitrary: t)
  case Nil
  show ?case
  proof (cases t)
    case (Cons d t')
    then have "decode_char (CHR 34 # u) = Some (d, concat (map escape_char t') @ CHR 34 # v)"
      using Nil decode_escape [of d "concat (map escape_char t') @ CHR 34 # v"] by simp
    then show ?thesis by (simp add: decode_end)
  qed (use Nil in simp)
next
  case (Cons c s)
  have d: "decode_char (concat (map escape_char t) @ CHR 34 # v) = Some (c, concat (map escape_char s) @ CHR 34 # u)"
    using Cons.prems [symmetric] decode_escape [of c "concat (map escape_char s) @ CHR 34 # u"] by simp
  show ?case
  proof (cases t)
    case Nil
    then show ?thesis using d by (simp add: decode_end)
  next
    case (Cons d' t')
    then show ?thesis using d decode_escape [of d' "concat (map escape_char t') @ CHR 34 # v"] Cons.IH [of t'] by auto
  qed
qed

lemma ref_key_inject [simp]: "ref_key s e = ref_key s' e' \<longleftrightarrow> s = s' \<and> e = e'"
proof
  assume "ref_key s e = ref_key s' e'"
  then have "concat (map escape_char s) @ CHR 34 # '','' @ quote e @ '']'' = concat (map escape_char s') @ CHR 34 # '','' @ quote e' @ '']''"
    by (simp add: ref_key_def quote_def)
  then have *: "s = s' \<and> '','' @ quote e @ '']'' = '','' @ quote e' @ '']''" by (rule escaped_inj)
  then have "concat (map escape_char e) @ CHR 34 # '']'' = concat (map escape_char e') @ CHR 34 # '']''" by (simp add: quote_def)
  then have "e = e'" using escaped_inj by blast
  then show "s = s' \<and> e = e'" using * by simp
qed simp

section \<open>Rewriting a day\<close>

lemma map_fst_jset: "d \<in> fst ` set ds \<Longrightarrow> map fst (jset d v ds) = map fst ds"
  by (induction ds) force+

text \<open>Two directories with the same days, of which each reads as the image of the other's.\<close>

lemma stored_image:
  assumes "map fst ds' = map fst ds" "\<And>d. d \<in> fst ` set ds \<Longrightarrow> read_day_file ds' d = map g (read_day_file ds d)"
  shows "stored_items ds' = map g (stored_items ds)"
proof -
  have "day_files ds' = day_files ds" using assms(1) by (simp add: day_files_def)
  moreover have "map (read_day_file ds') (day_files ds) = map (map g \<circ> read_day_file ds) (day_files ds)"
    using assms(2) by (intro map_cong) simp_all
  ultimately show ?thesis by (simp only: stored_items_def map_concat map_map)
qed

lemma inbox_ok_image:
  assumes "inbox_ok ds" "map fst ds' = map fst ds" "stored_items ds' = map g (stored_items ds)"
    and "\<And>i. n_seq (g i) = n_seq i" "\<And>i. item_ref (g i) = item_ref i"
  shows "inbox_ok ds'"
  using assms by (simp add: inbox_ok_def jmap_ok_def comp_def)

definition marked :: "string list \<Rightarrow> string \<Rightarrow> string option \<Rightarrow> notification \<Rightarrow> notification" where
  "marked wanted readAt readBy i = (if unread i \<and> item_key i \<in> set wanted then mark_item readAt readBy i else i)"

lemma marked_same [simp]: "n_seq (marked w a b i) = n_seq i" "item_ref (marked w a b i) = item_ref i" "n_envelope (marked w a b i) = n_envelope i"
  by (simp_all add: marked_def mark_item_def Let_def item_ref_def)

lemma fold_mark_day:
  assumes "distinct days" "set days \<subseteq> fst ` set (mk_days m)"
  shows "mk_changed (fold (mark_day w a b) days m) = mk_changed m @ map (mark_item a b)
      (filter (\<lambda>i. unread i \<and> item_key i \<in> set w) (concat (map (read_day_file (mk_days m)) days))) \<and>
    mk_unread (fold (mark_day w a b) days m) = mk_unread m +
      length (filter (\<lambda>i. unread i \<and> item_key i \<notin> set w) (concat (map (read_day_file (mk_days m)) days))) \<and>
    map fst (mk_days (fold (mark_day w a b) days m)) = map fst (mk_days m) \<and>
    (\<forall>d. read_day_file (mk_days (fold (mark_day w a b) days m)) d =
      (if d \<in> set days then map (marked w a b) (read_day_file (mk_days m) d) else read_day_file (mk_days m) d))"
  using assms
proof (induction days arbitrary: m)
  case (Cons d days)
  let ?m = "mark_day w a b d m"
  have fst: "map fst (mk_days ?m) = map fst (mk_days m)"
    using Cons.prems by (simp add: mark_day_def Let_def map_fst_jset)
  have "\<forall>i \<in> set (read_day_file (mk_days m) d). marked w a b i = i"
    if "\<not> list_ex (\<lambda>i. unread i \<and> item_key i \<in> set w) (read_day_file (mk_days m) d)"
    using that by (auto simp: list_ex_iff marked_def)
  then have read: "read_day_file (mk_days ?m) d' =
      (if d' = d then map (marked w a b) (read_day_file (mk_days m) d) else read_day_file (mk_days m) d')" for d'
    by (auto simp: mark_day_def Let_def marked_def map_idI)
  have rest: "map (read_day_file (mk_days ?m)) days = map (read_day_file (mk_days m)) days"
    using Cons.prems(1) by (auto simp: read)
  have "set days \<subseteq> fst ` set (mk_days ?m)" using Cons.prems(2) fst by (metis (no_types) insert_subset list.set(2) list.set_map)
  note IH = Cons.IH [OF _ this, unfolded rest]
  have "mk_changed ?m = mk_changed m @ map (mark_item a b) (filter (\<lambda>i. unread i \<and> item_key i \<in> set w) (read_day_file (mk_days m) d))"
    "mk_unread ?m = mk_unread m + length (filter (\<lambda>i. unread i \<and> item_key i \<notin> set w) (read_day_file (mk_days m) d))"
    by (simp_all add: mark_day_def Let_def)
  then show ?case using IH Cons.prems(1) fst read by auto
qed simp

lemma to_iso_nonempty: "to_iso t \<noteq> []"
  by (simp add: to_iso_def Let_def split: prod.splits)

lemma unread_marked: "unread (marked w (to_iso now) b i) \<longleftrightarrow> unread i \<and> item_key i \<notin> set w"
  using to_iso_nonempty [of now] by (auto simp: marked_def mark_item_def unread_def Let_def truthy_def)

definition marks :: "(string \<times> string) list \<Rightarrow> string list" where
  "marks refs = map (\<lambda>(s, e). ref_key s e) refs"

lemma marks_iff [simp]: "item_key i \<in> set (marks refs) \<longleftrightarrow> item_ref i \<in> set refs"
  by (force simp: marks_def item_key_def item_ref_def)

lemma mark_read_eq:
  assumes "refs \<noteq> []" "inbox_ok (ib_days st)" "mark_read now refs by' st = (changed, ev, st')"
  shows "map fst (ib_days st') = map fst (ib_days st) \<and>
    stored_items (ib_days st') = map (marked (marks refs) (to_iso now) by') (stored_items (ib_days st)) \<and>
    changed = map (mark_item (to_iso now) by') (filter (\<lambda>i. unread i \<and> item_ref i \<in> set refs) (stored_items (ib_days st))) \<and>
    ev = (if changed = [] then None
          else Some (NotificationRead (ib_workspaceId st)
            (map (\<lambda>i. notification_id (n_source i) (env_eventId (n_envelope i))) changed)
            (length (filter (\<lambda>i. unread i \<and> item_ref i \<notin> set refs) (stored_items (ib_days st))))))"
proof -
  define m where "m = fold (mark_day (marks refs) (to_iso now) by') (day_files (ib_days st))
    \<lparr>mk_days = ib_days st, mk_changed = [], mk_unread = 0\<rparr>"
  have d: "distinct (day_files (ib_days st))" "set (day_files (ib_days st)) \<subseteq> fst ` set (mk_days \<lparr>mk_days = ib_days st, mk_changed = [], mk_unread = 0\<rparr>)"
    using assms(2) by (simp_all add: inbox_ok_def jmap_ok_def day_files_def)
  note f = fold_mark_day [OF d, of "marks refs" "to_iso now" by', folded m_def]
  have st': "changed = mk_changed m" "ib_days st' = mk_days m"
    "ev = (if mk_changed m = [] then None else Some (NotificationRead (ib_workspaceId st)
       (map (\<lambda>i. notification_id (n_source i) (env_eventId (n_envelope i))) (mk_changed m)) (mk_unread m)))"
    using assms(1,3) by (auto simp: mark_read_def Let_def m_def marks_def)
  have "stored_items (mk_days m) = map (marked (marks refs) (to_iso now) by') (stored_items (ib_days st))"
    using f by (intro stored_image) simp_all
  then show ?thesis using f by (simp add: st' stored_items_def)
qed

lemma mark_read_none:
  assumes "\<forall>i \<in> set (stored_items (ib_days st)). \<not> (unread i \<and> item_ref i \<in> set refs)"
  shows "mark_read now refs by' st = ([], None, st)"
proof -
  have keep: "mk_days (fold (mark_day (marks refs) a by') days m) = mk_days m \<and>
      mk_changed (fold (mark_day (marks refs) a by') days m) = mk_changed m"
    if "\<forall>i \<in> set (stored_items (mk_days m)). \<not> (unread i \<and> item_ref i \<in> set refs)" for days a m
    using that
  proof (induction days arbitrary: m)
    case (Cons d days)
    have none: "\<forall>i \<in> set (read_day_file (mk_days m) d). \<not> (unread i \<and> item_key i \<in> set (marks refs))"
      using Cons.prems by (auto simp: in_stored)
    then have "\<not> list_ex (\<lambda>i. unread i \<and> item_key i \<in> set (marks refs)) (read_day_file (mk_days m) d)"
      "filter (\<lambda>i. unread i \<and> item_key i \<in> set (marks refs)) (read_day_file (mk_days m) d) = []"
      by (auto simp: list_ex_iff filter_empty_conv)
    then have m: "mk_days (mark_day (marks refs) a by' d m) = mk_days m" "mk_changed (mark_day (marks refs) a by' d m) = mk_changed m"
      unfolding mark_day_def Let_def by simp_all
    show ?case using Cons.IH [of "mark_day (marks refs) a by' d m"] Cons.prems by (simp add: m)
  qed simp
  show ?thesis
    using keep [of "\<lparr>mk_days = ib_days st, mk_changed = [], mk_unread = 0\<rparr>" "to_iso now" "day_files (ib_days st)"] assms
    by (simp add: mark_read_def Let_def marks_def)
qed

text \<open>
  Marking items read changes the unread ones asked for, wherever they are, and nothing else; the announcement carries the
  count of what is unread afterwards, and marking them again changes and announces nothing.
\<close>

theorem mark_read_marks_once:
  assumes "inbox_ok (ib_days st)" and "mark_read now refs by' st = (changed, ev, st')"
  shows "inbox_ok (ib_days st') \<and>
    (\<forall>s e. find_item (ib_days st') s e = map_option (\<lambda>i. if unread i \<and> (s, e) \<in> set refs then mark_item (to_iso now) by' i else i)
       (find_item (ib_days st) s e)) \<and>
    set changed = {i. \<exists>(s, e) \<in> set refs. \<exists>old. find_item (ib_days st) s e = Some old \<and> unread old \<and> i = mark_item (to_iso now) by' old} \<and>
    ev = (if changed = [] then None
          else Some (NotificationRead (ib_workspaceId st)
            (map (\<lambda>i. notification_id (n_source i) (env_eventId (n_envelope i))) changed) (unread_count (ib_days st')))) \<and>
    mark_read now' refs by'' st' = ([], None, st')"
proof (cases "refs = []")
  case False
  let ?ds = "ib_days st"
  let ?f = "\<lambda>i. if unread i \<and> item_ref i \<in> set refs then mark_item (to_iso now) by' i else i"
  note m = mark_read_eq [OF False assms]
  have f: "marked (marks refs) (to_iso now) by' = ?f" by (rule ext) (simp add: marked_def)
  have stored: "stored_items (ib_days st') = map ?f (stored_items ?ds)" using m by (simp add: f)
  have ok: "inbox_ok (ib_days st')"
    using m by (intro inbox_ok_image [OF assms(1), where g = "marked (marks refs) (to_iso now) by'"]) simp_all
  have ref: "item_ref (?f i) = item_ref i" for i using marked_same(2) [of "marks refs" "to_iso now" by' i] unfolding f .
  have find: "find_item (ib_days st') s e = map_option (\<lambda>i. if unread i \<and> (s, e) \<in> set refs then mark_item (to_iso now) by' i else i)
      (find_item ?ds s e)" for s e
  proof (cases "find_item ?ds s e")
    case None
    moreover have "find_item (ib_days st') s e = None"
      using None unfolding find_item_None stored by (simp only: set_map image_image ref not_False_eq_True)
    ultimately show ?thesis by simp
  next
    case (Some i)
    then have i: "i \<in> set (stored_items ?ds)" "item_ref i = (s, e)" by (simp_all add: find_item_Some [OF assms(1)])
    then have "find_item (ib_days st') s e = Some (?f i)" using ref [of i] by (simp add: find_item_Some [OF ok] stored)
    then show ?thesis using Some i by simp
  qed
  have changed: "changed = map (mark_item (to_iso now) by') (filter (\<lambda>i. unread i \<and> item_ref i \<in> set refs) (stored_items ?ds))"
    using m by simp
  have set_changed: "set changed = {i. \<exists>(s, e) \<in> set refs. \<exists>old. find_item ?ds s e = Some old \<and> unread old \<and> i = mark_item (to_iso now) by' old}"
    by (force simp: changed find_item_Some [OF assms(1)])
  have read: "\<not> (unread (?f i) \<and> item_ref (?f i) \<in> set refs)" for i
    using unread_marked [of "marks refs" now by' i] ref [of i] unfolding f by auto
  have count: "unread_count (ib_days st') = length (filter (\<lambda>i. unread i \<and> item_ref i \<notin> set refs) (stored_items ?ds))"
    using unread_marked [of "marks refs" now by'] unfolding f
    by (simp add: unread_count_def load_all_inbox_ok [OF ok] stored filter_map comp_def)
  have again: "mark_read now' refs by'' st' = ([], None, st')"
    using read by (intro mark_read_none) (simp only: stored set_map ball_simps, blast)
  show ?thesis using ok find set_changed m count again by simp
next
  case True
  then show ?thesis using assms by (auto simp: mark_read_def option.map_ident)
qed

section \<open>The ledger of an item\<close>

text \<open>The ledger as a map from slots, in its order.\<close>

definition slot :: "delivery_record \<Rightarrow> string \<times> string \<times> nat" where
  "slot r = (d_routeId r, d_target r, d_index r)"

definition ledger :: "delivery_record list \<Rightarrow> ((string \<times> string \<times> nat) \<times> delivery_record) list" where
  "ledger rows = map (\<lambda>r. (slot r, r)) rows"

lemma ledger_merge: "ledger (merge_row row rows) = jset (slot row) row (ledger rows)"
  by (induction row rows rule: merge_row.induct) (auto simp: ledger_def same_slot_def slot_def)

lemma ledger_merge_all:
  "map_of (ledger (fold merge_row rows old)) = map_of (ledger old) ++ map_of (rev (ledger rows)) \<and>
   (jmap_ok (ledger old) \<longrightarrow> jmap_ok (ledger (fold merge_row rows old)))"
proof (induction rows arbitrary: old)
  case (Cons row rows)
  have "ledger (row # rows) = (slot row, row) # ledger rows" by (simp add: ledger_def)
  then show ?case using Cons.IH [of "merge_row row old"] by (auto simp: ledger_merge map_add_def split: option.splits)
qed (simp add: ledger_def)

definition merge_rows :: "delivery_record list \<Rightarrow> notification \<Rightarrow> notification" where
  "merge_rows rows i = i\<lparr>n_deliveries := fold merge_row rows (n_deliveries i)\<rparr>"

lemma merge_rows_same [simp]: "n_seq (merge_rows rows i) = n_seq i" "item_ref (merge_rows rows i) = item_ref i"
  "n_deliveries (merge_rows rows i) = fold merge_row rows (n_deliveries i)"
  by (simp_all add: merge_rows_def item_ref_def)

lemma replace_first_unique:
  assumes "distinct (map f xs)" "\<And>x. p x \<longleftrightarrow> f x = k"
  shows "replace_first p g xs = map (\<lambda>x. if f x = k then g x else x) xs"
  using assms(1)
proof (induction xs)
  case (Cons x xs)
  have "map (\<lambda>x. if f x = k then g x else x) xs = xs" if "f x = k"
  proof (intro map_idI)
    fix y assume "y \<in> set xs"
    then have "f y \<noteq> k" using Cons.prems that by (metis distinct.simps(2) image_eqI list.set_map list.simps(9))
    then show "(if f y = k then g y else y) = y" by simp
  qed
  then show ?case using Cons by (simp add: assms(2))
qed simp

lemma find_item_append: "find p (xs @ ys) = (case find p xs of None \<Rightarrow> find p ys | Some x \<Rightarrow> Some x)"
  by (induction xs) auto

lemma record_in_days_eq:
  assumes "distinct (map item_ref (concat (map (read_day_file ds) days)))" "set days \<subseteq> fst ` set ds" "distinct days"
  shows "case find (is_item s e) (concat (map (read_day_file ds) days)) of
      None \<Rightarrow> record_in_days s e rows days ds = (None, ds)
    | Some i \<Rightarrow> fst (record_in_days s e rows days ds) = Some (merge_rows rows i) \<and>
        map fst (snd (record_in_days s e rows days ds)) = map fst ds \<and>
        (\<forall>d. read_day_file (snd (record_in_days s e rows days ds)) d =
          (if d \<in> set days then map (\<lambda>j. if item_ref j = (s, e) then merge_rows rows j else j) (read_day_file ds d)
           else read_day_file ds d))"
  using assms
proof (induction days)
  case (Cons d days)
  have merge: "(\<lambda>i. i\<lparr>n_deliveries := fold merge_row rows (n_deliveries i)\<rparr>) = merge_rows rows" by (rule ext) (simp add: merge_rows_def)
  have same: "map (\<lambda>j. if item_ref j = (s, e) then merge_rows rows j else j) xs = xs" if "(s, e) \<notin> item_ref ` set xs" for xs
    using that by (intro map_idI) (metis image_eqI)
  show ?case
  proof (cases "find (is_item s e) (read_day_file ds d)")
    case None
    then have d: "(s, e) \<notin> item_ref ` set (read_day_file ds d)" by (auto simp: find_None_iff is_item_ref)
    have "find (is_item s e) (concat (map (read_day_file ds) (d # days))) = find (is_item s e) (concat (map (read_day_file ds) days))"
      using None by (simp add: find_item_append)
    moreover have "record_in_days s e rows (d # days) ds = record_in_days s e rows days ds" using None by simp
    moreover have "(if d' \<in> set (d # days) then map (\<lambda>j. if item_ref j = (s, e) then merge_rows rows j else j) (read_day_file ds d')
          else read_day_file ds d') =
        (if d' \<in> set days then map (\<lambda>j. if item_ref j = (s, e) then merge_rows rows j else j) (read_day_file ds d')
          else read_day_file ds d')" for d'
      by (cases "d' = d") (simp_all add: same [OF d])
    ultimately show ?thesis using Cons by (simp add: same [OF d] split: option.splits)
  next
    case (Some i)
    then have i: "i \<in> set (read_day_file ds d)" "item_ref i = (s, e)" by (auto simp: find_Some_iff is_item_ref)
    have "(s, e) \<notin> item_ref ` set (read_day_file ds d')" if "d' \<in> set days" for d'
      using Cons.prems(1) i that by (force simp: image_iff)
    then have others: "map (\<lambda>j. if item_ref j = (s, e) then merge_rows rows j else j) (read_day_file ds d') = read_day_file ds d'"
      if "d' \<in> set days" for d' using same that by blast
    have "replace_first (is_item s e) (merge_rows rows) (read_day_file ds d) =
        map (\<lambda>j. if item_ref j = (s, e) then merge_rows rows j else j) (read_day_file ds d)"
      using Cons.prems(1) by (intro replace_first_unique) (auto simp: is_item_ref)
    then show ?thesis using Some Cons.prems(2,3) others by (auto simp: find_item_append merge Let_def map_fst_jset)
  qed
qed simp

lemma record_deliveries_eq:
  assumes "inbox_ok (ib_days st)" "record_deliveries s e rows st = (r, st')"
  shows "inbox_ok (ib_days st') \<and> map fst (ib_days st') = map fst (ib_days st) \<and>
    r = map_option (merge_rows rows) (find_item (ib_days st) s e) \<and>
    (\<forall>s' e'. find_item (ib_days st') s' e' = (if (s', e') = (s, e) then r else find_item (ib_days st) s' e'))"
proof (cases "rows = []")
  case True
  have "merge_rows [] = id" by (rule ext) (simp add: merge_rows_def)
  then show ?thesis using assms True by (auto simp: record_deliveries_def option.map_id)
next
  case False
  let ?ds = "ib_days st"
  let ?g = "\<lambda>j. if item_ref j = (s, e) then merge_rows rows j else j"
  have prems: "distinct (map item_ref (concat (map (read_day_file ?ds) (day_files ?ds))))" "set (day_files ?ds) \<subseteq> fst ` set ?ds"
    "distinct (day_files ?ds)"
    using assms(1) by (simp_all add: inbox_ok_def jmap_ok_def stored_items_def day_files_def)
  note rec = record_in_days_eq [OF prems, of s e rows, folded stored_items_def, folded find_item_def]
  have out: "r = fst (record_in_days s e rows (day_files ?ds) ?ds)" "ib_days st' = snd (record_in_days s e rows (day_files ?ds) ?ds)"
    using assms(2) False by (auto simp: record_deliveries_def case_prod_beta Let_def)
  show ?thesis
  proof (cases "find_item ?ds s e")
    case None
    then have "r = None" "ib_days st' = ?ds" using rec out by simp_all
    then show ?thesis using assms(1) None by auto
  next
    case (Some i)
    then have r: "r = Some (merge_rows rows i)" "map fst (ib_days st') = map fst ?ds"
      "\<And>d. d \<in> fst ` set ?ds \<Longrightarrow> read_day_file (ib_days st') d = map ?g (read_day_file ?ds d)"
      using rec out by simp_all
    have stored: "stored_items (ib_days st') = map ?g (stored_items ?ds)" using r(2,3) by (rule stored_image)
    have ok: "inbox_ok (ib_days st')" by (rule inbox_ok_image [OF assms(1) r(2) stored]) simp_all
    have i: "i \<in> set (stored_items ?ds)" "item_ref i = (s, e)" using Some by (simp_all add: find_item_Some [OF assms(1)])
    have "find_item (ib_days st') s' e' = (if (s', e') = (s, e) then r else find_item ?ds s' e')" for s' e'
    proof (cases "find_item ?ds s' e'")
      case None
      have ref: "item_ref (?g j) = item_ref j" for j by simp
      have "find_item (ib_days st') s' e' = None"
        using None unfolding find_item_None stored by (simp only: set_map image_image ref not_False_eq_True)
      then show ?thesis using None Some by auto
    next
      case (Some j)
      then have j: "j \<in> set (stored_items ?ds)" "item_ref j = (s', e')" by (simp_all add: find_item_Some [OF assms(1)])
      then have "find_item (ib_days st') s' e' = Some (?g j)" by (simp add: find_item_Some [OF ok] stored)
      then show ?thesis using Some j r(1) \<open>find_item ?ds s e = Some i\<close> by auto
    qed
    then show ?thesis using ok r Some by simp
  qed
qed

text \<open>
  C0. Recording deliveries touches one item: each row given takes its slot, the last one of a slot standing, every other slot
  and every other item is as before, and a ledger with one row per slot still has one.
\<close>

theorem delivery_rows_take_their_slots:
  assumes "inbox_ok (ib_days st)" and "record_deliveries s e rows st = (r, st')"
  shows "inbox_ok (ib_days st') \<and>
    (\<forall>s' e'. (s', e') \<noteq> (s, e) \<longrightarrow> find_item (ib_days st') s' e' = find_item (ib_days st) s' e') \<and>
    (case find_item (ib_days st) s e of
       None \<Rightarrow> r = None \<and> find_item (ib_days st') s e = None
     | Some i \<Rightarrow> \<exists>i'. r = Some i' \<and> find_item (ib_days st') s e = Some i' \<and>
         map_of (ledger (n_deliveries i')) = map_of (ledger (n_deliveries i)) ++ map_of (rev (ledger rows)) \<and>
         (jmap_ok (ledger (n_deliveries i)) \<longrightarrow> jmap_ok (ledger (n_deliveries i'))))"
  using record_deliveries_eq [OF assms] ledger_merge_all by (auto split: option.split)

section \<open>Every inbox\<close>

inductive inbox_reach :: "string \<Rightarrow> int option \<Rightarrow> ms \<Rightarrow> inbox \<Rightarrow> bool" for ws :: string and retention :: "int option" where
  reach_new: "inbox_reach ws retention t (new_inbox ws retention)"
| reach_append: "inbox_reach ws retention t st \<Longrightarrow> t \<le> ie_now env \<Longrightarrow> append_item env st source e effective = Inr r
    \<Longrightarrow> inbox_reach ws retention (ie_now env) (ap_inbox r)"
| reach_mark: "inbox_reach ws retention t st \<Longrightarrow> inbox_reach ws retention t (snd (snd (mark_read now refs by' st)))"
| reach_record: "inbox_reach ws retention t st \<Longrightarrow> inbox_reach ws retention t (snd (record_deliveries source eventId rows st))"
| reach_prune: "inbox_reach ws retention t st \<Longrightarrow> inbox_reach ws retention t (prune env st)"

lemma mark_read_kept:
  assumes "inbox_ok (ib_days st)" "mark_read now refs by' st = (changed, ev, st')"
  shows "inbox_ok (ib_days st') \<and> map fst (ib_days st') = map fst (ib_days st)"
proof (cases "refs = []")
  case True
  then show ?thesis using assms by (auto simp: mark_read_def)
next
  case False
  note m = mark_read_eq [OF False assms]
  have "inbox_ok (ib_days st')"
    using m by (intro inbox_ok_image [OF assms(1), where g = "marked (marks refs) (to_iso now) by'"]) simp_all
  then show ?thesis using m by simp
qed

lemma reach_ok:
  assumes "inbox_reach ws retention t st"
  shows "inbox_ok (ib_days st) \<and> (\<forall>k \<in> fst ` set (ib_days st). k \<le> t div ms_per_day)"
  using assms
proof induction
  case (reach_new t)
  then show ?case by (simp add: new_inbox_def inbox_ok_empty)
next
  case (reach_append t st env source e effective r)
  have mono: "t div ms_per_day \<le> ie_now env div ms_per_day" using reach_append.hyps(2) by (simp add: ms_per_day_def zdiv_mono1)
  then have new: "newest env (ib_days st)" using reach_append.IH by (fastforce simp: newest_def)
  have "inbox_ok (ib_days (ap_inbox r))" using append_keeps_ok [OF _ new reach_append.hyps(3)] reach_append.IH by simp
  moreover have "\<forall>k \<in> fst ` set (ib_days (ap_inbox r)). k \<le> ie_now env div ms_per_day"
  proof (cases "find_item (ib_days st) source (env_eventId e)")
    case None
    then show ?thesis
      using append_new [OF reach_append.hyps(3) None] new keys_jset by (auto simp: prune_days_def newest_def dest!: in_set_jset_sub)
  next
    case (Some old)
    then have "ap_inbox r = st" using append_old [OF Some] reach_append.hyps(3) by auto
    then show ?thesis using new by (simp add: newest_def)
  qed
  ultimately show ?case by simp
next
  case (reach_mark t st now refs by')
  then show ?case
    using mark_read_kept [of st now refs by' "fst (mark_read now refs by' st)" "fst (snd (mark_read now refs by' st))" "snd (snd (mark_read now refs by' st))"]
    by (metis list.set_map prod.collapse)
next
  case (reach_record t st source eventId rows)
  then show ?case
    using record_deliveries_eq [of st source eventId rows "fst (record_deliveries source eventId rows st)" "snd (record_deliveries source eventId rows st)"]
    by (metis list.set_map prod.collapse)
next
  case (reach_prune t st env)
  then show ?case using inbox_ok_filter by (auto simp: prune_def prune_days_def)
qed

text \<open>
  C36. In every inbox the store's calls can make, while the clock does not go back, an event is held once and the numbers rise
  with the order of arrival, one per item, from 1.
\<close>

theorem inbox_numbers_rise:
  assumes "inbox_reach ws retention t st"
  shows "sorted_wrt (<) (map n_seq (stored_items (ib_days st))) \<and> load_all (ib_days st) = stored_items (ib_days st) \<and>
    (\<forall>i \<in> set (stored_items (ib_days st)). 1 \<le> n_seq i \<and>
       find_item (ib_days st) (n_source i) (env_eventId (n_envelope i)) = Some i) \<and>
    distinct (map (\<lambda>i. (n_source i, env_eventId (n_envelope i))) (stored_items (ib_days st)))"
proof -
  have ok: "inbox_ok (ib_days st)" using reach_ok [OF assms] by simp
  have "item_ref = (\<lambda>i. (n_source i, env_eventId (n_envelope i)))" by (rule ext) (simp add: item_ref_def)
  then show ?thesis using ok by (simp add: load_all_inbox_ok find_item_Some inbox_ok_def item_ref_def)
qed

section \<open>Instances\<close>

definition demo_event :: "string \<Rightarrow> notification_envelope" where
  "demo_event i = \<lparr>env_eventId = i, env_name = ''crm.deal.won'', env_timestamp = ''2026-01-01'', env_data = [], env_cursor = None, env_meta = []\<rparr>"

definition demo_inbox_env :: "int \<Rightarrow> inbox_env" where
  "demo_inbox_env day = \<lparr>ie_now = day * ms_per_day, ie_back = (\<lambda>t n. t - n * ms_per_day), ie_root = True, ie_appends = True, ie_stuck = (\<lambda>_. False)\<rparr>"

definition demo_append :: "int \<Rightarrow> string \<Rightarrow> inbox \<Rightarrow> inbox" where
  "demo_append day i st = (case append_item (demo_inbox_env day) st ''crm'' (demo_event i) None of Inl _ \<Rightarrow> st | Inr r \<Rightarrow> ap_inbox r)"

definition demo_item :: "string \<Rightarrow> int \<Rightarrow> notification" where
  "demo_item i n = \<lparr>n_envelope = demo_event i, n_source = ''crm'', n_workspaceId = ''ws1'', n_receivedAt = ''2024-10-04T00:00:00.000Z'',
     n_seq = n, n_effectiveLevel = None, n_readAt = None, n_readBy = None, n_deliveries = []\<rparr>"

definition demo_store :: inbox where
  "demo_store = \<lparr>ib_workspaceId = ''ws1'', ib_retentionDays = 90, ib_days = [(20000, [demo_item ''e1'' 1, demo_item ''e2'' 2])]\<rparr>"

lemma demo_stored: "stored_items (ib_days demo_store) = [demo_item ''e1'' 1, demo_item ''e2'' 2]"
  by (simp add: demo_store_def stored_items_def day_files_def read_day_file_def)

text \<open>
  Numbers rise only with the clock: when it has gone back over midnight the newest file is not the one being written, and the
  next two events get the same number.
\<close>

lemma clock_back_reuses_seq:
  "map n_seq (load_all (ib_days (demo_append 19999 ''e3'' (demo_append 19999 ''e2'' (demo_append 20000 ''e1'' (new_inbox ''ws1'' None)))))) = [1, 2, 2]"
  by code_simp

lemma demo_store_ok: "inbox_ok (ib_days demo_store)"
  unfolding inbox_ok_def demo_stored by (simp add: demo_store_def demo_item_def demo_event_def item_ref_def jmap_ok_def)

lemma demo_store_e1: "find_item (ib_days demo_store) ''crm'' ''e1'' \<noteq> None"
  by (simp add: find_item_def demo_stored is_item_def demo_item_def demo_event_def)

lemma demo_store_new: "newest (demo_inbox_env 20001) (ib_days demo_store)"
  by (simp add: newest_def demo_store_def demo_inbox_env_def ms_per_day_def)

theorem append_stores_once_witness:
  "\<exists>r. append_item (demo_inbox_env 20001) demo_store ''crm'' (demo_event ''e1'') None = Inr r \<and> \<not> ap_created r \<and> ap_inbox r = demo_store"
proof -
  obtain old where "find_item (ib_days demo_store) ''crm'' (env_eventId (demo_event ''e1'')) = Some old"
    using demo_store_e1 by (auto simp: demo_event_def)
  from append_old [OF this] obtain r where r: "append_item (demo_inbox_env 20001) demo_store ''crm'' (demo_event ''e1'') None = Inr r" by blast
  have "ie_back (demo_inbox_env 20001) (ie_now (demo_inbox_env 20001)) (ib_retentionDays demo_store) \<le> ie_now (demo_inbox_env 20001)"
    by (simp add: demo_inbox_env_def ms_per_day_def demo_store_def)
  from append_stores_once [OF demo_store_ok demo_store_new this r] have "\<not> ap_created r \<and> ap_inbox r = demo_store"
    using demo_store_e1 by (auto simp: demo_event_def)
  then show ?thesis using r by blast
qed

definition demo_list :: list_options where
  "demo_list = \<lparr>lo_unreadOnly = False, lo_level = None, lo_source = None, lo_after = None, lo_before = None, lo_ids = None,
     lo_since = None, lo_query = None, lo_limit = Some 1, lo_ascending = True\<rparr>"

theorem replay_sees_everything_witness: "map n_seq (replay (Suc (length (stored_items (ib_days demo_store)))) (\<lambda>_. None) demo_list demo_store) = [1, 2]"
proof -
  have "lo_ascending demo_list" by (simp add: demo_list_def)
  note r = replay_sees_everything [OF demo_store_ok this, of "\<lambda>_. None"]
  have "map n_seq (filter (\<lambda>i. matches_filters (\<lambda>_. None) i demo_list) (load_all (ib_days demo_store))) = [1, 2]"
    unfolding load_all_inbox_ok [OF demo_store_ok] demo_stored
    by (simp add: matches_filters_def in_position_def matches_query_def at_level_def demo_list_def demo_item_def truthy_def)
  then show ?thesis using r by simp
qed

theorem mark_read_marks_once_witness:
  "mark_read 1 [(''crm'', ''e1'')] None (snd (snd (mark_read 0 [(''crm'', ''e1'')] None demo_store))) =
     ([], None, snd (snd (mark_read 0 [(''crm'', ''e1'')] None demo_store)))"
  using mark_read_marks_once [OF demo_store_ok, of 0 "[(''crm'', ''e1'')]" None "fst (mark_read 0 [(''crm'', ''e1'')] None demo_store)"
      "fst (snd (mark_read 0 [(''crm'', ''e1'')] None demo_store))" "snd (snd (mark_read 0 [(''crm'', ''e1'')] None demo_store))" 1 None]
  by simp

theorem delivery_rows_take_their_slots_witness:
  "find_item (ib_days (snd (record_deliveries ''crm'' ''e1'' [] demo_store))) ''crm'' ''e2'' = find_item (ib_days demo_store) ''crm'' ''e2''"
  using delivery_rows_take_their_slots [OF demo_store_ok, of "''crm''" "''e1''" "[]" "fst (record_deliveries ''crm'' ''e1'' [] demo_store)"
      "snd (record_deliveries ''crm'' ''e1'' [] demo_store)"] by simp

theorem inbox_numbers_rise_witness: "load_all (ib_days (demo_append 20000 ''e1'' (new_inbox ''ws1'' None))) =
  stored_items (ib_days (demo_append 20000 ''e1'' (new_inbox ''ws1'' None)))"
proof -
  have "find_item (ib_days (new_inbox ''ws1'' None)) ''crm'' (env_eventId (demo_event ''e1'')) = None"
    by (simp add: find_item_def stored_items_def day_files_def new_inbox_def)
  then obtain r where r: "append_item (demo_inbox_env 20000) (new_inbox ''ws1'' None) ''crm'' (demo_event ''e1'') None = Inr r"
    by (auto simp: append_item_def demo_inbox_env_def Let_def)
  have "inbox_reach ''ws1'' None (ie_now (demo_inbox_env 20000)) (ap_inbox r)"
    by (rule reach_append [OF reach_new [of _ _ 0] _ r]) (simp add: demo_inbox_env_def ms_per_day_def)
  moreover have "demo_append 20000 ''e1'' (new_inbox ''ws1'' None) = ap_inbox r" by (simp add: demo_append_def r)
  ultimately show ?thesis using inbox_numbers_rise [of "''ws1''" None "ie_now (demo_inbox_env 20000)" "ap_inbox r"] by simp
qed

end
