(* ===== verification/Notify_Poller.thy ===== *)
theory Notify_Poller
  imports Notify_Config Notify_Store "HOL-Library.List_Lexorder" "HOL-Library.Char_ord"
begin

text \<open>
  The poller of the connectors' outboxes (\<open>src/notifications/poller.ts\<close>, \<open>poll-config.ts\<close>, \<open>outbox-uri.ts\<close>): which outbox is
  read when, within which allowance, and what a read does to the inbox and to the stored cursor.

  The class's fields are the record \<open>poller\<close>. Cadence records are objects that a read under way still holds after the map has
  dropped them, so they are addresses in a heap. Each \<open>await\<close> ends a step: a sweep's list of targets, the workspace record, the
  outbox's answer, the write of the cursor. Sweeps are runs of at most four workers over a queue of workspaces. The last fields
  are the stores a poller writes: the workspaces' notification blocks, the inboxes, and the log of items handed to routing.
  A connection is a number; server names are slugs, on which \<open>localeCompare\<close> and the order of code units agree. Delays are exact.
\<close>

section \<open>Configuration\<close>

record poll_options =
  po_intervalMs :: "rat option"
  po_maxIntervalMs :: "rat option"
  po_maxEvents :: "rat option"
  po_budgetPerMinute :: "rat option"

record poll_config =
  pc_intervalMs :: int
  pc_maxIntervalMs :: int
  pc_maxEvents :: int
  pc_budgetPerMinute :: int

definition poll_floor_ms :: int where "poll_floor_ms = 15000"
definition default_interval_ms :: int where "default_interval_ms = 60000"
definition default_max_interval_ms :: int where "default_max_interval_ms = 300000"
definition default_max_events :: int where "default_max_events = 100"
definition edge_requests_per_minute :: rat where "edge_requests_per_minute = 120"
definition poll_share_of_edge_budget :: rat where "poll_share_of_edge_budget = 1 / 4"
definition requests_per_poll :: rat where "requests_per_poll = 3"

definition default_budget_per_minute :: int where
  "default_budget_per_minute = \<lfloor>edge_requests_per_minute * poll_share_of_edge_budget / requests_per_poll\<rfloor>"

text \<open>A value that is not a finite number is one that is absent.\<close>

definition positive_or :: "rat option \<Rightarrow> int \<Rightarrow> int \<Rightarrow> int" where
  "positive_or v fallback least = (case v of None \<Rightarrow> fallback | Some r \<Rightarrow> if r \<le> 0 then fallback else max \<lfloor>r\<rfloor> least)"

definition resolve_poll_config :: "poll_options \<Rightarrow> poll_config" where
  "resolve_poll_config o' =
     (let intervalMs = positive_or (po_intervalMs o') default_interval_ms poll_floor_ms in
      \<lparr>pc_intervalMs = intervalMs,
        pc_maxIntervalMs = max intervalMs (positive_or (po_maxIntervalMs o') default_max_interval_ms poll_floor_ms),
        pc_maxEvents = min (positive_or (po_maxEvents o') default_max_events 1) 1000,
        pc_budgetPerMinute = positive_or (po_budgetPerMinute o') default_budget_per_minute 1\<rparr>)"

definition clamp_next_poll_ms :: "rat \<Rightarrow> poll_config \<Rightarrow> rat" where
  "clamp_next_poll_ms r c = min (max r (of_int poll_floor_ms)) (of_int (pc_maxIntervalMs c))"

definition backoff_interval_ms :: "nat \<Rightarrow> poll_config \<Rightarrow> int" where
  "backoff_interval_ms streak c =
     (if streak \<le> 0 then pc_intervalMs c else min (pc_intervalMs c * 2 ^ min streak 32) (pc_maxIntervalMs c))"

section \<open>The address of a read\<close>

definition notification_replay_max_age_ms :: int where
  "notification_replay_max_age_ms = notification_retention_days * 24 * 60 * 60 * 1000"

definition utf8_bytes :: "char \<Rightarrow> nat list" where
  "utf8_bytes c =
     (let n = of_char c :: nat in
      if c = ellipsis then [226, 128, 166] else if c = em_dash then [226, 128, 148]
      else if n < 128 then [n] else [192 + n div 64, 128 + n mod 64])"

definition upper_hex :: "nat \<Rightarrow> char" where
  "upper_hex d = (if d < 10 then char_of (48 + d) else char_of (55 + d))"

definition form_char :: "char \<Rightarrow> string" where
  "form_char c =
     (if is_alpha c \<or> is_digit c \<or> c \<in> set ''*-._'' then [c]
      else if c = CHR '' '' then ''+''
      else concat (map (\<lambda>b. CHR ''%'' # [upper_hex (b div 16), upper_hex (b mod 16)]) (utf8_bytes c)))"

definition form_encode :: "string \<Rightarrow> string" where
  "form_encode s = concat (map form_char s)"

definition outbox_read_uri :: "string \<Rightarrow> string option \<Rightarrow> int \<Rightarrow> int \<Rightarrow> string" where
  "outbox_read_uri resource cursor maxEvents maxAgeMs = resource @ ''?'' @
     join ''&'' ((case cursor of None \<Rightarrow> [] | Some c \<Rightarrow> [''cursor='' @ form_encode c]) @
       [''maxEvents='' @ show_int maxEvents, ''maxAgeMs='' @ show_int maxAgeMs])"

section \<open>The allowance of a workspace\<close>

record poll_window =
  pw_startedAt :: ms
  pw_used :: int

definition take_budget :: "int \<Rightarrow> string \<Rightarrow> ms \<Rightarrow> (string \<times> poll_window) list \<Rightarrow> bool \<times> (string \<times> poll_window) list" where
  "take_budget perMinute ws now ms =
     (case map_of ms ws of
        None \<Rightarrow> (True, jset ws \<lparr>pw_startedAt = now, pw_used = 1\<rparr> ms)
      | Some w \<Rightarrow>
          if 60000 \<le> now - pw_startedAt w then (True, jset ws \<lparr>pw_startedAt = now, pw_used = 1\<rparr> ms)
          else if perMinute \<le> pw_used w then (False, ms)
          else (True, jset ws (w\<lparr>pw_used := pw_used w + 1\<rparr>) ms))"

definition prune_budget :: "string set \<Rightarrow> (string \<times> poll_window) list \<Rightarrow> (string \<times> poll_window) list" where
  "prune_budget live ms = filter (\<lambda>(ws, _). ws \<in> live) ms"

section \<open>The cadence of a source\<close>

record source_state =
  ss_dueAt :: rat
  ss_emptyStreak :: nat
  ss_failureStreak :: nat
  ss_breakerOpenUntil :: ms
  ss_hintSource :: "nat option"

definition fresh_source_state :: source_state where
  "fresh_source_state = \<lparr>ss_dueAt = 0, ss_emptyStreak = 0, ss_failureStreak = 0, ss_breakerOpenUntil = 0, ss_hintSource = None\<rparr>"

record read_outcome =
  ro_events :: nat
  ro_hasMore :: bool
  ro_nextPollMs :: "rat option"

definition breaker_threshold :: nat where "breaker_threshold = 3"
definition max_chained_reads :: nat where "max_chained_reads = 5"
definition workspace_concurrency :: nat where "workspace_concurrency = 4"
definition jitter_fraction :: rat where "jitter_fraction = 1 / 5"
definition summary_interval_ms :: ms where "summary_interval_ms = 600000"

definition is_due_state :: "ms \<Rightarrow> source_state \<Rightarrow> bool" where
  "is_due_state now s \<longleftrightarrow> ss_dueAt s \<le> of_int now \<and> ss_breakerOpenUntil s \<le> now"

definition record_success :: "poll_config \<Rightarrow> ms \<Rightarrow> read_outcome \<Rightarrow> bool \<Rightarrow> source_state \<Rightarrow> source_state" where
  "record_success c now out hinted s =
     (let s1 = s\<lparr>ss_failureStreak := 0, ss_breakerOpenUntil := 0,
                 ss_emptyStreak := (if hinted \<or> 0 < ro_events out then 0 else ss_emptyStreak s + 1)\<rparr>;
          interval = (case ro_nextPollMs out of
                        Some n \<Rightarrow> clamp_next_poll_ms n c
                      | None \<Rightarrow> of_int (backoff_interval_ms (ss_emptyStreak s1) c))
      in s1\<lparr>ss_dueAt := of_int now + interval\<rparr>)"

definition record_failure :: "poll_config \<Rightarrow> ms \<Rightarrow> source_state \<Rightarrow> source_state" where
  "record_failure c now s =
     (let s1 = s\<lparr>ss_failureStreak := ss_failureStreak s + 1\<rparr>;
          s2 = (if breaker_threshold \<le> ss_failureStreak s1 then s1\<lparr>ss_breakerOpenUntil := now + pc_maxIntervalMs c\<rparr> else s1)
      in s2\<lparr>ss_dueAt := of_int (now + backoff_interval_ms (ss_failureStreak s1) c)\<rparr>)"

section \<open>State\<close>

record poll_target =
  tg_wsId :: string
  tg_serverName :: string
  tg_resource :: string
  tg_source :: nat

datatype read_phase =
    Positioning
  | Fetching "string option" notification_level
  | Advancing "string option" "string option" read_outcome

text \<open>A workspace being read: by a worker of the sweep \<open>pp_sweep\<close>, or on a hint.\<close>

record poll_pass =
  pp_sweep :: "nat option"
  pp_target :: poll_target
  pp_rest :: "poll_target list"
  pp_state :: nat
  pp_read :: nat
  pp_phase :: read_phase

record sweep_run =
  sr_queue :: "(string \<times> poll_target list) list"
  sr_free :: nat
  sr_limit :: nat
  sr_settled :: bool

record poller =
  pl_stopped :: bool
  pl_sweeping :: bool
  pl_asking :: bool
  pl_sweeps :: "sweep_run list"
  pl_states :: "(string \<times> nat) list"
  pl_heap :: "source_state list"
  pl_windows :: "(string \<times> poll_window) list"
  pl_inFlight :: "(string \<times> poll_pass) list"
  pl_resumeAt :: "(string \<times> string) list"
  pl_lastSummaryAt :: ms
  pl_lastTargetCount :: "nat option"
  pl_pulled :: nat
  pl_reconnects :: nat
  pl_deferred :: nat
  pl_polls :: nat
  pl_blocks :: block_store
  pl_inboxes :: "string \<Rightarrow> inbox"
  pl_routed :: "(string \<times> notification) list"

definition new_poller :: "ms \<Rightarrow> block_store \<Rightarrow> (string \<Rightarrow> inbox) \<Rightarrow> poller" where
  "new_poller now blocks inboxes =
     \<lparr>pl_stopped = False, pl_sweeping = False, pl_asking = False, pl_sweeps = [], pl_states = [], pl_heap = [], pl_windows = [],
       pl_inFlight = [], pl_resumeAt = [], pl_lastSummaryAt = now, pl_lastTargetCount = None, pl_pulled = 0, pl_reconnects = 0,
       pl_deferred = 0, pl_polls = 0, pl_blocks = blocks, pl_inboxes = inboxes, pl_routed = []\<rparr>"

definition state_key :: "poll_target \<Rightarrow> string" where
  "state_key t = tg_wsId t @ ''|'' @ tg_serverName t"

definition set_state :: "nat \<Rightarrow> source_state \<Rightarrow> poller \<Rightarrow> poller" where
  "set_state a s po = po\<lparr>pl_heap := (pl_heap po)[a := s]\<rparr>"

definition state_for :: "poll_target \<Rightarrow> poller \<Rightarrow> nat \<times> poller" where
  "state_for t po =
     (case map_of (pl_states po) (state_key t) of
        Some a \<Rightarrow> (a, po)
      | None \<Rightarrow> (length (pl_heap po),
          po\<lparr>pl_states := jset (state_key t) (length (pl_heap po)) (pl_states po), pl_heap := pl_heap po @ [fresh_source_state]\<rparr>))"

definition source_is_due :: "poll_target \<Rightarrow> ms \<Rightarrow> poller \<Rightarrow> bool" where
  "source_is_due t now po \<longleftrightarrow>
     (case map_of (pl_states po) (state_key t) of None \<Rightarrow> True | Some a \<Rightarrow> is_due_state now (pl_heap po ! a))"

definition release_hint :: "nat \<Rightarrow> poller \<Rightarrow> poller" where
  "release_hint a po = set_state a ((pl_heap po ! a)\<lparr>ss_hintSource := None\<rparr>) po"

definition arrange_update_hint :: "poll_target \<Rightarrow> poller \<Rightarrow> poller" where
  "arrange_update_hint t po =
     (let (a, po1) = state_for t po in
      if ss_hintSource (pl_heap po1 ! a) = Some (tg_source t) then po1
      else set_state a ((pl_heap po1 ! a)\<lparr>ss_hintSource := Some (tg_source t)\<rparr>) po1)"

definition defer_polls :: "nat \<Rightarrow> poller \<Rightarrow> poller" where
  "defer_polls n po = po\<lparr>pl_deferred := pl_deferred po + n\<rparr>"

definition take_allowance :: "poll_config \<Rightarrow> string \<Rightarrow> ms \<Rightarrow> poller \<Rightarrow> bool \<times> poller" where
  "take_allowance c ws now po =
     (let (b, w) = take_budget (pc_budgetPerMinute c) ws now (pl_windows po) in (b, po\<lparr>pl_windows := w\<rparr>))"

section \<open>Grouping and rotation\<close>

definition add_target :: "poll_target \<Rightarrow> (string \<times> poll_target list) list \<Rightarrow> (string \<times> poll_target list) list" where
  "add_target t g = jset (tg_wsId t) (nullish (map_of g (tg_wsId t)) [] @ [t]) g"

definition group_by_workspace :: "poll_target list \<Rightarrow> (string \<times> poll_target list) list" where
  "group_by_workspace ts = map (\<lambda>(ws, g). (ws, sort_key tg_serverName g)) (fold add_target ts [])"

definition rotate_targets :: "poll_target list \<Rightarrow> string option \<Rightarrow> poll_target list" where
  "rotate_targets ts resume =
     (case resume of
        None \<Rightarrow> ts
      | Some r \<Rightarrow> let i = length (takeWhile (\<lambda>t. \<not> r \<le> tg_serverName t) ts) in
          if i = length ts \<or> i = 0 then ts else drop i ts @ take i ts)"

definition prune_states :: "poll_target list \<Rightarrow> poller \<Rightarrow> poller" where
  "prune_states ts po =
     (let live = state_key ` set ts;
          po1 = fold (\<lambda>(k, a). if k \<in> live then id else release_hint a) (pl_states po) po
      in po1\<lparr>pl_states := filter (\<lambda>(k, _). k \<in> live) (pl_states po),
             pl_resumeAt := filter (\<lambda>(ws, _). ws \<in> tg_wsId ` set ts) (pl_resumeAt po)\<rparr>)"

section \<open>Writing what an outbox answered\<close>

record write_result =
  wr_ok :: bool
  wr_lastCursor :: "string option"
  wr_pulled :: nat
  wr_inbox :: inbox
  wr_created :: "notification list"

definition store_one :: "inbox_env \<Rightarrow> poll_target \<Rightarrow> notification_level \<Rightarrow> notification_envelope \<Rightarrow> inbox \<Rightarrow> inbox_error + append_result" where
  "store_one env t top_level e st =
     append_item env st (tg_serverName t) e (Some (clamp_level (p_level (read_presentation e)) top_level))"

text \<open>\<open>parse\<close> is the envelope parser; \<open>envs\<close> is what each append meets.\<close>

fun write_events ::
  "(json \<Rightarrow> notification_envelope option) \<Rightarrow> inbox_env list \<Rightarrow> poll_target \<Rightarrow> notification_level \<Rightarrow> json list \<Rightarrow> write_result \<Rightarrow> write_result" where
  "write_events parse envs t top_level [] w = w"
| "write_events parse envs t top_level (raw # rest) w =
     (case parse raw of
        None \<Rightarrow> write_events parse envs t top_level rest w
      | Some e \<Rightarrow>
          (case envs of
             [] \<Rightarrow> w\<lparr>wr_ok := False\<rparr>
           | env # envs' \<Rightarrow>
               (case store_one env t top_level e (wr_inbox w) of
                  Inl _ \<Rightarrow> w\<lparr>wr_ok := False\<rparr>
                | Inr r \<Rightarrow>
                    write_events parse envs' t top_level rest
                      (w\<lparr>wr_pulled := wr_pulled w + 1,
                         wr_lastCursor := (if env_cursor e \<noteq> None then env_cursor e else wr_lastCursor w),
                         wr_inbox := ap_inbox r,
                         wr_created := wr_created w @ (if ap_created r then [ap_item r] else [])\<rparr>))))"

definition start_writing :: "inbox \<Rightarrow> write_result" where
  "start_writing st = \<lparr>wr_ok = True, wr_lastCursor = None, wr_pulled = 0, wr_inbox = st, wr_created = []\<rparr>"

section \<open>One workspace\<close>

text \<open>The end of a pass; the worker of a sweep is free for the next workspace.\<close>

definition free_worker :: "nat option \<Rightarrow> poller \<Rightarrow> poller" where
  "free_worker sweep po =
     (case sweep of
        None \<Rightarrow> po
      | Some k \<Rightarrow> po\<lparr>pl_sweeps := (pl_sweeps po)[k := (pl_sweeps po ! k)\<lparr>sr_free := sr_free (pl_sweeps po ! k) + 1\<rparr>]\<rparr>)"

definition end_pass :: "string \<Rightarrow> nat option \<Rightarrow> poller \<Rightarrow> poller" where
  "end_pass ws sweep po = free_worker sweep (po\<lparr>pl_inFlight := jdelete ws (pl_inFlight po)\<rparr>)"

definition start_reading :: "nat option \<Rightarrow> poll_target \<Rightarrow> poll_target list \<Rightarrow> poller \<Rightarrow> poller" where
  "start_reading sweep t rest po =
     (let (a, po1) = state_for t po in
      po1\<lparr>pl_inFlight := jset (tg_wsId t)
        \<lparr>pp_sweep = sweep, pp_target = t, pp_rest = rest, pp_state = a, pp_read = 0, pp_phase = Positioning\<rparr> (pl_inFlight po1)\<rparr>)"

definition next_source :: "poll_config \<Rightarrow> string \<Rightarrow> nat \<Rightarrow> ms \<Rightarrow> poll_target list \<Rightarrow> poller \<Rightarrow> poller" where
  "next_source c ws sweep now due po =
     (case due of
        [] \<Rightarrow> end_pass ws (Some sweep) (po\<lparr>pl_resumeAt := jdelete ws (pl_resumeAt po)\<rparr>)
      | t # rest \<Rightarrow>
          if pl_stopped po then end_pass ws (Some sweep) po
          else let (granted, po1) = take_allowance c ws now (arrange_update_hint t po) in
            if \<not> granted
            then end_pass ws (Some sweep)
              ((defer_polls (length due) po1)\<lparr>pl_resumeAt := jset ws (tg_serverName t) (pl_resumeAt po1)\<rparr>)
            else start_reading (Some sweep) t rest po1)"

definition sweep_workspace :: "poll_config \<Rightarrow> string \<Rightarrow> nat \<Rightarrow> ms \<Rightarrow> poll_target list \<Rightarrow> poller \<Rightarrow> poller" where
  "sweep_workspace c ws sweep now targets po =
     (if map_of (pl_inFlight po) ws \<noteq> None then free_worker (Some sweep) po
      else next_source c ws sweep now
        (rotate_targets (filter (\<lambda>t. source_is_due t now po) targets) (map_of (pl_resumeAt po) ws)) po)"

definition after_source :: "poll_config \<Rightarrow> ms \<Rightarrow> poll_pass \<Rightarrow> poller \<Rightarrow> poller" where
  "after_source c now p po =
     (let ws = tg_wsId (pp_target p) in
      case pp_sweep p of
        None \<Rightarrow> end_pass ws None po
      | Some sweep \<Rightarrow> next_source c ws sweep now (pp_rest p) po)"

definition poll_on_hint :: "poll_config \<Rightarrow> ms \<Rightarrow> poll_target \<Rightarrow> poller \<Rightarrow> poller" where
  "poll_on_hint c now t po =
     (if pl_stopped po then po
      else if map_of (pl_inFlight po) (tg_wsId t) \<noteq> None then po
      else let (granted, po1) = take_allowance c (tg_wsId t) now po in
        if \<not> granted then defer_polls 1 po1 else start_reading None t [] po1)"

section \<open>One read\<close>

definition set_phase :: "poll_pass \<Rightarrow> read_phase \<Rightarrow> poller \<Rightarrow> poller" where
  "set_phase p ph po = po\<lparr>pl_inFlight := jset (tg_wsId (pp_target p)) (p\<lparr>pp_phase := ph\<rparr>) (pl_inFlight po)\<rparr>"

text \<open>\<open>positionFor\<close>, with the address of the read. \<open>readable\<close> is false where the workspace record does not parse or cannot be read: the call throws.\<close>

definition position_for :: "poll_target \<Rightarrow> poller \<Rightarrow> string option \<times> notification_level" where
  "position_for t po =
     (let ws = map_of (pl_blocks po) (tg_wsId t) in
      (Option.bind ws (\<lambda>raw. read_cursor raw (tg_serverName t)),
       source_max_level (read_notifications_config (Option.bind ws id)) (tg_serverName t)))"

definition read_address :: "poll_config \<Rightarrow> poll_target \<Rightarrow> string option \<Rightarrow> string" where
  "read_address c t cursor = outbox_read_uri (tg_resource t) cursor (pc_maxEvents c) notification_replay_max_age_ms"

text \<open>A throw outside the read's own guards ends the pass, and a worker's throw fails its sweep.\<close>

definition pass_throws :: "poll_pass \<Rightarrow> poller \<Rightarrow> poller" where
  "pass_throws p po =
     (let po1 = po\<lparr>pl_inFlight := jdelete (tg_wsId (pp_target p)) (pl_inFlight po)\<rparr> in
      case pp_sweep p of
        None \<Rightarrow> po1
      | Some k \<Rightarrow>
          if sr_settled (pl_sweeps po1 ! k) then po1
          else po1\<lparr>pl_sweeps := (pl_sweeps po1)[k := (pl_sweeps po1 ! k)\<lparr>sr_settled := True\<rparr>], pl_sweeping := False\<rparr>)"

definition read_position :: "bool \<Rightarrow> string \<Rightarrow> poller \<Rightarrow> poller" where
  "read_position readable ws po =
     (case map_of (pl_inFlight po) ws of
        None \<Rightarrow> po
      | Some p \<Rightarrow>
          if pp_phase p \<noteq> Positioning then po
          else if \<not> readable then pass_throws p po
          else let (cursor, top_level) = position_for (pp_target p) po in set_phase p (Fetching cursor top_level) po)"

definition read_failed :: "poll_config \<Rightarrow> ms \<Rightarrow> poll_pass \<Rightarrow> poller \<Rightarrow> poller" where
  "read_failed c now p po = after_source c now p (set_state (pp_state p) (record_failure c now (pl_heap po ! pp_state p)) po)"

text \<open>
  What the outbox answered: its text, if the read returned one, and whether the transport was revived for it. The events are
  written in the same step.
\<close>

definition outbox_answered ::
  "poll_config \<Rightarrow> (string \<Rightarrow> json option) \<Rightarrow> (json \<Rightarrow> notification_envelope option) \<Rightarrow> inbox_env list \<Rightarrow> ms \<Rightarrow> string \<Rightarrow> bool \<Rightarrow> string option \<Rightarrow> poller \<Rightarrow> poller" where
  "outbox_answered c json_parse parse envs now ws revived body po =
     (case map_of (pl_inFlight po) ws of
        None \<Rightarrow> po
      | Some p \<Rightarrow>
          (case pp_phase p of
             Fetching cursor top_level \<Rightarrow>
               (let po1 = po\<lparr>pl_polls := pl_polls po + 1, pl_reconnects := pl_reconnects po + (if revived then 1 else 0)\<rparr> in
                case parse_outbox_poll_body json_parse body of
                  None \<Rightarrow> read_failed c now p po1
                | Some r \<Rightarrow>
                    let w = write_events parse envs (pp_target p) top_level (poll_events r) (start_writing (pl_inboxes po1 ws));
                        po2 = po1\<lparr>pl_inboxes := (pl_inboxes po1)(ws := wr_inbox w), pl_pulled := pl_pulled po1 + wr_pulled w,
                                  pl_routed := pl_routed po1 @ map (Pair ws) (wr_created w)\<rparr>
                    in if \<not> wr_ok w then read_failed c now p po2
                       else set_phase p (Advancing cursor (case poll_cursor r of None \<Rightarrow> wr_lastCursor w | Some n \<Rightarrow> Some n)
                              \<lparr>ro_events = length (poll_events r), ro_hasMore = poll_hasMore r, ro_nextPollMs = poll_nextPollMs r\<rparr>) po2)
           | _ \<Rightarrow> po))"

text \<open>\<open>advanceCursor\<close>: a write that throws is only logged.\<close>

definition advance_stored :: "poll_target \<Rightarrow> string option \<Rightarrow> string option \<Rightarrow> bool \<Rightarrow> poller \<Rightarrow> poller" where
  "advance_stored t previous next_cursor written po =
     (case next_cursor of
        None \<Rightarrow> po
      | Some n \<Rightarrow>
          if next_cursor = previous \<or> \<not> written then po
          else po\<lparr>pl_blocks := snd (write_cursor (tg_wsId t) (tg_serverName t) n (Some previous) (pl_blocks po))\<rparr>)"

definition cursor_advanced :: "poll_config \<Rightarrow> ms \<Rightarrow> string \<Rightarrow> bool \<Rightarrow> poller \<Rightarrow> poller" where
  "cursor_advanced c now ws written po =
     (case map_of (pl_inFlight po) ws of
        None \<Rightarrow> po
      | Some p \<Rightarrow>
          (case pp_phase p of
             Advancing previous next_cursor out \<Rightarrow>
               (let po1 = advance_stored (pp_target p) previous next_cursor written po;
                    po2 = set_state (pp_state p) (record_success c now out (pp_sweep p = None) (pl_heap po1 ! pp_state p)) po1
                in if \<not> ro_hasMore out then after_source c now p po2
                   else let (granted, po3) = take_allowance c ws now po2 in
                     if \<not> granted then after_source c now p (defer_polls 1 po3)
                     else if max_chained_reads \<le> pp_read p + 1 \<or> pl_stopped po3 then after_source c now p po3
                     else set_phase (p\<lparr>pp_read := pp_read p + 1\<rparr>) Positioning po3)
           | _ \<Rightarrow> po))"

section \<open>Sweeps\<close>

definition sweep_begins :: "poller \<Rightarrow> poller" where
  "sweep_begins po = (if pl_stopped po \<or> pl_sweeping po then po else po\<lparr>pl_sweeping := True, pl_asking := True\<rparr>)"

text \<open>The list of targets, or the throw of asking for it.\<close>

definition sweep_targets :: "poll_target list option \<Rightarrow> poller \<Rightarrow> poller" where
  "sweep_targets answer po =
     (if \<not> pl_asking po then po
      else case answer of
        None \<Rightarrow> po\<lparr>pl_sweeping := False, pl_asking := False\<rparr>
      | Some ts \<Rightarrow>
          let groups = group_by_workspace ts;
              n = min workspace_concurrency (length groups);
              po1 = po\<lparr>pl_asking := False, pl_lastTargetCount := Some (length ts),
                       pl_windows := prune_budget (fst ` set groups) (pl_windows po)\<rparr>;
              po2 = prune_states ts po1
          in po2\<lparr>pl_sweeps := pl_sweeps po2 @ [\<lparr>sr_queue = groups, sr_free = n, sr_limit = n, sr_settled = False\<rparr>]\<rparr>)"

definition worker_takes :: "poll_config \<Rightarrow> ms \<Rightarrow> nat \<Rightarrow> poller \<Rightarrow> poller" where
  "worker_takes c now k po =
     (if length (pl_sweeps po) \<le> k then po
      else let sr = pl_sweeps po ! k in
        case sr_queue sr of
          [] \<Rightarrow> po
        | (ws, g) # rest \<Rightarrow>
            if sr_free sr = 0 then po
            else sweep_workspace c ws k now g (po\<lparr>pl_sweeps := (pl_sweeps po)[k := sr\<lparr>sr_queue := rest, sr_free := sr_free sr - 1\<rparr>]\<rparr>))"

definition maybe_log_summary :: "ms \<Rightarrow> poller \<Rightarrow> poller" where
  "maybe_log_summary now po =
     (if now - pl_lastSummaryAt po < summary_interval_ms then po
      else po\<lparr>pl_lastSummaryAt := now, pl_polls := 0, pl_pulled := 0, pl_reconnects := 0, pl_deferred := 0\<rparr>)"

definition sweep_done :: "nat \<Rightarrow> poller \<Rightarrow> bool" where
  "sweep_done k po \<longleftrightarrow> k < length (pl_sweeps po) \<and> \<not> sr_settled (pl_sweeps po ! k) \<and> sr_queue (pl_sweeps po ! k) = [] \<and>
     sr_free (pl_sweeps po ! k) = sr_limit (pl_sweeps po ! k)"

definition sweep_ends :: "ms \<Rightarrow> nat \<Rightarrow> poller \<Rightarrow> poller" where
  "sweep_ends now k po =
     (if sweep_done k po
      then (maybe_log_summary now po)\<lparr>pl_sweeping := False, pl_sweeps := (pl_sweeps po)[k := (pl_sweeps po ! k)\<lparr>sr_settled := True\<rparr>]\<rparr>
      else po)"

definition stop_poller :: "poller \<Rightarrow> poller" where
  "stop_poller po = fold release_hint (map snd (pl_states po)) (po\<lparr>pl_stopped := True\<rparr>)"

text \<open>How long the timer sleeps: to the earliest source that may be read.\<close>

definition next_delay_ms :: "poll_config \<Rightarrow> ms \<Rightarrow> poller \<Rightarrow> rat" where
  "next_delay_ms c now po =
     (case map (\<lambda>(_, a). max (ss_dueAt (pl_heap po ! a)) (of_int (ss_breakerOpenUntil (pl_heap po ! a)))) (pl_states po) of
        [] \<Rightarrow> of_int (pc_intervalMs c)
      | t # ts \<Rightarrow> min (max (fold min ts t - of_int now) (of_int poll_floor_ms)) (of_int (pc_maxIntervalMs c)))"

definition jitter :: "rat \<Rightarrow> rat \<Rightarrow> rat" where
  "jitter random ms = (let delta = ms * jitter_fraction in ms - delta + random * 2 * delta)"

end
