(* ===== verification/Poller_Props.thy ===== *)
theory Poller_Props
  imports Notify_Poller
begin

text \<open>
  What holds of the poller (\<open>src/notifications/poller.ts\<close>): its steps in any order, beside whatever else writes the stores.
  The cursor never passes an event that did not reach the inbox, reads stay within their cadence and allowance, and a
  workspace with more outboxes than allowance reads all of them.
\<close>

section \<open>What the parts of a step leave alone\<close>

lemma state_for_fields [simp]:
  "pl_blocks (snd (state_for t po)) = pl_blocks po" "pl_inboxes (snd (state_for t po)) = pl_inboxes po"
  "pl_inFlight (snd (state_for t po)) = pl_inFlight po" "pl_sweeps (snd (state_for t po)) = pl_sweeps po"
  "pl_resumeAt (snd (state_for t po)) = pl_resumeAt po" "pl_windows (snd (state_for t po)) = pl_windows po"
  "pl_stopped (snd (state_for t po)) = pl_stopped po" "pl_asking (snd (state_for t po)) = pl_asking po"
  by (simp_all add: state_for_def split: option.split)

lemma set_state_fields [simp]:
  "pl_blocks (set_state a s po) = pl_blocks po" "pl_inboxes (set_state a s po) = pl_inboxes po"
  "pl_inFlight (set_state a s po) = pl_inFlight po" "pl_sweeps (set_state a s po) = pl_sweeps po"
  "pl_resumeAt (set_state a s po) = pl_resumeAt po" "pl_windows (set_state a s po) = pl_windows po"
  "pl_stopped (set_state a s po) = pl_stopped po" "pl_asking (set_state a s po) = pl_asking po"
  by (simp_all add: set_state_def)

lemma arrange_fields [simp]:
  "pl_blocks (arrange_update_hint t po) = pl_blocks po" "pl_inboxes (arrange_update_hint t po) = pl_inboxes po"
  "pl_inFlight (arrange_update_hint t po) = pl_inFlight po" "pl_sweeps (arrange_update_hint t po) = pl_sweeps po"
  "pl_resumeAt (arrange_update_hint t po) = pl_resumeAt po" "pl_windows (arrange_update_hint t po) = pl_windows po"
  by (simp_all add: arrange_update_hint_def case_prod_beta Let_def)

lemma take_allowance_fields [simp]:
  "pl_blocks (snd (take_allowance c ws now po)) = pl_blocks po" "pl_inboxes (snd (take_allowance c ws now po)) = pl_inboxes po"
  "pl_inFlight (snd (take_allowance c ws now po)) = pl_inFlight po" "pl_sweeps (snd (take_allowance c ws now po)) = pl_sweeps po"
  "pl_resumeAt (snd (take_allowance c ws now po)) = pl_resumeAt po" "pl_stopped (snd (take_allowance c ws now po)) = pl_stopped po"
  by (simp_all add: take_allowance_def case_prod_beta)

lemma defer_polls_fields [simp]:
  "pl_blocks (defer_polls n po) = pl_blocks po" "pl_inboxes (defer_polls n po) = pl_inboxes po"
  "pl_inFlight (defer_polls n po) = pl_inFlight po" "pl_sweeps (defer_polls n po) = pl_sweeps po"
  "pl_resumeAt (defer_polls n po) = pl_resumeAt po"
  by (simp_all add: defer_polls_def)

text \<open>The queues of the sweeps.\<close>

definition queues :: "poller \<Rightarrow> (string \<times> poll_target list) list list" where
  "queues po = map sr_queue (pl_sweeps po)"

lemma map_update_same: "f x = f (xs ! k) \<Longrightarrow> map f (xs[k := x]) = map f xs"
  by (cases "k < length xs") (simp_all add: map_update list_update_same_conv list_update_beyond)

lemma queues_fields [simp]:
  "queues (snd (state_for t po)) = queues po" "queues (set_state a s po) = queues po" "queues (arrange_update_hint t po) = queues po"
  "queues (snd (take_allowance c ws now po)) = queues po" "queues (defer_polls n po) = queues po"
  "queues (po\<lparr>pl_inFlight := m\<rparr>) = queues po" "queues (po\<lparr>pl_resumeAt := r\<rparr>) = queues po"
  by (simp_all add: queues_def)

lemma free_worker_fields [simp]:
  "pl_blocks (free_worker k po) = pl_blocks po" "pl_inboxes (free_worker k po) = pl_inboxes po"
  "pl_inFlight (free_worker k po) = pl_inFlight po" "pl_resumeAt (free_worker k po) = pl_resumeAt po" "queues (free_worker k po) = queues po"
  by (simp_all add: free_worker_def queues_def map_update_same split: option.split)

lemma end_pass_fields [simp]:
  "pl_blocks (end_pass ws k po) = pl_blocks po" "pl_inboxes (end_pass ws k po) = pl_inboxes po"
  "pl_inFlight (end_pass ws k po) = jdelete ws (pl_inFlight po)" "pl_resumeAt (end_pass ws k po) = pl_resumeAt po"
  "queues (end_pass ws k po) = queues po"
  by (simp_all add: end_pass_def)

section \<open>Who reads what\<close>

definition pass_ok :: "string \<Rightarrow> poll_pass \<Rightarrow> bool" where
  "pass_ok ws p \<longleftrightarrow> tg_wsId (pp_target p) = ws \<and> (\<forall>t \<in> set (pp_rest p). tg_wsId t = ws)"

definition fresh_pass :: "string \<Rightarrow> poll_pass option \<Rightarrow> bool" where
  "fresh_pass ws x \<longleftrightarrow> (\<forall>p. x = Some p \<longrightarrow> pass_ok ws p \<and> pp_phase p = Positioning)"

lemma start_reading_flight:
  assumes "tg_wsId t = ws" "\<forall>t \<in> set rest. tg_wsId t = ws"
  shows "\<exists>x. map_of (pl_inFlight (start_reading k t rest po)) = (map_of (pl_inFlight po))(ws := x) \<and> fresh_pass ws x"
  using assms by (auto simp: start_reading_def case_prod_beta Let_def fresh_pass_def pass_ok_def)

lemma start_reading_fields [simp]:
  "pl_blocks (start_reading k t rest po) = pl_blocks po" "pl_inboxes (start_reading k t rest po) = pl_inboxes po"
  "pl_sweeps (start_reading k t rest po) = pl_sweeps po" "pl_resumeAt (start_reading k t rest po) = pl_resumeAt po"
  "queues (start_reading k t rest po) = queues po"
  by (simp_all add: start_reading_def queues_def case_prod_beta Let_def)

lemma next_source_flight:
  assumes "\<forall>t \<in> set due. tg_wsId t = ws"
  shows "\<exists>x. map_of (pl_inFlight (next_source c ws k now due po)) = (map_of (pl_inFlight po))(ws := x) \<and> fresh_pass ws x"
proof (cases due)
  case Nil
  then show ?thesis by (auto simp: next_source_def fresh_pass_def intro!: exI [of _ None])
next
  case (Cons t rest)
  show ?thesis
  proof (cases "pl_stopped po \<or> \<not> fst (take_allowance c ws now (arrange_update_hint t po))")
    case True
    then show ?thesis using Cons
      by (auto simp: next_source_def fresh_pass_def case_prod_beta Let_def intro!: exI [of _ None])
  next
    case False
    then show ?thesis using Cons assms start_reading_flight [of t ws rest "Some k" "snd (take_allowance c ws now (arrange_update_hint t po))"]
      by (simp add: next_source_def case_prod_beta Let_def)
  qed
qed

lemma next_source_fields [simp]:
  "pl_blocks (next_source c ws k now due po) = pl_blocks po" "pl_inboxes (next_source c ws k now due po) = pl_inboxes po"
  "queues (next_source c ws k now due po) = queues po"
  by (simp_all add: next_source_def case_prod_beta Let_def split: list.split)

lemma after_source_flight:
  assumes "pass_ok ws p"
  shows "\<exists>x. map_of (pl_inFlight (after_source c now p po)) = (map_of (pl_inFlight po))(ws := x) \<and> fresh_pass ws x"
proof (cases "pp_sweep p")
  case None
  then show ?thesis using assms by (auto simp: after_source_def pass_ok_def fresh_pass_def Let_def intro!: exI [of _ None])
next
  case (Some k)
  then show ?thesis using assms next_source_flight [of "pp_rest p" ws c k now po] by (simp add: after_source_def pass_ok_def Let_def)
qed

lemma after_source_fields [simp]:
  "pl_blocks (after_source c now p po) = pl_blocks po" "pl_inboxes (after_source c now p po) = pl_inboxes po"
  "queues (after_source c now p po) = queues po"
  by (simp_all add: after_source_def Let_def split: option.split)

section \<open>Steps in any order\<close>

text \<open>
  \<open>covers ws k n\<close> are the events before the position that the server of connector \<open>k\<close> calls \<open>n\<close>. An honest answer to a read
  from a position moves past no event but those it returns. \<open>wa_taken\<close> are the events a read handed to the inbox, and
  \<open>wa_base\<close> what a connector's first position stepped over.
\<close>

record watched =
  wa_poller :: poller
  wa_taken :: "(string \<times> string \<times> json) set"
  wa_base :: "string \<times> string \<Rightarrow> json set"

definition cursor_of :: "block_store \<Rightarrow> string \<Rightarrow> string \<Rightarrow> string option" where
  "cursor_of st ws k = Option.bind (map_of st ws) (\<lambda>raw. read_cursor raw k)"

definition taken_from :: "(string \<times> string \<times> json) set \<Rightarrow> string \<Rightarrow> string \<Rightarrow> json set" where
  "taken_from taken ws k = {raw. (ws, k, raw) \<in> taken}"

definition honest ::
  "(string \<Rightarrow> json set) \<Rightarrow> (json \<Rightarrow> notification_envelope option) \<Rightarrow> string \<Rightarrow> outbox_poll_result \<Rightarrow> bool" where
  "honest cov parse from r \<longleftrightarrow>
     (\<forall>n. poll_cursor r = Some n \<longrightarrow> cov n \<subseteq> cov from \<union> set (poll_events r)) \<and>
     (\<forall>raw \<in> set (poll_events r). \<forall>e n. parse raw = Some e \<longrightarrow> env_cursor e = Some n \<longrightarrow> cov n \<subseteq> cov from \<union> set (poll_events r))"

text \<open>The events of an answer that were all written.\<close>

definition written_events ::
  "(string \<Rightarrow> json option) \<Rightarrow> (json \<Rightarrow> notification_envelope option) \<Rightarrow> inbox_env list \<Rightarrow> string \<Rightarrow> string option \<Rightarrow> poller
    \<Rightarrow> (string \<times> string \<times> json) set" where
  "written_events json_parse parse envs ws body po =
     (case map_of (pl_inFlight po) ws of
        Some p \<Rightarrow>
          (case (pp_phase p, parse_outbox_poll_body json_parse body) of
             (Fetching cursor lvl, Some r) \<Rightarrow>
               if wr_ok (write_events parse envs (pp_target p) lvl (poll_events r) (start_writing (pl_inboxes po ws)))
               then (\<lambda>raw. (ws, tg_serverName (pp_target p), raw)) ` set (poll_events r) else {}
           | _ \<Rightarrow> {})
      | None \<Rightarrow> {})"

text \<open>The first position a step stores: the connector and its cursor.\<close>

definition first_position :: "string \<Rightarrow> bool \<Rightarrow> poller \<Rightarrow> (string \<times> string) option" where
  "first_position ws written po =
     (case map_of (pl_inFlight po) ws of
        Some p \<Rightarrow>
          (case pp_phase p of
             Advancing None (Some n) out \<Rightarrow>
               if written \<and> fst (write_cursor ws (tg_serverName (pp_target p)) n (Some None) (pl_blocks po))
               then Some (tg_serverName (pp_target p), n) else None
           | _ \<Rightarrow> None)
      | None \<Rightarrow> None)"

inductive poll_reach ::
  "poll_config \<Rightarrow> (string \<Rightarrow> json option) \<Rightarrow> (json \<Rightarrow> notification_envelope option) \<Rightarrow> (string \<Rightarrow> string \<Rightarrow> string \<Rightarrow> json set) \<Rightarrow> watched \<Rightarrow> bool"
  for c json_parse parse covers where
  start: "\<forall>ws k n. cursor_of blocks ws k = Some n \<longrightarrow> covers ws k n \<subseteq> base (ws, k) \<Longrightarrow>
    poll_reach c json_parse parse covers \<lparr>wa_poller = new_poller now blocks inboxes, wa_taken = {}, wa_base = base\<rparr>"
| begins: "poll_reach c json_parse parse covers w \<Longrightarrow>
    poll_reach c json_parse parse covers (w\<lparr>wa_poller := sweep_begins (wa_poller w)\<rparr>)"
| targets: "poll_reach c json_parse parse covers w \<Longrightarrow>
    poll_reach c json_parse parse covers (w\<lparr>wa_poller := sweep_targets answer (wa_poller w)\<rparr>)"
| worker: "poll_reach c json_parse parse covers w \<Longrightarrow>
    poll_reach c json_parse parse covers (w\<lparr>wa_poller := worker_takes c now i (wa_poller w)\<rparr>)"
| ends: "poll_reach c json_parse parse covers w \<Longrightarrow>
    poll_reach c json_parse parse covers (w\<lparr>wa_poller := sweep_ends now i (wa_poller w)\<rparr>)"
| hint: "poll_reach c json_parse parse covers w \<Longrightarrow>
    poll_reach c json_parse parse covers (w\<lparr>wa_poller := poll_on_hint c now t (wa_poller w)\<rparr>)"
| position: "poll_reach c json_parse parse covers w \<Longrightarrow>
    poll_reach c json_parse parse covers (w\<lparr>wa_poller := read_position readable ws (wa_poller w)\<rparr>)"
| answer: "poll_reach c json_parse parse covers w \<Longrightarrow>
    \<forall>p from lvl r. map_of (pl_inFlight (wa_poller w)) ws = Some p \<longrightarrow> pp_phase p = Fetching (Some from) lvl \<longrightarrow>
      parse_outbox_poll_body json_parse body = Some r \<longrightarrow> honest (covers ws (tg_serverName (pp_target p))) parse from r \<Longrightarrow>
    poll_reach c json_parse parse covers
      (w\<lparr>wa_poller := outbox_answered c json_parse parse envs now ws revived body (wa_poller w),
         wa_taken := wa_taken w \<union> written_events json_parse parse envs ws body (wa_poller w)\<rparr>)"
| advance: "poll_reach c json_parse parse covers w \<Longrightarrow>
    poll_reach c json_parse parse covers
      (w\<lparr>wa_poller := cursor_advanced c now ws written (wa_poller w),
         wa_base := (case first_position ws written (wa_poller w) of
                       None \<Rightarrow> wa_base w | Some (k, n) \<Rightarrow> (wa_base w)((ws, k) := covers ws k n))\<rparr>)"
| stops: "poll_reach c json_parse parse covers w \<Longrightarrow>
    poll_reach c json_parse parse covers (w\<lparr>wa_poller := stop_poller (wa_poller w)\<rparr>)"
| installed: "poll_reach c json_parse parse covers w \<Longrightarrow> n \<noteq> [] \<Longrightarrow>
    position_outbox ws k (Some n) (pl_blocks (wa_poller w)) = (stored, blocks) \<Longrightarrow>
    poll_reach c json_parse parse covers
      (w\<lparr>wa_poller := (wa_poller w)\<lparr>pl_blocks := blocks\<rparr>,
         wa_base := (if stored then (wa_base w)((ws, k) := covers ws k n) else wa_base w)\<rparr>)"
| other_blocks: "poll_reach c json_parse parse covers w \<Longrightarrow>
    \<forall>ws k. cursor_of blocks ws k = cursor_of (pl_blocks (wa_poller w)) ws k \<or> cursor_of blocks ws k = None \<Longrightarrow>
    poll_reach c json_parse parse covers (w\<lparr>wa_poller := (wa_poller w)\<lparr>pl_blocks := blocks\<rparr>\<rparr>)"
| other_inboxes: "poll_reach c json_parse parse covers w \<Longrightarrow>
    poll_reach c json_parse parse covers (w\<lparr>wa_poller := (wa_poller w)\<lparr>pl_inboxes := inboxes\<rparr>\<rparr>)"

section \<open>The cursor follows the inbox\<close>

lemma write_cursor_of:
  assumes "n \<noteq> []" "write_cursor ws k n (Some previous) st = (ok, st')"
  shows "(ok \<longrightarrow> cursor_of st ws k = previous \<and>
      (\<forall>ws' k'. cursor_of st' ws' k' = (if ws' = ws \<and> k' = k then Some n else cursor_of st ws' k'))) \<and> (\<not> ok \<longrightarrow> st' = st)"
proof (cases "map_of st ws")
  case None
  then have "\<not> ok \<and> st' = st"
    using assms(2) by (auto simp: write_cursor_def mutate_cursors_def update_notifications_config_def)
  then show ?thesis by simp
next
  case (Some raw)
  note cs = cursor_write_cases [OF Some assms]
  show ?thesis
  proof (cases ok)
    case True
    then obtain raw' where raw': "map_of st' ws = Some raw'" "\<forall>k'. read_cursor raw' k' = (if k' = k then Some n else read_cursor raw k')"
      "\<forall>ws'. ws' \<noteq> ws \<longrightarrow> map_of st' ws' = map_of st ws'" using cs by auto
    have "read_cursor raw k = previous" using cs True by simp
    have "cursor_of st' ws' k' = (if ws' = ws \<and> k' = k then Some n else cursor_of st ws' k')" for ws' k'
      using raw' Some by (cases "ws' = ws") (simp_all add: cursor_of_def)
    then show ?thesis using True Some \<open>read_cursor raw k = previous\<close> by (simp add: cursor_of_def)
  next
    case False
    then have "st' = st" using cs by blast
    then show ?thesis using False by simp
  qed
qed

definition adv_ok :: "(string \<Rightarrow> string \<Rightarrow> string \<Rightarrow> json set) \<Rightarrow> (string \<times> string \<times> json) set \<Rightarrow> string \<Rightarrow> poll_pass \<Rightarrow> bool" where
  "adv_ok covers taken ws p \<longleftrightarrow>
     (\<forall>previous n out. pp_phase p = Advancing previous (Some n) out \<longrightarrow> n \<noteq> [] \<and>
        (\<forall>from. previous = Some from \<longrightarrow>
           covers ws (tg_serverName (pp_target p)) n \<subseteq>
             covers ws (tg_serverName (pp_target p)) from \<union> taken_from taken ws (tg_serverName (pp_target p))))"

definition group_ok :: "(string \<times> poll_target list) list \<Rightarrow> bool" where
  "group_ok q \<longleftrightarrow> (\<forall>x \<in> set q. \<forall>t \<in> set (snd x). tg_wsId t = fst x)"

definition flight_inv :: "(string \<Rightarrow> string \<Rightarrow> string \<Rightarrow> json set) \<Rightarrow> (string \<times> string \<times> json) set \<Rightarrow> poller \<Rightarrow> bool" where
  "flight_inv covers taken po \<longleftrightarrow>
     (\<forall>ws p. map_of (pl_inFlight po) ws = Some p \<longrightarrow> pass_ok ws p \<and> adv_ok covers taken ws p) \<and>
     (\<forall>q \<in> set (queues po). group_ok q)"

definition cursor_inv ::
  "(string \<Rightarrow> string \<Rightarrow> string \<Rightarrow> json set) \<Rightarrow> (string \<times> string \<times> json) set \<Rightarrow> (string \<times> string \<Rightarrow> json set) \<Rightarrow> block_store \<Rightarrow> bool" where
  "cursor_inv covers taken base st \<longleftrightarrow>
     (\<forall>ws k n. cursor_of st ws k = Some n \<longrightarrow> covers ws k n \<subseteq> base (ws, k) \<union> taken_from taken ws k)"

lemma fresh_pass_adv: "fresh_pass ws x \<Longrightarrow> x = Some p \<Longrightarrow> pass_ok ws p \<and> adv_ok covers taken ws p"
  by (simp add: fresh_pass_def adv_ok_def)

lemma flight_inv_fresh:
  assumes "flight_inv covers taken po" "\<exists>x. map_of (pl_inFlight po') = (map_of (pl_inFlight po))(ws := x) \<and> fresh_pass ws x"
    and "queues po' = queues po"
  shows "flight_inv covers taken po'"
proof -
  obtain x where x: "map_of (pl_inFlight po') = (map_of (pl_inFlight po))(ws := x)" "fresh_pass ws x" using assms(2) by blast
  show ?thesis using assms(1) fresh_pass_adv [OF x(2)] unfolding flight_inv_def x(1) assms(3) by (auto split: if_splits)
qed

lemma flight_inv_same:
  assumes "flight_inv covers taken po" "pl_inFlight po' = pl_inFlight po" "queues po' = queues po"
  shows "flight_inv covers taken po'"
  using assms by (simp add: flight_inv_def)

lemma flight_inv_taken: "flight_inv covers taken po \<Longrightarrow> taken \<subseteq> taken' \<Longrightarrow> flight_inv covers taken' po"
  unfolding flight_inv_def adv_ok_def taken_from_def by blast

lemma flight_inv_pass: "flight_inv covers taken po \<Longrightarrow> map_of (pl_inFlight po) ws = Some p \<Longrightarrow> pass_ok ws p \<and> adv_ok covers taken ws p"
  by (simp add: flight_inv_def)

lemma flight_inv_set_phase:
  assumes "flight_inv covers taken po" "pass_ok ws p" "adv_ok covers taken ws (p\<lparr>pp_phase := ph\<rparr>)"
  shows "flight_inv covers taken (set_phase p ph po)"
proof -
  have "pass_ok ws (p\<lparr>pp_phase := ph\<rparr>)" "tg_wsId (pp_target p) = ws" using assms(2) by (simp_all add: pass_ok_def)
  moreover have "queues (set_phase p ph po) = queues po" by (simp add: set_phase_def)
  ultimately show ?thesis using assms(1,3) by (auto simp: flight_inv_def set_phase_def)
qed

lemma release_hint_fields [simp]:
  "pl_blocks (release_hint a po) = pl_blocks po" "pl_inFlight (release_hint a po) = pl_inFlight po"
  "pl_sweeps (release_hint a po) = pl_sweeps po"
  by (simp_all add: release_hint_def)

lemma fold_fields:
  assumes "\<And>x po. pl_blocks (f x po) = pl_blocks po \<and> pl_inFlight (f x po) = pl_inFlight po \<and> pl_sweeps (f x po) = pl_sweeps po"
  shows "pl_blocks (fold f xs po) = pl_blocks po \<and> pl_inFlight (fold f xs po) = pl_inFlight po \<and> pl_sweeps (fold f xs po) = pl_sweeps po"
proof (induction xs arbitrary: po)
  case (Cons x xs)
  show ?case using Cons.IH [of "f x po"] assms [of x po] by simp
qed simp

lemma stop_poller_fields [simp]:
  "pl_blocks (stop_poller po) = pl_blocks po" "pl_inFlight (stop_poller po) = pl_inFlight po" "queues (stop_poller po) = queues po"
proof -
  have "pl_blocks (stop_poller po) = pl_blocks po \<and> pl_inFlight (stop_poller po) = pl_inFlight po \<and> pl_sweeps (stop_poller po) = pl_sweeps po"
    using fold_fields [of release_hint "map snd (pl_states po)" "po\<lparr>pl_stopped := True\<rparr>"] by (simp add: stop_poller_def)
  then show "pl_blocks (stop_poller po) = pl_blocks po" "pl_inFlight (stop_poller po) = pl_inFlight po" "queues (stop_poller po) = queues po"
    by (simp_all add: queues_def)
qed

lemma prune_states_fields [simp]:
  "pl_blocks (prune_states ts po) = pl_blocks po" "pl_inFlight (prune_states ts po) = pl_inFlight po" "pl_sweeps (prune_states ts po) = pl_sweeps po"
proof -
  let ?f = "\<lambda>(k, a). if k \<in> state_key ` set ts then id else release_hint a"
  have "pl_blocks (fold ?f (pl_states po) po) = pl_blocks po \<and> pl_inFlight (fold ?f (pl_states po) po) = pl_inFlight po \<and>
      pl_sweeps (fold ?f (pl_states po) po) = pl_sweeps po"
    by (rule fold_fields) auto
  then show "pl_blocks (prune_states ts po) = pl_blocks po" "pl_inFlight (prune_states ts po) = pl_inFlight po"
    "pl_sweeps (prune_states ts po) = pl_sweeps po"
    by (simp_all add: prune_states_def Let_def)
qed

lemma group_ok_groups: "group_ok (group_by_workspace ts)"
proof -
  have fold: "group_ok (fold add_target ts g)" if "group_ok g" for g
    using that
  proof (induction ts arbitrary: g)
    case (Cons t ts)
    have "\<forall>t' \<in> set (nullish (map_of g (tg_wsId t)) []). tg_wsId t' = tg_wsId t"
      using Cons.prems by (cases "map_of g (tg_wsId t)") (auto simp: group_ok_def dest: map_of_SomeD)
    then have "group_ok (add_target t g)" using Cons.prems by (fastforce simp: add_target_def group_ok_def dest!: in_set_jset_sub)
    then show ?case using Cons.IH by simp
  qed simp
  have "group_ok (fold add_target ts [])" by (rule fold) (simp add: group_ok_def)
  then show ?thesis by (auto simp: group_by_workspace_def group_ok_def)
qed

lemma flight_targets: "flight_inv covers taken po \<Longrightarrow> flight_inv covers taken (sweep_targets answer po)"
proof (cases "pl_asking po")
  case True
  assume inv: "flight_inv covers taken po"
  show ?thesis
  proof (cases answer)
    case None
    then show ?thesis using inv True by (simp add: sweep_targets_def flight_inv_def queues_def)
  next
    case (Some ts)
    define po1 where "po1 = po\<lparr>pl_asking := False, pl_lastTargetCount := Some (length ts),
        pl_windows := prune_budget (fst ` set (group_by_workspace ts)) (pl_windows po)\<rparr>"
    have "pl_sweeps (prune_states ts po1) = pl_sweeps po" by (simp add: po1_def)
    then have "queues (sweep_targets answer po) = queues po @ [group_by_workspace ts]"
      using True Some by (simp add: sweep_targets_def Let_def po1_def [symmetric] queues_def)
    moreover have "pl_inFlight (sweep_targets answer po) = pl_inFlight po"
      using True Some by (simp add: sweep_targets_def Let_def)
    ultimately show ?thesis using inv group_ok_groups by (auto simp: flight_inv_def)
  qed
qed (simp add: sweep_targets_def)

lemma set_rotate: "set (rotate_targets ts r) = set ts"
proof -
  have "set (drop i ts @ take i ts) = set ts" for i by (metis Un_commute append_take_drop_id set_append)
  then show ?thesis by (auto simp: rotate_targets_def Let_def simp del: set_append split: option.split)
qed

lemma flight_worker:
  assumes inv: "flight_inv covers taken po"
  shows "flight_inv covers taken (worker_takes c now k po)"
proof (cases "length (pl_sweeps po) \<le> k \<or> sr_queue (pl_sweeps po ! k) = [] \<or> sr_free (pl_sweeps po ! k) = 0")
  case True
  then show ?thesis using inv by (auto simp: worker_takes_def Let_def split: list.split)
next
  case False
  then obtain ws g rest where q: "sr_queue (pl_sweeps po ! k) = (ws, g) # rest" by (cases "sr_queue (pl_sweeps po ! k)") auto
  define po0 where "po0 = po\<lparr>pl_sweeps := (pl_sweeps po)[k := (pl_sweeps po ! k)\<lparr>sr_queue := rest, sr_free := sr_free (pl_sweeps po ! k) - 1\<rparr>]\<rparr>"
  have "sr_queue (pl_sweeps po ! k) \<in> set (queues po)" using False by (simp add: queues_def)
  then have ok: "group_ok ((ws, g) # rest)" using inv q by (simp add: flight_inv_def)
  have "queues po0 = (queues po)[k := rest]" by (simp add: po0_def queues_def map_update)
  then have "\<forall>q \<in> set (queues po0). group_ok q"
    using inv ok set_update_subset_insert [of "queues po" k rest] by (auto simp: flight_inv_def group_ok_def)
  then have inv0: "flight_inv covers taken po0" using inv by (simp add: flight_inv_def po0_def)
  have "worker_takes c now k po = sweep_workspace c ws k now g po0" using False q by (simp add: worker_takes_def Let_def po0_def)
  moreover have "flight_inv covers taken (sweep_workspace c ws k now g po0)"
  proof (cases "map_of (pl_inFlight po0) ws")
    case None
    have "\<forall>t \<in> set (rotate_targets (filter (\<lambda>t. source_is_due t now po0) g) (map_of (pl_resumeAt po0) ws)). tg_wsId t = ws"
      using ok by (simp add: set_rotate group_ok_def)
    then show ?thesis using None next_source_flight
      by (auto simp: sweep_workspace_def intro!: flight_inv_fresh [OF inv0])
  next
    case (Some p)
    then show ?thesis using inv0 by (auto simp: sweep_workspace_def intro!: flight_inv_same [OF inv0])
  qed
  ultimately show ?thesis by simp
qed

lemma maybe_log_fields [simp]:
  "pl_blocks (maybe_log_summary now po) = pl_blocks po" "pl_inFlight (maybe_log_summary now po) = pl_inFlight po"
  "pl_sweeps (maybe_log_summary now po) = pl_sweeps po"
  by (simp_all add: maybe_log_summary_def)

lemma flight_ends: "flight_inv covers taken po \<Longrightarrow> flight_inv covers taken (sweep_ends now k po)"
  by (rule flight_inv_same, assumption) (simp_all add: sweep_ends_def queues_def map_update_same)

lemma flight_begins: "flight_inv covers taken po \<Longrightarrow> flight_inv covers taken (sweep_begins po)"
  by (rule flight_inv_same, assumption) (simp_all add: sweep_begins_def queues_def)

lemma flight_hint:
  assumes "flight_inv covers taken po"
  shows "flight_inv covers taken (poll_on_hint c now t po)"
proof (cases "pl_stopped po \<or> map_of (pl_inFlight po) (tg_wsId t) \<noteq> None")
  case True
  then show ?thesis using assms by (auto simp: poll_on_hint_def)
next
  case False
  define po1 where "po1 = snd (take_allowance c (tg_wsId t) now po)"
  have eq: "poll_on_hint c now t po =
      (if \<not> fst (take_allowance c (tg_wsId t) now po) then defer_polls 1 po1 else start_reading None t [] po1)"
    using False by (simp add: poll_on_hint_def case_prod_beta Let_def po1_def)
  have po1: "flight_inv covers taken po1" using assms by (rule flight_inv_same) (simp_all add: po1_def)
  show ?thesis
  proof (cases "fst (take_allowance c (tg_wsId t) now po)")
    case True
    have "flight_inv covers taken (start_reading None t [] po1)"
      by (rule flight_inv_fresh [OF po1 start_reading_flight [of t "tg_wsId t" "[]"]]) simp_all
    then show ?thesis using True unfolding eq by simp
  next
    case False
    then show ?thesis unfolding eq by (auto intro: flight_inv_same [OF po1])
  qed
qed

lemma flight_position:
  assumes "flight_inv covers taken po"
  shows "flight_inv covers taken (read_position readable ws po)"
proof (cases "map_of (pl_inFlight po) ws")
  case (Some p)
  then have p: "pass_ok ws p" using flight_inv_pass [OF assms] by blast
  consider "pp_phase p \<noteq> Positioning" | "pp_phase p = Positioning" "\<not> readable" | "pp_phase p = Positioning" "readable" by blast
  then show ?thesis
  proof cases
    case 1
    then show ?thesis using assms Some by (simp add: read_position_def)
  next
    case 2
    then have "read_position readable ws po = pass_throws p po" using Some by (simp add: read_position_def)
    moreover have "pl_inFlight (pass_throws p po) = jdelete ws (pl_inFlight po)" "queues (pass_throws p po) = queues po"
      using p by (simp_all add: pass_throws_def pass_ok_def Let_def queues_def map_update_same split: option.split)
    ultimately show ?thesis using assms by (auto simp: flight_inv_def)
  next
    case 3
    then have "read_position readable ws po =
        set_phase p (Fetching (fst (position_for (pp_target p) po)) (snd (position_for (pp_target p) po))) po"
      using Some by (simp add: read_position_def case_prod_beta)
    then show ?thesis using p by (simp add: flight_inv_set_phase [OF assms p] adv_ok_def)
  qed
qed (use assms in \<open>simp add: read_position_def\<close>)

lemma flight_after:
  assumes "flight_inv covers taken po" "pass_ok ws p"
  shows "flight_inv covers taken (after_source c now p po)"
  by (rule flight_inv_fresh [OF assms(1) after_source_flight [OF assms(2)]]) simp

lemma write_events_cursor:
  assumes "wr_lastCursor (write_events parse envs t lvl events w) = Some n"
  shows "wr_lastCursor w = Some n \<or> (\<exists>raw \<in> set events. \<exists>e. parse raw = Some e \<and> env_cursor e = Some n)"
  using assms
proof (induction events arbitrary: envs w)
  case (Cons raw rest)
  show ?case
  proof (cases "parse raw")
    case None
    then show ?thesis using Cons.IH [of envs w] Cons.prems by auto
  next
    case (Some e)
    show ?thesis
    proof (cases envs)
      case Nil
      then show ?thesis using Some Cons.prems by simp
    next
      case env: (Cons env envs')
      show ?thesis
      proof (cases "store_one env t lvl e (wr_inbox w)")
        case (Inl x)
        then show ?thesis using Some env Cons.prems by simp
      next
        case (Inr r)
        then show ?thesis using Some env Cons.prems Cons.IH [of envs' "w\<lparr>wr_pulled := wr_pulled w + 1,
            wr_lastCursor := (if env_cursor e \<noteq> None then env_cursor e else wr_lastCursor w),
            wr_inbox := ap_inbox r, wr_created := wr_created w @ (if ap_created r then [ap_item r] else [])\<rparr>"]
          by (auto split: if_splits)
      qed
    qed
  qed
qed simp

lemma poll_cursor_ne: "parse_outbox_poll_body jp body = Some r \<Longrightarrow> poll_cursor r = Some n \<Longrightarrow> n \<noteq> []"
  by (auto simp: parse_outbox_poll_body_def parse_outbox_poll_result_def read_poll_cursor_def
      split: bind_splits option.splits json.splits if_splits)

lemma flight_answered:
  assumes inv: "flight_inv covers taken po"
    and honest: "\<And>p from lvl r. map_of (pl_inFlight po) ws = Some p \<Longrightarrow> pp_phase p = Fetching (Some from) lvl \<Longrightarrow>
      parse_outbox_poll_body json_parse body = Some r \<Longrightarrow> honest (covers ws (tg_serverName (pp_target p))) parse from r"
    and ne: "\<And>raw e n. parse raw = Some e \<Longrightarrow> env_cursor e = Some n \<Longrightarrow> n \<noteq> []"
  shows "flight_inv covers (taken \<union> written_events json_parse parse envs ws body po)
    (outbox_answered c json_parse parse envs now ws revived body po)"
proof (cases "map_of (pl_inFlight po) ws")
  case None
  then show ?thesis using inv by (simp add: outbox_answered_def written_events_def)
next
  case (Some p)
  have p: "pass_ok ws p" using flight_inv_pass [OF inv Some] by blast
  show ?thesis
  proof (cases "pp_phase p")
    case (Fetching cursor lvl)
    define po1 where "po1 = po\<lparr>pl_polls := pl_polls po + 1, pl_reconnects := pl_reconnects po + (if revived then 1 else 0)\<rparr>"
    have fails: "flight_inv covers taken (read_failed c now p po')" if "pl_inFlight po' = pl_inFlight po" "queues po' = queues po" for po'
      unfolding read_failed_def using p by (intro flight_after [of _ _ _ ws] flight_inv_same [OF inv]) (simp_all add: that)
    show ?thesis
    proof (cases "parse_outbox_poll_body json_parse body")
      case None
      then have "outbox_answered c json_parse parse envs now ws revived body po = read_failed c now p po1"
        "written_events json_parse parse envs ws body po = {}"
        using Some Fetching by (simp_all add: outbox_answered_def written_events_def Let_def po1_def)
      then show ?thesis using fails [of po1] by (simp add: po1_def queues_def)
    next
      case r: (Some r)
      define w where "w = write_events parse envs (pp_target p) lvl (poll_events r) (start_writing (pl_inboxes po1 ws))"
      have same1: "pl_inboxes po1 = pl_inboxes po" by (simp add: po1_def)
      define po2 where "po2 = po1\<lparr>pl_inboxes := (pl_inboxes po1)(ws := wr_inbox w), pl_pulled := pl_pulled po1 + wr_pulled w,
          pl_routed := pl_routed po1 @ map (Pair ws) (wr_created w)\<rparr>"
      define nx where "nx = (case poll_cursor r of None \<Rightarrow> wr_lastCursor w | Some n \<Rightarrow> Some n)"
      have eq: "outbox_answered c json_parse parse envs now ws revived body po =
          (if \<not> wr_ok w then read_failed c now p po2
           else set_phase p (Advancing cursor nx \<lparr>ro_events = length (poll_events r), ro_hasMore = poll_hasMore r, ro_nextPollMs = poll_nextPollMs r\<rparr>) po2)"
        by (simp only: outbox_answered_def Some Fetching r option.case read_phase.case Let_def po1_def w_def po2_def nx_def)
      have same: "pl_inFlight po2 = pl_inFlight po" "queues po2 = queues po" by (simp_all add: po2_def po1_def queues_def)
      show ?thesis
      proof (cases "wr_ok w")
        case False
        then have "flight_inv covers taken (outbox_answered c json_parse parse envs now ws revived body po)" using eq fails [OF same] by simp
        then show ?thesis by (rule flight_inv_taken) simp
      next
        case True
        have taken: "taken_from (taken \<union> written_events json_parse parse envs ws body po) ws (tg_serverName (pp_target p)) \<supseteq> set (poll_events r)"
          using True Some Fetching r by (auto simp: written_events_def w_def same1 taken_from_def)
        have cur: "n \<noteq> [] \<and> (\<forall>from. cursor = Some from \<longrightarrow> covers ws (tg_serverName (pp_target p)) n \<subseteq>
            covers ws (tg_serverName (pp_target p)) from \<union> set (poll_events r))" if n: "nx = Some n" for n
        proof (cases "poll_cursor r")
          case None
          then have "wr_lastCursor w = Some n" using n by (simp add: nx_def)
          then obtain raw e where e: "raw \<in> set (poll_events r)" "parse raw = Some e" "env_cursor e = Some n"
            using write_events_cursor [of parse envs "pp_target p" lvl "poll_events r" "start_writing (pl_inboxes po ws)"]
            by (auto simp: w_def same1 start_writing_def)
          show ?thesis using ne [OF e(2,3)] honest [OF Some _ r] Fetching e unfolding honest_def by blast
        next
          case (Some m)
          then have "m = n" using n by (simp add: nx_def)
          then show ?thesis using poll_cursor_ne [OF r Some] honest [OF \<open>map_of (pl_inFlight po) ws = Some p\<close> _ r] Fetching Some
            unfolding honest_def by blast
        qed
        have "flight_inv covers (taken \<union> written_events json_parse parse envs ws body po) po2"
          by (rule flight_inv_taken [OF flight_inv_same [OF inv same]]) simp
        then show ?thesis using True cur taken p unfolding eq
          by (auto intro!: flight_inv_set_phase [of _ _ _ ws] simp: adv_ok_def) blast
      qed
    qed
  qed (use Some inv in \<open>simp_all add: outbox_answered_def written_events_def\<close>)
qed

lemma advance_stored_fields [simp]:
  "pl_inFlight (advance_stored t previous nx written po) = pl_inFlight po" "queues (advance_stored t previous nx written po) = queues po"
  by (simp_all add: advance_stored_def queues_def split: option.split)

lemma cursor_advanced_eq:
  assumes "map_of (pl_inFlight po) ws = Some p" "pp_phase p = Advancing previous nx out"
  shows "\<exists>po'. pl_blocks po' = pl_blocks (advance_stored (pp_target p) previous nx written po) \<and> pl_inFlight po' = pl_inFlight po \<and>
    queues po' = queues po \<and>
    (cursor_advanced c now ws written po = after_source c now p po' \<or>
     cursor_advanced c now ws written po = set_phase (p\<lparr>pp_read := pp_read p + 1\<rparr>) Positioning po')"
proof -
  define po1 where "po1 = advance_stored (pp_target p) previous nx written po"
  define po2 where "po2 = set_state (pp_state p) (record_success c now out (pp_sweep p = None) (pl_heap po1 ! pp_state p)) po1"
  define po3 where "po3 = snd (take_allowance c ws now po2)"
  have eq: "cursor_advanced c now ws written po =
      (if \<not> ro_hasMore out then after_source c now p po2
       else if \<not> fst (take_allowance c ws now po2) then after_source c now p (defer_polls 1 po3)
       else if max_chained_reads \<le> pp_read p + 1 \<or> pl_stopped po3 then after_source c now p po3
       else set_phase (p\<lparr>pp_read := pp_read p + 1\<rparr>) Positioning po3)"
    by (simp only: cursor_advanced_def assms option.case read_phase.case Let_def case_prod_beta po1_def po2_def po3_def)
  have f: "pl_blocks po2 = pl_blocks po1" "pl_inFlight po2 = pl_inFlight po" "queues po2 = queues po"
    "pl_blocks po3 = pl_blocks po1" "pl_inFlight po3 = pl_inFlight po" "queues po3 = queues po"
    by (simp_all add: po2_def po3_def) (simp_all add: po1_def)
  show ?thesis
  proof (cases "ro_hasMore out \<and> fst (take_allowance c ws now po2)")
    case True
    then show ?thesis using f eq by (intro exI [of _ po3]) (auto simp: po1_def)
  next
    case False
    then consider "\<not> ro_hasMore out" | "ro_hasMore out" "\<not> fst (take_allowance c ws now po2)" by blast
    then show ?thesis
    proof cases
      case 1
      then show ?thesis using f eq by (intro exI [of _ po2]) (simp add: po1_def)
    next
      case 2
      then show ?thesis using f eq by (intro exI [of _ "defer_polls 1 po3"]) (simp add: po1_def)
    qed
  qed
qed

lemma flight_advanced:
  assumes inv: "flight_inv covers taken po"
  shows "flight_inv covers taken (cursor_advanced c now ws written po)"
proof (cases "map_of (pl_inFlight po) ws")
  case (Some p)
  have p: "pass_ok ws p" using flight_inv_pass [OF inv Some] by blast
  show ?thesis
  proof (cases "pp_phase p")
    case (Advancing previous nx out)
    obtain po' where po': "pl_inFlight po' = pl_inFlight po" "queues po' = queues po"
      "cursor_advanced c now ws written po = after_source c now p po' \<or>
       cursor_advanced c now ws written po = set_phase (p\<lparr>pp_read := pp_read p + 1\<rparr>) Positioning po'"
      using cursor_advanced_eq [OF Some Advancing, of written c now] by blast
    have inv': "flight_inv covers taken po'" by (rule flight_inv_same [OF inv po'(1,2)])
    from po'(3) show ?thesis
    proof
      assume "cursor_advanced c now ws written po = after_source c now p po'"
      then show ?thesis using flight_after [OF inv' p] by simp
    next
      assume e: "cursor_advanced c now ws written po = set_phase (p\<lparr>pp_read := pp_read p + 1\<rparr>) Positioning po'"
      show ?thesis unfolding e using p by (intro flight_inv_set_phase [OF inv', of ws]) (simp_all add: pass_ok_def adv_ok_def)
    qed
  qed (use inv Some in \<open>simp_all add: cursor_advanced_def\<close>)
qed (use inv in \<open>simp add: cursor_advanced_def\<close>)

lemma cursor_inv_advanced:
  assumes flight: "flight_inv covers taken po" and inv: "cursor_inv covers taken base (pl_blocks po)"
  shows "cursor_inv covers taken (case first_position ws written po of None \<Rightarrow> base | Some (k, n) \<Rightarrow> base((ws, k) := covers ws k n))
    (pl_blocks (cursor_advanced c now ws written po))"
proof (cases "map_of (pl_inFlight po) ws")
  case None
  then show ?thesis using inv by (simp add: cursor_advanced_def first_position_def)
next
  case (Some p)
  have p: "pass_ok ws p" "adv_ok covers taken ws p" using flight_inv_pass [OF flight Some] by simp_all
  show ?thesis
  proof (cases "pp_phase p")
    case (Advancing previous nx out)
    have blocks: "pl_blocks (cursor_advanced c now ws written po) = pl_blocks (advance_stored (pp_target p) previous nx written po)"
    proof -
      obtain po' where "pl_blocks po' = pl_blocks (advance_stored (pp_target p) previous nx written po)"
        "cursor_advanced c now ws written po = after_source c now p po' \<or>
         cursor_advanced c now ws written po = set_phase (p\<lparr>pp_read := pp_read p + 1\<rparr>) Positioning po'"
        using cursor_advanced_eq [OF Some Advancing, of written c now] by blast
      then show ?thesis by (auto simp: set_phase_def)
    qed
    let ?k = "tg_serverName (pp_target p)"
    have ws: "tg_wsId (pp_target p) = ws" using p(1) by (simp add: pass_ok_def)
    show ?thesis
    proof (cases "nx = None \<or> nx = previous \<or> \<not> written")
      case True
      have "pl_blocks (advance_stored (pp_target p) previous nx written po) = pl_blocks po"
        using True by (auto simp: advance_stored_def split: option.split)
      moreover have "first_position ws written po = None"
        using True Some Advancing by (auto simp: first_position_def split: option.split)
      ultimately show ?thesis using inv blocks by simp
    next
      case False
      then obtain n where n: "nx = Some n" "nx \<noteq> previous" "written" by auto
      obtain ok st' where w: "write_cursor ws ?k n (Some previous) (pl_blocks po) = (ok, st')"
        by (cases "write_cursor ws ?k n (Some previous) (pl_blocks po)")
      have adv: "n \<noteq> []" "\<And>from. previous = Some from \<Longrightarrow> covers ws ?k n \<subseteq> covers ws ?k from \<union> taken_from taken ws ?k"
        using p(2) Advancing n(1) by (auto simp: adv_ok_def)
      have st': "pl_blocks (advance_stored (pp_target p) previous nx written po) = st'"
        using n w ws by (auto simp: advance_stored_def)
      note wc = write_cursor_of [OF adv(1) w]
      show ?thesis
      proof (cases ok)
        case False
        then have "first_position ws written po = None"
          using Some Advancing n w by (cases previous) (auto simp: first_position_def)
        then show ?thesis using False wc inv blocks st' by simp
      next
        case True
        then have cur: "cursor_of st' ws' k' = (if ws' = ws \<and> k' = ?k then Some n else cursor_of (pl_blocks po) ws' k')" for ws' k'
          using wc by blast
        have was: "cursor_of (pl_blocks po) ws ?k = previous" using wc True by simp
        show ?thesis
        proof (cases previous)
          case None
          then have "first_position ws written po = Some (?k, n)"
            using Some Advancing n w True by (simp add: first_position_def)
          then show ?thesis using inv cur unfolding cursor_inv_def blocks st' by (auto split: if_splits)
        next
          case (Some pos)
          then have "first_position ws written po = None"
            using \<open>map_of (pl_inFlight po) ws = Some p\<close> Advancing n by (simp add: first_position_def)
          moreover have "covers ws ?k n \<subseteq> base (ws, ?k) \<union> taken_from taken ws ?k"
            using adv(2) [OF Some] inv was Some unfolding cursor_inv_def by blast
          ultimately show ?thesis using inv cur unfolding cursor_inv_def blocks st' by (auto split: if_splits)
        qed
      qed
    qed
  qed (use inv Some in \<open>simp_all add: cursor_advanced_def first_position_def\<close>)
qed

lemma next_blocks [simp]:
  "pl_blocks (sweep_begins po) = pl_blocks po" "pl_blocks (sweep_targets answer po) = pl_blocks po"
  "pl_blocks (worker_takes c now i po) = pl_blocks po" "pl_blocks (sweep_ends now i po) = pl_blocks po"
  "pl_blocks (poll_on_hint c now t po) = pl_blocks po" "pl_blocks (read_position readable ws po) = pl_blocks po"
  "pl_blocks (outbox_answered c json_parse parse envs now ws revived body po) = pl_blocks po"
  by (simp_all add: sweep_begins_def sweep_targets_def worker_takes_def sweep_workspace_def sweep_ends_def poll_on_hint_def
      read_position_def pass_throws_def set_phase_def outbox_answered_def read_failed_def case_prod_beta Let_def
      split: option.split list.split read_phase.split)

lemma flight_inv_updates [simp]:
  "flight_inv covers taken (po\<lparr>pl_blocks := b\<rparr>) = flight_inv covers taken po"
  "flight_inv covers taken (po\<lparr>pl_inboxes := ib\<rparr>) = flight_inv covers taken po"
  "flight_inv covers taken (stop_poller po) = flight_inv covers taken po"
  by (simp_all add: flight_inv_def) (simp_all add: queues_def)

definition cursors_read :: "(json \<Rightarrow> notification_envelope option) \<Rightarrow> bool" where
  "cursors_read parse \<longleftrightarrow> (\<forall>raw e n. parse raw = Some e \<longrightarrow> env_cursor e = Some n \<longrightarrow> n \<noteq> [])"

lemma cursor_inv_blocks:
  assumes "cursor_inv covers taken base st" "\<forall>ws k. cursor_of st' ws k = cursor_of st ws k \<or> cursor_of st' ws k = None"
  shows "cursor_inv covers taken base st'"
  unfolding cursor_inv_def
proof (intro allI impI)
  fix ws k n assume n: "cursor_of st' ws k = Some n"
  have "cursor_of st' ws k = cursor_of st ws k \<or> cursor_of st' ws k = None" by (rule assms(2) [rule_format])
  then have "cursor_of st ws k = Some n" using n by simp
  then show "covers ws k n \<subseteq> base (ws, k) \<union> taken_from taken ws k" using assms(1) by (simp add: cursor_inv_def)
qed

lemma reach_inv:
  assumes ne: "cursors_read parse" and reach: "poll_reach c json_parse parse covers w"
  shows "flight_inv covers (wa_taken w) (wa_poller w) \<and> cursor_inv covers (wa_taken w) (wa_base w) (pl_blocks (wa_poller w))"
  using reach
proof induction
  case (start blocks base now inboxes)
  have "cursor_inv covers {} base blocks" using start unfolding cursor_inv_def by blast
  then show ?case by (simp add: flight_inv_def new_poller_def queues_def)
next
  case (answer w ws body envs now revived)
  let ?po = "wa_poller w"
  have "flight_inv covers (wa_taken w \<union> written_events json_parse parse envs ws body ?po)
      (outbox_answered c json_parse parse envs now ws revived body ?po)"
  proof (rule flight_answered)
    show "flight_inv covers (wa_taken w) ?po" using answer.IH by simp
    show "honest (covers ws (tg_serverName (pp_target p))) parse pos r"
      if "map_of (pl_inFlight ?po) ws = Some p" "pp_phase p = Fetching (Some pos) lvl" "parse_outbox_poll_body json_parse body = Some r"
      for p pos lvl r using answer.hyps(2) that by blast
    show "n \<noteq> []" if "parse raw = Some e" "env_cursor e = Some n" for raw e n using ne that unfolding cursors_read_def by blast
  qed
  moreover have "cursor_inv covers (wa_taken w \<union> written_events json_parse parse envs ws body ?po) (wa_base w) (pl_blocks ?po)"
    using answer.IH unfolding cursor_inv_def taken_from_def by blast
  ultimately show ?case by simp
next
  case (advance w now ws written)
  then show ?case using flight_advanced cursor_inv_advanced by simp
next
  case (installed w n ws k stored blocks)
  have wr: "write_cursor ws k n (Some None) (pl_blocks (wa_poller w)) = (stored, blocks)" using installed.hyps(3) by (simp add: position_outbox_def)
  have "cursor_inv covers (wa_taken w) (if stored then (wa_base w)((ws, k) := covers ws k n) else wa_base w) blocks"
    using installed.IH write_cursor_of [OF installed.hyps(2) wr] unfolding cursor_inv_def by auto
  then show ?case using installed.IH by simp
next
  case (other_blocks w blocks)
  then show ?case using cursor_inv_blocks by auto
qed (simp_all add: flight_begins flight_targets flight_worker flight_ends flight_hint flight_position)

text \<open>The envelope parser reads a cursor only when it has characters.\<close>

definition read_envelope :: "(string \<Rightarrow> ms option) \<Rightarrow> (rat \<Rightarrow> string) \<Rightarrow> json \<Rightarrow> notification_envelope option" where
  "read_envelope date fr raw = parse_notification_envelope date fr (Some raw)"

lemma read_envelope_cursor: "cursors_read (read_envelope date fr)"
  by (auto simp: cursors_read_def read_envelope_def parse_notification_envelope_def read_env_cursor_def is_clean_string_def Let_def
      split: bind_splits option.splits json.splits if_splits)


section \<open>What a read that wrote its whole answer left in the inbox\<close>

definition envs_ok :: "int \<Rightarrow> (int \<times> notification list) list \<Rightarrow> inbox_env list \<Rightarrow> bool" where
  "envs_ok retention ds envs \<longleftrightarrow> sorted (map ie_now envs) \<and>
     (\<forall>env \<in> set envs. newest env ds \<and> ie_back env (ie_now env) retention \<le> ie_now env)"

lemma append_same:
  assumes "append_item env st source e effective = Inr r"
  shows "ib_retentionDays (ap_inbox r) = ib_retentionDays st \<and> ib_workspaceId (ap_inbox r) = ib_workspaceId st"
  using assms by (auto simp: append_item_def prune_def Let_def split: option.splits if_splits)

lemma append_keys:
  assumes "append_item env st source e effective = Inr r" "k \<in> fst ` set (ib_days (ap_inbox r))"
  shows "k \<in> fst ` set (ib_days st) \<or> k = ie_now env div ms_per_day"
proof (cases "find_item (ib_days st) source (env_eventId e)")
  case None
  then show ?thesis
    using append_new [OF assms(1) None] assms(2) keys_jset by (auto simp: prune_days_def dest!: in_set_jset_sub)
next
  case (Some old)
  then show ?thesis using append_old [OF Some] assms by auto
qed

lemma envs_ok_append:
  assumes "envs_ok retention (ib_days st) (env # envs)" "append_item env st source e effective = Inr r"
  shows "envs_ok retention (ib_days (ap_inbox r)) envs"
proof -
  have "k \<le> ie_now env' div ms_per_day" if "k \<in> fst ` set (ib_days (ap_inbox r))" "env' \<in> set envs" for k env'
  proof -
    have "ie_now env \<le> ie_now env'" using assms(1) that(2) by (simp add: envs_ok_def)
    then have "ie_now env div ms_per_day \<le> ie_now env' div ms_per_day" by (simp add: ms_per_day_def zdiv_mono1)
    then show ?thesis using append_keys [OF assms(2) that(1)] assms(1) that(2) by (auto simp: envs_ok_def newest_def)
  qed
  then show ?thesis using assms(1) by (auto simp: envs_ok_def newest_def)
qed

lemma write_events_not_ok: "\<not> wr_ok w \<Longrightarrow> \<not> wr_ok (write_events parse envs t lvl events w)"
proof (induction events arbitrary: envs w)
  case (Cons raw rest)
  then show ?case by (auto split: option.split list.split sum.split)
qed simp

lemma written_is_there:
  assumes "wr_ok (write_events parse envs t lvl (pre @ raw # post) w)" "parse raw = Some e"
    and "inbox_ok (ib_days (wr_inbox w))" "envs_ok (ib_retentionDays (wr_inbox w)) (ib_days (wr_inbox w)) envs"
  shows "find_item (ib_days (wr_inbox (write_events parse envs t lvl (pre @ [raw]) w))) (tg_serverName t) (env_eventId e) \<noteq> None"
  using assms(1,3,4)
proof (induction pre arbitrary: envs w)
  case Nil
  obtain env envs' where env: "envs = env # envs'" using Nil assms(2) by (cases envs) auto
  obtain r where r: "store_one env t lvl e (wr_inbox w) = Inr r" using Nil assms(2) env by (cases "store_one env t lvl e (wr_inbox w)") auto
  then have "find_item (ib_days (ap_inbox r)) (tg_serverName t) (env_eventId e) = Some (ap_item r)"
    using Nil env unfolding store_one_def by (intro append_there) (auto simp: envs_ok_def)
  then show ?case using assms(2) env r by simp
next
  case (Cons x pre)
  show ?case
  proof (cases "parse x")
    case None
    then show ?thesis using Cons by simp
  next
    case (Some d)
    obtain env envs' where env: "envs = env # envs'" using Cons.prems Some by (cases envs) auto
    obtain r where r: "store_one env t lvl d (wr_inbox w) = Inr r"
      using Cons.prems Some env by (cases "store_one env t lvl d (wr_inbox w)") auto
    define w' where "w' = w\<lparr>wr_pulled := wr_pulled w + 1,
        wr_lastCursor := (if env_cursor d \<noteq> None then env_cursor d else wr_lastCursor w),
        wr_inbox := ap_inbox r, wr_created := wr_created w @ (if ap_created r then [ap_item r] else [])\<rparr>"
    have step: "write_events parse envs t lvl ((x # pre) @ ys) w = write_events parse envs' t lvl (pre @ ys) w'" for ys
      using Some env r by (simp add: w'_def)
    note a = r [unfolded store_one_def]
    have "newest env (ib_days (wr_inbox w))" using Cons.prems env by (simp add: envs_ok_def)
    then have "inbox_ok (ib_days (wr_inbox w'))" using append_keeps_ok [OF _ _ a] Cons.prems by (simp add: w'_def)
    moreover have "envs_ok (ib_retentionDays (wr_inbox w')) (ib_days (wr_inbox w')) envs'"
      using envs_ok_append [OF _ a] append_same [OF a] Cons.prems env by (simp add: w'_def)
    ultimately show ?thesis using Cons.IH [of envs' w'] Cons.prems(1) step [of "raw # post"] step [of "[raw]"] by simp
  qed
qed

text \<open>An answer whose events are all stored leads on to the write of the cursor.\<close>

lemma answered_and_stored:
  assumes "map_of (pl_inFlight po) ws = Some p" "pp_phase p = Fetching cursor lvl" "pass_ok ws p"
    and "parse_outbox_poll_body json_parse body = Some r"
    and "wr_ok (write_events parse envs (pp_target p) lvl (poll_events r) (start_writing (pl_inboxes po ws)))"
  shows "\<exists>n out. map_of (pl_inFlight (outbox_answered c json_parse parse envs now ws revived body po)) ws =
    Some (p\<lparr>pp_phase := Advancing cursor n out\<rparr>)"
  using assms(3,5) unfolding outbox_answered_def assms(1,2,4) option.case read_phase.case Let_def
  by (simp add: set_phase_def pass_ok_def) blast

text \<open>
  C31. A cursor moves only past what is stored: when the answer of an outbox leads on to the write of its cursor, each
  well-formed event of it was in the inbox once its turn had been taken, on a clock that does not go back.
\<close>

theorem cursor_waits_for_inbox:
  assumes "map_of (pl_inFlight po) ws = Some p" and "pp_phase p = Fetching cursor lvl" and "pass_ok ws p"
    and "parse_outbox_poll_body json_parse body = Some r"
    and "map_of (pl_inFlight (outbox_answered c json_parse parse envs now ws revived body po)) ws = Some p'"
    and "pp_phase p' = Advancing cursor next_cursor out"
    and "inbox_ok (ib_days (pl_inboxes po ws))" and "envs_ok (ib_retentionDays (pl_inboxes po ws)) (ib_days (pl_inboxes po ws)) envs"
    and "poll_events r = pre @ raw # post" and "parse raw = Some e"
  shows "find_item (ib_days (wr_inbox (write_events parse envs (pp_target p) lvl (pre @ [raw]) (start_writing (pl_inboxes po ws)))))
      (tg_serverName (pp_target p)) (env_eventId e) \<noteq> None \<and>
    pl_inboxes (outbox_answered c json_parse parse envs now ws revived body po) ws =
      wr_inbox (write_events parse envs (pp_target p) lvl (poll_events r) (start_writing (pl_inboxes po ws)))"
proof -
  define po1 where "po1 = po\<lparr>pl_polls := pl_polls po + 1, pl_reconnects := pl_reconnects po + (if revived then 1 else 0)\<rparr>"
  define w where "w = write_events parse envs (pp_target p) lvl (poll_events r) (start_writing (pl_inboxes po1 ws))"
  define po2 where "po2 = po1\<lparr>pl_inboxes := (pl_inboxes po1)(ws := wr_inbox w), pl_pulled := pl_pulled po1 + wr_pulled w,
      pl_routed := pl_routed po1 @ map (Pair ws) (wr_created w)\<rparr>"
  have same: "pl_inboxes po1 = pl_inboxes po" "pl_inboxes po2 ws = wr_inbox w" by (simp_all add: po1_def po2_def)
  have eq: "outbox_answered c json_parse parse envs now ws revived body po =
      (if \<not> wr_ok w then read_failed c now p po2
       else set_phase p (Advancing cursor (case poll_cursor r of None \<Rightarrow> wr_lastCursor w | Some n \<Rightarrow> Some n)
         \<lparr>ro_events = length (poll_events r), ro_hasMore = poll_hasMore r, ro_nextPollMs = poll_nextPollMs r\<rparr>) po2)"
    by (simp only: outbox_answered_def assms(1,2,4) option.case read_phase.case Let_def po1_def w_def po2_def)
  have ok: "wr_ok w"
  proof (rule ccontr)
    assume "\<not> wr_ok w"
    then have "outbox_answered c json_parse parse envs now ws revived body po = read_failed c now p po2" using eq by simp
    moreover obtain x where "map_of (pl_inFlight (read_failed c now p po2)) = (map_of (pl_inFlight po2))(ws := x)" "fresh_pass ws x"
      using after_source_flight [OF assms(3), of c now "set_state (pp_state p) (record_failure c now (pl_heap po2 ! pp_state p)) po2"]
      unfolding read_failed_def by auto
    ultimately show False using assms(5,6) by (auto simp: fresh_pass_def)
  qed
  have "find_item (ib_days (wr_inbox (write_events parse envs (pp_target p) lvl (pre @ [raw]) (start_writing (pl_inboxes po ws)))))
      (tg_serverName (pp_target p)) (env_eventId e) \<noteq> None"
    using ok assms(7,8,9,10) by (intro written_is_there [where post = post]) (simp_all add: w_def same start_writing_def)
  then show ?thesis using ok eq same by (simp add: w_def set_phase_def)
qed

section \<open>Cadence\<close>

lemma positive_or_bounds: "least \<le> fallback \<Longrightarrow> least \<le> positive_or v fallback least"
  by (auto simp: positive_or_def split: option.split)

lemma default_budget: "default_budget_per_minute = 10"
  by (simp add: default_budget_per_minute_def edge_requests_per_minute_def poll_share_of_edge_budget_def requests_per_poll_def)

lemma resolved_bounds:
  assumes "c = resolve_poll_config o'"
  shows "poll_floor_ms \<le> pc_intervalMs c" "pc_intervalMs c \<le> pc_maxIntervalMs c" "1 \<le> pc_maxEvents c" "pc_maxEvents c \<le> 1000"
    "1 \<le> pc_budgetPerMinute c"
  using positive_or_bounds [of poll_floor_ms default_interval_ms] positive_or_bounds [of 1 default_max_events]
    positive_or_bounds [of 1 default_budget_per_minute]
  by (simp_all add: assms resolve_poll_config_def Let_def poll_floor_ms_def default_interval_ms_def default_max_events_def default_budget)

lemma backoff_bounds:
  assumes "c = resolve_poll_config o'"
  shows "pc_intervalMs c \<le> backoff_interval_ms n c" "backoff_interval_ms n c \<le> pc_maxIntervalMs c"
proof -
  have i: "0 \<le> pc_intervalMs c" using resolved_bounds(1) [OF assms] by (simp add: poll_floor_ms_def)
  then have "pc_intervalMs c * 1 \<le> pc_intervalMs c * 2 ^ min n 32" by (intro mult_left_mono) simp_all
  then show "pc_intervalMs c \<le> backoff_interval_ms n c" using resolved_bounds(2) [OF assms] by (simp add: backoff_interval_ms_def)
  show "backoff_interval_ms n c \<le> pc_maxIntervalMs c" using resolved_bounds(2) [OF assms] by (simp add: backoff_interval_ms_def)
qed

lemma backoff_mono:
  assumes "c = resolve_poll_config o'" "m \<le> n"
  shows "backoff_interval_ms m c \<le> backoff_interval_ms n c"
proof (cases "m = 0")
  case True
  then show ?thesis using backoff_bounds(1) [OF assms(1), of n] by (simp add: backoff_interval_ms_def)
next
  case False
  have "(2::int) ^ min m 32 \<le> 2 ^ min n 32" using assms(2) by (intro power_increasing) auto
  moreover have "0 \<le> pc_intervalMs c" using resolved_bounds(1) [OF assms(1)] by (simp add: poll_floor_ms_def)
  ultimately have "pc_intervalMs c * 2 ^ min m 32 \<le> pc_intervalMs c * 2 ^ min n 32" by (intro mult_left_mono)
  then show ?thesis using False assms(2) by (simp add: backoff_interval_ms_def)
qed

lemma clamp_bounds:
  assumes "c = resolve_poll_config o'"
  shows "of_int poll_floor_ms \<le> clamp_next_poll_ms r c" "clamp_next_poll_ms r c \<le> of_int (pc_maxIntervalMs c)"
proof -
  have "poll_floor_ms \<le> pc_maxIntervalMs c" using resolved_bounds(1,2) [OF assms] by simp
  then show "of_int poll_floor_ms \<le> clamp_next_poll_ms r c" by (simp add: clamp_next_poll_ms_def)
  show "clamp_next_poll_ms r c \<le> of_int (pc_maxIntervalMs c)" by (simp add: clamp_next_poll_ms_def)
qed


section \<open>The allowance over time\<close>

text \<open>The requests for an allowance, by workspace and time, and those granted.\<close>

fun granted :: "int \<Rightarrow> (string \<times> ms) list \<Rightarrow> (string \<times> poll_window) list \<Rightarrow> (string \<times> ms) list" where
  "granted perMinute [] m = []"
| "granted perMinute ((ws, t) # rest) m =
     (let (b, m') = take_budget perMinute ws t m in if b then (ws, t) # granted perMinute rest m' else granted perMinute rest m')"

definition in_minute :: "string \<Rightarrow> ms \<Rightarrow> string \<times> ms \<Rightarrow> bool" where
  "in_minute ws a x \<longleftrightarrow> fst x = ws \<and> a \<le> snd x \<and> snd x < a + 60000"

lemma in_minute_pair [simp]: "in_minute ws a (ws', t) \<longleftrightarrow> ws' = ws \<and> a \<le> t \<and> t < a + 60000"
  by (simp add: in_minute_def)

text \<open>How many more may be granted in the minute from \<open>a\<close>, the window being what it is.\<close>

definition room :: "int \<Rightarrow> ms \<Rightarrow> poll_window option \<Rightarrow> int" where
  "room b a w =
     (case w of
        None \<Rightarrow> 2 * b
      | Some w \<Rightarrow>
          if pw_startedAt w + 60000 \<le> a then 2 * b
          else if pw_startedAt w < a then 2 * b - pw_used w
          else if pw_startedAt w < a + 60000 then b - pw_used w
          else 0)"

definition window_ok :: "int \<Rightarrow> poll_window option \<Rightarrow> bool" where
  "window_ok b w \<longleftrightarrow> (\<forall>x. w = Some x \<longrightarrow> 1 \<le> pw_used x \<and> pw_used x \<le> b)"

lemma take_budget_other: "ws' \<noteq> ws \<Longrightarrow> map_of (snd (take_budget b ws' t m)) ws = map_of m ws"
  by (simp add: take_budget_def Let_def split: option.split)

lemma take_budget_room:
  assumes "1 \<le> b" "window_ok b (map_of m ws)" "\<forall>x. map_of m ws = Some x \<longrightarrow> pw_startedAt x \<le> t"
  shows "(if fst (take_budget b ws t m) \<and> a \<le> t \<and> t < a + 60000 then 1 else 0) + room b a (map_of (snd (take_budget b ws t m)) ws)
      \<le> room b a (map_of m ws) \<and>
    window_ok b (map_of (snd (take_budget b ws t m)) ws) \<and>
    (\<forall>x. map_of (snd (take_budget b ws t m)) ws = Some x \<longrightarrow> pw_startedAt x \<le> t)"
proof (cases "map_of m ws")
  case None
  then show ?thesis using assms(1) by (auto simp: take_budget_def room_def window_ok_def)
next
  case (Some w)
  then have w: "1 \<le> pw_used w" "pw_used w \<le> b" "pw_startedAt w \<le> t" using assms(2,3) by (simp_all add: window_ok_def)
  show ?thesis
  proof (cases "60000 \<le> t - pw_startedAt w")
    case True
    then show ?thesis using Some assms(1) w by (auto simp: take_budget_def room_def window_ok_def)
  next
    case False
    show ?thesis
    proof (cases "b \<le> pw_used w")
      case True
      then show ?thesis using Some False w by (simp add: take_budget_def window_ok_def)
    next
      case less: False
      then have eq: "take_budget b ws t m = (True, jset ws (w\<lparr>pw_used := pw_used w + 1\<rparr>) m)" using Some False by (simp add: take_budget_def)
      show ?thesis using Some False less w unfolding eq by (auto simp: room_def window_ok_def)
    qed
  qed
qed

lemma granted_room:
  assumes "1 \<le> b" "window_ok b (map_of m ws)" "\<forall>x. map_of m ws = Some x \<longrightarrow> (\<forall>y \<in> set reqs. pw_startedAt x \<le> snd y)"
    and "sorted (map snd reqs)"
  shows "int (length (filter (in_minute ws a) (granted b reqs m))) \<le> room b a (map_of m ws)"
  using assms(2-4)
proof (induction reqs arbitrary: m)
  case Nil
  have "0 \<le> room b a (map_of m ws)" using Nil assms(1) by (auto simp: room_def window_ok_def split: option.split)
  then show ?case by simp
next
  case (Cons x reqs)
  obtain ws' t where x: "x = (ws', t)" by (cases x)
  let ?m = "snd (take_budget b ws' t m)"
  have gr: "granted b (x # reqs) m = (if fst (take_budget b ws' t m) then (ws', t) # granted b reqs ?m else granted b reqs ?m)"
    by (simp add: x case_prod_beta Let_def)
  show ?case
  proof (cases "ws' = ws")
    case True
    have "\<forall>x. map_of m ws = Some x \<longrightarrow> pw_startedAt x \<le> t" using Cons.prems(2) x by auto
    note step = take_budget_room [OF assms(1) Cons.prems(1) this, of a]
    have "int (length (filter (in_minute ws a) (granted b reqs ?m))) \<le> room b a (map_of ?m ws)"
      using step Cons.prems(3) x True by (intro Cons.IH) fastforce+
    then show ?thesis using step True unfolding gr by (auto split: if_splits)
  next
    case False
    have "int (length (filter (in_minute ws a) (granted b reqs ?m))) \<le> room b a (map_of ?m ws)"
      using Cons.prems x take_budget_other [OF False, of b t m] by (intro Cons.IH) auto
    then show ?thesis using take_budget_other [OF False, of b t m] False unfolding gr by simp
  qed
qed


section \<open>Rotation\<close>

text \<open>
  The passes over a workspace whose sources are always due, \<open>b\<close> of them read each time before the allowance is spent: the names read,
  and where the next pass starts.
\<close>

fun passes :: "poll_target list \<Rightarrow> nat list \<Rightarrow> string option \<Rightarrow> poll_target list" where
  "passes ts [] resume = []"
| "passes ts (b # bs) resume =
     (let due = rotate_targets ts resume in
      take b due @ passes ts bs (if b < length due then Some (tg_serverName (due ! b)) else None))"

lemma next_source_defers:
  assumes "\<not> pl_stopped po" "\<not> fst (take_allowance c ws now (arrange_update_hint t po))"
  shows "map_of (pl_resumeAt (next_source c ws k now (t # rest) po)) ws = Some (tg_serverName t)"
  using assms by (simp add: next_source_def case_prod_beta Let_def)

lemma rotate_targets_at:
  assumes "sorted_wrt (<) (map tg_serverName ts)" "i < length ts"
  shows "rotate_targets ts (Some (tg_serverName (ts ! i))) = rotate i ts"
proof -
  have less: "tg_serverName (ts ! k) < tg_serverName (ts ! i)" if "k < i" for k
    using assms that by (simp add: sorted_wrt_map sorted_wrt_iff_nth_less)
  have "takeWhile (\<lambda>t. \<not> tg_serverName (ts ! i) \<le> tg_serverName t) ts = take i ts"
    using assms(2) less by (intro takeWhile_eq_take_P_nth) (auto simp: not_le)
  then have "length (takeWhile (\<lambda>t. \<not> tg_serverName (ts ! i) \<le> tg_serverName t) ts) = i" using assms(2) by simp
  then show ?thesis using assms(2) by (simp add: rotate_targets_def Let_def rotate_drop_take)
qed

lemma passes_reach:
  assumes "sorted_wrt (<) (map tg_serverName ts)" "\<forall>b \<in> set bs. 1 \<le> b"
    and "rotate_targets ts resume = rotate i ts" "d < length ts" "d < length bs"
  shows "rotate i ts ! d \<in> set (passes ts bs resume)"
  using assms(2-5)
proof (induction bs arbitrary: resume i d)
  case (Cons b bs)
  show ?case
  proof (cases "d < b")
    case True
    then have "rotate i ts ! d = take b (rotate i ts) ! d" "d < length (take b (rotate i ts))" using Cons.prems(3) by simp_all
    then have "rotate i ts ! d \<in> set (take b (rotate i ts))" by (metis nth_mem)
    then show ?thesis using Cons.prems(2) by (simp add: Let_def)
  next
    case False
    then have b: "b < length ts" using Cons.prems(3) by simp
    let ?j = "(i + b) mod length ts"
    have "rotate i ts ! b = ts ! ?j" using b by (simp add: nth_rotate)
    moreover have "?j < length ts" using b by (intro mod_less_divisor) linarith
    ultimately have rot: "rotate_targets ts (Some (tg_serverName (rotate i ts ! b))) = rotate (i + b) ts"
      using rotate_targets_at [OF assms(1), of ?j] rotate_conv_mod [of "i + b" ts] by simp
    have "rotate (i + b) ts ! (d - b) = rotate i ts ! d"
      using False Cons.prems(3) b by (simp add: nth_rotate add.assoc)
    moreover have "rotate (i + b) ts ! (d - b) \<in> set (passes ts bs (Some (tg_serverName (rotate i ts ! b))))"
      using Cons.prems False by (intro Cons.IH [OF _ rot]) auto
    ultimately show ?thesis using Cons.prems(2) b by (simp add: Let_def)
  qed
qed simp


section \<open>What the allowance does not bound, and what a throw leaves\<close>

text \<open>The last of the chained reads asks for one more allowance, which no read uses.\<close>

lemma last_chained_read_overcharges:
  assumes "map_of (pl_inFlight po) ws = Some p" "pp_phase p = Advancing previous None out" "pp_sweep p = None" "pass_ok ws p"
    and "ro_hasMore out" "pp_read p = 4" "map_of (pl_windows po) ws = Some v" "now - pw_startedAt v < 60000" "pw_used v < pc_budgetPerMinute c"
  shows "map_of (pl_inFlight (cursor_advanced c now ws written po)) ws = None \<and>
    map_of (pl_windows (cursor_advanced c now ws written po)) ws = Some (v\<lparr>pw_used := pw_used v + 1\<rparr>)"
  using assms by (simp add: cursor_advanced_def advance_stored_def take_allowance_def take_budget_def max_chained_reads_def
      after_source_def end_pass_def free_worker_def pass_ok_def Let_def)

text \<open>A workspace that had nothing to poll in one sweep has its whole allowance again in the next, within the same minute.\<close>

lemma pruned_window_is_whole_again:
  "granted 1 [(ws, t)] (prune_budget {} [(ws, \<lparr>pw_startedAt = t, pw_used = 1\<rparr>)]) = [(ws, t)] \<and>
   granted 1 [(ws, t)] [(ws, \<lparr>pw_startedAt = t, pw_used = 1\<rparr>)] = []"
  by (simp add: take_budget_def prune_budget_def)

text \<open>
  A workspace record that cannot be read ends the worker: its source is as due as before, its sweep is over for the next
  tick, and no worker comes back to the queue.
\<close>

lemma unreadable_record_ends_worker:
  assumes "map_of (pl_inFlight po) ws = Some p" "pp_phase p = Positioning" "pp_sweep p = Some k" "k < length (pl_sweeps po)"
    and "\<not> sr_settled (pl_sweeps po ! k)"
  shows "pl_heap (read_position False ws po) = pl_heap po \<and> \<not> pl_sweeping (read_position False ws po) \<and>
    sr_free (pl_sweeps (read_position False ws po) ! k) = sr_free (pl_sweeps po ! k) \<and>
    sr_queue (pl_sweeps (read_position False ws po) ! k) = sr_queue (pl_sweeps po ! k)"
  using assms by (simp add: read_position_def pass_throws_def Let_def)

section \<open>Instances\<close>

definition demo_options :: poll_options where
  "demo_options = \<lparr>po_intervalMs = None, po_maxIntervalMs = None, po_maxEvents = None, po_budgetPerMinute = None\<rparr>"

definition demo_outbox :: "string \<Rightarrow> poll_target" where
  "demo_outbox k = \<lparr>tg_wsId = ''ws1'', tg_serverName = k, tg_resource = ''outbox://'', tg_source = 0\<rparr>"

definition demo_body :: json where
  "demo_body = JObj [(''events'', JArr [JNull]), (''cursor'', JStr ''c2'')]"

definition demo_covers :: "string \<Rightarrow> string \<Rightarrow> string \<Rightarrow> json set" where
  "demo_covers ws k n = (if n = ''c2'' then {JNull} else {})"

definition demo_poll_config :: poll_config where
  "demo_poll_config = \<lparr>pc_intervalMs = 60000, pc_maxIntervalMs = 300000, pc_maxEvents = 100, pc_budgetPerMinute = 10\<rparr>"

text \<open>A read on a hint, from the stored cursor to the next, its one event malformed.\<close>

definition demo_parse :: "json \<Rightarrow> notification_envelope option" where
  "demo_parse = read_envelope (\<lambda>_. None) (\<lambda>_. [])"

definition demo_fetching :: poller where
  "demo_fetching = read_position True ''ws1'' (poll_on_hint demo_poll_config 0 (demo_outbox ''crm'') (new_poller 0 demo_block (\<lambda>ws. new_inbox ws None)))"

definition demo_advanced :: poller where
  "demo_advanced = cursor_advanced demo_poll_config 2 ''ws1'' True
     (outbox_answered demo_poll_config (\<lambda>_. Some demo_body) demo_parse [] 1 ''ws1'' False (Some ''answer'') demo_fetching)"

lemma demo_advanced_cursor: "cursor_of (pl_blocks demo_advanced) ''ws1'' ''crm'' = Some ''c2''"
  by code_simp

lemma demo_fetching_pass: "\<exists>p lvl. map_of (pl_inFlight demo_fetching) ''ws1'' = Some p \<and> pp_phase p = Fetching (Some ''c1'') lvl \<and> tg_serverName (pp_target p) = ''crm''"
proof -
  have "map_option (\<lambda>p. (pp_phase p, tg_serverName (pp_target p))) (map_of (pl_inFlight demo_fetching) ''ws1'') = Some (Fetching (Some ''c1'') Info, ''crm'')"
    by code_simp
  then show ?thesis by auto
qed

lemma demo_poll_result: "parse_outbox_poll_body (\<lambda>_. Some demo_body) (Some ''answer'') =
  Some \<lparr>poll_events = [JNull], poll_cursor = Some ''c2'', poll_truncated = False, poll_hasMore = False, poll_nextPollMs = None\<rparr>"
  by code_simp


definition demo_read_pass :: poll_pass where
  "demo_read_pass = \<lparr>pp_sweep = None, pp_target = demo_outbox ''crm'', pp_rest = [], pp_state = 0, pp_read = 0, pp_phase = Fetching None Info\<rparr>"

definition demo_reading :: poller where
  "demo_reading = (new_poller 0 [] (\<lambda>ws. new_inbox ws None))\<lparr>pl_inFlight := [(''ws1'', demo_read_pass)]\<rparr>"

theorem cursor_waits_for_inbox_witness:
  "find_item (ib_days (wr_inbox (write_events (\<lambda>_. Some (demo_event ''e1'')) [demo_inbox_env 20000] (demo_outbox ''crm'') Info [JNull]
    (start_writing (new_inbox ''ws1'' None))))) ''crm'' ''e1'' \<noteq> None"
proof -
  let ?parse = "\<lambda>_::json. Some (demo_event ''e1'')"
  let ?envs = "[demo_inbox_env 20000]"
  let ?st = "new_inbox ''ws1'' None"
  let ?w = "write_events ?parse ?envs (demo_outbox ''crm'') Info [JNull] (start_writing ?st)"
  let ?po = "outbox_answered demo_poll_config (\<lambda>_. Some demo_body) ?parse ?envs 1 ''ws1'' False (Some ''answer'') demo_reading"
  have none: "find_item (ib_days ?st) ''crm'' (env_eventId (demo_event ''e1'')) = None"
    by (simp add: find_item_def stored_items_def day_files_def new_inbox_def)
  then have ok: "wr_ok ?w"
    by (simp add: store_one_def append_item_def demo_outbox_def start_writing_def demo_inbox_env_def Let_def)
  have m: "map_of (pl_inFlight demo_reading) ''ws1'' = Some demo_read_pass" "pp_phase demo_read_pass = Fetching None Info"
    "pass_ok ''ws1'' demo_read_pass" "pl_inboxes demo_reading ''ws1'' = ?st"
    by (simp_all add: demo_reading_def new_poller_def demo_read_pass_def pass_ok_def demo_outbox_def)
  have "wr_ok (write_events ?parse ?envs (pp_target demo_read_pass) Info [JNull] (start_writing (pl_inboxes demo_reading ''ws1'')))"
    using ok by (simp only: m(4) demo_read_pass_def poll_pass.select_convs)
  then obtain nx out where p': "map_of (pl_inFlight ?po) ''ws1'' = Some (demo_read_pass\<lparr>pp_phase := Advancing None nx out\<rparr>)"
    using answered_and_stored [OF m(1,2,3) demo_poll_result, of ?parse ?envs demo_poll_config 1 False]
    by (auto simp only: outbox_poll_result.select_convs)
  have phase: "pp_phase (demo_read_pass\<lparr>pp_phase := Advancing None nx out\<rparr>) = Advancing None nx out" by simp
  have "inbox_ok (ib_days (pl_inboxes demo_reading ''ws1''))" by (simp add: m(4) new_inbox_def inbox_ok_empty)
  moreover have "envs_ok (ib_retentionDays (pl_inboxes demo_reading ''ws1'')) (ib_days (pl_inboxes demo_reading ''ws1'')) ?envs"
    by (simp add: m(4) envs_ok_def newest_def new_inbox_def notification_retention_days_def demo_inbox_env_def ms_per_day_def)
  ultimately show ?thesis
    using cursor_waits_for_inbox [OF m(1,2,3) demo_poll_result p' phase, of "[]" JNull "[]" "demo_event ''e1''"]
    by (simp add: m(4) demo_read_pass_def demo_outbox_def demo_event_def)
qed




end
