(* ===== verification/Spec2Isabelle.thy ===== *)
theory Spec2Isabelle
  imports Admission Spend Notify_Template Assessment Retry Scheduler_Props Batch_Props Context_Budget Supervisor Event_Props Health_Monitor Poller_Props
begin

text \<open>
  NimbleBrain is a multi-tenant agent platform: a workspace's people and its tasks start agent runs, runs
  spend money and tokens, and what leaves a run is assessed and notified. This development models the
  parts that decide whether a run may start, what it may spend, when a task runs, what is recorded, and
  what text reaches a prompt or a reader. Sources are under \<open>src/src/\<close>.

  \<^bold>\<open>Parts and how they interact.\<close>
  A task's run is requested (a person, the timer, an event, a batch). The scheduler
  (\<open>platform/tasks/scheduler.ts\<close>) asks the run pool for a slot (\<open>runtime/admission.ts\<close>), which starts it,
  queues it or refuses it; a started run opens its spend accounts (\<open>runtime/spend.ts\<close>), each model call of
  it passes the spend door, priced by \<open>usage/cost.ts\<close>; a failing call is retried by \<open>engine/retry.ts\<close>. When
  the run ends the scheduler writes its record through the task store (\<open>platform/tasks/store.ts\<close>), moves
  the task on, hands the slot to the next waiter, and asks for an assessment (\<open>assessment.ts\<close>). The batch
  driver (\<open>batch.ts\<close>, \<open>batch-store.ts\<close>) feeds a task's runs over many inputs through the same scheduler.
  Events reach tasks and people through the notification envelope, match and template rules
  (\<open>notifications/\<close>): the poller reads a connector's outbox, stores what it finds in the workspace's inbox and then
  moves its cursor; untrusted text is contained before it enters a prompt (\<open>prompt/containment.ts\<close>).

  \<^bold>\<open>Theories.\<close>
  \<^item> \<open>Prelude\<close>: maps as association lists in insertion order (\<open>jset\<close>, \<open>jdelete\<close>), optional values
    (\<open>nullish\<close>, \<open>truthy\<close>), strings and shared lemmas. \<open>JsValues\<close>: JSON values, \<open>JSON.stringify\<close>, decimal text.
  \<^item> \<open>Admission\<close>: \<open>runtime/admission.ts\<close>. \<open>pool\<close> is the pool's fields, one definition per method, a locale
    for what a waiter's callback may do to the pool, and the inductive pool steps. Lemmas: slots and keys
    in use are exactly those granted; nothing waits while it could run; the next slot goes to the
    workspace that holds least; a release returns.
  \<^item> \<open>Spend\<close>: \<open>runtime/spend.ts\<close>, \<open>usage/cost.ts\<close>, \<open>usage/types.ts\<close>. Lemmas: a reservation covers the
    dearest outcome of the call, so an account is never overdrawn; live balances are those held.
  \<^item> \<open>Notify_Match\<close>, \<open>Notify_Envelope\<close>, \<open>Notify_Template\<close>: \<open>notifications/\<close> (\<open>name-glob.ts\<close>, \<open>match.ts\<close>,
    \<open>envelope.ts\<close>, \<open>poll-result.ts\<close>, \<open>template.ts\<close>, \<open>types.ts\<close>). Lemmas: the matcher agrees with the meaning of a
    glob; a parsed envelope is within its caps and parses to itself; templates insert values verbatim.
  \<^item> \<open>Containment\<close>: \<open>prompt/containment.ts\<close>; no text inside a container can close it.
  \<^item> \<open>Task_Types\<close>, \<open>Assessment\<close>: \<open>platform/tasks/types.ts\<close> and \<open>assessment.ts\<close>; how a label, a score and a
    panel of judgements decide a verdict. \<open>Retry\<close>: \<open>engine/retry.ts\<close>, \<open>engine/provider-error.ts\<close>.
  \<^item> \<open>Calendar\<close>, \<open>Task_Schedule\<close>: the functions of \<open>scheduler.ts\<close> above its class: next run, due, backoff,
    failure streaks, token budgets and their reset.
  \<^item> \<open>Task_Paths\<close>, \<open>Task_Store\<close>: \<open>paths.ts\<close>, \<open>store.ts\<close>: where a task's files are, and the run log by month.
  \<^item> \<open>Scheduler\<close>: the class of \<open>scheduler.ts\<close> as operations on the record \<open>sched\<close>, over the pool of
    \<open>Admission\<close>. \<open>Scheduler_Inv\<close>, \<open>Scheduler_Steps\<close>: its invariant, kept by every operation;
    \<open>Scheduler_Props\<close>: what follows in every reachable state.
  \<^item> \<open>Batch_Store\<close>, \<open>Batch\<close>: \<open>batch-store.ts\<close>, \<open>batch.ts\<close>; the driver's state is the record \<open>driver\<close>, the
    scheduler and balances it calls a \<open>door\<close>. \<open>Batch_Inv\<close>: its invariant; \<open>Batch_Steps\<close>,
    \<open>Batch_Props\<close>: the driver as a step relation, what holds in every state it reaches, and what an item's
    failing request does to its batch.
  \<^item> \<open>Messages\<close>: \<open>engine/token-estimate.ts\<close>. \<open>Context_Window\<close>: \<open>conversation/window.ts\<close>; the window is the longest
    fitting suffix and never starts at an orphan. \<open>Compaction\<close>: \<open>conversation/compaction.ts\<close>,
    \<open>escape-closing-tags.ts\<close>; what is kept verbatim and what is folded. \<open>Context_Budget\<close>:
    \<open>runtime/resolve-message-budget.ts\<close>, \<open>runtime/mid-turn-compaction.ts\<close>; a request fits its model.
  \<^item> \<open>Tool_Results\<close>: \<open>engine/content-helpers.ts\<close> and the result types of \<open>engine/types.ts\<close>; a result's text is held to its
    limit. \<open>Supervisor\<close>: \<open>engine/supervisor.ts\<close>; its counters implement a tool's history, what it refuses has run.
  \<^item> \<open>Event_Trigger\<close>: \<open>platform/tasks/event-trigger.ts\<close>, the class's fields as the record \<open>trigger\<close>. \<open>Event_Props\<close>: its
    steps in any order, with a ghost history; items are told once and an hour's fires are bounded.
  \<^item> \<open>Health_Monitor\<close>: \<open>tools/health-monitor.ts\<close>; the monitor's records are a heap, since a restart that sleeps keeps the
    one it started on. Each check serves every source, restarts in a cooldown are bounded.
  \<^item> \<open>Notify_Config\<close>: \<open>notifications/config.ts\<close>, \<open>cursors.ts\<close>, \<open>position.ts\<close>: the notifications block of a workspace
    record. A stored block reads back, a cursor write is a compare-and-set, a saved route renders in full.
  \<^item> \<open>Notify_Store\<close>: \<open>notifications/store.ts\<close>, the day files as a map from days to items. An event is stored once,
    pages are complete, numbers rise on a clock that does not go back (a lemma shows what happens when it does).
  \<^item> \<open>Notify_Poller\<close>: \<open>notifications/poller.ts\<close>, \<open>poll-config.ts\<close>, \<open>outbox-uri.ts\<close>, the class's fields as the record
    \<open>poller\<close>, one operation per stretch between two awaits. \<open>Poller_Props\<close>: these steps in any order beside other writers;
    no stored cursor passes an event the inbox did not get, and cadence, allowance and rotation keep their bounds.

  \<^bold>\<open>Conventions.\<close> Instants, counts and tokens are \<open>int\<close>, money and probabilities \<open>rat\<close> (JavaScript's
  doubles without their rounding), strings are character lists, a thrown error is the left side of a sum,
  asynchronous callbacks are steps of their own in any order. The clock, random ids, the cron library, the
  zone database, the executor and the assessor are arguments.

  \<^bold>\<open>Bounds and fuel.\<close> The drain of the pool takes as fuel the number of its waiters and one: each turn
  takes one waiter out (\<open>release_returns\<close>). The batch pump takes the length of its pending list and one:
  each turn takes an index off it. Retries are bounded by their attempts (\<open>with_retry_bounded\<close>).

  \<^bold>\<open>Not modelled.\<close> The engine's turn loop and model providers, MCP and OAuth transport, connectors'
  process life cycles, HTTP routes, the conversation's event log, skills and the web client: input and output around
  third-party code. Log lines, file-system directories, and promises handed to callers are not in any state.
\<close>

end
